(* ===== verification/Wire_Prelude.thy ===== *)
theory Wire_Prelude
  imports Main "HOL-Library.Word" "HOL-Library.Char_ord"
begin

text \<open>
  Shared vocabulary of the development: bytes and byte strings, the big-endian
  accessors of Go's encoding/binary, slices, in-place writes into a buffer, and
  the bounded-loop and list lemmas that several components use.
  Facts that let the simplifier run codecs are collected in \<open>wire_simps\<close>.
\<close>

named_theorems wire_simps "facts that evaluate encoders against decoders"
named_theorems inv_intros "introduction rules for component invariants"

unbundle bit_operations_syntax

type_synonym byte = "8 word"
type_synonym bytes = "byte list"

section \<open>Slices and buffer writes\<close>

definition slice :: "nat \<Rightarrow> nat \<Rightarrow> 'a list \<Rightarrow> 'a list" where
  "slice lo hi xs = take (hi - lo) (drop lo xs)"

definition write_at :: "nat \<Rightarrow> 'a list \<Rightarrow> 'a list \<Rightarrow> 'a list" where
  "write_at off ys xs = take off xs @ ys @ drop (off + length ys) xs"

lemma slice_append [wire_simps]:
  "lo = length xs \<Longrightarrow> hi = length xs + length ys \<Longrightarrow> slice lo hi (xs @ ys @ zs) = ys"
  by (simp add: slice_def)

lemma length_slice [simp]: "hi \<le> length xs \<Longrightarrow> length (slice lo hi xs) = hi - lo"
  by (simp add: slice_def)

lemma length_write_at [simp]:
  "off + length ys \<le> length xs \<Longrightarrow> length (write_at off ys xs) = length xs"
  by (simp add: write_at_def)

lemma slice_write_at_same [wire_simps]:
  "off + length ys \<le> length xs \<Longrightarrow> hi = off + length ys \<Longrightarrow> slice off hi (write_at off ys xs) = ys"
  by (simp add: slice_def write_at_def)

lemma nth_write_at:
  "off + length ys \<le> length xs \<Longrightarrow> i < length xs \<Longrightarrow>
   write_at off ys xs ! i = (if i < off \<or> off + length ys \<le> i then xs ! i else ys ! (i - off))"
  by (auto simp: write_at_def nth_append)

lemma take_write_at [simp]: "n \<le> off \<Longrightarrow> off \<le> length xs \<Longrightarrow> take n (write_at off ys xs) = take n xs"
  by (simp add: write_at_def)

lemma drop_write_at [simp]:
  "off + length ys \<le> n \<Longrightarrow> off + length ys \<le> length xs \<Longrightarrow> drop n (write_at off ys xs) = drop n xs"
  by (simp add: write_at_def)

lemma two_updates: "2 \<le> length xs \<Longrightarrow> xs[0 := a, Suc 0 := b] = a # b # drop 2 xs"
  by (cases xs; cases "tl xs") auto

lemma write_at_append: "off = length ps \<Longrightarrow> write_at off ys (ps @ xs) = ps @ ys @ drop (length ys) xs"
  by (simp add: write_at_def)

lemma slice_Cons [simp]: "slice (Suc lo) (Suc hi) (x # xs) = slice lo hi xs"
  by (simp add: slice_def)

lemma slice_zero: "slice 0 n xs = take n xs"
  by (simp add: slice_def)

lemma slice_drop: "lo \<le> hi \<Longrightarrow> slice lo hi xs @ drop hi xs = drop lo xs"
proof -
  assume "lo \<le> hi"
  then have "drop hi xs = drop (hi - lo) (drop lo xs)" by simp
  then show ?thesis by (simp only: slice_def append_take_drop_id)
qed

lemma two_heads: "2 \<le> length xs \<Longrightarrow> xs ! 0 # xs ! Suc 0 # drop 2 xs = xs"
  by (cases xs; cases "tl xs") auto

section \<open>Words as numbers\<close>

lemma unat_less_2p: "unat (w :: 'a::len word) < 2 ^ LENGTH('a)"
  by (fact unsigned_less)

lemma unat_plus_small:
  "unat a + unat b < 2 ^ LENGTH('a) \<Longrightarrow> unat (a + b :: 'a::len word) = unat a + unat b"
  by (simp add: unat_word_ariths)

lemma unat_of_nat_len: "n < 2 ^ LENGTH('a) \<Longrightarrow> unat (of_nat n :: 'a::len word) = n"
  by (simp add: unsigned_of_nat take_bit_nat_eq_self)

lemma unat_ucast: "unat (ucast (w :: 'a::len word) :: 'b::len word) = unat w mod 2 ^ LENGTH('b)"
  by (simp add: unsigned_ucast_eq take_bit_eq_mod)

section \<open>Big-endian integers\<close>

definition put16 :: "16 word \<Rightarrow> bytes" where
  "put16 w = [ucast (drop_bit 8 w), ucast w]"

definition put32 :: "32 word \<Rightarrow> bytes" where
  "put32 w = [ucast (drop_bit 24 w), ucast (drop_bit 16 w), ucast (drop_bit 8 w), ucast w]"

definition put64 :: "64 word \<Rightarrow> bytes" where
  "put64 w = [ucast (drop_bit 56 w), ucast (drop_bit 48 w), ucast (drop_bit 40 w), ucast (drop_bit 32 w),
              ucast (drop_bit 24 w), ucast (drop_bit 16 w), ucast (drop_bit 8 w), ucast w]"

fun get16 :: "bytes \<Rightarrow> 16 word" where
  "get16 (a # b # _) = push_bit 8 (ucast a) OR ucast b"
| "get16 _ = 0"

fun get32 :: "bytes \<Rightarrow> 32 word" where
  "get32 (a # b # c # d # _) =
     push_bit 24 (ucast a) OR push_bit 16 (ucast b) OR push_bit 8 (ucast c) OR ucast d"
| "get32 _ = 0"

fun get64 :: "bytes \<Rightarrow> 64 word" where
  "get64 (a # b # c # d # e # f # g # h # _) =
     push_bit 56 (ucast a) OR push_bit 48 (ucast b) OR push_bit 40 (ucast c) OR push_bit 32 (ucast d) OR
     push_bit 24 (ucast e) OR push_bit 16 (ucast f) OR push_bit 8 (ucast g) OR ucast h"
| "get64 _ = 0"

lemma length_put [simp]:
  "length (put16 x) = 2" "length (put32 y) = 4" "length (put64 z) = 8"
  by (simp_all add: put16_def put32_def put64_def)

lemma byte_lane:
  "bit (push_bit k (ucast (ucast (drop_bit k w) :: byte)) :: 'a::len word) n \<longleftrightarrow>
   k \<le> n \<and> n < k + 8 \<and> bit (w :: 'a word) n"
  by (auto simp: bit_simps dest: bit_imp_le_length)

lemma byte_lane0:
  "bit (ucast (ucast w :: byte) :: 'a::len word) n \<longleftrightarrow> n < 8 \<and> bit (w :: 'a word) n"
  by (auto simp: bit_simps dest: bit_imp_le_length)

lemma get16_put16 [simp, wire_simps]: "get16 (put16 x @ r) = x"
  by (rule bit_word_eqI) (simp add: put16_def bit_or_iff byte_lane byte_lane0, linarith)

lemma get32_put32 [simp, wire_simps]: "get32 (put32 x @ r) = x"
  by (rule bit_word_eqI) (simp add: put32_def bit_or_iff byte_lane byte_lane0, linarith)

lemma get64_put64 [simp, wire_simps]: "get64 (put64 x @ r) = x"
  by (rule bit_word_eqI) (simp add: put64_def bit_or_iff byte_lane byte_lane0, linarith)

lemma byte_bit_ge [simp]: "8 \<le> n \<Longrightarrow> \<not> bit (b :: byte) n"
  by (auto dest: bit_imp_le_length)

lemma byte_bit_less: "bit (b :: byte) n \<Longrightarrow> n < 8"
  by (auto dest: bit_imp_le_length)

lemma word32_bit_ge [simp]: "32 \<le> n \<Longrightarrow> \<not> bit (w :: 32 word) n"
  by (auto dest: bit_imp_le_length)

lemma put16_get16 [simp, wire_simps]: "put16 (get16 [a, b]) = [a, b]"
  by (auto simp: put16_def bit_simps intro!: bit_word_eqI)

lemma put32_get32 [simp, wire_simps]: "put32 (get32 [a, b, c, d]) = [a, b, c, d]"
  by (auto simp: put32_def bit_simps intro!: bit_word_eqI)

lemma put64_halves: "put64 w = put32 (ucast (drop_bit 32 w)) @ put32 (ucast w)"
  by (auto simp: put64_def put32_def bit_simps intro!: bit_word_eqI)

lemma ucast_push_byte:
  "k \<le> 24 \<Longrightarrow> (ucast (push_bit k (ucast (a :: byte) :: 32 word)) :: 64 word) = push_bit k (ucast a)"
  by (auto simp: bit_simps intro!: bit_word_eqI dest!: byte_bit_less)

lemma ucast_ucast_byte: "(ucast (ucast (a :: byte) :: 32 word) :: 64 word) = ucast a"
  by (auto simp: bit_simps intro!: bit_word_eqI dest!: byte_bit_less)

lemma get64_halves:
  "get64 [a, b, c, d, e, f, g, h] = push_bit 32 (ucast (get32 [a, b, c, d])) OR ucast (get32 [e, f, g, h])"
  by (simp add: unsigned_or_eq push_bit_or ucast_push_byte ucast_ucast_byte push_bit_push_bit or.assoc
      del: push_bit_numeral)

lemma halves_of_join:
  fixes x y :: "32 word"
  shows "ucast (drop_bit 32 (push_bit 32 (ucast x) OR ucast y :: 64 word)) = x"
    and "ucast (push_bit 32 (ucast x) OR ucast y :: 64 word) = y"
  by (auto simp: bit_simps intro!: bit_word_eqI)

lemma put64_get64 [simp, wire_simps]:
  "put64 (get64 [a, b, c, d, e, f, g, h]) = [a, b, c, d, e, f, g, h]"
  unfolding put64_halves get64_halves halves_of_join by (simp del: get32.simps)

declare get16.simps [simp del] get32.simps [simp del] get64.simps [simp del]

lemma list_of_length_Suc: "length xs = Suc n \<longleftrightarrow> (\<exists>y ys. xs = y # ys \<and> length ys = n)"
  by (cases xs) auto

lemma put16_get16_length: "length xs = 2 \<Longrightarrow> put16 (get16 xs) = xs"
  by (auto simp: numeral_2_eq_2 list_of_length_Suc)

lemma put32_get32_length: "length xs = 4 \<Longrightarrow> put32 (get32 xs) = xs"
  by (auto simp: eval_nat_numeral list_of_length_Suc)

lemma put64_get64_length: "length xs = 8 \<Longrightarrow> put64 (get64 xs) = xs"
  by (auto simp: eval_nat_numeral list_of_length_Suc)

lemma get16_put16' [simp, wire_simps]: "get16 (put16 x) = x"
  using get16_put16 [of x "[]"] by simp

lemma get32_put32' [simp, wire_simps]: "get32 (put32 x) = x"
  using get32_put32 [of x "[]"] by simp

lemma get64_put64' [simp, wire_simps]: "get64 (put64 x) = x"
  using get64_put64 [of x "[]"] by simp

end
