(* ===== verification/Protocol_Codec.thy ===== *)
theory Protocol_Codec
  imports Wire_Prelude
begin

text \<open>
  The outer wire framing of internal/protocol/protocol.go: the three header
  kinds (data, handshake initiation, handshake response), their encoders, which
  write into a caller's buffer, their decoders, which check length and version,
  and the type peek the receive path dispatches on. An encoder on a buffer that is
  too short panics in Go (a slice out of range) and is \<open>None\<close> here.
  The locale \<open>framed_codec\<close> is the contract a header kind offers to the layers
  above: what is written is read back with the body left alone.
\<close>

section \<open>Constants, types and errors\<close>

definition Version :: byte where "Version = 1"

type_synonym pkt_type = byte

definition TypeData :: pkt_type where "TypeData = 1"
definition TypeHSInit :: pkt_type where "TypeHSInit = 2"
definition TypeHSResp :: pkt_type where "TypeHSResp = 3"
definition TypeKeepalive :: pkt_type where "TypeKeepalive = 4"

definition DefaultTunnelMTU :: nat where "DefaultTunnelMTU = 8915"
definition MinTunnelMTU :: nat where "MinTunnelMTU = 576"
definition DataHeaderLen :: nat where "DataHeaderLen = 1 + 1 + 4 + 8"
definition DataAADLen :: nat where "DataAADLen = 1 + 1 + 4"
definition GCMOverhead :: nat where "GCMOverhead = 16"
definition MaxUDPPayload :: nat where "MaxUDPPayload = 9472"
definition KeyIDSize :: nat where "KeyIDSize = 8"
definition HSInitHeaderLen :: nat where "HSInitHeaderLen = 1 + 1 + 8 + KeyIDSize"
definition HSRespHeaderLen :: nat where "HSRespHeaderLen = 1 + 1 + 8 + 4"

lemmas protocol_lens [simp] =
  DataHeaderLen_def DataAADLen_def GCMOverhead_def KeyIDSize_def HSInitHeaderLen_def HSRespHeaderLen_def

lemmas protocol_tags = Version_def TypeData_def TypeHSInit_def TypeHSResp_def TypeKeepalive_def

datatype perr = ErrShort | ErrVersion

record DataHeader =
  RecvSession :: "32 word"
  Counter :: "64 word"

record HSInitHeader =
  Network :: "64 word"
  HdrKeyID :: bytes

record HSRespHeader =
  RNetwork :: "64 word"
  RRecvSession :: "32 word"

section \<open>Encoders and decoders\<close>

definition EncodeData :: "bytes \<Rightarrow> DataHeader \<Rightarrow> (bytes \<times> nat) option" where
  "EncodeData dst h =
     (if length dst < DataHeaderLen then None
      else let d1 = dst[0 := Version];
               d2 = d1[1 := TypeData];
               d3 = write_at 2 (put32 (RecvSession h)) d2;
               d4 = write_at 6 (put64 (Counter h)) d3
           in Some (d4, DataHeaderLen))"

definition DecodeData :: "bytes \<Rightarrow> perr + (DataHeader \<times> bytes \<times> bytes)" where
  "DecodeData pkt =
     (if length pkt < DataHeaderLen + GCMOverhead then Inl ErrShort
      else if pkt ! 0 \<noteq> Version then Inl ErrVersion
      else Inr (\<lparr>RecvSession = get32 (slice 2 6 pkt), Counter = get64 (slice 6 14 pkt)\<rparr>,
                take DataAADLen pkt, drop DataHeaderLen pkt))"

definition EncodeHSInit :: "bytes \<Rightarrow> HSInitHeader \<Rightarrow> (bytes \<times> nat) option" where
  "EncodeHSInit dst h =
     (if length dst < HSInitHeaderLen then None
      else let d1 = dst[0 := Version];
               d2 = d1[1 := TypeHSInit];
               d3 = write_at 2 (put64 (Network h)) d2;
               d4 = write_at 10 (take KeyIDSize (HdrKeyID h)) d3
           in Some (d4, HSInitHeaderLen))"

definition DecodeHSInit :: "bytes \<Rightarrow> perr + (HSInitHeader \<times> bytes \<times> bytes)" where
  "DecodeHSInit pkt =
     (if length pkt < HSInitHeaderLen then Inl ErrShort
      else if pkt ! 0 \<noteq> Version then Inl ErrVersion
      else Inr (\<lparr>Network = get64 (slice 2 10 pkt), HdrKeyID = slice 10 (10 + KeyIDSize) pkt\<rparr>,
                take HSInitHeaderLen pkt, drop HSInitHeaderLen pkt))"

definition PacketType :: "bytes \<Rightarrow> perr + pkt_type" where
  "PacketType pkt =
     (if length pkt < 2 then Inl ErrShort
      else if pkt ! 0 \<noteq> Version then Inl ErrVersion
      else Inr (pkt ! 1))"

definition EncodeHSResp :: "bytes \<Rightarrow> HSRespHeader \<Rightarrow> (bytes \<times> nat) option" where
  "EncodeHSResp dst h =
     (if length dst < HSRespHeaderLen then None
      else let d1 = dst[0 := Version];
               d2 = d1[1 := TypeHSResp];
               d3 = write_at 2 (put64 (RNetwork h)) d2;
               d4 = write_at 10 (put32 (RRecvSession h)) d3
           in Some (d4, HSRespHeaderLen))"

definition DecodeHSResp :: "bytes \<Rightarrow> perr + (HSRespHeader \<times> bytes \<times> bytes)" where
  "DecodeHSResp pkt =
     (if length pkt < HSRespHeaderLen then Inl ErrShort
      else if pkt ! 0 \<noteq> Version then Inl ErrVersion
      else Inr (\<lparr>RNetwork = get64 (slice 2 10 pkt), RRecvSession = get32 (slice 10 14 pkt)\<rparr>,
                take HSRespHeaderLen pkt, drop HSRespHeaderLen pkt))"

section \<open>The contract of a header kind\<close>

text \<open>
  \<open>wf\<close> are the headers the kind can carry, \<open>least\<close> the smallest packet its decoder
  accepts, \<open>tag\<close> the byte the receive path dispatches on.
\<close>

locale framed_codec =
  fixes enc :: "bytes \<Rightarrow> 'h \<Rightarrow> (bytes \<times> nat) option"
    and dec :: "bytes \<Rightarrow> perr + ('h \<times> bytes \<times> bytes)"
    and wf :: "'h \<Rightarrow> bool"
    and hlen :: nat and aadlen :: nat and least :: nat and tag :: byte
  assumes hlen_bounds: "2 \<le> hlen" "aadlen \<le> hlen" "hlen \<le> least"
    and enc_total: "hlen \<le> length dst \<Longrightarrow> \<exists>buf. enc dst h = Some (buf, hlen)"
    and enc_len: "enc dst h = Some (buf, n) \<Longrightarrow> length buf = length dst \<and> hlen \<le> length dst \<and> n = hlen"
    and enc_body: "wf h \<Longrightarrow> enc dst h = Some (buf, n) \<Longrightarrow> drop hlen buf = drop hlen dst"
    and enc_tag: "enc dst h = Some (buf, n) \<Longrightarrow> PacketType buf = Inr tag"
    and dec_enc: "wf h \<Longrightarrow> enc dst h = Some (buf, n) \<Longrightarrow> least \<le> length buf \<Longrightarrow>
                  dec buf = Inr (h, take aadlen buf, drop hlen buf)"
    and dec_split: "dec pkt = Inr (h, aad, body) \<Longrightarrow>
                  wf h \<and> least \<le> length pkt \<and> aad = take aadlen pkt \<and> body = drop hlen pkt"
    and enc_dec: "dec pkt = Inr (h, aad, body) \<Longrightarrow> PacketType pkt = Inr tag \<Longrightarrow>
                  enc pkt h = Some (pkt, hlen)"
begin

lemma roundtrip:
  assumes "wf h" "least \<le> length dst"
  obtains buf where "enc dst h = Some (buf, hlen)" "PacketType buf = Inr tag"
    "dec buf = Inr (h, take aadlen buf, drop hlen dst)"
proof -
  from assms(2) hlen_bounds(3) have "hlen \<le> length dst" by simp
  then obtain buf where b: "enc dst h = Some (buf, hlen)" using enc_total by blast
  then have "length buf = length dst" using enc_len by blast
  then have "dec buf = Inr (h, take aadlen buf, drop hlen buf)" using dec_enc [OF assms(1) b] assms(2) by simp
  then show thesis using that b enc_tag [OF b] enc_body [OF assms(1) b] by simp
qed

end

section \<open>The three header kinds meet it\<close>

lemma EncodeData_eq:
  "EncodeData dst h =
     (if length dst < 14 then None
      else Some (Version # TypeData # put32 (RecvSession h) @ put64 (Counter h) @ drop 14 dst, 14))"
  using write_at_append [of 2 "[Version, TypeData]" "put32 (RecvSession h)" "drop 2 dst"]
    write_at_append [of 6 "Version # TypeData # put32 (RecvSession h)" "put64 (Counter h)" "drop 6 dst"]
  by (simp add: EncodeData_def Let_def two_updates)

lemma EncodeHSInit_eq:
  "EncodeHSInit dst h =
     (if length dst < 18 then None
      else Some (Version # TypeHSInit # put64 (Network h) @ take 8 (HdrKeyID h) @
                 drop (10 + length (take 8 (HdrKeyID h))) dst, 18))"
  using write_at_append [of 2 "[Version, TypeHSInit]" "put64 (Network h)" "drop 2 dst"]
    write_at_append [of 10 "Version # TypeHSInit # put64 (Network h)" "take 8 (HdrKeyID h)" "drop 10 dst"]
  by (simp add: EncodeHSInit_def Let_def two_updates ac_simps)

lemma EncodeHSResp_eq:
  "EncodeHSResp dst h =
     (if length dst < 14 then None
      else Some (Version # TypeHSResp # put64 (RNetwork h) @ put32 (RRecvSession h) @ drop 14 dst, 14))"
  using write_at_append [of 2 "[Version, TypeHSResp]" "put64 (RNetwork h)" "drop 2 dst"]
    write_at_append [of 10 "Version # TypeHSResp # put64 (RNetwork h)" "put32 (RRecvSession h)" "drop 10 dst"]
  by (simp add: EncodeHSResp_def Let_def two_updates)

lemma PacketType_Cons [simp]: "PacketType (Version # t # r) = Inr t"
  by (simp add: PacketType_def)

lemma rebuild_header:
  assumes "2 \<le> a" "a \<le> b" "b \<le> length pkt" "pkt ! 0 = v" "pkt ! 1 = t"
  shows "v # t # slice 2 a pkt @ slice a b pkt @ drop b pkt = pkt"
  using assms two_heads [of pkt] by (simp add: slice_drop)

interpretation data: framed_codec EncodeData DecodeData "\<lambda>_. True" 14 6 30 TypeData
proof (unfold_locales, goal_cases)
  case (6 dst h buf n)
  then show ?case by (auto simp: EncodeData_eq split: if_splits)
next
  case (7 dst h buf n)
  then show ?case by (auto simp: EncodeData_eq PacketType_def split: if_splits)
next
  case (8 h dst buf n)
  then show ?case by (auto simp: EncodeData_eq DecodeData_def slice_def split: if_splits)
next
  case (9 pkt h aad body)
  then show ?case by (auto simp: DecodeData_def split: if_splits)
next
  case (10 pkt h aad body)
  then have l: "30 \<le> length pkt" and h: "h = \<lparr>RecvSession = get32 (slice 2 6 pkt), Counter = get64 (slice 6 14 pkt)\<rparr>"
    by (auto simp: DecodeData_def split: if_splits)
  with 10(2) rebuild_header [of 2 6 pkt] show ?case
    by (simp add: EncodeData_eq put32_get32_length put64_get64_length PacketType_def slice_drop two_heads split: if_splits)
qed (auto simp: EncodeData_eq split: if_splits)

interpretation hsinit: framed_codec EncodeHSInit DecodeHSInit "\<lambda>h. length (HdrKeyID h) = 8" 18 18 18 TypeHSInit
proof (unfold_locales, goal_cases)
  case (4 dst h buf n)
  then show ?case by (auto simp: EncodeHSInit_eq split: if_splits)
next
  case (5 h dst buf n)
  then show ?case by (auto simp: EncodeHSInit_eq split: if_splits)
next
  case (6 dst h buf n)
  then show ?case by (auto simp: EncodeHSInit_eq split: if_splits)
next
  case (7 h dst buf n)
  then show ?case by (auto simp: EncodeHSInit_eq DecodeHSInit_def slice_def split: if_splits)
next
  case (8 pkt h aad body)
  then show ?case by (auto simp: DecodeHSInit_def split: if_splits)
next
  case (9 pkt h aad body)
  then have l: "18 \<le> length pkt" and h: "h = \<lparr>Network = get64 (slice 2 10 pkt), HdrKeyID = slice 10 18 pkt\<rparr>"
    by (auto simp: DecodeHSInit_def split: if_splits)
  with 9(2) rebuild_header [of 2 10 pkt] show ?case
    by (simp add: EncodeHSInit_eq put64_get64_length PacketType_def slice_drop two_heads split: if_splits)
qed (auto simp: EncodeHSInit_eq split: if_splits)

interpretation hsresp: framed_codec EncodeHSResp DecodeHSResp "\<lambda>_. True" 14 14 14 TypeHSResp
proof (unfold_locales, goal_cases)
  case (5 h dst buf n)
  then show ?case by (auto simp: EncodeHSResp_eq split: if_splits)
next
  case (6 dst h buf n)
  then show ?case by (auto simp: EncodeHSResp_eq split: if_splits)
next
  case (7 h dst buf n)
  then show ?case by (auto simp: EncodeHSResp_eq DecodeHSResp_def slice_def split: if_splits)
next
  case (8 pkt h aad body)
  then show ?case by (auto simp: DecodeHSResp_def split: if_splits)
next
  case (9 pkt h aad body)
  then have l: "14 \<le> length pkt" and h: "h = \<lparr>RNetwork = get64 (slice 2 10 pkt), RRecvSession = get32 (slice 10 14 pkt)\<rparr>"
    by (auto simp: DecodeHSResp_def split: if_splits)
  with 9(2) rebuild_header [of 2 10 pkt] show ?case
    by (simp add: EncodeHSResp_eq put32_get32_length put64_get64_length PacketType_def slice_drop two_heads split: if_splits)
qed (auto simp: EncodeHSResp_eq split: if_splits)

section \<open>Properties\<close>

text \<open>every header kind round-trips through a caller's buffer: the encoder fills the
  header, leaves the body alone, the type byte is the one the receive path dispatches
  on, and the decoder returns the header, the authenticated prefix and the body.\<close>
theorem wire_headers_roundtrip:
  "(30 \<le> length dst \<longrightarrow>
     (\<exists>buf. EncodeData dst dh = Some (buf, DataHeaderLen) \<and> PacketType buf = Inr TypeData \<and>
            DecodeData buf = Inr (dh, take DataAADLen buf, drop DataHeaderLen dst))) \<and>
   (18 \<le> length dst \<longrightarrow> length (HdrKeyID ih) = KeyIDSize \<longrightarrow>
     (\<exists>buf. EncodeHSInit dst ih = Some (buf, HSInitHeaderLen) \<and> PacketType buf = Inr TypeHSInit \<and>
            DecodeHSInit buf = Inr (ih, take HSInitHeaderLen buf, drop HSInitHeaderLen dst))) \<and>
   (14 \<le> length dst \<longrightarrow>
     (\<exists>buf. EncodeHSResp dst rh = Some (buf, HSRespHeaderLen) \<and> PacketType buf = Inr TypeHSResp \<and>
            DecodeHSResp buf = Inr (rh, take HSRespHeaderLen buf, drop HSRespHeaderLen dst)))"
proof (intro conjI impI)
  assume "30 \<le> length dst"
  with data.roundtrip [where h = dh and dst = dst] show "\<exists>buf. EncodeData dst dh = Some (buf, DataHeaderLen) \<and>
      PacketType buf = Inr TypeData \<and> DecodeData buf = Inr (dh, take DataAADLen buf, drop DataHeaderLen dst)"
    by fastforce
next
  assume "18 \<le> length dst" "length (HdrKeyID ih) = KeyIDSize"
  with hsinit.roundtrip [where h = ih and dst = dst] show "\<exists>buf. EncodeHSInit dst ih = Some (buf, HSInitHeaderLen) \<and>
      PacketType buf = Inr TypeHSInit \<and> DecodeHSInit buf = Inr (ih, take HSInitHeaderLen buf, drop HSInitHeaderLen dst)"
    by fastforce
next
  assume "14 \<le> length dst"
  with hsresp.roundtrip [where h = rh and dst = dst] show "\<exists>buf. EncodeHSResp dst rh = Some (buf, HSRespHeaderLen) \<and>
      PacketType buf = Inr TypeHSResp \<and> DecodeHSResp buf = Inr (rh, take HSRespHeaderLen buf, drop HSRespHeaderLen dst)"
    by fastforce
qed

lemma wire_headers_roundtrip_witness:
  "\<exists>buf. EncodeData (replicate 31 7) \<lparr>RecvSession = 5, Counter = 9\<rparr> = Some (buf, DataHeaderLen) \<and>
         DecodeData buf = Inr (\<lparr>RecvSession = 5, Counter = 9\<rparr>, take DataAADLen buf, replicate 17 7)"
proof -
  have "drop DataHeaderLen (replicate 31 7) = replicate 17 (7 :: byte)" by simp
  then show ?thesis
    using wire_headers_roundtrip [of "replicate 31 7" "\<lparr>RecvSession = 5, Counter = 9\<rparr>"
        "\<lparr>Network = 0, HdrKeyID = replicate 8 0\<rparr>" "\<lparr>RNetwork = 0, RRecvSession = 0\<rparr>"]
    by force
qed

text \<open>decoding is canonical: a packet whose type byte is its own kind's and that
  decodes to a header is exactly what the encoder writes for that header over it, so
  two packets with the same header and body are the same bytes.\<close>
theorem wire_decode_canonical:
  "(PacketType p = Inr TypeData \<longrightarrow> DecodeData p = Inr (dh, aad, body) \<longrightarrow>
     EncodeData p dh = Some (p, DataHeaderLen) \<and> aad @ drop DataAADLen p = p \<and> drop DataHeaderLen p = body \<and>
     GCMOverhead \<le> length body) \<and>
   (PacketType p = Inr TypeHSInit \<longrightarrow> DecodeHSInit p = Inr (ih, aad, body) \<longrightarrow>
     EncodeHSInit p ih = Some (p, HSInitHeaderLen) \<and> aad @ body = p \<and> length (HdrKeyID ih) = KeyIDSize) \<and>
   (PacketType p = Inr TypeHSResp \<longrightarrow> DecodeHSResp p = Inr (rh, aad, body) \<longrightarrow>
     EncodeHSResp p rh = Some (p, HSRespHeaderLen) \<and> aad @ body = p)"
  using data.enc_dec [of p dh aad body] data.dec_split [of p dh aad body]
    hsinit.enc_dec [of p ih aad body] hsinit.dec_split [of p ih aad body]
    hsresp.enc_dec [of p rh aad body] hsresp.dec_split [of p rh aad body]
  by auto

lemma wire_decode_canonical_witness:
  "EncodeHSResp (Version # TypeHSResp # replicate 13 3) \<lparr>RNetwork = 0x0303030303030303, RRecvSession = 0x03030303\<rparr>
   = Some (Version # TypeHSResp # replicate 13 3, HSRespHeaderLen)"
proof -
  have "DecodeHSResp (Version # TypeHSResp # replicate 13 3) =
     Inr (\<lparr>RNetwork = 0x0303030303030303, RRecvSession = 0x03030303\<rparr>, Version # TypeHSResp # replicate 12 3, [3])"
    by code_simp
  then show ?thesis
    using wire_decode_canonical [of "Version # TypeHSResp # replicate 13 3"] by (simp only: PacketType_Cons simp_thms)
qed

end
