(* ===== verification/Key_Material.thy ===== *)
theory Key_Material
  imports Wire_Prelude Protocol_Codec "HOL-Library.Mapping"
begin

text \<open>
  The key handling of internal/crypto/crypto.go: base64 key strings, the key set of a network
  (indexed by key identity, with the slot order kept), HKDF over a keyed hash, and the split into
  two directional session keys. SHA-256 (\<open>sha\<close>) and HMAC-SHA-256 (\<open>hmac\<close>) are
  parameters; what the code relies on is the length of their results.
\<close>

definition KeySize :: nat where "KeySize = 32"

type_synonym key_id = bytes

definition DeriveKeyID :: "(bytes \<Rightarrow> bytes) \<Rightarrow> bytes \<Rightarrow> key_id" where
  "DeriveKeyID sha key = take KeyIDSize (sha key)"

section \<open>Standard base64 (encoding/base64)\<close>

definition b64_digit :: "nat \<Rightarrow> char" where
  "b64_digit n = (if n < 26 then char_of (n + 65) else if n < 52 then char_of (n + 71)
     else if n < 62 then char_of (n - 4) else if n = 62 then CHR ''+'' else CHR ''/'')"

definition b64_value :: "char \<Rightarrow> nat option" where
  "b64_value c = (let n = (of_char c :: nat) in
     if 65 \<le> n \<and> n \<le> 90 then Some (n - 65) else if 97 \<le> n \<and> n \<le> 122 then Some (n - 71)
     else if 48 \<le> n \<and> n \<le> 57 then Some (n + 4) else if c = CHR ''+'' then Some 62
     else if c = CHR ''/'' then Some 63 else None)"

fun b64_encode :: "bytes \<Rightarrow> string" where
  "b64_encode [] = []"
| "b64_encode [a] = (let n = unat a * 65536 in
     [b64_digit (n div 262144), b64_digit (n div 4096 mod 64), CHR ''='', CHR ''=''])"
| "b64_encode [a, b] = (let n = unat a * 65536 + unat b * 256 in
     [b64_digit (n div 262144), b64_digit (n div 4096 mod 64), b64_digit (n div 64 mod 64), CHR ''=''])"
| "b64_encode (a # b # c # r) = (let n = unat a * 65536 + unat b * 256 + unat c in
     b64_digit (n div 262144) # b64_digit (n div 4096 mod 64) # b64_digit (n div 64 mod 64) #
     b64_digit (n mod 64) # b64_encode r)"

fun b64_quanta :: "string \<Rightarrow> bytes option" where
  "b64_quanta [] = Some []"
| "b64_quanta [a, b, c, d] =
     (case (b64_value a, b64_value b) of
        (Some x, Some y) \<Rightarrow>
          if c = CHR ''='' then (if d = CHR ''='' then Some [of_nat ((x * 64 + y) div 16)] else None)
          else (case b64_value c of None \<Rightarrow> None | Some z \<Rightarrow>
            if d = CHR ''='' then let n = (x * 4096 + y * 64 + z) div 4 in Some [of_nat (n div 256), of_nat n]
            else (case b64_value d of None \<Rightarrow> None | Some w \<Rightarrow>
              let n = x * 262144 + y * 4096 + z * 64 + w in
              Some [of_nat (n div 65536), of_nat (n div 256), of_nat n]))
      | _ \<Rightarrow> None)"
| "b64_quanta (a # b # c # d # r) =
     (case (b64_value a, b64_value b, b64_value c, b64_value d) of
        (Some x, Some y, Some z, Some w) \<Rightarrow>
          let n = x * 262144 + y * 4096 + z * 64 + w in
          map_option (\<lambda>t. of_nat (n div 65536) # of_nat (n div 256) # of_nat n # t) (b64_quanta r)
      | _ \<Rightarrow> None)"
| "b64_quanta _ = None"

text \<open>The decoder skips carriage returns and newlines wherever they stand.\<close>

definition b64_decode :: "string \<Rightarrow> bytes option" where
  "b64_decode s = b64_quanta (filter (\<lambda>c. c \<noteq> CHR 0x0A \<and> c \<noteq> CHR 0x0D) s)"

section \<open>Keys and key sets\<close>

datatype key_error = NotBase64 | WrongLength nat

definition DecodeKey :: "string \<Rightarrow> key_error + bytes" where
  "DecodeKey s = (case b64_decode s of
      None \<Rightarrow> Inl NotBase64
    | Some b \<Rightarrow> if length b \<noteq> KeySize then Inl (WrongLength (length b)) else Inr b)"

text \<open>\<open>rnd\<close> is what the system's random source delivers: \<open>None\<close> when the read fails.\<close>

definition GenerateKey :: "bytes option \<Rightarrow> string option" where
  "GenerateKey rnd = map_option b64_encode rnd"

record KeySet =
  byID :: "key_id \<Rightarrow> bytes option"
  order :: "key_id list"

definition empty_keyset :: KeySet where
  "empty_keyset = \<lparr>byID = Map.empty, order = []\<rparr>"

primrec NewKeySet_from :: "(bytes \<Rightarrow> bytes) \<Rightarrow> nat \<Rightarrow> KeySet \<Rightarrow> string list \<Rightarrow> (nat \<times> key_error) + KeySet" where
  "NewKeySet_from sha i ks [] = Inr ks"
| "NewKeySet_from sha i ks (s # rest) =
     (if s = [] then NewKeySet_from sha (Suc i) ks rest
      else case DecodeKey s of
        Inl e \<Rightarrow> Inl (i, e)
      | Inr raw \<Rightarrow>
          let kid = DeriveKeyID sha raw in
          if byID ks kid \<noteq> None then NewKeySet_from sha (Suc i) ks rest
          else NewKeySet_from sha (Suc i)
                 (ks\<lparr>byID := (byID ks)(kid \<mapsto> raw), order := order ks @ [kid]\<rparr>) rest)"

definition NewKeySet :: "(bytes \<Rightarrow> bytes) \<Rightarrow> string list \<Rightarrow> (nat \<times> key_error) + KeySet" where
  "NewKeySet sha keys = NewKeySet_from sha 0 empty_keyset keys"

definition Lookup :: "KeySet \<Rightarrow> key_id \<Rightarrow> bytes option" where
  "Lookup ks kid = byID ks kid"

definition Order :: "KeySet \<Rightarrow> key_id list" where "Order ks = order ks"

definition Len :: "KeySet \<Rightarrow> nat" where "Len ks = length (order ks)"

text \<open>The receiver may be nil.\<close>

definition With :: "(bytes \<Rightarrow> bytes) \<Rightarrow> KeySet option \<Rightarrow> bytes \<Rightarrow> KeySet" where
  "With sha ko rawKey =
     (let kid = DeriveKeyID sha rawKey in
      case ko of
        None \<Rightarrow> \<lparr>byID = [kid \<mapsto> rawKey], order = [kid]\<rparr>
      | Some ks \<Rightarrow>
          if byID ks kid \<noteq> None then ks
          else \<lparr>byID = (byID ks)(kid \<mapsto> rawKey), order = order ks @ [kid]\<rparr>)"

section \<open>HKDF and the directional keys\<close>

text \<open>\<open>hmac key message\<close>. The expansion loop ends because every block adds bytes;
  with an empty block it would not, so it is a partial function.\<close>

definition hkdfExtract :: "(bytes \<Rightarrow> bytes \<Rightarrow> bytes) \<Rightarrow> bytes \<Rightarrow> bytes \<Rightarrow> bytes" where
  "hkdfExtract hmac salt ikm = hmac (if length salt = 0 then replicate 32 0 else salt) ikm"

partial_function (option) hkdf_loop ::
  "(bytes \<Rightarrow> bytes \<Rightarrow> bytes) \<Rightarrow> bytes \<Rightarrow> bytes \<Rightarrow> nat \<Rightarrow> bytes \<Rightarrow> bytes \<Rightarrow> byte \<Rightarrow> bytes option" where
  "hkdf_loop hmac prk info len out prev counter =
     (if length out < len
      then let p = hmac prk (prev @ info @ [counter])
           in hkdf_loop hmac prk info len (out @ p) p (counter + 1)
      else Some out)"

definition hkdfExpand :: "(bytes \<Rightarrow> bytes \<Rightarrow> bytes) \<Rightarrow> bytes \<Rightarrow> bytes \<Rightarrow> nat \<Rightarrow> bytes option" where
  "hkdfExpand hmac prk info len = map_option (take len) (hkdf_loop hmac prk info len [] [] 1)"

definition HKDF :: "(bytes \<Rightarrow> bytes \<Rightarrow> bytes) \<Rightarrow> bytes \<Rightarrow> bytes \<Rightarrow> bytes \<Rightarrow> nat \<Rightarrow> bytes option" where
  "HKDF hmac ikm salt info len = hkdfExpand hmac (hkdfExtract hmac salt ikm) info len"

record SessionKeys =
  Send :: bytes
  Receive :: bytes

definition string_bytes :: "string \<Rightarrow> bytes" where
  "string_bytes s = map of_char s"

definition DeriveSessionKeys ::
  "(bytes \<Rightarrow> bytes \<Rightarrow> bytes) \<Rightarrow> bytes \<Rightarrow> bytes \<Rightarrow> bytes \<Rightarrow> bool \<Rightarrow> SessionKeys option" where
  "DeriveSessionKeys hmac ecdhShared psk transcript initiator =
     (case HKDF hmac (ecdhShared @ psk) transcript (string_bytes ''gravinet v1 session'') (2 * KeySize) of
        None \<Rightarrow> None
      | Some okm \<Rightarrow>
          let a = take KeySize okm; b = drop KeySize okm in
          Some (if initiator then \<lparr>Send = a, Receive = b\<rparr> else \<lparr>Send = b, Receive = a\<rparr>))"

section \<open>base64 round trip\<close>

lemma b64_digit_ok [simp]:
  assumes "n < 64"
  shows "b64_value (b64_digit n) = Some n" "b64_digit n \<noteq> CHR ''=''"
    "b64_digit n \<noteq> CHR 0x0A" "b64_digit n \<noteq> CHR 0x0D"
  using assms by (auto simp: b64_value_def b64_digit_def Let_def char_of_eq_iff take_bit_eq_mod)

lemma b64_sextets:
  fixes n :: nat
  shows "n div 262144 * 262144 + n div 4096 mod 64 * 4096 + n div 64 mod 64 * 64 + n mod 64 = n"
    "n div 262144 * 4096 + n div 4096 mod 64 * 64 + n div 64 mod 64 = n div 64"
    "n div 262144 * 64 + n div 4096 mod 64 = n div 4096"
proof -
  have e: "n div 64 * 64 + n mod 64 = n" "n div 64 div 64 * 64 + n div 64 mod 64 = n div 64"
    "n div 4096 div 64 * 64 + n div 4096 mod 64 = n div 4096" by simp_all
  have d: "n div 64 div 64 = n div 4096" "n div 4096 div 64 = n div 262144"
    by (simp_all add: div_mult2_eq [symmetric])
  show "n div 262144 * 64 + n div 4096 mod 64 = n div 4096" using e d by simp
  show "n div 262144 * 4096 + n div 4096 mod 64 * 64 + n div 64 mod 64 = n div 64" using e d by linarith
  show "n div 262144 * 262144 + n div 4096 mod 64 * 4096 + n div 64 mod 64 * 64 + n mod 64 = n"
    using e d by linarith
qed

lemma unat_byte: "unat (b :: byte) < 256"
  using unat_less_2p [of b] by simp

lemma mult_256_byte [simp]: "x * 256 = (0 :: byte)" "x * 65536 = (0 :: byte)"
proof -
  have "(256 :: byte) = 0" "(65536 :: byte) = 0" by simp_all
  then show "x * 256 = 0" "x * 65536 = 0" by (simp_all only: mult_zero_right)
qed

lemma b64_octets:
  fixes a b c :: byte
  defines "n \<equiv> unat a * 65536 + unat b * 256 + unat c"
  shows "n < 16777216" "of_nat (n div 65536) = a" "of_nat (n div 256) = b" "of_nat n = c"
proof -
  have lt: "unat a < 256" "unat b < 256" "unat c < 256" by (simp_all add: unat_byte)
  then show "n < 16777216" by (simp add: n_def)
  have "n div 65536 = unat a" using lt by (simp add: n_def)
  then show "of_nat (n div 65536) = a" by simp
  have "n div 256 = unat a * 256 + unat b" using lt by (simp add: n_def)
  moreover have "(of_nat (unat a * 256) :: byte) = 0" by simp
  ultimately show "of_nat (n div 256) = b" by simp
  have "(of_nat (unat a * 65536 + unat b * 256) :: byte) = 0" by simp
  then show "of_nat n = c" by (simp add: n_def)
qed

lemma b64_quanta_Cons:
  "w < 64 \<Longrightarrow> x < 64 \<Longrightarrow> y < 64 \<Longrightarrow> z < 64 \<Longrightarrow>
   b64_quanta (b64_digit w # b64_digit x # b64_digit y # b64_digit z # r) =
     (let n = w * 262144 + x * 4096 + y * 64 + z in
      map_option (\<lambda>t. of_nat (n div 65536) # of_nat (n div 256) # of_nat n # t) (b64_quanta r))"
  by (cases r) (simp_all add: Let_def)

lemma b64_quanta_encode: "b64_quanta (b64_encode bs) = Some bs"
proof (induction bs rule: b64_encode.induct)
  case (2 a)
  have n: "unat a * 65536 < 16777216" "unat a * 65536 div 4096 div 16 = unat a"
    using unat_byte [of a] by simp_all
  then show ?case using b64_sextets(3) [of "unat a * 65536"] by (simp add: Let_def)
next
  case (3 a b)
  let ?n = "unat a * 65536 + unat b * 256"
  have n: "?n < 16777216" using b64_octets(1) [of a b 0] by simp
  have "?n div 64 div 4 div 256 = ?n div 65536" "?n div 64 div 4 = ?n div 256"
    by (simp_all add: div_mult2_eq [symmetric])
  then show ?case using n b64_sextets(2) [of ?n] b64_octets(2,3) [of a b 0] by (simp add: Let_def)
next
  case (4 a b c r)
  let ?n = "unat a * 65536 + unat b * 256 + unat c"
  have "?n < 16777216" by (rule b64_octets)
  then show ?case using b64_sextets(1) [of ?n] b64_octets(2-4) [of a b c] 4
    by (simp add: Let_def b64_quanta_Cons)
qed simp

lemma b64_encode_plain: "c \<in> set (b64_encode bs) \<Longrightarrow> c \<noteq> CHR 0x0A \<and> c \<noteq> CHR 0x0D"
proof (induction bs rule: b64_encode.induct)
  case (4 a b c' r)
  have "unat a * 65536 + unat b * 256 + unat c' < 16777216" by (rule b64_octets)
  then show ?case using 4 by (auto simp: Let_def)
next
  case (3 a b)
  have "unat a * 65536 + unat b * 256 < 16777216" using b64_octets(1) [of a b 0] by simp
  then show ?case using 3 by (auto simp: Let_def)
next
  case (2 a)
  have "unat a * 65536 < 16777216" using unat_byte [of a] by simp
  then show ?case using 2 by (auto simp: Let_def)
qed simp

lemma b64_decode_encode: "b64_decode (b64_encode bs) = Some bs"
proof -
  have "filter (\<lambda>c. c \<noteq> CHR 0x0A \<and> c \<noteq> CHR 0x0D) (b64_encode bs) = b64_encode bs"
    using b64_encode_plain by (auto simp: filter_id_conv)
  then show ?thesis by (simp add: b64_decode_def b64_quanta_encode)
qed

section \<open>Key sets: the invariant and what a slot list yields\<close>

definition keyset_wf :: "(bytes \<Rightarrow> bytes) \<Rightarrow> KeySet \<Rightarrow> bool" where
  "keyset_wf sha ks \<longleftrightarrow> dom (byID ks) = set (order ks) \<and> distinct (order ks) \<and>
     (\<forall>kid k. byID ks kid = Some k \<longrightarrow> kid = DeriveKeyID sha k \<and> length k = KeySize)"

definition slot_ok :: "string \<Rightarrow> bool" where
  "slot_ok s \<longleftrightarrow> s = [] \<or> (\<exists>k. DecodeKey s = Inr k)"

definition slot_keys :: "string list \<Rightarrow> bytes list" where
  "slot_keys l = List.map_filter (\<lambda>s. if s = [] then None else case DecodeKey s of Inl _ \<Rightarrow> None | Inr k \<Rightarrow> Some k) l"

lemma slot_keys_simps [simp]:
  "slot_keys [] = []"
  "slot_keys ([] # l) = slot_keys l"
  "s \<noteq> [] \<Longrightarrow> DecodeKey s = Inr k \<Longrightarrow> slot_keys (s # l) = k # slot_keys l"
  by (simp_all add: slot_keys_def map_filter_simps)

lemma DecodeKey_length: "DecodeKey s = Inr k \<Longrightarrow> length k = KeySize"
  by (auto simp: DecodeKey_def split: option.splits if_splits)

lemma remdups_insert_dup: "x \<in> set zs \<Longrightarrow> remdups (ys @ x # zs) = remdups (ys @ zs)"
  by (induction ys) auto

lemma keyset_wf_empty [inv_intros]: "keyset_wf sha empty_keyset"
  by (simp add: keyset_wf_def empty_keyset_def)

lemma keyset_wf_add [inv_intros]:
  "keyset_wf sha ks \<Longrightarrow> byID ks (DeriveKeyID sha k) = None \<Longrightarrow> length k = KeySize \<Longrightarrow>
   keyset_wf sha \<lparr>byID = (byID ks)(DeriveKeyID sha k \<mapsto> k), order = order ks @ [DeriveKeyID sha k]\<rparr>"
  using domIff [of "DeriveKeyID sha k" "byID ks"] unfolding keyset_wf_def by (auto simp del: domIff)

lemma NewKeySet_from_ok:
  "keyset_wf sha ks \<Longrightarrow> list_all slot_ok l \<Longrightarrow>
   \<exists>ks'. NewKeySet_from sha i ks l = Inr ks' \<and> keyset_wf sha ks' \<and>
     order ks' = rev (remdups (rev (order ks @ map (DeriveKeyID sha) (slot_keys l)))) \<and>
     (\<forall>kid. byID ks' kid = (case byID ks kid of Some k \<Rightarrow> Some k
        | None \<Rightarrow> find (\<lambda>k. DeriveKeyID sha k = kid) (slot_keys l)))"
proof (induction l arbitrary: ks i)
  case Nil
  then show ?case
    by (auto simp: keyset_wf_def distinct_remdups_id split: option.splits)
next
  case (Cons s l)
  note wf = Cons.prems(1)
  show ?case
  proof (cases "s = []")
    case True
    have e: "slot_keys (s # l) = slot_keys l" unfolding True by simp
    show ?thesis unfolding e using Cons.IH [OF wf, of "Suc i"] Cons.prems(2) True by simp
  next
    case False
    then obtain k where k: "DecodeKey s = Inr k" using Cons.prems by (auto simp: slot_ok_def)
    let ?i = "DeriveKeyID sha k"
    show ?thesis
    proof (cases "byID ks ?i")
      case None
      let ?ks = "ks\<lparr>byID := (byID ks)(?i \<mapsto> k), order := order ks @ [?i]\<rparr>"
      have "?ks = \<lparr>byID = (byID ks)(?i \<mapsto> k), order = order ks @ [?i]\<rparr>" by (cases ks) simp
      then have "keyset_wf sha ?ks"
        using keyset_wf_add [OF wf None DecodeKey_length [OF k]] by metis
      then obtain ks' where ks': "NewKeySet_from sha (Suc i) ?ks l = Inr ks'" "keyset_wf sha ks'"
        "order ks' = rev (remdups (rev (order ?ks @ map (DeriveKeyID sha) (slot_keys l))))"
        "\<forall>kid. byID ks' kid = (case byID ?ks kid of Some k \<Rightarrow> Some k
          | None \<Rightarrow> find (\<lambda>k. DeriveKeyID sha k = kid) (slot_keys l))"
        using Cons.IH [of ?ks "Suc i"] Cons.prems by auto
      show ?thesis
        using ks' None False k by (intro exI [of _ ks']) (auto simp: Let_def split: option.splits)
    next
      case (Some k0)
      then have mem: "?i \<in> set (order ks)" using wf by (auto simp: keyset_wf_def dom_def)
      obtain ks' where ks': "NewKeySet_from sha (Suc i) ks l = Inr ks'" "keyset_wf sha ks'"
        "order ks' = rev (remdups (rev (order ks @ map (DeriveKeyID sha) (slot_keys l))))"
        "\<forall>kid. byID ks' kid = (case byID ks kid of Some k \<Rightarrow> Some k
          | None \<Rightarrow> find (\<lambda>k. DeriveKeyID sha k = kid) (slot_keys l))"
        using Cons.IH [OF wf, of "Suc i"] Cons.prems by auto
      show ?thesis
        using ks' Some False k mem
        by (intro exI [of _ ks']) (auto simp: Let_def remdups_insert_dup split: option.splits)
    qed
  qed
qed

lemma NewKeySet_from_error:
  "list_all slot_ok pre \<Longrightarrow> s \<noteq> [] \<Longrightarrow> DecodeKey s = Inl e \<Longrightarrow>
   NewKeySet_from sha i ks (pre @ s # post) = Inl (i + length pre, e)"
  by (induction pre arbitrary: i ks) (auto simp: slot_ok_def Let_def)

lemma With_wf [inv_intros]:
  "(\<And>ks. ko = Some ks \<Longrightarrow> keyset_wf sha ks) \<Longrightarrow> length k = KeySize \<Longrightarrow> keyset_wf sha (With sha ko k)"
  using keyset_wf_add [OF keyset_wf_empty, of sha k]
  by (auto simp: With_def Let_def keyset_wf_add empty_keyset_def split: option.splits)

lemma With_lookup:
  assumes "\<And>ks. ko = Some ks \<Longrightarrow> keyset_wf sha ks"
  shows "byID (With sha ko k) kid =
    (case Option.bind ko (\<lambda>ks. byID ks kid) of Some k' \<Rightarrow> Some k'
     | None \<Rightarrow> if kid = DeriveKeyID sha k then Some k else None)"
  by (auto simp: With_def Let_def split: option.splits)

section \<open>HKDF against RFC 5869\<close>

primrec hkdf_block :: "(bytes \<Rightarrow> bytes \<Rightarrow> bytes) \<Rightarrow> bytes \<Rightarrow> bytes \<Rightarrow> nat \<Rightarrow> bytes" where
  "hkdf_block hmac prk info 0 = []"
| "hkdf_block hmac prk info (Suc n) = hmac prk (hkdf_block hmac prk info n @ info @ [of_nat (Suc n)])"

definition hkdf_stream :: "(bytes \<Rightarrow> bytes \<Rightarrow> bytes) \<Rightarrow> bytes \<Rightarrow> bytes \<Rightarrow> nat \<Rightarrow> bytes" where
  "hkdf_stream hmac prk info n = concat (map (hkdf_block hmac prk info) [1..<Suc n])"

lemma hkdf_stream_Suc:
  "hkdf_stream hmac prk info (Suc n) = hkdf_stream hmac prk info n @ hkdf_block hmac prk info (Suc n)"
  by (simp add: hkdf_stream_def)

lemma length_hkdf_stream:
  "(\<And>k m. length (hmac k m) = 32) \<Longrightarrow> length (hkdf_stream hmac prk info n) = 32 * n"
  by (induction n) (simp_all add: hkdf_stream_Suc, simp add: hkdf_stream_def)

lemma hkdf_loop_runs:
  assumes h: "\<And>k m. length (hmac k m) = 32"
  shows "n \<le> (len + 31) div 32 \<Longrightarrow>
    hkdf_loop hmac prk info len (hkdf_stream hmac prk info n) (hkdf_block hmac prk info n) (of_nat (Suc n)) =
    Some (hkdf_stream hmac prk info ((len + 31) div 32))"
proof (induction "(len + 31) div 32 - n" arbitrary: n)
  case 0
  then have "n = (len + 31) div 32" by simp
  then have "\<not> Suc n \<le> (len + 31) div 32" by simp
  then have "\<not> 32 * n < len" by (simp add: less_eq_div_iff_mult_less_eq)
  moreover have "n = (len + 31) div 32" using 0 by simp
  ultimately show ?case by (subst hkdf_loop.simps) (simp add: length_hkdf_stream [OF h])
next
  case (Suc d)
  from Suc(2) have "Suc n \<le> (len + 31) div 32" by linarith
  then have "32 * n < len" by (simp add: less_eq_div_iff_mult_less_eq)
  then have less: "length (hkdf_stream hmac prk info n) < len" by (simp only: length_hkdf_stream [OF h])
  have nxt: "of_nat (Suc n) + 1 = (of_nat (Suc (Suc n)) :: byte)" by simp
  have "hkdf_loop hmac prk info len (hkdf_stream hmac prk info n) (hkdf_block hmac prk info n) (of_nat (Suc n)) =
    hkdf_loop hmac prk info len (hkdf_stream hmac prk info (Suc n)) (hkdf_block hmac prk info (Suc n)) (of_nat (Suc (Suc n)))"
    unfolding hkdf_stream_Suc nxt [symmetric]
    by (subst hkdf_loop.simps) (simp only: less if_True Let_def hkdf_block.simps)
  also have "\<dots> = Some (hkdf_stream hmac prk info ((len + 31) div 32))"
    using Suc(2) by (intro Suc(1)) linarith+
  finally show ?case .
qed

lemma hkdfExpand_rfc5869:
  assumes "\<And>k m. length (hmac k m) = 32"
  shows "hkdfExpand hmac prk info len = Some (take len (hkdf_stream hmac prk info ((len + 31) div 32)))"
  using hkdf_loop_runs [OF assms, where n = 0 and len = len and prk = prk and info = info]
  by (simp add: hkdfExpand_def hkdf_stream_def)

lemma DeriveSessionKeys_halves:
  assumes "\<And>k m. length (hmac k m) = 32"
  shows "\<exists>a b. length a = KeySize \<and> length b = KeySize \<and>
     a @ b = hkdf_stream hmac (hkdfExtract hmac transcript (ecdh @ psk)) (string_bytes ''gravinet v1 session'') 2 \<and>
     DeriveSessionKeys hmac ecdh psk transcript True = Some \<lparr>Send = a, Receive = b\<rparr> \<and>
     DeriveSessionKeys hmac ecdh psk transcript False = Some \<lparr>Send = b, Receive = a\<rparr>"
proof -
  define okm where "okm = hkdf_stream hmac (hkdfExtract hmac transcript (ecdh @ psk)) (string_bytes ''gravinet v1 session'') 2"
  have len: "length okm = 64" using length_hkdf_stream [OF assms, where n = 2] by (simp add: okm_def)
  then have "HKDF hmac (ecdh @ psk) transcript (string_bytes ''gravinet v1 session'') (2 * KeySize) = Some okm"
    by (simp add: HKDF_def hkdfExpand_rfc5869 [OF assms] KeySize_def okm_def)
  then show ?thesis
    using len by (intro exI [of _ "take 32 okm"] exI [of _ "drop 32 okm"])
      (simp add: DeriveSessionKeys_def okm_def KeySize_def)
qed

section \<open>Properties\<close>

text \<open>a slot list without malformed entries gives a well-formed key set: each identity
  is listed once, in the order of its first slot, and names the first key of that identity,
  whatever the slot; a malformed slot is reported with its index.\<close>
theorem NewKeySet_slots:
  "(list_all slot_ok keys \<longrightarrow>
     (\<exists>ks. NewKeySet sha keys = Inr ks \<and> keyset_wf sha ks \<and>
        Order ks = rev (remdups (rev (map (DeriveKeyID sha) (slot_keys keys)))) \<and>
        Len ks = card (DeriveKeyID sha ` set (slot_keys keys)) \<and>
        (\<forall>kid. Lookup ks kid = find (\<lambda>k. DeriveKeyID sha k = kid) (slot_keys keys)))) \<and>
   (list_all slot_ok keys \<longrightarrow> bad \<noteq> [] \<longrightarrow> DecodeKey bad = Inl e \<longrightarrow>
     NewKeySet sha (keys @ bad # rest) = Inl (length keys, e))"
proof (intro conjI impI)
  assume "list_all slot_ok keys"
  from NewKeySet_from_ok [OF keyset_wf_empty this, of sha 0] obtain ks
    where ks: "NewKeySet sha keys = Inr ks" "keyset_wf sha ks"
      "order ks = rev (remdups (rev (map (DeriveKeyID sha) (slot_keys keys))))"
      "\<forall>kid. byID ks kid = find (\<lambda>k. DeriveKeyID sha k = kid) (slot_keys keys)"
    by (auto simp: NewKeySet_def empty_keyset_def)
  then show "\<exists>ks. NewKeySet sha keys = Inr ks \<and> keyset_wf sha ks \<and>
        Order ks = rev (remdups (rev (map (DeriveKeyID sha) (slot_keys keys)))) \<and>
        Len ks = card (DeriveKeyID sha ` set (slot_keys keys)) \<and>
        (\<forall>kid. Lookup ks kid = find (\<lambda>k. DeriveKeyID sha k = kid) (slot_keys keys))"
    by (intro exI [of _ ks]) (simp add: Order_def Len_def Lookup_def length_remdups_card_conv)
next
  assume "list_all slot_ok keys" "bad \<noteq> []" "DecodeKey bad = Inl e"
  then show "NewKeySet sha (keys @ bad # rest) = Inl (length keys, e)"
    using NewKeySet_from_error [of keys bad e sha 0] by (simp add: NewKeySet_def)
qed

lemma NewKeySet_slots_witness:
  "NewKeySet (\<lambda>k. k) ([b64_encode (replicate 32 7)] @ b64_encode [1, 2, 3] # []) = Inl (1, WrongLength 3)"
proof -
  have "DecodeKey (b64_encode (replicate 32 7)) = Inr (replicate 32 7)"
    by (simp add: DecodeKey_def b64_decode_encode KeySize_def)
  then have ok: "list_all slot_ok [b64_encode (replicate 32 7)]" by (auto simp: slot_ok_def)
  have bad: "DecodeKey (b64_encode [1, 2, 3]) = Inl (WrongLength 3)"
    by (simp add: DecodeKey_def b64_decode_encode KeySize_def del: b64_encode.simps)
  have "b64_encode [1, 2, 3] \<noteq> []" by (simp add: Let_def)
  note bad = this bad
  show ?thesis
    using NewKeySet_slots [of "[b64_encode (replicate 32 7)]" "\<lambda>k. k" "b64_encode [1, 2, 3]" "WrongLength 3" "[]"] ok bad
    by (simp only: simp_thms list.size) simp
qed

text \<open>a generated key, stored as base64 text, decodes to the same 32 bytes.\<close>
theorem GenerateKey_DecodeKey:
  "length k = KeySize \<Longrightarrow> Option.bind (GenerateKey (Some k)) (\<lambda>s. Some (DecodeKey s)) = Some (Inr k)"
  by (simp add: GenerateKey_def DecodeKey_def b64_decode_encode)

lemma GenerateKey_DecodeKey_witness:
  "Option.bind (GenerateKey (Some (replicate 32 200))) (\<lambda>s. Some (DecodeKey s)) = Some (Inr (replicate 32 200))"
  by (rule GenerateKey_DecodeKey) (simp add: KeySize_def)

text \<open>with a 32-byte keyed hash, key derivation always ends, and the two ends of a
  handshake, one deriving as initiator and one as responder from the same secrets and transcript,
  get 32-byte keys with send and receive exchanged, the two halves of the RFC 5869 stream.\<close>
theorem DeriveSessionKeys_agree:
  assumes "\<And>k m. length (hmac k m) = 32"
  shows "\<exists>a b. length a = KeySize \<and> length b = KeySize \<and>
     a @ b = hkdf_stream hmac (hkdfExtract hmac transcript (ecdh @ psk)) (string_bytes ''gravinet v1 session'') 2 \<and>
     DeriveSessionKeys hmac ecdh psk transcript True = Some \<lparr>Send = a, Receive = b\<rparr> \<and>
     DeriveSessionKeys hmac ecdh psk transcript False = Some \<lparr>Send = b, Receive = a\<rparr>"
  by (rule DeriveSessionKeys_halves [OF assms])

lemma DeriveSessionKeys_agree_witness:
  "\<exists>a b. DeriveSessionKeys (\<lambda>k m. replicate 32 (of_nat (length m))) [1] [2] [3] True = Some \<lparr>Send = a, Receive = b\<rparr> \<and>
     DeriveSessionKeys (\<lambda>k m. replicate 32 (of_nat (length m))) [1] [2] [3] False = Some \<lparr>Send = b, Receive = a\<rparr>"
  using DeriveSessionKeys_agree [where hmac = "\<lambda>k m. replicate 32 (of_nat (length m))" and ecdh = "[1]" and psk = "[2]" and transcript = "[3]"]
  by (simp only: length_replicate) blast

end
