(* ===== verification/Replay_Window.thy ===== *)
theory Replay_Window
  imports Wire_Prelude
begin

text \<open>
  The anti-replay window of internal/crypto/crypto.go: a ring of 128 64-bit words indexed
  by counter/64, advanced past the highest verified counter. The abstract promise is a set
  of accepted counters; \<open>replay_inv\<close> relates the ring to that set. The window claims
  8192 counters, but the ring has only 128 words, so a counter whose word lies exactly 128
  words behind the highest one shares its slot with it: \<open>in_ring\<close> separates the
  counters the ring can vouch for from those it cannot.
\<close>

section \<open>The window\<close>

definition replayWindowSize :: "64 word" where "replayWindowSize = 8192"
definition replayWords :: "64 word" where "replayWords = replayWindowSize div 64"

record replay =
  window :: "64 word list"
  highest :: "64 word"

definition replay_init :: replay where
  "replay_init = \<lparr>window = replicate (unat replayWords) 0, highest = 0\<rparr>"

definition replay_slot :: "64 word \<Rightarrow> nat" where
  "replay_slot i = unat (i mod replayWords)"

definition counter_mask :: "64 word \<Rightarrow> 64 word" where
  "counter_mask c = push_bit (unat (c mod 64)) 1"

definition replayOK :: "replay \<Rightarrow> 64 word \<Rightarrow> bool" where
  "replayOK r counter =
     (if counter > highest r then True
      else if highest r - counter \<ge> replayWindowSize then False
      else window r ! replay_slot (counter div 64) AND counter_mask counter = 0)"

text \<open>The clearing loop \<open>for i := oldTop + 1; i <= newTop; i++\<close> runs \<open>span\<close> times.\<close>

primrec clear_words :: "nat \<Rightarrow> 64 word \<Rightarrow> 64 word list \<Rightarrow> 64 word list" where
  "clear_words 0 i w = w"
| "clear_words (Suc n) i w = clear_words n (i + 1) (w[replay_slot i := 0])"

definition replayAdvance :: "replay \<Rightarrow> 64 word \<Rightarrow> replay" where
  "replayAdvance r counter =
     (let r1 = (if counter > highest r
                then let oldTop = highest r div 64; newTop = counter div 64; span = newTop - oldTop;
                         w = (if span > 0
                              then if span \<ge> replayWords then map (\<lambda>_. 0) (window r)
                                   else clear_words (unat span) (oldTop + 1) (window r)
                              else window r)
                     in r\<lparr>window := w, highest := counter\<rparr>
                else r);
          s = replay_slot (counter div 64)
      in r1\<lparr>window := (window r1)[s := window r1 ! s OR counter_mask counter]\<rparr>)"

section \<open>Words as numbers\<close>

lemma unat_replayWords [simp]: "unat replayWords = 128"
  by (simp add: replayWords_def replayWindowSize_def)

lemma unat_replayWindowSize [simp]: "unat replayWindowSize = 8192"
  by (simp add: replayWindowSize_def)

lemma replay_slot_unat: "replay_slot i = unat i mod 128"
  by (simp add: replay_slot_def unat_mod)

lemma replay_slot_less [simp]: "replay_slot i < 128"
  by (simp add: replay_slot_unat)

lemma bit_counter_mask: "n < 64 \<Longrightarrow> bit (counter_mask c) n \<longleftrightarrow> n = unat c mod 64"
  by (auto simp: counter_mask_def unat_mod bit_exp_iff)

lemma and_counter_mask: "w AND counter_mask c = 0 \<longleftrightarrow> \<not> bit w (unat c mod 64)"
proof
  assume "w AND counter_mask c = 0"
  then have "\<not> bit (w AND counter_mask c) (unat c mod 64)" by simp
  then show "\<not> bit w (unat c mod 64)" by (simp add: bit_and_iff bit_counter_mask)
next
  assume "\<not> bit w (unat c mod 64)"
  then show "w AND counter_mask c = 0"
    by (intro bit_word_eqI) (auto simp: bit_and_iff bit_counter_mask)
qed

lemma length_clear_words [simp]: "length (clear_words n i w) = length w"
  by (induction n arbitrary: i w) auto

lemma clear_words_nth:
  "length w = 128 \<Longrightarrow> j < 128 \<Longrightarrow> n < 128 \<Longrightarrow> unat i + n < 2 ^ 64 \<Longrightarrow>
   clear_words n i w ! j = (if \<exists>k. unat i \<le> k \<and> k < unat i + n \<and> k mod 128 = j then 0 else w ! j)"
proof (induction n arbitrary: i w)
  case 0
  then show ?case by auto
next
  case (Suc n)
  then have u: "unat (i + 1) = unat i + 1" by (simp add: unat_plus_small)
  have split: "(\<exists>k. unat i \<le> k \<and> k < unat i + Suc n \<and> k mod 128 = j) \<longleftrightarrow>
     unat i mod 128 = j \<or> (\<exists>k. unat i + 1 \<le> k \<and> k < unat i + 1 + n \<and> k mod 128 = j)"
    (is "?l \<longleftrightarrow> ?a \<or> ?r")
  proof
    assume ?l
    then obtain k where "unat i \<le> k" "k < unat i + Suc n" "k mod 128 = j" by blast
    then show "?a \<or> ?r" by (cases "k = unat i") (fastforce simp: Suc_le_eq)+
  next
    assume "?a \<or> ?r"
    then show ?l
    proof (elim disjE exE conjE)
      assume ?a
      then show ?l by (intro exI [of _ "unat i"]) simp
    next
      fix k assume "unat i + 1 \<le> k" "k < unat i + 1 + n" "k mod 128 = j"
      then show ?l by (intro exI [of _ k]) simp
    qed
  qed
  have ih: "clear_words (Suc n) i w ! j =
      (if \<exists>k. unat i + 1 \<le> k \<and> k < unat i + 1 + n \<and> k mod 128 = j then 0 else w[replay_slot i := 0] ! j)"
    using Suc.prems Suc.IH [of "w[replay_slot i := 0]" "i + 1"] by (simp add: u)
  show ?case
    unfolding split ih using Suc.prems(1,2) by (auto simp: nth_list_update replay_slot_unat)
qed

section \<open>The abstract promise: the set of accepted counters\<close>

definition in_ring :: "nat \<Rightarrow> nat \<Rightarrow> bool" where
  "in_ring h c \<longleftrightarrow> h div 64 < c div 64 + 128"

text \<open>
  \<open>A\<close> is the set of counters accepted so far and \<open>L \<subseteq> A\<close> those accepted while
  outside the ring. Everything accepted and still in the ring has its bit set; a set bit comes
  from an accepted counter of the same slot that is in the ring, or from \<open>L\<close>.
\<close>

definition replay_inv :: "replay \<Rightarrow> nat set \<Rightarrow> nat set \<Rightarrow> bool" where
  "replay_inv r A L \<longleftrightarrow>
     length (window r) = 128 \<and> L \<subseteq> A \<and>
     (\<forall>c\<in>A. c \<le> unat (highest r)) \<and>
     (\<forall>c\<in>A. in_ring (unat (highest r)) c \<longrightarrow> bit (window r ! (c div 64 mod 128)) (c mod 64)) \<and>
     (\<forall>j<128. \<forall>b<64. bit (window r ! j) b \<longrightarrow>
        (\<exists>c. c div 64 mod 128 = j \<and> c mod 64 = b \<and> (c \<in> L \<or> c \<in> A \<and> in_ring (unat (highest r)) c)))"

lemma replay_invD:
  assumes "replay_inv r A L"
  shows "length (window r) = 128" "L \<subseteq> A"
    and "c \<in> A \<Longrightarrow> c \<le> unat (highest r)"
    and "c \<in> A \<Longrightarrow> in_ring (unat (highest r)) c \<Longrightarrow> bit (window r ! (c div 64 mod 128)) (c mod 64)"
    and "j < 128 \<Longrightarrow> b < 64 \<Longrightarrow> bit (window r ! j) b \<Longrightarrow>
        \<exists>c. c div 64 mod 128 = j \<and> c mod 64 = b \<and> (c \<in> L \<or> c \<in> A \<and> in_ring (unat (highest r)) c)"
  using assms unfolding replay_inv_def by blast+

lemma replay_inv_init: "replay_inv replay_init {} {}"
  by (simp add: replay_inv_def replay_init_def)

definition replay_top :: "replay \<Rightarrow> 64 word \<Rightarrow> replay" where
  "replay_top r counter = (if counter > highest r then
     (let oldTop = highest r div 64; newTop = counter div 64; span = newTop - oldTop;
          w = (if span > 0
               then if span \<ge> replayWords then map (\<lambda>_. 0) (window r)
                    else clear_words (unat span) (oldTop + 1) (window r)
               else window r)
      in r\<lparr>window := w, highest := counter\<rparr>) else r)"

lemma replayAdvance_top:
  "replayAdvance r c = (let r1 = replay_top r c; s = replay_slot (c div 64)
     in r1\<lparr>window := (window r1)[s := window r1 ! s OR counter_mask c]\<rparr>)"
  by (simp add: replayAdvance_def replay_top_def)

lemma replay_top_highest: "unat (highest (replay_top r c)) = max (unat (highest r)) (unat c)"
  by (auto simp: replay_top_def Let_def word_less_nat_alt)

lemma unat_div64: "unat (c div 64 :: 64 word) = unat c div 64"
  by (simp add: unat_div)

text \<open>Moving the top keeps the bits of the words still in the ring and clears the others.\<close>

lemma replay_top_window:
  assumes len: "length (window r) = 128" and j: "j < 128"
    and hc: "unat (highest r) < unat c"
  shows "window (replay_top r c) ! j =
     (if \<exists>k. unat (highest r) div 64 < k \<and> k \<le> unat c div 64 \<and> k mod 128 = j then 0 else window r ! j)"
proof -
  define o' where "o' = unat (highest r) div 64"
  define n' where "n' = unat c div 64"
  have le: "o' \<le> n'" using hc by (simp add: o'_def n'_def div_le_mono)
  have span: "unat (c div 64 - highest r div 64) = n' - o'"
    using le by (simp add: unat_sub word_le_nat_alt unat_div64 o'_def n'_def)
  have n_small: "n' < 2 ^ 58" unfolding n'_def using unat_less_2p [of c] by simp
  have start: "unat (highest r div 64 + 1) = o' + 1"
    using le n_small by (simp add: unat_plus_small unat_div64 o'_def)
  have gt: "c > highest r" using hc by (simp add: word_less_nat_alt)
  consider (same) "n' = o'" | (few) "n' \<noteq> o'" "n' - o' < 128" | (lap) "128 \<le> n' - o'" by linarith
  then show ?thesis
  proof cases
    case same
    then show ?thesis using gt span
      by (auto simp: replay_top_def Let_def word_less_nat_alt o'_def n'_def)
  next
    case few
    then have "window (replay_top r c) = clear_words (n' - o') (highest r div 64 + 1) (window r)"
      using gt span le by (simp add: replay_top_def Let_def word_less_nat_alt word_le_nat_alt)
    then show ?thesis
      using few clear_words_nth [OF len j few(2), of "highest r div 64 + 1"] le n_small
      by (simp add: start Suc_le_eq o'_def [symmetric] n'_def [symmetric]) (smt (verit) Suc_le_eq le_eq_less_or_eq less_Suc_eq_le)
  next
    case lap
    then have "n' \<noteq> o'" by simp
    with lap have "window (replay_top r c) = map (\<lambda>_. 0) (window r)"
      using gt span le by (simp add: replay_top_def Let_def word_less_nat_alt word_le_nat_alt)
    moreover have "\<exists>k. o' < k \<and> k \<le> n' \<and> k mod 128 = j"
    proof -
      have eq: "j + 128 * ((n' - j) div 128) = n' - (n' - j) mod 128"
        using mult_div_mod_eq [of 128 "n' - j"] lap j by linarith
      have "(n' - j) mod 128 < 128" by simp
      moreover have "(n' - (n' - j) mod 128) mod 128 = j" unfolding eq [symmetric] using j by simp
      ultimately show ?thesis using lap by (intro exI [of _ "n' - (n' - j) mod 128"]) linarith
    qed
    ultimately show ?thesis using len j by (simp add: o'_def n'_def)
  qed
qed

lemma same_slot:
  assumes "c div 64 mod 128 = d div 64 mod (128 :: nat)" "c mod 64 = d mod 64"
  shows "c mod 8192 = d mod 8192"
  using mod_mult2_eq [of c 64 128] mod_mult2_eq [of d 64 128] assms by simp

lemma congruent_8192:
  assumes "d mod 8192 = c mod (8192 :: nat)" "d \<noteq> c" "d < c + 8192" "c < d + 8256"
  shows "c = d + 8192"
proof (cases "d < c")
  case True
  then have "8192 dvd c - d" using assms(1) [symmetric] by (simp add: mod_eq_dvd_iff_nat)
  then obtain q where q: "c - d = 8192 * q" by (rule dvdE)
  moreover have "q < 2" using q True assms(4) by linarith
  moreover have "q \<noteq> 0" using q True by auto
  ultimately have "q = 1" by simp
  then show ?thesis using q True by simp
next
  case False
  then have "8192 dvd d - c" using assms(1) by (simp add: mod_eq_dvd_iff_nat)
  then show ?thesis using assms(2,3) False by (auto dest: dvd_imp_le)
qed

text \<open>The safety half: an accepted counter still in the ring is refused.\<close>

lemma replayOK_seen:
  assumes inv: "replay_inv r A L" and c: "unat c \<in> A" "in_ring (unat (highest r)) (unat c)"
  shows "\<not> replayOK r c"
proof -
  have "unat c \<le> unat (highest r)" using replay_invD(3) [OF inv c(1)] .
  moreover have "bit (window r ! (unat c div 64 mod 128)) (unat c mod 64)"
    using replay_invD(4) [OF inv c] .
  ultimately show ?thesis
    by (simp add: replayOK_def word_less_nat_alt and_counter_mask replay_slot_unat unat_div64)
qed

text \<open>The completeness half: a fresh counter inside the window is refused only when
  a counter of the same slot was accepted while it was outside the ring.\<close>

lemma replayOK_fresh:
  assumes inv: "replay_inv r A {}" and c: "unat c \<notin> A"
    and near: "unat (highest r) < unat c + 8192"
  shows "replayOK r c"
proof (rule ccontr)
  let ?h = "unat (highest r)" and ?c = "unat c"
  assume "\<not> replayOK r c"
  then have le: "?c \<le> ?h" and b: "bit (window r ! (?c div 64 mod 128)) (?c mod 64)"
    using near by (auto simp: replayOK_def word_less_nat_alt word_le_nat_alt unat_sub and_counter_mask
        replay_slot_unat unat_div64 not_less split: if_splits)
  from replay_invD(5) [OF inv _ _ b] obtain d
    where d: "d div 64 mod 128 = ?c div 64 mod 128" "d mod 64 = ?c mod 64" "d \<in> A" "in_ring ?h d"
    by auto
  have "d \<le> ?h" using replay_invD(3) [OF inv d(3)] .
  moreover have "d mod 8192 = ?c mod 8192" using same_slot [OF d(1,2)] .
  moreover have "?h < d + 8192 + 64" using d(4) by (auto simp: in_ring_def)
  moreover have "d \<noteq> ?c" using d(3) c by auto
  ultimately have e: "?c = d + 8192"
    using near le by (intro congruent_8192) linarith+
  then have "?c div 64 = d div 64 + 128" by simp
  moreover have "?c div 64 \<le> ?h div 64" using le by (rule div_le_mono)
  ultimately show False using d(4) by (simp add: in_ring_def)
qed

lemma replay_inv_top:
  assumes inv: "replay_inv r A L"
  shows "length (window (replay_top r c)) = 128"
    and "d \<in> A \<Longrightarrow> d \<le> unat (highest (replay_top r c))"
    and "d \<in> A \<Longrightarrow> in_ring (unat (highest (replay_top r c))) d \<Longrightarrow>
         bit (window (replay_top r c) ! (d div 64 mod 128)) (d mod 64)"
    and "j < 128 \<Longrightarrow> b < 64 \<Longrightarrow> bit (window (replay_top r c) ! j) b \<Longrightarrow>
        \<exists>d. d div 64 mod 128 = j \<and> d mod 64 = b \<and> (d \<in> L \<or> d \<in> A \<and> in_ring (unat (highest (replay_top r c))) d)"
proof -
  show "length (window (replay_top r c)) = 128"
    using replay_invD(1) [OF inv] by (simp add: replay_top_def Let_def)
  show "d \<in> A \<Longrightarrow> d \<le> unat (highest (replay_top r c))"
    using replay_invD(3) [OF inv] by (fastforce simp: replay_top_highest)
next
  assume d: "d \<in> A" "in_ring (unat (highest (replay_top r c))) d"
  let ?h = "unat (highest r)"
  have dh: "d div 64 \<le> ?h div 64" using replay_invD(3) [OF inv d(1)] by (rule div_le_mono)
  have ring: "in_ring ?h d" using d(2) by (auto simp: in_ring_def replay_top_highest max_def split: if_splits)
  note old = replay_invD(4) [OF inv d(1) ring]
  show "bit (window (replay_top r c) ! (d div 64 mod 128)) (d mod 64)"
  proof (cases "?h < unat c")
    case False
    then show ?thesis using old by (simp add: replay_top_def word_less_nat_alt)
  next
    case True
    have "\<not> (\<exists>k. ?h div 64 < k \<and> k \<le> unat c div 64 \<and> k mod 128 = d div 64 mod 128)"
    proof
      assume "\<exists>k. ?h div 64 < k \<and> k \<le> unat c div 64 \<and> k mod 128 = d div 64 mod 128"
      then obtain k where k: "?h div 64 < k" "k \<le> unat c div 64" "k mod 128 = d div 64 mod 128" by blast
      have "unat c div 64 < d div 64 + 128"
        using d(2) True by (simp add: in_ring_def replay_top_highest max_def)
      with k(1,2) dh have lt: "d div 64 < k" "k < d div 64 + 128" by linarith+
      from k(3) have "128 dvd k - d div 64" using lt by (simp add: mod_eq_dvd_iff_nat)
      then show False using lt by (auto dest: dvd_imp_le)
    qed
    then show ?thesis using old replay_top_window [OF replay_invD(1) [OF inv] _ True, of "d div 64 mod 128"] by simp
  qed
next
  let ?h = "unat (highest r)"
  assume j: "j < 128" and b: "b < 64" and set: "bit (window (replay_top r c) ! j) b"
  show "\<exists>d. d div 64 mod 128 = j \<and> d mod 64 = b \<and> (d \<in> L \<or> d \<in> A \<and> in_ring (unat (highest (replay_top r c))) d)"
  proof (cases "?h < unat c")
    case False
    then show ?thesis using replay_invD(5) [OF inv j b] set by (simp add: replay_top_def word_less_nat_alt)
  next
    case True
    note w = replay_top_window [OF replay_invD(1) [OF inv] j True]
    from set have none: "\<not> (\<exists>k. ?h div 64 < k \<and> k \<le> unat c div 64 \<and> k mod 128 = j)"
      and "bit (window r ! j) b" by (auto simp: w split: if_splits)
    then obtain d where d: "d div 64 mod 128 = j" "d mod 64 = b" "d \<in> L \<or> d \<in> A \<and> in_ring ?h d"
      using replay_invD(5) [OF inv j b] by blast
    have "in_ring (unat c) d" if "in_ring ?h d"
    proof (rule ccontr)
      assume "\<not> in_ring (unat c) d"
      then have "d div 64 + 128 \<le> unat c div 64" by (simp add: in_ring_def)
      moreover have "?h div 64 < d div 64 + 128" using that by (simp add: in_ring_def)
      ultimately show False using none d(1) by (auto dest!: spec [of _ "d div 64 + 128"])
    qed
    with d True show ?thesis by (auto simp: replay_top_highest max_def)
  qed
qed

lemma replay_inv_advance:
  assumes inv: "replay_inv r A L"
  shows "replay_inv (replayAdvance r c) (insert (unat c) A)
           (if in_ring (unat (highest (replayAdvance r c))) (unat c) then L else insert (unat c) L)"
proof -
  define r1 where "r1 = replay_top r c"
  let ?s = "unat c div 64 mod 128"
  have hi: "highest (replayAdvance r c) = highest r1"
    by (simp add: replayAdvance_top r1_def Let_def)
  have win: "window (replayAdvance r c) = (window r1)[?s := window r1 ! ?s OR counter_mask c]"
    by (simp add: replayAdvance_top r1_def Let_def replay_slot_unat unat_div64)
  have top: "unat (highest r1) = max (unat (highest r)) (unat c)"
    by (simp add: r1_def replay_top_highest)
  have bits: "bit (window (replayAdvance r c) ! j) b \<longleftrightarrow>
      bit (window r1 ! j) b \<or> j = ?s \<and> b = unat c mod 64" if "j < 128" "b < 64" for j b
    using that replay_inv_top(1) [OF inv, of c]
    by (auto simp: win r1_def [symmetric] nth_list_update bit_or_iff bit_counter_mask)
  show ?thesis
    unfolding replay_inv_def hi
  proof (intro conjI ballI allI impI)
    show "length (window (replayAdvance r c)) = 128"
      using replay_inv_top(1) [OF inv, of c] by (simp add: win r1_def)
    show "(if in_ring (unat (highest r1)) (unat c) then L else insert (unat c) L) \<subseteq> insert (unat c) A"
      using replay_invD(2) [OF inv] by auto
    show "d \<le> unat (highest r1)" if "d \<in> insert (unat c) A" for d
      using that replay_inv_top(2) [OF inv, of d c] top by (auto simp: r1_def)
    show "bit (window (replayAdvance r c) ! (d div 64 mod 128)) (d mod 64)"
      if "d \<in> insert (unat c) A" "in_ring (unat (highest r1)) d" for d
      using that replay_inv_top(3) [OF inv, of d c] by (auto simp: bits r1_def)
    show "\<exists>d. d div 64 mod 128 = j \<and> d mod 64 = b \<and>
            (d \<in> (if in_ring (unat (highest r1)) (unat c) then L else insert (unat c) L) \<or>
             d \<in> insert (unat c) A \<and> in_ring (unat (highest r1)) d)"
      if "j < 128" "b < 64" "bit (window (replayAdvance r c) ! j) b" for j b
      using that replay_inv_top(4) [OF inv, of j b c] unfolding bits [OF that(1,2)] r1_def [symmetric] by auto
  qed
qed

section \<open>Receiving a sequence of verified packets\<close>

text \<open>A receiver checks each counter and, when it is acceptable, records it.\<close>

primrec gate_run :: "('s \<Rightarrow> 'c \<Rightarrow> bool) \<Rightarrow> ('s \<Rightarrow> 'c \<Rightarrow> 's) \<Rightarrow> 's \<Rightarrow> 'c list \<Rightarrow> bool list" where
  "gate_run ok adv s [] = []"
| "gate_run ok adv s (c # cs) = (if ok s c then True # gate_run ok adv (adv s c) cs else False # gate_run ok adv s cs)"

text \<open>The ideal window: the set of accepted counters and the highest of them.\<close>

definition spec_ok :: "nat \<times> nat set \<Rightarrow> 64 word \<Rightarrow> bool" where
  "spec_ok s c \<longleftrightarrow> unat c \<notin> snd s \<and> (fst s < unat c \<or> fst s - unat c < 8192)"

definition spec_adv :: "nat \<times> nat set \<Rightarrow> 64 word \<Rightarrow> nat \<times> nat set" where
  "spec_adv s c = (max (fst s) (unat c), insert (unat c) (snd s))"

text \<open>No packet arrives more than 127 words behind the highest counter received.\<close>

primrec within_ring :: "nat \<Rightarrow> 64 word list \<Rightarrow> bool" where
  "within_ring h [] \<longleftrightarrow> True"
| "within_ring h (c # cs) \<longleftrightarrow> in_ring h (unat c) \<and> within_ring (max h (unat c)) cs"

text \<open>
  The contract of an anti-replay filter: \<open>tracks\<close> relates the filter's state to the set
  of accepted items, \<open>covered\<close> are the items it still answers for.
\<close>

locale anti_replay =
  fixes init :: 's and ok :: "'s \<Rightarrow> 'c \<Rightarrow> bool" and adv :: "'s \<Rightarrow> 'c \<Rightarrow> 's"
    and tracks :: "'s \<Rightarrow> 'c set \<Rightarrow> bool" and covered :: "'s \<Rightarrow> 'c \<Rightarrow> bool"
  assumes tracks_init: "tracks init {}"
    and tracks_adv: "tracks s A \<Longrightarrow> covered s c \<Longrightarrow> ok s c \<Longrightarrow> tracks (adv s c) (insert c A)"
    and refuses: "tracks s A \<Longrightarrow> c \<in> A \<Longrightarrow> covered s c \<Longrightarrow> \<not> ok s c"
begin

lemma accepted_fresh:
  assumes "tracks s A" "covers s cs"
    and cov: "\<And>s c cs. covers s (c # cs) \<Longrightarrow> covered s c \<and> covers s cs \<and> (ok s c \<longrightarrow> covers (adv s c) cs)"
  shows "distinct (map fst (filter snd (zip cs (gate_run ok adv s cs)))) \<and>
         set (map fst (filter snd (zip cs (gate_run ok adv s cs)))) \<inter> A = {}"
  using assms(1,2)
proof (induction cs arbitrary: s A)
  case Nil
  then show ?case by simp
next
  case (Cons c cs)
  note c = cov [OF Cons.prems(2)]
  show ?case
  proof (cases "ok s c")
    case True
    then have "c \<notin> A" using refuses [OF Cons.prems(1)] c by blast
    moreover have "tracks (adv s c) (insert c A)" using tracks_adv [OF Cons.prems(1)] True c by blast
    ultimately show ?thesis using Cons.IH [of "adv s c" "insert c A"] True c by auto
  next
    case False
    then show ?thesis using Cons.IH [OF Cons.prems(1)] c by auto
  qed
qed

end

definition replay_tracks :: "replay \<Rightarrow> 64 word set \<Rightarrow> bool" where
  "replay_tracks r A \<longleftrightarrow> replay_inv r (unat ` A) {}"

definition replay_covered :: "replay \<Rightarrow> 64 word \<Rightarrow> bool" where
  "replay_covered r c \<longleftrightarrow> in_ring (unat (highest r)) (unat c)"

lemma highest_advance: "unat (highest (replayAdvance r c)) = max (unat (highest r)) (unat c)"
  by (simp add: replayAdvance_top Let_def replay_top_highest)

lemma in_ring_max: "in_ring (max h c) c \<longleftrightarrow> in_ring h c"
  by (auto simp: in_ring_def max_def)

lemma replay_inv_advance_ring:
  "replay_inv r A {} \<Longrightarrow> replay_covered r c \<Longrightarrow> replay_inv (replayAdvance r c) (insert (unat c) A) {}"
  using replay_inv_advance [of r A "{}" c] by (simp add: replay_covered_def highest_advance in_ring_max)

interpretation ring: anti_replay replay_init replayOK replayAdvance replay_tracks replay_covered
proof unfold_locales
  show "replay_tracks replay_init {}" by (simp add: replay_tracks_def replay_inv_init)
  show "replay_tracks (replayAdvance r c) (insert c A)" if "replay_tracks r A" "replay_covered r c" for r c A
    using that replay_inv_advance_ring by (simp add: replay_tracks_def)
  show "\<not> replayOK r c" if "replay_tracks r A" "c \<in> A" "replay_covered r c" for r c A
    using that replayOK_seen [of r "unat ` A" "{}" c] by (simp add: replay_tracks_def replay_covered_def)
qed

lemma gate_run_refines:
  "replay_inv r A {} \<Longrightarrow> within_ring (unat (highest r)) cs \<Longrightarrow>
   gate_run replayOK replayAdvance r cs = gate_run spec_ok spec_adv (unat (highest r), A) cs"
proof (induction cs arbitrary: r A)
  case Nil
  then show ?case by simp
next
  case (Cons c cs)
  let ?h = "unat (highest r)"
  have ring: "in_ring ?h (unat c)" and rest: "within_ring (max ?h (unat c)) cs" using Cons.prems(2) by auto
  have iff: "replayOK r c \<longleftrightarrow> spec_ok (?h, A) c"
  proof
    assume ok: "replayOK r c"
    then have "unat c \<notin> A" using replayOK_seen [OF Cons.prems(1)] ring by blast
    moreover have "?h < unat c \<or> ?h - unat c < 8192"
      using ok by (auto simp: replayOK_def word_less_nat_alt word_le_nat_alt unat_sub not_less split: if_splits)
    ultimately show "spec_ok (?h, A) c" by (simp add: spec_ok_def)
  next
    assume "spec_ok (?h, A) c"
    then show "replayOK r c" using replayOK_fresh [OF Cons.prems(1), of c] by (auto simp: spec_ok_def)
  qed
  have in_row: "replay_covered r c" using ring by (simp add: replay_covered_def)
  show ?case
  proof (cases "replayOK r c")
    case True
    then show ?thesis
      using Cons.IH [OF replay_inv_advance_ring [OF Cons.prems(1) in_row]] rest iff
      by (simp add: highest_advance spec_adv_def)
  next
    case False
    have "unat c \<le> ?h" using False by (auto simp: replayOK_def word_less_nat_alt split: if_splits)
    then show ?thesis using Cons.IH [OF Cons.prems(1)] rest False iff by (simp add: max_absorb1)
  qed
qed

lemma in_ring_bound: "h \<le> c + 8128 \<Longrightarrow> in_ring h c"
  using div_le_mono [of h "c + 8128" 64] by (simp add: in_ring_def)

lemma within_ring_bound:
  "(\<And>i. i < length cs \<Longrightarrow> h \<le> unat (cs ! i) + 8128) \<Longrightarrow>
   (\<And>i j. i < length cs \<Longrightarrow> j < i \<Longrightarrow> unat (cs ! j) \<le> unat (cs ! i) + 8128) \<Longrightarrow> within_ring h cs"
proof (induction cs arbitrary: h)
  case Nil
  then show ?case by simp
next
  case (Cons c cs)
  have "within_ring (max h (unat c)) cs"
  proof (rule Cons.IH)
    show "max h (unat c) \<le> unat (cs ! i) + 8128" if "i < length cs" for i
      using that Cons.prems(1) [of "Suc i"] Cons.prems(2) [of "Suc i" 0] by simp
    show "unat (cs ! j) \<le> unat (cs ! i) + 8128" if "i < length cs" "j < i" for i j
      using that Cons.prems(2) [of "Suc i" "Suc j"] by simp
  qed
  moreover have "in_ring h (unat c)" using Cons.prems(1) [of 0] in_ring_bound by simp
  ultimately show ?case by simp
qed

lemma within_ring_mono: "within_ring h cs \<Longrightarrow> g \<le> h \<Longrightarrow> within_ring g cs"
proof (induction cs arbitrary: g h)
  case (Cons c cs)
  have "in_ring g (unat c)" using Cons.prems div_le_mono [of g h 64] by (auto simp: in_ring_def)
  moreover have "within_ring (max g (unat c)) cs"
    using Cons.IH [of "max h (unat c)" "max g (unat c)"] Cons.prems by (simp add: max.mono)
  ultimately show ?case by simp
qed simp

section \<open>Properties\<close>

text \<open>C1: as long as no packet arrives more than 8128 counters behind the highest one, the ring
  decides exactly like the ideal window that remembers every accepted counter: a counter is
  accepted if and only if it was not accepted before and is less than 8192 behind the highest, and
  no counter is accepted twice.\<close>
theorem replay_window_exact:
  assumes "\<forall>i < length cs. \<forall>j < i. unat (cs ! j) \<le> unat (cs ! i) + 8128"
  shows "gate_run replayOK replayAdvance replay_init cs = gate_run spec_ok spec_adv (0, {}) cs \<and>
         distinct (map fst (filter snd (zip cs (gate_run replayOK replayAdvance replay_init cs))))"
proof
  have h: "unat (highest replay_init) = 0" by (simp add: replay_init_def)
  have w: "within_ring 0 cs" using assms by (intro within_ring_bound) auto
  show "gate_run replayOK replayAdvance replay_init cs = gate_run spec_ok spec_adv (0, {}) cs"
    using gate_run_refines [OF replay_inv_init] w by (simp add: h)
  have "distinct (map fst (filter snd (zip cs (gate_run replayOK replayAdvance replay_init cs)))) \<and>
        set (map fst (filter snd (zip cs (gate_run replayOK replayAdvance replay_init cs)))) \<inter> {} = {}"
  proof (rule ring.accepted_fresh [where covers = "\<lambda>r. within_ring (unat (highest r))"])
    show "replay_tracks replay_init {}" by (rule ring.tracks_init)
    show "within_ring (unat (highest replay_init)) cs" using w by (simp add: h)
    show "replay_covered r c \<and> within_ring (unat (highest r)) cs' \<and>
        (replayOK r c \<longrightarrow> within_ring (unat (highest (replayAdvance r c))) cs')"
      if "within_ring (unat (highest r)) (c # cs')" for r c cs'
      using that within_ring_mono [of "max (unat (highest r)) (unat c)" cs' "unat (highest r)"]
      by (simp add: replay_covered_def highest_advance)
  qed
  then show "distinct (map fst (filter snd (zip cs (gate_run replayOK replayAdvance replay_init cs))))" by blast
qed

lemma replay_window_exact_witness:
  "gate_run replayOK replayAdvance replay_init [3, 1, 3, 2] = gate_run spec_ok spec_adv (0, {}) [3, 1, 3, 2]"
proof -
  have bound: "\<forall>i < length [3, 1, 3, 2 :: 64 word]. \<forall>j < i. unat ([3, 1, 3, 2 :: 64 word] ! j) \<le> unat ([3, 1, 3, 2 :: 64 word] ! i) + 8128"
  proof (intro allI impI)
    fix i j assume "i < length [3, 1, 3, 2 :: 64 word]" "j < i"
    then have "[3, 1, 3, 2] ! j \<in> set [3, 1, 3, 2 :: 64 word]" by (intro nth_mem) simp
    then have "unat ([3, 1, 3, 2 :: 64 word] ! j) \<le> 8128" by auto
    then show "unat ([3, 1, 3, 2 :: 64 word] ! j) \<le> unat ([3, 1, 3, 2 :: 64 word] ! i) + 8128" by simp
  qed
  show ?thesis using replay_window_exact [OF bound] by (rule conjunct1)
qed

text \<open>C2: the oldest word of the claimed 8192-counter window is not protected: once the
  highest counter enters the word exactly 128 words ahead, the slot is cleared, and an accepted
  counter of that word beyond the first bit is accepted a second time although it
  is still inside the window the staleness test claims.\<close>
theorem replay_window_gap:
  assumes t: "unat t = 64 * (unat c div 64 + 128)" and c: "0 < unat c mod 64"
  shows "gate_run replayOK replayAdvance replay_init [c, t, c] = [True, True, True] \<and>
         unat t - unat c < unat replayWindowSize"
proof -
  define q m where "q = unat c div 64" and "m = unat c mod 64"
  have "unat c = 64 * q + m" "m < 64" "0 < m" "unat t = 64 * q + 8192" using c t by (simp_all add: q_def m_def)
  then have top: "unat t < unat c + 8192" and top2: "unat c < unat t" by simp_all
  note top = top top2
  define r1 where "r1 = replayAdvance replay_init c"
  define r2 where "r2 = replayAdvance r1 t"
  have i1: "replay_inv r1 {unat c} {}"
    unfolding r1_def
    by (intro replay_inv_advance_ring replay_inv_init)
       (simp add: replay_covered_def in_ring_def replay_init_def)
  have h1: "unat (highest r1) = unat c" by (simp add: r1_def highest_advance replay_init_def)
  have i2: "replay_inv r2 {unat t, unat c} {}"
    unfolding r2_def using replay_inv_advance_ring [OF i1, of t] t h1
    by (simp add: replay_covered_def in_ring_def)
  have h2: "unat (highest r2) = unat t" using top by (simp add: r2_def highest_advance h1)
  have "\<not> bit (window r2 ! (unat c div 64 mod 128)) (unat c mod 64)"
    using replay_invD(5) [OF i2, of "unat c div 64 mod 128" "unat c mod 64"] c t
    by (auto simp: in_ring_def h2)
  then have "replayOK r2 c"
    using top by (auto simp: replayOK_def word_less_nat_alt word_le_nat_alt unat_sub h2 and_counter_mask replay_slot_unat unat_div64)
  moreover have "replayOK replay_init c"
    by (rule replayOK_fresh [OF replay_inv_init]) (simp_all add: replay_init_def)
  moreover have "replayOK r1 t" using top h1 by (simp add: replayOK_def word_less_nat_alt)
  ultimately show ?thesis using top by (simp add: r1_def r2_def)
qed

lemma replay_window_gap_witness:
  "gate_run replayOK replayAdvance replay_init [1, 8192, 1] = [True, True, True]"
  using replay_window_gap [of 8192 1] by simp

end
