(* ===== verification/Session_Cipher.thy ===== *)
theory Session_Cipher
  imports Key_Material Replay_Window
begin

text \<open>
  The session ciphers of internal/crypto/crypto.go. AES-256-GCM is a parameter of the
  definitions, as two functions of key, nonce, text and associated data: \<open>seal\<close> and
  \<open>opn\<close> (\<open>None\<close> when the tag does not verify); what the code relies on is
  \<open>aead_correct\<close>: opening what was sealed under the same key, nonce and data returns it.
  A cipher is the key, the send counter and the replay window; \<open>Seal\<close> and \<open>Open\<close>
  return the updated cipher. The receiving side is the client of the anti-replay contract.
\<close>

type_synonym aead_seal = "bytes \<Rightarrow> bytes \<Rightarrow> bytes \<Rightarrow> bytes \<Rightarrow> bytes"
type_synonym aead_open = "bytes \<Rightarrow> bytes \<Rightarrow> bytes \<Rightarrow> bytes \<Rightarrow> bytes option"

definition aead_correct :: "aead_seal \<Rightarrow> aead_open \<Rightarrow> bool" where
  "aead_correct seal opn \<longleftrightarrow> (\<forall>k n p a. opn k n (seal k n p a) a = Some p)"

datatype cipher_error = BadKeySize | ErrReplay | AuthFailed | NoRandom | PayloadTooShort

record Cipher =
  aead_key :: bytes
  counter :: "64 word"
  rwin :: replay

text \<open>AES accepts keys of 16, 24 or 32 bytes.\<close>

definition newCipher :: "bytes \<Rightarrow> cipher_error + Cipher" where
  "newCipher key =
     (if length key \<notin> {16, 24, 32} then Inl BadKeySize
      else Inr \<lparr>aead_key = key, counter = 0, rwin = replay_init\<rparr>)"

definition nonceFor :: "64 word \<Rightarrow> bytes" where
  "nonceFor c =
     [0, 0, 0, 0,
      ucast (drop_bit 56 c), ucast (drop_bit 48 c), ucast (drop_bit 40 c), ucast (drop_bit 32 c),
      ucast (drop_bit 24 c), ucast (drop_bit 16 c), ucast (drop_bit 8 c), ucast c]"

definition Cipher_Seal :: "aead_seal \<Rightarrow> Cipher \<Rightarrow> bytes \<Rightarrow> bytes \<Rightarrow> bytes \<Rightarrow> Cipher \<times> 64 word \<times> bytes" where
  "Cipher_Seal seal c dst plaintext aad =
     (let n = counter c
      in (c\<lparr>counter := n + 1\<rparr>, n, dst @ seal (aead_key c) (nonceFor n) plaintext aad))"

definition Cipher_Open ::
  "aead_open \<Rightarrow> Cipher \<Rightarrow> bytes \<Rightarrow> bytes \<Rightarrow> bytes \<Rightarrow> 64 word \<Rightarrow> Cipher \<times> (cipher_error + bytes)" where
  "Cipher_Open opn c dst ciphertext aad ctr =
     (if \<not> replayOK (rwin c) ctr then (c, Inl ErrReplay)
      else case opn (aead_key c) (nonceFor ctr) ciphertext aad of
        None \<Rightarrow> (c, Inl AuthFailed)
      | Some pt \<Rightarrow> (c\<lparr>rwin := replayAdvance (rwin c) ctr\<rparr>, Inr (dst @ pt)))"

record Session =
  s_send :: Cipher
  s_recv :: Cipher

definition NewSession :: "SessionKeys \<Rightarrow> cipher_error + Session" where
  "NewSession keys =
     (case newCipher (Send keys) of
        Inl e \<Rightarrow> Inl e
      | Inr s \<Rightarrow> (case newCipher (Receive keys) of
          Inl e \<Rightarrow> Inl e
        | Inr r \<Rightarrow> Inr \<lparr>s_send = s, s_recv = r\<rparr>))"

definition Session_Seal :: "aead_seal \<Rightarrow> Session \<Rightarrow> bytes \<Rightarrow> bytes \<Rightarrow> bytes \<Rightarrow> Session \<times> 64 word \<times> bytes" where
  "Session_Seal seal s dst plaintext aad =
     (case Cipher_Seal seal (s_send s) dst plaintext aad of (c, n, out) \<Rightarrow> (s\<lparr>s_send := c\<rparr>, n, out))"

definition Session_Open ::
  "aead_open \<Rightarrow> Session \<Rightarrow> bytes \<Rightarrow> bytes \<Rightarrow> bytes \<Rightarrow> 64 word \<Rightarrow> Session \<times> (cipher_error + bytes)" where
  "Session_Open opn s dst ciphertext aad ctr =
     (case Cipher_Open opn (s_recv s) dst ciphertext aad ctr of (c, r) \<Rightarrow> (s\<lparr>s_recv := c\<rparr>, r))"

text \<open>\<open>rnd\<close>: the 12 bytes read from the random source, or \<open>None\<close> when the read fails.\<close>

definition SealWithKey :: "aead_seal \<Rightarrow> bytes option \<Rightarrow> bytes \<Rightarrow> bytes \<Rightarrow> bytes \<Rightarrow> cipher_error + bytes" where
  "SealWithKey seal rnd key plaintext aad =
     (case newCipher key of
        Inl e \<Rightarrow> Inl e
      | Inr c \<Rightarrow> (case rnd of
          None \<Rightarrow> Inl NoRandom
        | Some nonce \<Rightarrow> Inr (nonce @ seal (aead_key c) nonce plaintext aad)))"

definition OpenWithKey :: "aead_open \<Rightarrow> bytes \<Rightarrow> bytes \<Rightarrow> bytes \<Rightarrow> cipher_error + bytes" where
  "OpenWithKey opn key inp aad =
     (if length inp < 12 then Inl PayloadTooShort
      else case newCipher key of
        Inl e \<Rightarrow> Inl e
      | Inr c \<Rightarrow> (case opn (aead_key c) (take 12 inp) (drop 12 inp) aad of
          None \<Rightarrow> Inl AuthFailed
        | Some pt \<Rightarrow> Inr pt))"

section \<open>Nonces\<close>

lemma nonceFor_put64: "nonceFor c = replicate 4 0 @ put64 c"
  by (simp add: nonceFor_def put64_def eval_nat_numeral)

lemma nonceFor_inj: "nonceFor a = nonceFor b \<longleftrightarrow> a = b"
  by (metis nonceFor_put64 append_same_eq same_append_eq get64_put64')

text \<open>A sender seals a list of messages, each with its associated data.\<close>

primrec seal_run :: "aead_seal \<Rightarrow> Session \<Rightarrow> (bytes \<times> bytes) list \<Rightarrow> (bytes \<times> bytes \<times> 64 word) list" where
  "seal_run seal s [] = []"
| "seal_run seal s (m # ms) =
     (case Session_Seal seal s [] (fst m) (snd m) of (s', n, ct) \<Rightarrow> (ct, snd m, n) # seal_run seal s' ms)"

text \<open>A receiver opens packets (ciphertext, associated data, counter) one after the other.\<close>

primrec open_run :: "aead_open \<Rightarrow> Session \<Rightarrow> (bytes \<times> bytes \<times> 64 word) list \<Rightarrow> (cipher_error + bytes) list" where
  "open_run opn s [] = []"
| "open_run opn s (p # ps) =
     (case Session_Open opn s [] (fst p) (fst (snd p)) (snd (snd p)) of (s', r) \<Rightarrow> r # open_run opn s' ps)"

lemma seal_run_nth:
  "i < length ms \<Longrightarrow> seal_run seal s ms ! i =
     (seal (aead_key (s_send s)) (nonceFor (counter (s_send s) + of_nat i)) (fst (ms ! i)) (snd (ms ! i)),
      snd (ms ! i), counter (s_send s) + of_nat i)"
proof (induction ms arbitrary: s i)
  case Nil
  then show ?case by simp
next
  case (Cons m ms)
  then show ?case
    by (cases i) (simp_all add: Session_Seal_def Cipher_Seal_def Let_def ac_simps)
qed

lemma length_seal_run [simp]: "length (seal_run seal s ms) = length ms"
  by (induction ms arbitrary: s) (simp_all add: Session_Seal_def Cipher_Seal_def Let_def)

text \<open>Packets whose tags verify pass the window alone; a packet that does not verify leaves
  the receiver as it was.\<close>

definition authentic :: "aead_open \<Rightarrow> bytes \<Rightarrow> bytes \<times> bytes \<times> 64 word \<Rightarrow> bool" where
  "authentic opn key p \<longleftrightarrow> opn key (nonceFor (snd (snd p))) (fst p) (fst (snd p)) \<noteq> None"

definition plain_of :: "aead_open \<Rightarrow> bytes \<Rightarrow> bytes \<times> bytes \<times> 64 word \<Rightarrow> bytes" where
  "plain_of opn key p = the (opn key (nonceFor (snd (snd p))) (fst p) (fst (snd p)))"

lemma open_run_authentic:
  "list_all (authentic opn (aead_key (s_recv s))) ps \<Longrightarrow>
   open_run opn s ps =
     map2 (\<lambda>v p. if v then Inr (plain_of opn (aead_key (s_recv s)) p) else Inl ErrReplay)
       (gate_run replayOK replayAdvance (rwin (s_recv s)) (map (snd \<circ> snd) ps)) ps"
proof (induction ps arbitrary: s)
  case Nil
  then show ?case by simp
next
  case (Cons p ps)
  then show ?case
    by (cases p) (auto simp: Session_Open_def Cipher_Open_def authentic_def plain_of_def split: option.splits)
qed

lemma Session_Open_forged:
  "\<not> authentic opn (aead_key (s_recv s)) p \<Longrightarrow>
   fst (Session_Open opn s d (fst p) (fst (snd p)) (snd (snd p))) = s"
  by (auto simp: Session_Open_def Cipher_Open_def authentic_def split: option.splits)

lemma Session_Open_key [simp]:
  "aead_key (s_recv (fst (Session_Open opn s d ct aad n))) = aead_key (s_recv s)"
  by (auto simp: Session_Open_def Cipher_Open_def split: option.splits)

lemma gate_run_spec_bounded:
  "(\<And>i. i < length cs \<Longrightarrow> h \<le> unat (cs ! i) + 8128) \<Longrightarrow>
   (\<And>i j. i < length cs \<Longrightarrow> j < i \<Longrightarrow> unat (cs ! j) \<le> unat (cs ! i) + 8128) \<Longrightarrow>
   gate_run spec_ok spec_adv (h, A) cs =
     map (\<lambda>k. unat (cs ! k) \<notin> A \<union> unat ` set (take k cs)) [0..<length cs]"
proof (induction cs arbitrary: h A)
  case Nil
  then show ?case by simp
next
  case (Cons c cs)
  have b1: "max h (unat c) \<le> unat (cs ! i) + 8128" if "i < length cs" for i
    using that Cons.prems(1) [of "Suc i"] Cons.prems(2) [of "Suc i" 0] by simp
  have b0: "h \<le> unat (cs ! i) + 8128" if "i < length cs" for i
    using b1 [OF that] by simp
  have b2: "unat (cs ! j) \<le> unat (cs ! i) + 8128" if "i < length cs" "j < i" for i j
    using that Cons.prems(2) [of "Suc i" "Suc j"] by simp
  have near: "h < unat c \<or> h - unat c < 8192" using Cons.prems(1) [of 0] by auto
  have up: "[0..<Suc (length cs)] = 0 # map Suc [0..<length cs]" by (simp add: map_Suc_upt upt_conv_Cons del: upt_Suc)
  show ?case
  proof (cases "unat c \<in> A")
    case True
    then have "insert (unat c) A = A" by blast
    then show ?thesis
      using True Cons.IH [OF b0 b2, of A] near
      by (simp add: spec_ok_def up del: upt_Suc) (metis Un_insert_right image_insert insert_absorb insert_iff)
  next
    case False
    then show ?thesis
      using Cons.IH [OF b1 b2, of "insert (unat c) A"] near
      by (auto simp: spec_ok_def spec_adv_def up simp del: upt_Suc)
  qed
qed

section \<open>Properties\<close>

text \<open>C3: exactly-once delivery. Two sessions derived from the same handshake secrets, one as
  initiator and one as responder: whatever the network does to the initiator's packets (loss,
  duplication, reordering by at most 8128 packets), the responder recovers the plaintext of
  every packet at its first arrival and reports every later copy as a replay.\<close>
theorem session_exactly_once:
  assumes aead: "aead_correct seal opn"
    and ka: "DeriveSessionKeys hmac ecdh psk transcript True = Some ka" "NewSession ka = Inr a"
    and kb: "DeriveSessionKeys hmac ecdh psk transcript False = Some kb" "NewSession kb = Inr b"
    and msgs: "length msgs \<le> 2 ^ 64" "\<forall>i\<in>set net. i < length msgs"
    and order: "\<forall>i < length net. \<forall>j < i. net ! j \<le> net ! i + 8128"
  shows "open_run opn b (map (\<lambda>i. seal_run seal a msgs ! i) net) =
    map (\<lambda>k. if net ! k \<in> set (take k net) then Inl ErrReplay else Inr (fst (msgs ! (net ! k)))) [0..<length net]"
proof -
  let ?ps = "map (\<lambda>i. seal_run seal a msgs ! i) net"
  let ?cs = "map of_nat net :: 64 word list"
  have a0: "s_send a = \<lparr>aead_key = Send ka, counter = 0, rwin = replay_init\<rparr>"
    and b0: "s_recv b = \<lparr>aead_key = Receive kb, counter = 0, rwin = replay_init\<rparr>"
    using ka(2) kb(2) by (auto simp: NewSession_def newCipher_def split: sum.splits if_splits)
  have key: "Receive kb = Send ka"
    using ka(1) kb(1) by (auto simp: DeriveSessionKeys_def Let_def split: option.splits)
  have un: "unat (of_nat i :: 64 word) = i" if "i \<in> set net" for i
    using that msgs by (intro unat_of_nat_len) force
  have nth: "seal_run seal a msgs ! i =
      (seal (Send ka) (nonceFor (of_nat i)) (fst (msgs ! i)) (snd (msgs ! i)), snd (msgs ! i), of_nat i)"
    if "i \<in> set net" for i
    using that msgs(2) a0 by (simp add: seal_run_nth)
  have ps: "?ps = map (\<lambda>i. (seal (Send ka) (nonceFor (of_nat i)) (fst (msgs ! i)) (snd (msgs ! i)),
      snd (msgs ! i), of_nat i)) net"
    using nth by simp
  have auth: "list_all (authentic opn (aead_key (s_recv b))) ?ps"
    using aead unfolding ps b0 by (simp add: list_all_iff authentic_def aead_correct_def key)
  have "gate_run replayOK replayAdvance replay_init ?cs = gate_run spec_ok spec_adv (0, {}) ?cs"
    using gate_run_refines [OF replay_inv_init, of ?cs] within_ring_bound [of ?cs 0] order un
    by (simp add: replay_init_def)
  also have "\<dots> = map (\<lambda>k. unat (?cs ! k) \<notin> {} \<union> unat ` set (take k ?cs)) [0..<length ?cs]"
    using order un by (intro gate_run_spec_bounded) simp_all
  also have "\<dots> = map (\<lambda>k. net ! k \<notin> set (take k net)) [0..<length net]"
  proof (rule map_cong)
    fix k assume "k \<in> set [0..<length net]"
    then have k: "k < length net" by simp
    have "unat ` set (take k ?cs) = (\<lambda>i. unat (of_nat i :: 64 word)) ` set (take k net)"
      by (simp add: take_map image_image)
    also have "\<dots> = set (take k net)"
      using un by (subst image_cong [OF refl, of _ _ "\<lambda>i. i"]) (auto dest: in_set_takeD)
    finally show "(unat (?cs ! k) \<notin> {} \<union> unat ` set (take k ?cs)) = (net ! k \<notin> set (take k net))"
      using k un by simp
  qed simp
  finally have run: "gate_run replayOK replayAdvance replay_init ?cs = map (\<lambda>k. net ! k \<notin> set (take k net)) [0..<length net]" .
  have ctrs: "map (snd \<circ> snd) ?ps = ?cs" unfolding ps by simp
  have plain: "plain_of opn (Send ka) (?ps ! k) = fst (msgs ! (net ! k))" if "k < length net" for k
    using that aead unfolding ps by (simp add: plain_of_def aead_correct_def)
  show ?thesis
    unfolding open_run_authentic [OF auth] ctrs using run plain
    by (intro nth_equalityI) (simp_all add: b0 key)
qed

lemma session_exactly_once_witness:
  "\<exists>a b. NewSession \<lparr>Send = replicate 32 1, Receive = replicate 32 1\<rparr> = Inr a \<and>
     open_run (\<lambda>k n c a. Some c) b (map (\<lambda>i. seal_run (\<lambda>k n p a. p) a [([1], []), ([2], [])] ! i) [1, 0, 1]) =
     [Inr [2], Inr [1], Inl ErrReplay]"
proof -
  let ?h = "\<lambda>k m. replicate 32 1 :: bytes"
  have len: "\<And>k m. length (?h k m) = 32" by simp
  have st: "hkdf_stream ?h p i 2 = replicate 64 1" for p i
    by (simp add: hkdf_stream_def numeral_2_eq_2 replicate_add [symmetric])
  obtain x y where xy: "length x = KeySize" "length y = KeySize" "x @ y = replicate 64 1"
    "DeriveSessionKeys ?h [9] [8] [7] True = Some \<lparr>Send = x, Receive = y\<rparr>"
    "DeriveSessionKeys ?h [9] [8] [7] False = Some \<lparr>Send = y, Receive = x\<rparr>"
    using DeriveSessionKeys_halves [OF len, of "[7]" "[9]" "[8]"] unfolding st by blast
  have "x = take 32 (replicate 64 1)" "y = drop 32 (replicate 64 1)"
    using xy(1,2) arg_cong [OF xy(3), of "take 32"] arg_cong [OF xy(3), of "drop 32"] by (simp_all add: KeySize_def)
  then have x: "x = replicate 32 1" and y: "y = replicate 32 1" by simp_all
  define s where "s = \<lparr>s_send = \<lparr>aead_key = replicate 32 1, counter = 0, rwin = replay_init\<rparr>,
     s_recv = \<lparr>aead_key = replicate 32 1, counter = 0, rwin = replay_init\<rparr>\<rparr>"
  have ns: "NewSession \<lparr>Send = replicate 32 1, Receive = replicate 32 1\<rparr> = Inr s"
    by (simp add: NewSession_def newCipher_def s_def)
  have order: "\<forall>i < length [1, 0, 1 :: nat]. \<forall>j < i. [1, 0, 1] ! j \<le> [1, 0, 1 :: nat] ! i + 8128"
    by (simp add: less_Suc_eq numeral_eq_Suc nth_Cons split: nat.splits)
  have "aead_correct (\<lambda>k n p a. p) (\<lambda>k n c a. Some c)" by (simp add: aead_correct_def)
  note session_exactly_once [OF this xy(4) _ xy(5), unfolded x y, OF ns ns,
      of "[([1], []), ([2], [])]" "[1, 0, 1]"]
  with order show ?thesis using ns by (intro exI [of _ s]) (simp add: upt_rec)
qed

text \<open>a packet that does not authenticate cannot disturb a session: the packets that do
  authenticate get the same answers as if the others had never arrived, and the others are
  rejected.\<close>
theorem forged_packets_ignored:
  "map snd (filter (\<lambda>(p, r). authentic opn (aead_key (s_recv s)) p) (zip ps (open_run opn s ps))) =
     open_run opn s (filter (authentic opn (aead_key (s_recv s))) ps) \<and>
   list_all (\<lambda>(p, r). authentic opn (aead_key (s_recv s)) p \<or> (\<exists>e. r = Inl e)) (zip ps (open_run opn s ps))"
proof (induction ps arbitrary: s)
  case Nil
  then show ?case by simp
next
  case (Cons p ps)
  obtain s' r where sr: "Session_Open opn s [] (fst p) (fst (snd p)) (snd (snd p)) = (s', r)" by force
  have key: "aead_key (s_recv s') = aead_key (s_recv s)"
    using Session_Open_key [of opn s "[]" "fst p" "fst (snd p)" "snd (snd p)"] sr by simp
  show ?case
  proof (cases "authentic opn (aead_key (s_recv s)) p")
    case True
    then show ?thesis using Cons.IH [of s'] sr by (simp add: key)
  next
    case False
    then have "s' = s" using Session_Open_forged [OF False, of "[]"] sr by simp
    moreover have "\<exists>e. r = Inl e"
      using False sr by (auto simp: Session_Open_def Cipher_Open_def authentic_def split: if_splits option.splits)
    ultimately show ?thesis using Cons.IH [of s] sr False by simp
  qed
qed

lemma forged_packets_ignored_witness:
  "open_run (\<lambda>k n c a. if c = [] then None else Some c)
     \<lparr>s_send = \<lparr>aead_key = [], counter = 0, rwin = replay_init\<rparr>, s_recv = \<lparr>aead_key = [], counter = 0, rwin = replay_init\<rparr>\<rparr>
     (filter (\<lambda>p. fst p \<noteq> []) [([], [], 5), ([1], [], 5)]) = [Inr [1]] \<and>
   map snd (filter (\<lambda>(p, r). authentic (\<lambda>k n c a. if c = [] then None else Some c) [] p)
     (zip [([], [], 5), ([1], [], 5)] (open_run (\<lambda>k n c a. if c = [] then None else Some c)
     \<lparr>s_send = \<lparr>aead_key = [], counter = 0, rwin = replay_init\<rparr>, s_recv = \<lparr>aead_key = [], counter = 0, rwin = replay_init\<rparr>\<rparr>
     [([], [], 5), ([1], [], 5)]))) = [Inr [1]]"
  using forged_packets_ignored [of "\<lambda>k n c a. if c = [] then None else Some c"
     "\<lparr>s_send = \<lparr>aead_key = [], counter = 0, rwin = replay_init\<rparr>, s_recv = \<lparr>aead_key = [], counter = 0, rwin = replay_init\<rparr>\<rparr>"
     "[([], [], 5), ([1], [], 5)]"]
  by (simp add: authentic_def Session_Open_def Cipher_Open_def replayOK_def replay_init_def)

text \<open>C4: a session never seals two messages under the same nonce in its first 2^64 messages,
  and the counter it reports is the one the nonce was built from.\<close>
theorem nonces_never_repeat:
  assumes "length ms \<le> 2 ^ 64"
  shows "distinct (map (\<lambda>p. nonceFor (snd (snd p))) (seal_run seal s ms)) \<and>
    (\<forall>i < length ms. fst (seal_run seal s ms ! i) =
       seal (aead_key (s_send s)) (nonceFor (snd (snd (seal_run seal s ms ! i)))) (fst (ms ! i)) (snd (ms ! i)))"
proof -
  have u: "unat (of_nat i :: 64 word) = i" if "i < length ms" for i
    using that assms by (intro unat_of_nat_len) simp
  have "i = j" if "i < length ms" "j < length ms" "(of_nat i :: 64 word) = of_nat j" for i j
    using u [OF that(1)] u [OF that(2)] that(3) by metis
  then have "distinct (map (\<lambda>p. nonceFor (snd (snd p))) (seal_run seal s ms))"
    unfolding distinct_conv_nth by (intro allI impI) (simp add: seal_run_nth nonceFor_inj, metis)
  then show ?thesis by (simp add: seal_run_nth)
qed

lemma nonces_never_repeat_witness:
  "distinct (map (\<lambda>p. nonceFor (snd (snd p))) (seal_run (\<lambda>k n p a. p)
     \<lparr>s_send = \<lparr>aead_key = [], counter = 0, rwin = replay_init\<rparr>, s_recv = \<lparr>aead_key = [], counter = 0, rwin = replay_init\<rparr>\<rparr>
     [([1], []), ([1], [])]))"
  by (rule conjunct1, rule nonces_never_repeat) simp

text \<open>a handshake body sealed under a pre-shared key opens under that key with the same
  associated data, and every failure before the tag check is an error of its own.\<close>
theorem OpenWithKey_SealWithKey:
  assumes "aead_correct seal opn" "length key = KeySize" "length nonce = 12"
  shows "(\<exists>out. SealWithKey seal (Some nonce) key p aad = Inr out \<and> OpenWithKey opn key out aad = Inr p) \<and>
    SealWithKey seal None key p aad = Inl NoRandom \<and>
    (length inp < 12 \<longrightarrow> OpenWithKey opn key inp aad = Inl PayloadTooShort)"
  using assms by (auto simp: SealWithKey_def OpenWithKey_def newCipher_def aead_correct_def KeySize_def)

lemma OpenWithKey_SealWithKey_witness:
  "OpenWithKey (\<lambda>k n c a. Some c) (replicate 32 0) [1, 2] [] = Inl PayloadTooShort"
proof -
  have "aead_correct (\<lambda>k n p a. p) (\<lambda>k n c a. Some c)" by (simp add: aead_correct_def)
  from OpenWithKey_SealWithKey [OF this, of "replicate 32 0" "replicate 12 0" "[]" "[]" "[1, 2]"]
  show ?thesis by (simp add: KeySize_def)
qed

end
