(* ===== verification/Auth_Throttle.thy ===== *)
theory Auth_Throttle
  imports Wire_Prelude
begin

text \<open>
  The brute-force throttle of internal/ratelimit/ratelimit.go. A time is the number of
  nanoseconds since Go's zero time, so \<open>IsZero\<close> is being 0; the injected clock is
  the argument \<open>now\<close>. Every method holds the mutex from start to end and is one
  transition. The abstract policy keeps the whole history of counted failures and never
  collects garbage; \<open>throttle_rel\<close> relates it to the pruned and collected table.
\<close>

section \<open>The throttle\<close>

record entry =
  fails :: "int list"
  lastCounted :: int
  banUntil :: int

record Throttle =
  tmax :: int
  twindow :: int
  tban :: int
  tcoalesce :: int
  tstate :: "string \<Rightarrow> entry option"

definition New :: "int \<Rightarrow> int \<Rightarrow> int \<Rightarrow> int \<Rightarrow> Throttle" where
  "New mx win bn coal = \<lparr>tmax = mx, twindow = win, tban = bn, tcoalesce = coal, tstate = Map.empty\<rparr>"

definition zero_entry :: entry where
  "zero_entry = \<lparr>fails = [], lastCounted = 0, banUntil = 0\<rparr>"

definition Banned :: "Throttle \<Rightarrow> int \<Rightarrow> string \<Rightarrow> bool" where
  "Banned t now key = (case tstate t key of None \<Rightarrow> False | Some e \<Rightarrow> now < banUntil e)"

definition Fail :: "Throttle \<Rightarrow> int \<Rightarrow> string \<Rightarrow> Throttle \<times> bool" where
  "Fail t now key =
     (let e = (case tstate t key of None \<Rightarrow> zero_entry | Some e \<Rightarrow> e);
          put = (\<lambda>e. t\<lparr>tstate := (tstate t)(key \<mapsto> e)\<rparr>)
      in if now < banUntil e then (put e, True)
         else if tcoalesce t > 0 \<and> lastCounted e \<noteq> 0 \<and> now - lastCounted e < tcoalesce t then (put e, False)
         else let cutoff = now - twindow t;
                  kept = filter (\<lambda>ts. ts > cutoff) (fails e);
                  e1 = e\<lparr>fails := kept @ [now], lastCounted := now\<rparr>
              in if int (length (fails e1)) \<ge> tmax t
                 then (put (e1\<lparr>banUntil := now + tban t, fails := []\<rparr>), True)
                 else (put e1, False))"

definition Reset :: "Throttle \<Rightarrow> string \<Rightarrow> Throttle" where
  "Reset t key = t\<lparr>tstate := (tstate t)(key := None)\<rparr>"

definition BanUntil :: "Throttle \<Rightarrow> int \<Rightarrow> string \<Rightarrow> int" where
  "BanUntil t now key =
     (case tstate t key of Some e \<Rightarrow> if now < banUntil e then banUntil e else 0 | None \<Rightarrow> 0)"

definition GC :: "Throttle \<Rightarrow> int \<Rightarrow> Throttle" where
  "GC t now =
     t\<lparr>tstate := (\<lambda>k. case tstate t k of
         None \<Rightarrow> None
       | Some e \<Rightarrow> if now < banUntil e then Some e
                   else if lastCounted e < now - twindow t then None else Some e)\<rparr>"

section \<open>The policy\<close>

text \<open>Per key: the counted failures since the last ban, the last counted failure and the end of the ban.\<close>

record policy =
  p_hist :: "int list"
  p_last :: int
  p_ban :: int

definition no_policy :: policy where "no_policy = \<lparr>p_hist = [], p_last = 0, p_ban = 0\<rparr>"

definition policy_fail :: "Throttle \<Rightarrow> policy \<Rightarrow> int \<Rightarrow> policy \<times> bool" where
  "policy_fail t p now =
     (if now < p_ban p then (p, True)
      else if tcoalesce t > 0 \<and> p_last p \<noteq> 0 \<and> now - p_last p < tcoalesce t then (p, False)
      else if tmax t \<le> 1 + int (length (filter (\<lambda>ts. now - twindow t < ts) (p_hist p)))
           then (\<lparr>p_hist = [], p_last = now, p_ban = now + tban t\<rparr>, True)
           else (\<lparr>p_hist = p_hist p @ [now], p_last = now, p_ban = p_ban p\<rparr>, False))"

datatype t_event = EFail int string | EBanned int string | EReset int string | EGC int | EUntil int string

fun event_time :: "t_event \<Rightarrow> int" where
  "event_time (EFail n _) = n" | "event_time (EBanned n _) = n" | "event_time (EReset n _) = n"
| "event_time (EGC n) = n" | "event_time (EUntil n _) = n"

text \<open>The answer of an event: a ban verdict or an expiry time.\<close>

fun throttle_step :: "Throttle \<Rightarrow> t_event \<Rightarrow> Throttle \<times> (bool + int) option" where
  "throttle_step t (EFail n k) = (case Fail t n k of (t', b) \<Rightarrow> (t', Some (Inl b)))"
| "throttle_step t (EBanned n k) = (t, Some (Inl (Banned t n k)))"
| "throttle_step t (EReset n k) = (Reset t k, None)"
| "throttle_step t (EGC n) = (GC t n, None)"
| "throttle_step t (EUntil n k) = (t, Some (Inr (BanUntil t n k)))"

fun policy_step :: "Throttle \<Rightarrow> (string \<Rightarrow> policy) \<Rightarrow> t_event \<Rightarrow> (string \<Rightarrow> policy) \<times> (bool + int) option" where
  "policy_step t p (EFail n k) = (case policy_fail t (p k) n of (q, b) \<Rightarrow> (p(k := q), Some (Inl b)))"
| "policy_step t p (EBanned n k) = (p, Some (Inl (n < p_ban (p k))))"
| "policy_step t p (EReset n k) = (p(k := no_policy), None)"
| "policy_step t p (EGC n) = (p, None)"
| "policy_step t p (EUntil n k) = (p, Some (Inr (if n < p_ban (p k) then p_ban (p k) else 0)))"

primrec throttle_run :: "Throttle \<Rightarrow> t_event list \<Rightarrow> (bool + int) option list" where
  "throttle_run t [] = []"
| "throttle_run t (e # es) = (case throttle_step t e of (t', r) \<Rightarrow> r # throttle_run t' es)"

primrec policy_run :: "Throttle \<Rightarrow> (string \<Rightarrow> policy) \<Rightarrow> t_event list \<Rightarrow> (bool + int) option list" where
  "policy_run t p [] = []"
| "policy_run t p (e # es) = (case policy_step t p e of (p', r) \<Rightarrow> r # policy_run t p' es)"

section \<open>The table implements the policy\<close>

definition entry_rel :: "Throttle \<Rightarrow> int \<Rightarrow> entry option \<Rightarrow> policy \<Rightarrow> bool" where
  "entry_rel t now eo p \<longleftrightarrow>
     (\<forall>ts\<in>set (p_hist p). ts \<le> p_last p) \<and> p_last p \<le> now \<and>
     (case eo of
        None \<Rightarrow> p = no_policy \<or> (p_ban p \<le> now \<and> p_last p < now - twindow t)
      | Some e \<Rightarrow> lastCounted e = p_last p \<and> (banUntil e = p_ban p \<or> banUntil e \<le> now \<and> p_ban p \<le> now) \<and>
          (\<forall>c \<ge> p_last p - twindow t. filter (\<lambda>ts. c < ts) (fails e) = filter (\<lambda>ts. c < ts) (p_hist p)))"

lemma entry_rel_later: "entry_rel t now eo p \<Longrightarrow> now \<le> now' \<Longrightarrow> entry_rel t now' eo p"
  by (auto simp: entry_rel_def split: option.splits)

lemma entry_rel_no_policy: "0 \<le> now \<Longrightarrow> entry_rel t now None no_policy"
  by (simp add: entry_rel_def no_policy_def)

definition throttle_rel :: "Throttle \<Rightarrow> int \<Rightarrow> (string \<Rightarrow> policy) \<Rightarrow> bool" where
  "throttle_rel t now p \<longleftrightarrow> (\<forall>k. entry_rel t now (tstate t k) (p k))"

lemma filter_old: "\<forall>ts\<in>set xs. ts \<le> l \<Longrightarrow> l \<le> c \<Longrightarrow> filter (\<lambda>ts. c < ts) xs = ([] :: int list)"
  by (auto simp: filter_empty_conv)

definition same_config :: "Throttle \<Rightarrow> Throttle \<Rightarrow> bool" where
  "same_config t u \<longleftrightarrow> tmax t = tmax u \<and> twindow t = twindow u \<and> tban t = tban u \<and> tcoalesce t = tcoalesce u"

lemma same_config_step: "same_config (fst (throttle_step t e)) t"
  by (cases e) (auto simp: same_config_def Fail_def Reset_def GC_def Let_def split: prod.splits)

lemma entry_rel_config: "same_config t u \<Longrightarrow> entry_rel t now eo p = entry_rel u now eo p"
  by (simp add: entry_rel_def same_config_def split: option.splits)

lemma Fail_other: "k' \<noteq> k \<Longrightarrow> tstate (fst (Fail t now k)) k' = tstate t k'"
  by (simp add: Fail_def Let_def)

text \<open>A failure on one key, case by case.\<close>

lemma Fail_new:
  assumes "tstate t k = None" "entry_rel t now None p" "0 < now" "0 \<le> twindow t" "tcoalesce t \<le> twindow t"
  shows "snd (Fail t now k) = snd (policy_fail t p now) \<and>
         entry_rel t now (tstate (fst (Fail t now k)) k) (fst (policy_fail t p now))"
proof -
  have old: "p_ban p \<le> now" "p = no_policy \<or> p_last p < now - twindow t" "\<forall>ts\<in>set (p_hist p). ts \<le> p_last p" "p_last p \<le> now"
    using assms(2,3) by (auto simp: entry_rel_def no_policy_def)
  have f: "filter (\<lambda>ts. c < ts) (p_hist p) = []" if "now - twindow t \<le> c" for c
  proof (cases "p = no_policy")
    case False
    then show ?thesis using old that by (intro filter_old [of _ "p_last p"]) auto
  qed (simp add: no_policy_def)
  have nc: "\<not> (tcoalesce t > 0 \<and> p_last p \<noteq> 0 \<and> now - p_last p < tcoalesce t)"
    using old assms(5) by (auto simp: no_policy_def)
  show ?thesis
    using assms(1,3,4) old nc f [of "now - twindow t"] f no_policy_def
    by (auto simp: Fail_def policy_fail_def zero_entry_def Let_def entry_rel_def)
qed

lemma Fail_known:
  assumes "tstate t k = Some e" "entry_rel t now (Some e) p" "0 < now" "0 \<le> twindow t"
  shows "snd (Fail t now k) = snd (policy_fail t p now) \<and>
         entry_rel t now (tstate (fst (Fail t now k)) k) (fst (policy_fail t p now))"
proof -
  have r: "lastCounted e = p_last p" "banUntil e = p_ban p \<or> banUntil e \<le> now \<and> p_ban p \<le> now" "p_last p \<le> now" "\<forall>ts\<in>set (p_hist p). ts \<le> p_last p"
    and f: "\<And>c. p_last p - twindow t \<le> c \<Longrightarrow> filter (\<lambda>ts. c < ts) (fails e) = filter (\<lambda>ts. c < ts) (p_hist p)"
    using assms(2) by (auto simp: entry_rel_def)
  have k: "filter (\<lambda>ts. now - twindow t < ts) (fails e) = filter (\<lambda>ts. now - twindow t < ts) (p_hist p)"
    using r(3) by (intro f) simp
  have g: "filter (\<lambda>ts. c < ts \<and> now - twindow t < ts) (p_hist p) = filter (\<lambda>ts. c < ts) (p_hist p)"
    if "now - twindow t \<le> c" for c
    using that by (intro filter_cong) auto
  show ?thesis
    using assms(1,4) r f g by (auto simp: Fail_def policy_fail_def Let_def entry_rel_def k conj_commute)
qed

lemma Fail_rel:
  assumes "throttle_rel t now p" "0 < now" "0 \<le> twindow t" "tcoalesce t \<le> twindow t"
  shows "snd (Fail t now k) = snd (policy_fail t (p k) now) \<and>
         throttle_rel (fst (Fail t now k)) now (p(k := fst (policy_fail t (p k) now)))"
proof -
  have r: "entry_rel t now (tstate t k) (p k)" using assms(1) by (simp add: throttle_rel_def)
  have *: "snd (Fail t now k) = snd (policy_fail t (p k) now) \<and>
         entry_rel t now (tstate (fst (Fail t now k)) k) (fst (policy_fail t (p k) now))"
  proof (cases "tstate t k")
    case None
    then show ?thesis using Fail_new assms r by simp
  next
    case (Some e)
    then show ?thesis using Fail_known assms r by simp
  qed
  have c: "same_config (fst (Fail t now k)) t"
    using same_config_step [of t "EFail now k"] by (auto split: prod.splits)
  show ?thesis
    using * assms(1) Fail_other [of _ k t now] unfolding throttle_rel_def entry_rel_config [OF c] by auto
qed

lemma GC_rel: "throttle_rel t now p \<Longrightarrow> throttle_rel (GC t now) now p"
proof -
  assume r: "throttle_rel t now p"
  have c: "same_config (GC t now) t" by (simp add: same_config_def GC_def)
  have "entry_rel t now (tstate (GC t now) k) (p k)" for k
    using r unfolding throttle_rel_def
    by (elim allE [of _ k]) (auto simp: entry_rel_def GC_def split: option.splits)
  then show ?thesis unfolding throttle_rel_def entry_rel_config [OF c] by blast
qed

lemma step_rel:
  assumes "throttle_rel t now p" "now \<le> event_time e" "0 < event_time e" "0 \<le> twindow t" "tcoalesce t \<le> twindow t"
  shows "snd (throttle_step t e) = snd (policy_step t p e) \<and>
         throttle_rel (fst (throttle_step t e)) (event_time e) (fst (policy_step t p e))"
proof -
  have r: "throttle_rel t (event_time e) p"
    using assms(1,2) entry_rel_later unfolding throttle_rel_def by blast
  show ?thesis
  proof (cases e)
    case (EFail n k)
    then show ?thesis using Fail_rel [of t n p k] r assms(3-5) by (auto split: prod.splits)
  next
    case (EBanned n k)
    then have "entry_rel t n (tstate t k) (p k)" using r by (simp add: throttle_rel_def)
    then show ?thesis using r EBanned assms(3) by (auto simp: Banned_def entry_rel_def no_policy_def split: option.splits)
  next
    case (EReset n k)
    have c: "same_config (Reset t k) t" by (simp add: same_config_def Reset_def)
    have "entry_rel t n (tstate (Reset t k) k') ((p(k := no_policy)) k')" for k'
      using r EReset assms(3) entry_rel_no_policy [of n t] by (auto simp: throttle_rel_def Reset_def)
    then show ?thesis using EReset by (simp add: throttle_rel_def entry_rel_config [OF c])
  next
    case (EGC n)
    then show ?thesis using GC_rel r by simp
  next
    case (EUntil n k)
    then have "entry_rel t n (tstate t k) (p k)" using r by (simp add: throttle_rel_def)
    then show ?thesis using r EUntil assms(3) by (auto simp: BanUntil_def entry_rel_def no_policy_def split: option.splits)
  qed
qed

lemma policy_step_config: "same_config t u \<Longrightarrow> policy_step t p e = policy_step u p e"
  by (cases e) (simp_all add: policy_fail_def same_config_def)

lemma policy_run_config: "same_config t u \<Longrightarrow> policy_run t p es = policy_run u p es"
  by (induction es arbitrary: p) (auto simp: policy_step_config split: prod.split)

lemma run_rel:
  "throttle_rel t now p \<Longrightarrow> 0 \<le> twindow t \<Longrightarrow> tcoalesce t \<le> twindow t \<Longrightarrow>
   sorted (now # map event_time es) \<Longrightarrow> list_all (\<lambda>e. 0 < event_time e) es \<Longrightarrow>
   throttle_run t es = policy_run t p es"
proof (induction es arbitrary: t now p)
  case Nil
  then show ?case by simp
next
  case (Cons e es)
  note c = same_config_step [of t e]
  have s: "snd (throttle_step t e) = snd (policy_step t p e)"
      "throttle_rel (fst (throttle_step t e)) (event_time e) (fst (policy_step t p e))"
    using step_rel [OF Cons.prems(1), of e] Cons.prems by auto
  have "throttle_run (fst (throttle_step t e)) es = policy_run (fst (throttle_step t e)) (fst (policy_step t p e)) es"
    using Cons.prems c by (intro Cons.IH [OF s(2)]) (auto simp: same_config_def)
  then show ?case using s(1) by (auto simp: policy_run_config [OF c] split: prod.splits)
qed

section \<open>Properties\<close>

text \<open>C14: whatever the sequence of failures, queries, resets and collections, in the order
  of the clock, the throttle answers like the policy that keeps the whole failure history and never
  collects anything: a key is banned exactly when the counted failures of the last window
  reach the maximum, and pruning and collection change no answer.\<close>
theorem throttle_implements_policy:
  assumes "0 \<le> win" "coal \<le> win" "sorted (map event_time es)" "list_all (\<lambda>e. 0 < event_time e) es"
  shows "throttle_run (New mx win bn coal) es = policy_run (New mx win bn coal) (\<lambda>_. no_policy) es"
proof (rule run_rel [where now = 0])
  show "throttle_rel (New mx win bn coal) 0 (\<lambda>_. no_policy)"
    by (simp add: throttle_rel_def New_def entry_rel_no_policy)
  show "sorted (0 # map event_time es)" using assms(3,4) by (auto simp: list_all_iff intro: less_imp_le)
qed (use assms in \<open>simp_all add: New_def\<close>)

lemma throttle_implements_policy_witness:
  "throttle_run (New 2 10 100 1) [EFail 5 ''a'', EFail 5 ''a'', EFail 8 ''a'', EBanned 50 ''a'', EGC 200, EBanned 200 ''a''] =
     [Some (Inl False), Some (Inl False), Some (Inl True), Some (Inl True), None, Some (Inl False)]"
  using throttle_implements_policy [of 10 1 "[EFail 5 ''a'', EFail 5 ''a'', EFail 8 ''a'', EBanned 50 ''a'', EGC 200, EBanned 200 ''a'']" 2 100]
  by (simp add: policy_fail_def no_policy_def New_def)

end
