(* ===== verification/Fragmentation.thy ===== *)
theory Fragmentation
  imports Protocol_Codec
begin

text \<open>
  Application-layer fragmentation (internal/mesh/frag.go): the size arithmetic
  (\<open>computeMaxInnerFrag\<close>, \<open>fragPlan\<close>), the sender that splits an overlay packet
  (\<open>sendFragmented\<close>), and the receiver's reassembly table (\<open>onFragment\<close>).
  The result of sealing and sending one fragment is a parameter of the sender. Go ranges over a
  map in an unspecified order; where the order decides which of two equally old groups is evicted,
  it is the argument \<open>ord\<close>, an enumeration of the table's keys.
  Times are nanoseconds; statistics counters are natural numbers.
\<close>

section \<open>Sizes\<close>

definition fragHeaderLen :: nat where "fragHeaderLen = 4 + 1 + 1"
definition maxFragments :: nat where "maxFragments = 255"
definition reasmTTL :: int where "reasmTTL = 2 * 1000000000"
definition maxReasmInFlight :: nat where "maxReasmInFlight = 64"
definition fragOverheadV6 :: nat where "fragOverheadV6 = 40 + 8"

definition computeMaxInnerFrag :: "int \<Rightarrow> int" where
  "computeMaxInnerFrag underlayMTU =
     (let mtu = (if underlayMTU \<le> 0 then 1280 else underlayMTU);
          sealedOverhead = int DataHeaderLen + 1 + int GCMOverhead;
          mx = mtu - int fragOverheadV6 - sealedOverhead - int fragHeaderLen
      in if mx < 1 then 1 else mx)"

definition fragPlan :: "nat \<Rightarrow> int \<Rightarrow> nat \<times> nat" where
  "fragPlan len per =
     (let p = nat (if per < 1 then 1 else per);
          count = (len + p - 1) div p
      in (count, if count > 1 then (len + count - 1) div count else p))"

text \<open>The plan's invariants: the pieces cover the packet, none is empty, and no piece
  exceeds what the path carries.\<close>

lemma ceil_div:
  fixes n p :: nat
  assumes "0 < p"
  shows "n \<le> (n + p - 1) div p * p" "0 < n \<Longrightarrow> ((n + p - 1) div p - 1) * p < n"
proof -
  let ?q = "(n + p - 1) div p"
  have "n + p - 1 < ?q * p + p" using dividend_less_div_times [OF assms, of "n + p - 1"] by (simp only:)
  then show "n \<le> ?q * p" using assms by linarith
  have "?q * p \<le> n + p - 1" by (rule div_times_less_eq_dividend)
  moreover have "(?q - 1) * p = ?q * p - p" by (simp add: diff_mult_distrib)
  ultimately show "(?q - 1) * p < n" if "0 < n" using that assms by linarith
qed

lemma fragPlan_spec:
  assumes "0 < len" and plan: "fragPlan len per = (c, sz)"
  shows "0 < c" "0 < sz" "len \<le> c * sz" "(c - 1) * sz < len" "int sz \<le> max 1 per"
    and "c = (len + nat (max 1 per) - 1) div nat (max 1 per)"
proof -
  define p where "p = nat (max 1 per)"
  have p: "0 < p" by (simp add: p_def)
  have pe: "nat (if per < 1 then 1 else per) = p" by (simp add: p_def max_def)
  let ?c = "(len + p - 1) div p"
  have c: "c = ?c" and sz: "sz = (if 1 < ?c then (len + ?c - 1) div ?c else p)"
    using plan unfolding fragPlan_def Let_def pe prod.inject by (blast, metis)
  note cd = ceil_div [OF p, of len]
  show cpos: "0 < c" using assms(1) p cd(1) c by (cases ?c) auto
  show "c = (len + nat (max 1 per) - 1) div nat (max 1 per)" using c by (simp add: p_def)
  have ub: "sz \<le> p"
  proof (cases "1 < ?c")
    case True
    have "len + ?c - 1 < ?c * p + ?c" using cd(1) True by (simp add: mult.commute)
    then have "(len + ?c - 1) div ?c < p + 1" using True by (subst div_less_iff_less_mult) (simp_all add: algebra_simps)
    then show ?thesis using sz True by simp
  qed (simp add: sz)
  then show "int sz \<le> max 1 per" by (simp add: p_def)
  show "len \<le> c * sz"
    using ceil_div(1) [of ?c len] cd(1) c cpos sz by (auto simp: mult.commute)
  show "0 < sz" using \<open>len \<le> c * sz\<close> assms(1) by (cases sz) auto
  show "(c - 1) * sz < len"
  proof -
    have "(c - 1) * sz \<le> (c - 1) * p" using ub by simp
    also have "\<dots> < len" using cd(2) assms(1) c by simp
    finally show ?thesis .
  qed
qed

section \<open>Sending\<close>

datatype send_result = SendOK | SendMsgSize | SendOther

record frag_tx =
  fragSeq :: "32 word"
  fragsSent :: nat
  fragSendDrop :: nat
  pmtuReset :: bool

definition fragBody :: "32 word \<Rightarrow> nat \<Rightarrow> nat \<Rightarrow> bytes \<Rightarrow> bytes" where
  "fragBody gid i count chunk = put32 gid @ [of_nat i, of_nat count] @ chunk"

text \<open>The sending loop from index \<open>i\<close> on: the bodies handed to the sealing layer, and
  the session's counters. A too-big error stops the loop and resets path-MTU discovery; any
  other outcome counts as sent.\<close>

function send_from ::
  "(nat \<Rightarrow> send_result) \<Rightarrow> 32 word \<Rightarrow> nat \<Rightarrow> nat \<Rightarrow> bytes \<Rightarrow> nat \<Rightarrow> frag_tx \<Rightarrow> bytes list \<times> frag_tx" where
  "send_from out gid count per packet i tx =
     (if i < count
      then let start = i * per;
               stop = (if start + per > length packet then length packet else start + per);
               body = fragBody gid i count (slice start stop packet)
           in if out i = SendMsgSize
              then ([body], tx\<lparr>fragSendDrop := fragSendDrop tx + 1, pmtuReset := True\<rparr>)
              else (case send_from out gid count per packet (i + 1) (tx\<lparr>fragsSent := fragsSent tx + 1\<rparr>) of
                      (bs, tx') \<Rightarrow> (body # bs, tx'))
      else ([], tx))"
  by pat_completeness auto
termination by (relation "measure (\<lambda>(_, _, count, _, _, i, _). count - i)") auto

definition sendFragmented :: "(nat \<Rightarrow> send_result) \<Rightarrow> frag_tx \<Rightarrow> bytes \<Rightarrow> int \<Rightarrow> bytes list \<times> frag_tx" where
  "sendFragmented out tx packet per =
     (case fragPlan (length packet) per of (count, p) \<Rightarrow>
        if count > maxFragments then ([], tx\<lparr>fragSendDrop := fragSendDrop tx + 1\<rparr>)
        else let gid = fragSeq tx + 1
             in send_from out gid count p packet 0 (tx\<lparr>fragSeq := gid\<rparr>))"

section \<open>Receiving\<close>

record fragReasm =
  count :: nat
  got :: nat
  deadline :: int
  parts :: "bytes option list"
  total :: nat

record frag_rx =
  reasm :: "32 word \<Rightarrow> fragReasm option"
  fragsRcvd :: nat
  reasmDrop :: nat
  reasmOK :: nat

text \<open>Expired groups are dropped first (the loop's order does not matter).\<close>

definition evict_one :: "int \<Rightarrow> 32 word \<Rightarrow> frag_rx \<Rightarrow> frag_rx" where
  "evict_one now k rx =
     (case reasm rx k of
        Some r \<Rightarrow> if now > deadline r then rx\<lparr>reasm := (reasm rx)(k := None), reasmDrop := reasmDrop rx + 1\<rparr> else rx
      | None \<Rightarrow> rx)"

definition evict_expired :: "int \<Rightarrow> 32 word list \<Rightarrow> frag_rx \<Rightarrow> frag_rx" where
  "evict_expired now ord rx = fold (evict_one now) ord rx"

text \<open>The in-flight group with the earliest deadline, the first of them in iteration order.\<close>

primrec oldest_group :: "(32 word \<Rightarrow> fragReasm option) \<Rightarrow> (32 word \<times> int) option \<Rightarrow> 32 word list \<Rightarrow> (32 word \<times> int) option" where
  "oldest_group tbl best [] = best"
| "oldest_group tbl best (k # ks) =
     (case tbl k of
        None \<Rightarrow> oldest_group tbl best ks
      | Some r \<Rightarrow> (case best of
          None \<Rightarrow> oldest_group tbl (Some (k, deadline r)) ks
        | Some (k0, d0) \<Rightarrow> oldest_group tbl (if deadline r < d0 then Some (k, deadline r) else best) ks))"

definition table_size :: "(32 word \<Rightarrow> fragReasm option) \<Rightarrow> 32 word list \<Rightarrow> nat" where
  "table_size tbl ord = length (filter (\<lambda>k. tbl k \<noteq> None) ord)"

definition make_room :: "32 word list \<Rightarrow> frag_rx \<Rightarrow> frag_rx" where
  "make_room ord rx =
     (if table_size (reasm rx) ord \<ge> maxReasmInFlight
      then let oldestKey = (case oldest_group (reasm rx) None ord of Some (k, _) \<Rightarrow> k | None \<Rightarrow> 0)
           in rx\<lparr>reasm := (reasm rx)(oldestKey := None), reasmDrop := reasmDrop rx + 1\<rparr>
      else rx)"

definition new_group :: "nat \<Rightarrow> int \<Rightarrow> fragReasm" where
  "new_group c now = \<lparr>count = c, got = 0, deadline = now + reasmTTL, parts = replicate c None, total = 0\<rparr>"

text \<open>The group of an arriving fragment, opened if it is not in the table.\<close>

definition ensure_group :: "int \<Rightarrow> 32 word list \<Rightarrow> nat \<Rightarrow> 32 word \<Rightarrow> frag_rx \<Rightarrow> frag_rx" where
  "ensure_group now ord cnt gid rx =
     (case reasm rx gid of
        Some _ \<Rightarrow> rx
      | None \<Rightarrow> let m = make_room ord rx in m\<lparr>reasm := (reasm m)(gid \<mapsto> new_group cnt now)\<rparr>)"

text \<open>The piece goes into the group \<open>r\<close>; a complete group leaves the table as a packet.\<close>

definition add_piece :: "32 word \<Rightarrow> nat \<Rightarrow> nat \<Rightarrow> bytes \<Rightarrow> fragReasm \<Rightarrow> frag_rx \<Rightarrow> frag_rx \<times> bytes option" where
  "add_piece gid idx cnt chunk r rx =
     (if count r \<noteq> cnt \<or> idx \<ge> length (parts r)
      then (rx\<lparr>reasm := (reasm rx)(gid := None), reasmDrop := reasmDrop rx + 1\<rparr>, None)
      else if parts r ! idx \<noteq> None then (rx, None)
      else
        let r1 = r\<lparr>parts := (parts r)[idx := Some chunk], got := got r + 1, total := total r + length chunk\<rparr>
        in if got r1 < count r1 then (rx\<lparr>reasm := (reasm rx)(gid \<mapsto> r1)\<rparr>, None)
           else (rx\<lparr>reasm := (reasm rx)(gid := None), reasmOK := reasmOK rx + 1\<rparr>,
                 Some (concat (map (\<lambda>p. case p of None \<Rightarrow> [] | Some b \<Rightarrow> b) (parts r1)))))"

text \<open>One fragment body arrives; the second result is the reassembled packet, if it completes one.\<close>

definition onFragment :: "int \<Rightarrow> 32 word list \<Rightarrow> frag_rx \<Rightarrow> bytes \<Rightarrow> frag_rx \<times> bytes option" where
  "onFragment now ord rx body =
     (if length body < fragHeaderLen then (rx, None)
      else
        let gid = get32 (take 4 body); idx = unat (body ! 4); cnt = unat (body ! 5); chunk = drop fragHeaderLen body
        in if cnt = 0 \<or> cnt > maxFragments \<or> idx \<ge> cnt \<or> length chunk = 0 then (rx, None)
           else
             let rx1 = evict_expired now ord (rx\<lparr>fragsRcvd := fragsRcvd rx + 1\<rparr>);
                 rx2 = ensure_group now ord cnt gid rx1
             in (case reasm rx2 gid of
                   Some r \<Rightarrow> add_piece gid idx cnt chunk r rx2
                 | None \<Rightarrow> (rx2, None)))"

section \<open>Eviction\<close>

definition enum_of :: "'k list \<Rightarrow> ('k \<Rightarrow> 'v option) \<Rightarrow> bool" where
  "enum_of ord m \<longleftrightarrow> distinct ord \<and> set ord = dom m"

definition live :: "int \<Rightarrow> fragReasm option \<Rightarrow> fragReasm option" where
  "live now eo = (case eo of None \<Rightarrow> None | Some r \<Rightarrow> if now > deadline r then None else Some r)"

lemma evict_one_reasm:
  "reasm (evict_one now k rx) j = (if j = k then live now (reasm rx k) else reasm rx j)"
  by (auto simp: evict_one_def live_def split: option.splits)

lemma evict_fold_reasm:
  "reasm (fold (evict_one now) ord rx) k = (if k \<in> set ord then live now (reasm rx k) else reasm rx k)"
proof (induction ord arbitrary: rx)
  case (Cons j ord)
  have "live now (live now eo) = live now eo" for eo by (simp add: live_def split: option.splits)
  then show ?case by (simp add: Cons.IH evict_one_reasm)
qed simp

lemma evict_expired_reasm:
  "enum_of ord (reasm rx) \<Longrightarrow> reasm (evict_expired now ord (rx\<lparr>fragsRcvd := n\<rparr>)) k = live now (reasm rx k)"
  by (auto simp: evict_expired_def evict_fold_reasm enum_of_def live_def dom_def split: option.splits)

lemma table_size_card:
  assumes "distinct ord" "dom m \<subseteq> set ord"
  shows "table_size m ord = card (dom m)"
proof -
  have "set (filter (\<lambda>k. m k \<noteq> None) ord) = dom m" using assms(2) by (auto simp: dom_def)
  then show ?thesis using distinct_card [of "filter (\<lambda>k. m k \<noteq> None) ord"] assms(1) by (simp add: table_size_def)
qed

lemma oldest_group_in:
  "oldest_group tbl best ord = Some (k, d) \<Longrightarrow> (\<forall>k0 d0. best = Some (k0, d0) \<longrightarrow> tbl k0 \<noteq> None) \<Longrightarrow> tbl k \<noteq> None"
proof (induction ord arbitrary: best)
  case Nil
  then show ?case by simp
next
  case (Cons j ord)
  show ?case
  proof (cases "tbl j")
    case None
    then show ?thesis using Cons.prems by (intro Cons.IH [of best]) simp_all
  next
    case (Some r)
    define best' where "best' = (case best of None \<Rightarrow> Some (j, deadline r)
      | Some (k0, d0) \<Rightarrow> if deadline r < d0 then Some (j, deadline r) else best)"
    have "oldest_group tbl best' ord = Some (k, d)"
      using Cons.prems(1) Some by (auto simp: best'_def split: option.splits)
    then show ?thesis
      using Cons.prems(2) Some by (intro Cons.IH [of best']) (auto simp: best'_def split: option.splits if_splits)
  qed
qed

lemma oldest_group_some:
  "best \<noteq> None \<or> (\<exists>k\<in>set ord. tbl k \<noteq> None) \<Longrightarrow> \<exists>k d. oldest_group tbl best ord = Some (k, d)"
proof (induction ord arbitrary: best)
  case (Cons j ord)
  show ?case
  proof (cases "tbl j")
    case None
    then show ?thesis using Cons.IH [of best] Cons.prems by auto
  next
    case (Some r)
    then show ?thesis
      using Cons.IH [of "Some (j, deadline r)"] Cons.IH [of best] by (auto split: option.splits)
  qed
qed auto

lemma evict_expired_dom:
  "enum_of ord (reasm rx) \<Longrightarrow> dom (reasm (evict_expired now ord (rx\<lparr>fragsRcvd := n\<rparr>))) \<subseteq> dom (reasm rx)"
  by (auto simp: evict_expired_reasm live_def dom_def split: option.splits)

text \<open>Making room leaves at most 63 groups when there were at most 64.\<close>

lemma make_room_card:
  assumes "distinct ord" "dom (reasm rx) \<subseteq> set ord" "card (dom (reasm rx)) \<le> 64"
  shows "card (dom (reasm (make_room ord rx))) \<le> 63 \<and> reasm (make_room ord rx) \<subseteq>\<^sub>m reasm rx"
proof (cases "64 \<le> card (dom (reasm rx))")
  case False
  then show ?thesis using assms by (simp add: make_room_def table_size_card maxReasmInFlight_def)
next
  case True
  then have full: "card (dom (reasm rx)) = 64" using assms(3) by simp
  then have "dom (reasm rx) \<noteq> {}" by auto
  then obtain k0 d0 where old: "oldest_group (reasm rx) None ord = Some (k0, d0)"
    using oldest_group_some [of None ord "reasm rx"] assms(2) by (metis domIff equals0I in_mono)
  then have "reasm rx k0 \<noteq> None" using oldest_group_in by blast
  then have "card (dom (reasm rx) - {k0}) = 63" using full by (subst card_Diff_singleton) auto
  then show ?thesis using full assms old
    by (auto simp: make_room_def table_size_card maxReasmInFlight_def map_le_def split: if_splits)
qed

section \<open>The reassembly table's invariant\<close>

definition reasm_wf :: "fragReasm \<Rightarrow> bool" where
  "reasm_wf r \<longleftrightarrow> 0 < count r \<and> count r \<le> maxFragments \<and> length (parts r) = count r \<and>
     got r = length (filter (\<lambda>p. p \<noteq> None) (parts r)) \<and> got r < count r \<and>
     total r = length (concat (map (\<lambda>p. case p of None \<Rightarrow> [] | Some b \<Rightarrow> b) (parts r))) \<and>
     Some [] \<notin> set (parts r)"

definition table_wf :: "frag_rx \<Rightarrow> bool" where
  "table_wf rx \<longleftrightarrow> finite (dom (reasm rx)) \<and> card (dom (reasm rx)) \<le> maxReasmInFlight \<and>
     (\<forall>k r. reasm rx k = Some r \<longrightarrow> reasm_wf r)"

lemma reasm_wf_new: "0 < c \<Longrightarrow> c \<le> maxFragments \<Longrightarrow> reasm_wf (new_group c now)"
  by (simp add: reasm_wf_def new_group_def)

lemma filter_update_none:
  "i < length ps \<Longrightarrow> ps ! i = None \<Longrightarrow>
   length (filter (\<lambda>p. p \<noteq> None) (ps[i := Some b])) = Suc (length (filter (\<lambda>p. p \<noteq> None) ps))"
proof (induction ps arbitrary: i)
  case (Cons p ps)
  then show ?case by (cases i) auto
qed simp

lemma concat_update_none:
  "i < length ps \<Longrightarrow> ps ! i = None \<Longrightarrow>
   length (concat (map (\<lambda>p. case p of None \<Rightarrow> [] | Some b \<Rightarrow> b) (ps[i := Some b]))) =
   length (concat (map (\<lambda>p. case p of None \<Rightarrow> [] | Some b \<Rightarrow> b) ps)) + length b"
proof (induction ps arbitrary: i)
  case (Cons p ps)
  then show ?case by (cases i) (auto simp: ac_simps)
qed simp

lemma reasm_wf_add:
  assumes "reasm_wf r" "i < count r" "parts r ! i = None" "b \<noteq> []" "got r + 1 < count r"
  shows "reasm_wf (r\<lparr>parts := (parts r)[i := Some b], got := got r + 1, total := total r + length b\<rparr>)"
  using assms filter_update_none [of i "parts r" b] concat_update_none [of i "parts r" b]
    set_update_subset_insert [of "parts r" i "Some b"]
  unfolding reasm_wf_def by auto

lemma live_dom_wf:
  assumes "table_wf rx" "enum_of ord (reasm rx)"
  shows "table_wf (evict_expired now ord (rx\<lparr>fragsRcvd := n\<rparr>))"
proof -
  let ?m = "reasm (evict_expired now ord (rx\<lparr>fragsRcvd := n\<rparr>))"
  have sub: "dom ?m \<subseteq> dom (reasm rx)" using evict_expired_dom [OF assms(2)] .
  have fin: "finite (dom (reasm rx))" "card (dom (reasm rx)) \<le> maxReasmInFlight"
    using assms(1) by (simp_all add: table_wf_def)
  have "?m k = Some r \<Longrightarrow> reasm_wf r" for k r
    using assms evict_expired_reasm [OF assms(2), of now n k]
    by (auto simp: table_wf_def live_def split: option.splits if_splits)
  then show ?thesis
    using card_mono [OF fin(1) sub] fin finite_subset [OF sub fin(1)] by (simp add: table_wf_def)
qed

lemma ensure_group_wf:
  assumes "table_wf rx" "distinct ord" "dom (reasm rx) \<subseteq> set ord" "0 < cnt" "cnt \<le> maxFragments"
  shows "table_wf (ensure_group now ord cnt gid rx) \<and> reasm (ensure_group now ord cnt gid rx) gid \<noteq> None"
proof (cases "reasm rx gid")
  case (Some r)
  then show ?thesis using assms(1) by (simp add: ensure_group_def)
next
  case None
  let ?m = "make_room ord rx"
  have fin: "finite (dom (reasm rx))" "card (dom (reasm rx)) \<le> 64"
    using assms(1) by (simp_all add: table_wf_def maxReasmInFlight_def)
  have c: "card (dom (reasm ?m)) \<le> 63" "reasm ?m \<subseteq>\<^sub>m reasm rx"
    using make_room_card [OF assms(2,3) fin(2)] by auto
  have "finite (dom (reasm ?m))" 
    by (rule finite_subset [OF map_le_implies_dom_le [OF c(2)] fin(1)])
  then have "card (insert gid (dom (reasm ?m))) \<le> 64"
    using c(1) by (simp add: card_insert_if)
  moreover have "reasm ?m k = Some r \<Longrightarrow> reasm_wf r" for k r
    using c(2) assms(1) unfolding table_wf_def map_le_def by (metis domI)
  ultimately have "table_wf (?m\<lparr>reasm := (reasm ?m)(gid \<mapsto> new_group cnt now)\<rparr>)"
    using \<open>finite (dom (reasm ?m))\<close> reasm_wf_new [OF assms(4,5)]
    unfolding table_wf_def maxReasmInFlight_def by simp
  then show ?thesis using None by (simp add: ensure_group_def Let_def)
qed

lemma table_wf_remove: "table_wf rx \<Longrightarrow> reasm rx' = (reasm rx)(k := None) \<Longrightarrow> table_wf rx'"
  by (auto simp: table_wf_def intro: order_trans [OF card_Diff1_le])

lemma table_wf_replace:
  "table_wf rx \<Longrightarrow> reasm rx k \<noteq> None \<Longrightarrow> reasm_wf r \<Longrightarrow> reasm rx' = (reasm rx)(k \<mapsto> r) \<Longrightarrow> table_wf rx'"
proof -
  assume a: "table_wf rx" "reasm rx k \<noteq> None" "reasm_wf r" "reasm rx' = (reasm rx)(k \<mapsto> r)"
  then have "dom (reasm rx') = dom (reasm rx)" by auto
  then show "table_wf rx'" using a by (auto simp: table_wf_def)
qed

lemma add_piece_wf:
  assumes "table_wf rx" "reasm rx gid = Some r" "chunk \<noteq> []"
  shows "table_wf (fst (add_piece gid idx cnt chunk r rx))"
proof -
  have wf: "reasm_wf r" using assms(1,2) by (simp add: table_wf_def)
  have "table_wf (rx\<lparr>reasm := (reasm rx)(gid \<mapsto> r\<lparr>parts := (parts r)[idx := Some chunk], got := got r + 1, total := total r + length chunk\<rparr>)\<rparr>)"
    if "idx < length (parts r)" "parts r ! idx = None" "got r + 1 < count r"
    using that assms wf reasm_wf_add [of r idx chunk]
    by (intro table_wf_replace [OF assms(1), of gid]) (auto simp: reasm_wf_def)
  then show ?thesis
    using table_wf_remove [OF assms(1)] assms(1)
    by (auto simp: add_piece_def Let_def not_le)
qed

lemma onFragment_wf:
  assumes "table_wf rx" "enum_of ord (reasm rx)"
  shows "table_wf (fst (onFragment now ord rx body))"
proof -
  let ?rx1 = "evict_expired now ord (rx\<lparr>fragsRcvd := fragsRcvd rx + 1\<rparr>)"
  let ?gid = "get32 (take 4 body)"
  have d: "distinct ord" "dom (reasm ?rx1) \<subseteq> set ord"
    using assms(2) evict_expired_dom [OF assms(2)] by (auto simp: enum_of_def)
  have "table_wf (fst (add_piece ?gid idx cnt chunk r (ensure_group now ord cnt ?gid ?rx1)))"
    if "0 < cnt" "cnt \<le> maxFragments" "chunk \<noteq> []" "reasm (ensure_group now ord cnt ?gid ?rx1) ?gid = Some r" for idx cnt chunk r
    using ensure_group_wf [OF live_dom_wf [OF assms] d that(1,2)] that
    by (intro add_piece_wf) auto
  moreover have "table_wf (ensure_group now ord cnt ?gid ?rx1)" if "0 < cnt" "cnt \<le> maxFragments" for cnt
    using ensure_group_wf [OF live_dom_wf [OF assms] d that] by blast
  ultimately show ?thesis
    using assms(1) by (auto simp: onFragment_def Let_def not_le split: option.splits)
qed

section \<open>What the sender emits\<close>

definition piece :: "bytes \<Rightarrow> nat \<Rightarrow> nat \<Rightarrow> bytes" where
  "piece packet sz i = take sz (drop (i * sz) packet)"

lemma concat_pieces: "concat (map (piece packet sz) [0..<c]) = take (c * sz) packet"
proof (induction c)
  case (Suc c)
  have "take (Suc c * sz) packet = take (c * sz) packet @ take sz (drop (c * sz) packet)"
    using take_add [of "c * sz" sz packet] by (simp only: mult_Suc add.commute)
  then show ?case using Suc by (simp add: piece_def)
qed simp

lemma slice_piece:
  "slice (i * sz) (if i * sz + sz > length packet then length packet else i * sz + sz) packet = piece packet sz i"
  by (simp add: slice_def piece_def)

declare send_from.simps [simp del]

lemma send_from_ok:
  "\<forall>i. out i \<noteq> SendMsgSize \<Longrightarrow> i \<le> c \<Longrightarrow>
   send_from out gid c sz packet i tx =
     (map (\<lambda>i. fragBody gid i c (piece packet sz i)) [i..<c], tx\<lparr>fragsSent := fragsSent tx + (c - i)\<rparr>)"
proof (induction out gid c sz packet i tx rule: send_from.induct)
  case (1 out gid c sz packet i tx)
  show ?case
  proof (cases "i < c")
    case True
    then have "c - i = Suc (c - Suc i)" by simp
    then show ?thesis using True 1
      by (subst send_from.simps) (simp add: Let_def slice_piece upt_conv_Cons del: if_split_asm)
  next
    case False
    then show ?thesis using 1(3) by (subst send_from.simps) simp
  qed
qed

lemma sendFragmented_ok:
  assumes "\<forall>i. out i \<noteq> SendMsgSize" "fragPlan (length packet) per = (c, sz)" "c \<le> maxFragments"
  shows "sendFragmented out tx packet per =
    (map (\<lambda>i. fragBody (fragSeq tx + 1) i c (piece packet sz i)) [0..<c],
     tx\<lparr>fragSeq := fragSeq tx + 1, fragsSent := fragsSent tx + c\<rparr>)"
  using assms by (simp add: sendFragmented_def send_from_ok Let_def)

lemma fragBody_fields:
  assumes "i < 256" "c < 256"
  shows "get32 (take 4 (fragBody gid i c chunk)) = gid" "unat (fragBody gid i c chunk ! 4) = i"
    "unat (fragBody gid i c chunk ! 5) = c" "drop 6 (fragBody gid i c chunk) = chunk"
    "length (fragBody gid i c chunk) = 6 + length chunk"
  using assms by (simp_all add: fragBody_def nth_append unat_of_nat_len)

section \<open>Receiving the fragments of one packet among others\<close>

text \<open>\<open>S\<close> are the indices of group \<open>gid\<close> that have arrived.\<close>

definition group_has :: "frag_rx \<Rightarrow> 32 word \<Rightarrow> nat \<Rightarrow> (nat \<Rightarrow> bytes) \<Rightarrow> int \<Rightarrow> nat set \<Rightarrow> bool" where
  "group_has rx gid c pc D S \<longleftrightarrow>
     (if S = {} then reasm rx gid = None
      else \<exists>r. reasm rx gid = Some r \<and> count r = c \<and> D \<le> deadline r \<and> got r = card S \<and>
             parts r = map (\<lambda>i. if i \<in> S then Some (pc i) else None) [0..<c])"

lemma live_keeps: "group_has rx gid c pc D S \<Longrightarrow> now \<le> D \<Longrightarrow> live now (reasm rx gid) = reasm rx gid"
  by (auto simp: group_has_def live_def split: if_splits option.splits)

text \<open>While at most 64 groups are about, opening a group evicts no other.\<close>

lemma ensure_group_other:
  assumes "enum_of ord (reasm rx0)" "dom (reasm rx) \<subseteq> dom (reasm rx0)" "dom (reasm rx0) \<subseteq> U" "gid' \<in> U"
    and "finite U" "card U \<le> 64" "gid \<noteq> gid'"
  shows "reasm (ensure_group now ord cnt gid' rx) gid = reasm rx gid"
proof (cases "reasm rx gid'")
  case None
  have "dom (reasm rx) \<subseteq> U - {gid'}" using assms(2,3) None by auto
  then have "card (dom (reasm rx)) \<le> card (U - {gid'})" using assms(5) by (intro card_mono) auto
  also have "\<dots> < 64" using assms(4-6) by (simp add: card_Diff_singleton)
  finally have "table_size (reasm rx) ord < 64"
    using assms(1,2) table_size_card [of ord "reasm rx"] by (auto simp: enum_of_def)
  then show ?thesis using None assms(7) by (simp add: ensure_group_def make_room_def maxReasmInFlight_def)
qed (simp add: ensure_group_def)

lemma add_piece_other: "k \<noteq> gid \<Longrightarrow> reasm (fst (add_piece gid idx cnt chunk r rx)) k = reasm rx k"
  by (simp add: add_piece_def Let_def)

lemma onFragment_dom:
  assumes "enum_of ord (reasm rx)" "dom (reasm rx) \<subseteq> U" "get32 (take 4 body) \<in> U"
  shows "dom (reasm (fst (onFragment now ord rx body))) \<subseteq> U"
proof -
  let ?rx1 = "evict_expired now ord (rx\<lparr>fragsRcvd := fragsRcvd rx + 1\<rparr>)"
  have d1: "dom (reasm ?rx1) \<subseteq> U" using evict_expired_dom [OF assms(1)] assms(2) by blast
  have d2: "dom (reasm (ensure_group now ord cnt (get32 (take 4 body)) ?rx1)) \<subseteq> U" for cnt
    using d1 assms(3) by (auto simp: ensure_group_def make_room_def Let_def split: option.splits if_splits)
  have "dom (reasm (fst (add_piece (get32 (take 4 body)) i cnt ch r rx2))) \<subseteq> U"
    if "dom (reasm rx2) \<subseteq> U" for rx2 r i cnt ch
    using that assms(3) by (auto simp: add_piece_def Let_def split: if_splits)
  then show ?thesis using d2 assms(2) by (auto simp: onFragment_def Let_def split: option.splits)
qed

lemma onFragment_other:
  assumes en: "enum_of ord (reasm rx)" and U: "dom (reasm rx) \<subseteq> U" "get32 (take 4 body) \<in> U" "finite U" "card U \<le> 64"
    and has: "group_has rx gid c pc D S" and ne: "get32 (take 4 body) \<noteq> gid" and now: "now \<le> D"
  shows "group_has (fst (onFragment now ord rx body)) gid c pc D S"
proof -
  let ?g = "get32 (take 4 body)"
  let ?rx1 = "evict_expired now ord (rx\<lparr>fragsRcvd := fragsRcvd rx + 1\<rparr>)"
  have r1: "reasm ?rx1 gid = reasm rx gid"
    using evict_expired_reasm [OF en] live_keeps [OF has now] by simp
  have r2: "reasm (ensure_group now ord cnt ?g ?rx1) gid = reasm rx gid" for cnt
    using ensure_group_other [OF en evict_expired_dom [OF en] U(1,2,3,4), of gid] ne r1 by auto
  have "reasm (fst (onFragment now ord rx body)) gid = reasm rx gid"
    using add_piece_other [of gid ?g] ne r2 by (auto simp: onFragment_def Let_def split: option.splits)
  then show ?thesis using has by (simp add: group_has_def)
qed

lemma got_all: "S \<subseteq> {0..<c} \<Longrightarrow> card S = c \<longleftrightarrow> S = {0..<c}"
  by (metis card_atLeastLessThan card_subset_eq finite_atLeastLessThan diff_zero)

lemma onFragment_own:
  assumes en: "enum_of ord (reasm rx)" and has: "group_has rx gid c pc D S" and S: "S \<subseteq> {0..<c}" "S \<noteq> {0..<c}"
    and i: "i < c" "c \<le> maxFragments" "pc i \<noteq> []" and now: "now \<le> D" "D \<le> now + reasmTTL"
  shows "if insert i S = {0..<c} \<and> i \<notin> S
    then snd (onFragment now ord rx (fragBody gid i c (pc i))) = Some (concat (map pc [0..<c]))
    else snd (onFragment now ord rx (fragBody gid i c (pc i))) = None \<and>
         group_has (fst (onFragment now ord rx (fragBody gid i c (pc i)))) gid c pc D (insert i S)"
proof -
  let ?b = "fragBody gid i c (pc i)"
  let ?rx1 = "evict_expired now ord (rx\<lparr>fragsRcvd := fragsRcvd rx + 1\<rparr>)"
  let ?rx2 = "ensure_group now ord c gid ?rx1"
  let ?parts = "map (\<lambda>i. if i \<in> S then Some (pc i) else None) [0..<c]"
  have fin: "finite S" using S(1) finite_subset by blast
  have r1: "reasm ?rx1 gid = reasm rx gid"
    using evict_expired_reasm [OF en] live_keeps [OF has now(1)] by simp
  obtain r where r: "reasm ?rx2 gid = Some r" "count r = c" "D \<le> deadline r" "got r = card S" "parts r = ?parts"
  proof (cases "S = {}")
    case True
    then have "reasm ?rx2 gid = Some (new_group c now)"
      using has r1 by (simp add: group_has_def ensure_group_def Let_def)
    then show thesis using True now(2) by (intro that) (auto simp: new_group_def map_replicate_const)
  next
    case False
    then show thesis using has r1 that by (auto simp: group_has_def ensure_group_def)
  qed
  have on: "onFragment now ord rx ?b = add_piece gid i c (pc i) r ?rx2"
    using i r(1) by (simp add: onFragment_def fragBody_fields maxFragments_def fragHeaderLen_def Let_def)
  have nth: "?parts ! i = (if i \<in> S then Some (pc i) else None)" using i(1) by simp
  have upd: "?parts[i := Some (pc i)] = map (\<lambda>j. if j \<in> insert i S then Some (pc j) else None) [0..<c]"
    using i(1) by (auto intro!: nth_equalityI simp: nth_list_update)
  have card: "card S < c" using S got_all [of S c] card_mono [of "{0..<c}" S] by auto
  show ?thesis
  proof (cases "i \<in> S")
    case True
    then show ?thesis
      using r nth i(1) on by (auto simp: add_piece_def group_has_def insert_absorb)
  next
    case False
    have cs: "card (insert i S) = Suc (card S)" using False fin by simp
    show ?thesis
    proof (cases "insert i S = {0..<c}")
      case True
      then have "Suc (card S) = c" using cs by simp
      moreover have "concat (map (\<lambda>p. case p of None \<Rightarrow> [] | Some b \<Rightarrow> b) (?parts[i := Some (pc i)])) = concat (map pc [0..<c])"
        unfolding upd True by (intro arg_cong [of _ _ concat]) simp
      ultimately show ?thesis
        using False r nth i(1) on True by (simp add: add_piece_def Let_def)
    next
      case nfull: False
      have "insert i S \<subseteq> {0..<c}" using S(1) i(1) by simp
      then have "Suc (card S) < c" using cs nfull got_all [of "insert i S" c] card_mono [of "{0..<c}" "insert i S"] by auto
      then show ?thesis
        using False r nth i(1) on nfull upd cs by (simp add: add_piece_def Let_def group_has_def)
    qed
  qed
qed

text \<open>A receiver handles a list of arrivals: clock, map iteration order, body.\<close>

primrec frag_run :: "frag_rx \<Rightarrow> (int \<times> 32 word list \<times> bytes) list \<Rightarrow> bytes option list" where
  "frag_run rx [] = []"
| "frag_run rx (e # es) = (case onFragment (fst e) (fst (snd e)) rx (snd (snd e)) of (rx', out) \<Rightarrow> out # frag_run rx' es)"

lemma frag_run_Cons:
  "frag_run rx (e # es) = snd (onFragment (fst e) (fst (snd e)) rx (snd (snd e))) #
     frag_run (fst (onFragment (fst e) (fst (snd e)) rx (snd (snd e)))) es"
  by (simp split: prod.split)

declare frag_run.simps(2) [simp del]

primrec orders_ok :: "frag_rx \<Rightarrow> (int \<times> 32 word list \<times> bytes) list \<Rightarrow> bool" where
  "orders_ok rx [] \<longleftrightarrow> True"
| "orders_ok rx (e # es) \<longleftrightarrow> enum_of (fst (snd e)) (reasm rx) \<and>
     orders_ok (fst (onFragment (fst e) (fst (snd e)) rx (snd (snd e)))) es"

definition event_gid :: "int \<times> 32 word list \<times> bytes \<Rightarrow> 32 word" where
  "event_gid e = get32 (take 4 (snd (snd e)))"

lemma frag_run_group:
  assumes c: "c \<le> maxFragments" "\<And>i. i < c \<Longrightarrow> pc i \<noteq> []" and U: "finite U" "card U \<le> 64"
  shows "group_has rx gid c pc D S \<Longrightarrow> S \<subseteq> {0..<c} \<Longrightarrow> orders_ok rx (pre @ [(t, ord, fragBody gid l c (pc l))]) \<Longrightarrow>
    dom (reasm rx) \<subseteq> U \<Longrightarrow> event_gid ` set pre \<subseteq> U \<Longrightarrow> l < c \<Longrightarrow> l \<notin> S \<Longrightarrow>
    (\<forall>e\<in>set pre. fst e \<le> D \<and> D \<le> fst e + reasmTTL) \<Longrightarrow> t \<le> D \<and> D \<le> t + reasmTTL \<Longrightarrow>
    (\<forall>e\<in>set pre. event_gid e \<noteq> gid \<or> (\<exists>i<c. i \<noteq> l \<and> snd (snd e) = fragBody gid i c (pc i))) \<Longrightarrow>
    (\<forall>i<c. i \<in> S \<or> i = l \<or> (\<exists>e\<in>set pre. snd (snd e) = fragBody gid i c (pc i))) \<Longrightarrow>
    frag_run rx (pre @ [(t, ord, fragBody gid l c (pc l))]) ! length pre = Some (concat (map pc [0..<c])) \<and>
    (\<forall>k<length pre. event_gid (pre ! k) = gid \<longrightarrow> frag_run rx (pre @ [(t, ord, fragBody gid l c (pc l))]) ! k = None)"
proof (induction pre arbitrary: rx S)
  case Nil
  have full: "insert l S = {0..<c}" and ne: "S \<noteq> {0..<c}" using Nil.prems(2,6,7,11) by auto
  have en: "enum_of ord (reasm rx)" using Nil.prems(3) by simp
  have "t \<le> D" "D \<le> t + reasmTTL" using Nil.prems(9) by simp_all
  from onFragment_own [OF en Nil.prems(1,2) ne Nil.prems(6) c(1) c(2) [OF Nil.prems(6)] this]
  have "snd (onFragment t ord rx (fragBody gid l c (pc l))) = Some (concat (map pc [0..<c]))"
    using full Nil.prems(7) by simp
  then show ?case by (simp add: frag_run_Cons)
next
  case (Cons e pre)
  let ?rx' = "fst (onFragment (fst e) (fst (snd e)) rx (snd (snd e)))"
  have en: "enum_of (fst (snd e)) (reasm rx)" using Cons.prems(3) by simp
  have dom': "dom (reasm ?rx') \<subseteq> U"
    using Cons.prems(4,5) by (intro onFragment_dom [OF en]) (auto simp: event_gid_def)
  have step: "\<exists>S'. group_has ?rx' gid c pc D S' \<and> S' \<subseteq> {0..<c} \<and> l \<notin> S' \<and> S \<subseteq> S' \<and>
      (\<forall>i<c. snd (snd e) = fragBody gid i c (pc i) \<longrightarrow> i \<in> S') \<and>
      (event_gid e = gid \<longrightarrow> snd (onFragment (fst e) (fst (snd e)) rx (snd (snd e))) = None)"
  proof (cases "event_gid e = gid")
    case False
    then have "group_has ?rx' gid c pc D S"
      using Cons.prems U by (intro onFragment_other [OF en Cons.prems(4)]) (auto simp: event_gid_def)
    moreover have "snd (snd e) \<noteq> fragBody gid i c (pc i)" if "i < c" for i
      using False that c(1) fragBody_fields(1) [of i c gid "pc i"] by (auto simp: event_gid_def maxFragments_def)
    ultimately show ?thesis using Cons.prems False by (intro exI [of _ S]) auto
  next
    case True
    then obtain i where i: "i < c" "i \<noteq> l" "snd (snd e) = fragBody gid i c (pc i)" using Cons.prems(10) by auto
    have ne: "insert i S \<noteq> {0..<c}" "S \<noteq> {0..<c}" using Cons.prems(6,7) i(2) by auto
    have own: "snd (onFragment (fst e) (fst (snd e)) rx (snd (snd e))) = None \<and> group_has ?rx' gid c pc D (insert i S)"
      using onFragment_own [OF en Cons.prems(1,2) ne(2) i(1) c(1) c(2) [OF i(1)], of "fst e"] Cons.prems(8) ne(1) i(3) by auto
    have same: "j = i" if "j < c" "snd (snd e) = fragBody gid j c (pc j)" for j
      using that i c(1) fragBody_fields(2) [of j c gid "pc j"] fragBody_fields(2) [of i c gid "pc i"]
      by (auto simp: maxFragments_def)
    show ?thesis
    proof (intro exI [of _ "insert i S"] conjI impI allI)
      show "group_has ?rx' gid c pc D (insert i S)" using own by blast
      show "insert i S \<subseteq> {0..<c}" using Cons.prems(2) i(1) by simp
      show "l \<notin> insert i S" using Cons.prems(7) i(2) by simp
      show "S \<subseteq> insert i S" by blast
      show "j \<in> insert i S" if "j < c" "snd (snd e) = fragBody gid j c (pc j)" for j using same [OF that] by simp
      show "snd (onFragment (fst e) (fst (snd e)) rx (snd (snd e))) = None" using own by blast
    qed
  qed
  then obtain S' where S': "group_has ?rx' gid c pc D S'" "S' \<subseteq> {0..<c}" "l \<notin> S'" "S \<subseteq> S'"
      "\<forall>i<c. snd (snd e) = fragBody gid i c (pc i) \<longrightarrow> i \<in> S'"
    and out: "event_gid e = gid \<longrightarrow> snd (onFragment (fst e) (fst (snd e)) rx (snd (snd e))) = None" by blast
  have "\<forall>i<c. i \<in> S' \<or> i = l \<or> (\<exists>e\<in>set pre. snd (snd e) = fragBody gid i c (pc i))"
    using Cons.prems(11) S'(4,5) by fastforce
  then have "frag_run ?rx' (pre @ [(t, ord, fragBody gid l c (pc l))]) ! length pre = Some (concat (map pc [0..<c])) \<and>
    (\<forall>k<length pre. event_gid (pre ! k) = gid \<longrightarrow> frag_run ?rx' (pre @ [(t, ord, fragBody gid l c (pc l))]) ! k = None)"
    using Cons.prems S' dom' by (intro Cons.IH [OF S'(1,2)]) auto
  then show ?case using out by (auto simp: frag_run_Cons nth_Cons split: nat.splits)
qed

section \<open>Properties\<close>

text \<open>C16: the fragment plan of a packet covers it exactly: no piece is empty, no piece is larger
  than what the path carries, the number of pieces is the smallest possible, and a piece sized for
  an underlay MTU of at least 86 bytes fits that MTU once sealed and framed.\<close>
theorem fragPlan_covers:
  assumes "0 < len" "fragPlan len per = (c, sz)"
  shows "0 < sz \<and> len \<le> c * sz \<and> (c - 1) * sz < len \<and> int sz \<le> max 1 per \<and>
    (\<forall>n. len \<le> n * nat (max 1 per) \<longrightarrow> c \<le> n) \<and>
    (\<forall>mtu. 86 \<le> mtu \<longrightarrow> per = computeMaxInnerFrag mtu \<longrightarrow>
       int (fragOverheadV6 + DataHeaderLen + 1 + fragHeaderLen + sz + GCMOverhead) \<le> mtu)"
proof (intro conjI allI impI)
  note sp = fragPlan_spec [OF assms]
  show "0 < sz" "len \<le> c * sz" "(c - 1) * sz < len" "int sz \<le> max 1 per" using sp by blast+
  show "c \<le> n" if n: "len \<le> n * nat (max 1 per)" for n
  proof -
    define p where "p = nat (max 1 per)"
    have p: "0 < p" "len \<le> n * p" using n by (simp_all add: p_def)
    have "(len + p - 1) div p < n + 1"
      using p by (subst div_less_iff_less_mult) (simp_all add: algebra_simps)
    then show ?thesis using sp(6) unfolding p_def [symmetric] by simp
  qed
  show "int (fragOverheadV6 + DataHeaderLen + 1 + fragHeaderLen + sz + GCMOverhead) \<le> mtu"
    if "86 \<le> mtu" "per = computeMaxInnerFrag mtu" for mtu
    using sp(5) that by (simp add: computeMaxInnerFrag_def fragOverheadV6_def fragHeaderLen_def Let_def)
qed

lemma fragPlan_covers_witness:
  "fragPlan 9216 8915 = (2, 4608) \<and> (2 - 1) * 4608 < (9216 :: nat)"
proof -
  have p: "fragPlan 9216 8915 = (2, 4608)" by (simp add: fragPlan_def)
  show ?thesis using fragPlan_covers [OF _ p] p by simp
qed

text \<open>C15: a fragmented packet is reassembled exactly once, when its last missing piece arrives,
  and byte for byte, whatever the order and duplication of its pieces before that and whatever other
  fragments, well-formed or not, arrive in between under other group ids, as long as at most 64
  groups are about and everything happens within the reassembly lifetime.\<close>
theorem fragments_reassemble:
  assumes packet: "packet \<noteq> []" "fst (fragPlan (length packet) per) \<le> maxFragments"
    and sent: "\<forall>i. out i \<noteq> SendMsgSize" "sendFragmented out tx packet per = (bodies, tx')"
    and fresh: "reasm rx (fragSeq tx') = None"
    and last: "snd (snd final) \<in> set bodies" "snd (snd final) \<notin> (\<lambda>e. snd (snd e)) ` set pre"
    and others: "\<forall>e\<in>set pre. event_gid e \<noteq> fragSeq tx' \<or> snd (snd e) \<in> set bodies"
    and all: "set bodies \<subseteq> (\<lambda>e. snd (snd e)) ` set (pre @ [final])"
    and time: "\<forall>e\<in>set (pre @ [final]). start \<le> fst e \<and> fst e \<le> start + reasmTTL"
    and room: "card (dom (reasm rx) \<union> event_gid ` set (pre @ [final])) \<le> maxReasmInFlight"
    and orders: "orders_ok rx (pre @ [final])"
  shows "frag_run rx (pre @ [final]) ! length pre = Some packet \<and>
    (\<forall>k<length pre. event_gid (pre ! k) = fragSeq tx' \<longrightarrow> frag_run rx (pre @ [final]) ! k = None)"
proof -
  obtain c sz where plan: "fragPlan (length packet) per = (c, sz)" by force
  have pos: "0 < length packet" using packet(1) by simp
  note sp = fragPlan_spec(1-4) [OF pos plan]
  have c: "c \<le> maxFragments" using packet(2) plan by simp
  define gid where "gid = fragSeq tx + 1"
  define pc where "pc = piece packet sz"
  have out: "bodies = map (\<lambda>i. fragBody gid i c (pc i)) [0..<c]" "fragSeq tx' = gid"
    using sendFragmented_ok [OF sent(1) plan c, of tx] sent(2) by (simp_all add: gid_def pc_def)
  have pne: "pc i \<noteq> []" if "i < c" for i
  proof -
    have "i * sz \<le> (c - 1) * sz" using that by (intro mult_le_mono1) simp
    then have "i * sz < length packet" using sp(4) by (rule le_less_trans)
    then show ?thesis using sp(2) by (simp add: pc_def piece_def)
  qed
  obtain t ord l where f: "final = (t, ord, fragBody gid l c (pc l))" "l < c"
    using last(1) out(1) by (cases final) auto
  have inj: "i = j" if "i < c" "j < c" "fragBody gid i c (pc i) = fragBody gid j c (pc j)" for i j
  proof -
    have "i < 256" "j < 256" "c < 256" using that(1,2) c by (simp_all add: maxFragments_def)
    then show ?thesis using that(3) fragBody_fields(2) by metis
  qed
  let ?U = "dom (reasm rx) \<union> event_gid ` set (pre @ [final])"
  have "frag_run rx (pre @ [(t, ord, fragBody gid l c (pc l))]) ! length pre = Some (concat (map pc [0..<c])) \<and>
    (\<forall>k<length pre. event_gid (pre ! k) = gid \<longrightarrow> frag_run rx (pre @ [(t, ord, fragBody gid l c (pc l))]) ! k = None)"
  proof (rule frag_run_group [OF c pne, where U = ?U and D = "start + reasmTTL" and S = "{}"])
    show "finite ?U" by simp
    show "card ?U \<le> 64" using room by (simp add: maxReasmInFlight_def)
    show "group_has rx gid c pc (start + reasmTTL) {}" using fresh out(2) by (simp add: group_has_def)
    show "orders_ok rx (pre @ [(t, ord, fragBody gid l c (pc l))])" using orders f(1) by simp
    show "\<forall>e\<in>set pre. fst e \<le> start + reasmTTL \<and> start + reasmTTL \<le> fst e + reasmTTL" using time by auto
    show "t \<le> start + reasmTTL \<and> start + reasmTTL \<le> t + reasmTTL" using time f(1) by auto
    show "\<forall>e\<in>set pre. event_gid e \<noteq> gid \<or> (\<exists>i<c. i \<noteq> l \<and> snd (snd e) = fragBody gid i c (pc i))"
    proof
      fix e assume e: "e \<in> set pre"
      then have "snd (snd e) \<noteq> fragBody gid l c (pc l)" using last(2) f(1) by (metis image_eqI snd_conv)
      then show "event_gid e \<noteq> gid \<or> (\<exists>i<c. i \<noteq> l \<and> snd (snd e) = fragBody gid i c (pc i))"
        using others e out by (cases "event_gid e = gid") fastforce+
    qed
    show "\<forall>i<c. i \<in> {} \<or> i = l \<or> (\<exists>e\<in>set pre. snd (snd e) = fragBody gid i c (pc i))"
    proof (intro allI impI)
      fix i assume i: "i < c"
      then have "fragBody gid i c (pc i) \<in> set bodies" using out(1) by simp
      then have "fragBody gid i c (pc i) \<in> (\<lambda>e. snd (snd e)) ` set (pre @ [final])" using all by blast
      then have "i = l \<or> fragBody gid i c (pc i) \<in> (\<lambda>e. snd (snd e)) ` set pre"
        using inj [OF i f(2)] f(1) by auto
      then show "i \<in> {} \<or> i = l \<or> (\<exists>e\<in>set pre. snd (snd e) = fragBody gid i c (pc i))"
        by (elim disjE imageE) (blast, metis)
    qed
  qed (use f(2) in auto)
  moreover have "concat (map pc [0..<c]) = packet" using concat_pieces sp(3) by (simp add: pc_def)
  ultimately show ?thesis using out(2) f(1) by simp
qed

lemma fragments_reassemble_witness:
  "frag_run \<lparr>reasm = Map.empty, fragsRcvd = 0, reasmDrop = 0, reasmOK = 0\<rparr>
     [(5, [], fragBody 1 1 2 [8]), (6, [1], fragBody 1 0 2 [7])] ! 1 = Some [7, 8]"
proof -
  let ?rx = "\<lparr>reasm = Map.empty, fragsRcvd = 0, reasmDrop = 0, reasmOK = 0\<rparr>"
  let ?e1 = "(5 :: int, [] :: 32 word list, fragBody 1 1 2 [8])" and ?e2 = "(6 :: int, [1 :: 32 word], fragBody 1 0 2 [7])"
  have plan: "fragPlan (length [7, 8 :: byte]) 1 = (2, 1)" by code_simp
  have sent: "sendFragmented (\<lambda>_. SendOK) \<lparr>fragSeq = 0, fragsSent = 0, fragSendDrop = 0, pmtuReset = False\<rparr> [7, 8] 1 =
     ([fragBody 1 0 2 [7], fragBody 1 1 2 [8]], \<lparr>fragSeq = 1, fragsSent = 2, fragSendDrop = 0, pmtuReset = False\<rparr>)"
    using sendFragmented_ok [OF _ plan, of "\<lambda>_. SendOK"] by (simp add: maxFragments_def piece_def upt_rec)
  have g: "event_gid ?e1 = 1" "event_gid ?e2 = 1" by (simp_all add: event_gid_def fragBody_fields)
  let ?pc = "\<lambda>i. if i = 0 then [7] else [8 :: byte]"
  let ?rx' = "fst (onFragment 5 [] ?rx (fragBody 1 1 2 [8]))"
  have "{0..<2 :: nat} = {0, 1}" by auto
  then have "group_has ?rx' 1 2 ?pc (5 + reasmTTL) {1}"
    using onFragment_own [of "[]" ?rx 1 2 ?pc "5 + reasmTTL" "{}" 1 5]
    by (simp add: enum_of_def group_has_def maxFragments_def reasmTTL_def)
  moreover have "dom (reasm ?rx') \<subseteq> {1}"
    by (rule onFragment_dom) (simp_all add: enum_of_def fragBody_fields)
  ultimately have "dom (reasm ?rx') = {1}" by (auto simp: group_has_def dom_def)
  then have ord: "orders_ok ?rx ([?e1] @ [?e2])" by (simp add: enum_of_def)
  have ne: "fragBody 1 0 2 [7] \<noteq> fragBody 1 1 2 [8]" by (simp add: fragBody_def)
  have "frag_run ?rx ([?e1] @ [?e2]) ! length [?e1] = Some [7, 8]"
  proof (rule conjunct1, rule fragments_reassemble [OF _ _ _ sent, where start = 5])
    show "fst (fragPlan (length [7, 8 :: byte]) 1) \<le> maxFragments" unfolding plan by (simp add: maxFragments_def)
    show "card (dom (reasm ?rx) \<union> event_gid ` set ([?e1] @ [?e2])) \<le> maxReasmInFlight"
      using g by (simp add: maxReasmInFlight_def)
    show "orders_ok ?rx ([?e1] @ [?e2])" by (rule ord)
  qed (use ne in \<open>auto simp: reasmTTL_def\<close>)
  then show ?thesis by simp
qed

text \<open>whatever bodies peers send, the reassembly table never holds more than 64 groups, and
  every group in it is consistent: fewer pieces than its count, the number and the total length of
  its pieces as recorded, no empty piece.\<close>
theorem reassembly_table_bounded:
  assumes "table_wf rx" "enum_of ord (reasm rx)"
  shows "table_wf (fst (onFragment now ord rx body)) \<and>
    card (dom (reasm (fst (onFragment now ord rx body)))) \<le> 64"
  using onFragment_wf [OF assms] by (simp add: table_wf_def maxReasmInFlight_def)

lemma reassembly_table_bounded_witness:
  "card (dom (reasm (fst (onFragment 0 [] \<lparr>reasm = Map.empty, fragsRcvd = 0, reasmDrop = 0, reasmOK = 0\<rparr> [0, 0, 0, 1, 0, 2, 7])))) \<le> 64"
  by (rule conjunct2, rule reassembly_table_bounded) (simp_all add: table_wf_def enum_of_def)

end
