(* ===== verification/Go_Strings.thy ===== *)
theory Go_Strings
  imports Wire_Prelude
begin

text \<open>
  The functions of Go's strings and strconv packages the program uses. A Go string is a list of
  bytes, here characters. \<open>TrimSpace\<close> trims every Unicode space, given by its UTF-8 bytes.
  Case folding is that of ASCII, with the two letters outside ASCII that fold into it (the
  Kelvin sign and the long s for \<open>EqualFold\<close>, the Kelvin sign and the dotted capital I for
  \<open>ToLower\<close>); other letters are left as they are. \<open>Atoi\<close> is that of a 64-bit platform.
\<close>

section \<open>Prefixes, suffixes and cutting\<close>

fun HasPrefix :: "string \<Rightarrow> string \<Rightarrow> bool" where
  "HasPrefix s [] = True"
| "HasPrefix [] (c # p) = False"
| "HasPrefix (d # s) (c # p) = (c = d \<and> HasPrefix s p)"

definition HasSuffix :: "string \<Rightarrow> string \<Rightarrow> bool" where
  "HasSuffix s p = HasPrefix (rev s) (rev p)"

definition TrimSuffix :: "string \<Rightarrow> string \<Rightarrow> string" where
  "TrimSuffix s p = (if HasSuffix s p then take (length s - length p) s else s)"

text \<open>Byte-wise comparison, as \<open><\<close> on Go strings.\<close>

fun str_cmp :: "string \<Rightarrow> string \<Rightarrow> int" where
  "str_cmp [] [] = 0"
| "str_cmp [] (_ # _) = -1"
| "str_cmp (_ # _) [] = 1"
| "str_cmp (a # s) (b # t) =
     (if of_char a < (of_char b :: nat) then -1 else if of_char a > (of_char b :: nat) then 1 else str_cmp s t)"

lemma str_cmp_0 [simp]: "str_cmp s t = 0 \<longleftrightarrow> s = t"
  by (induction s t rule: str_cmp.induct) auto

lemma HasPrefix_iff: "HasPrefix s p \<longleftrightarrow> (\<exists>r. s = p @ r)"
  by (induction s p rule: HasPrefix.induct) auto

lemma HasSuffix_iff: "HasSuffix s p \<longleftrightarrow> (\<exists>r. s = r @ p)"
  unfolding HasSuffix_def HasPrefix_iff by (metis rev_append rev_rev_ident)

text \<open>The text before and after the first \<open>c\<close>, and whether there is one.\<close>

fun Cut :: "string \<Rightarrow> char \<Rightarrow> string \<times> string \<times> bool" where
  "Cut [] c = ([], [], False)"
| "Cut (d # s) c = (if d = c then ([], s, True) else (case Cut s c of (a, b, ok) \<Rightarrow> (d # a, b, ok)))"

definition ContainsChar :: "string \<Rightarrow> char \<Rightarrow> bool" where
  "ContainsChar s c = (c \<in> set s)"

fun SplitOn :: "string \<Rightarrow> char \<Rightarrow> string list" where
  "SplitOn [] c = [[]]"
| "SplitOn (d # s) c =
     (if d = c then [] # SplitOn s c else (case SplitOn s c of a # r \<Rightarrow> (d # a) # r | [] \<Rightarrow> [[d]]))"

text \<open>The text before and after the last \<open>c\<close>.\<close>

definition CutLast :: "string \<Rightarrow> char \<Rightarrow> string \<times> string \<times> bool" where
  "CutLast s c = (case Cut (rev s) c of (b, a, ok) \<Rightarrow> (rev a, rev b, ok))"

section \<open>Spaces and case\<close>

definition space_seqs :: "string list" where
  "space_seqs =
     [[CHR 0x20], [CHR 0x09], [CHR 0x0A], [CHR 0x0B], [CHR 0x0C], [CHR 0x0D],
      [CHR 0xC2, CHR 0x85], [CHR 0xC2, CHR 0xA0], [CHR 0xE1, CHR 0x9A, CHR 0x80],
      [CHR 0xE2, CHR 0x80, CHR 0x80], [CHR 0xE2, CHR 0x80, CHR 0x81], [CHR 0xE2, CHR 0x80, CHR 0x82],
      [CHR 0xE2, CHR 0x80, CHR 0x83], [CHR 0xE2, CHR 0x80, CHR 0x84], [CHR 0xE2, CHR 0x80, CHR 0x85],
      [CHR 0xE2, CHR 0x80, CHR 0x86], [CHR 0xE2, CHR 0x80, CHR 0x87], [CHR 0xE2, CHR 0x80, CHR 0x88],
      [CHR 0xE2, CHR 0x80, CHR 0x89], [CHR 0xE2, CHR 0x80, CHR 0x8A], [CHR 0xE2, CHR 0x80, CHR 0xA8],
      [CHR 0xE2, CHR 0x80, CHR 0xA9], [CHR 0xE2, CHR 0x80, CHR 0xAF], [CHR 0xE2, CHR 0x81, CHR 0x9F],
      [CHR 0xE3, CHR 0x80, CHR 0x80]]"

lemma space_seqs_ne: "w \<in> set space_seqs \<Longrightarrow> 0 < length w"
  by (auto simp: space_seqs_def)

fun trim_with :: "string list \<Rightarrow> nat \<Rightarrow> string \<Rightarrow> string" where
  "trim_with ws 0 s = s"
| "trim_with ws (Suc n) s =
     (case find (HasPrefix s) ws of None \<Rightarrow> s | Some w \<Rightarrow> trim_with ws n (drop (length w) s))"

text \<open>Every round of \<open>trim_with\<close> removes at least one byte, so the length is fuel enough.\<close>

definition TrimLeft :: "string \<Rightarrow> string" where
  "TrimLeft s = trim_with space_seqs (length s) s"

definition TrimRight :: "string \<Rightarrow> string" where
  "TrimRight s = rev (trim_with (map rev space_seqs) (length s) (rev s))"

definition TrimSpace :: "string \<Rightarrow> string" where
  "TrimSpace s = TrimRight (TrimLeft s)"

definition lower_char :: "char \<Rightarrow> char" where
  "lower_char c = (if of_char c \<ge> (65 :: nat) \<and> of_char c \<le> (90 :: nat) then char_of (of_char c + 32 :: nat) else c)"

fun fold_string :: "string \<Rightarrow> string" where
  "fold_string (a # b # c # r) =
     (if a = CHR 0xE2 \<and> b = CHR 0x84 \<and> c = CHR 0xAA then CHR ''k'' # fold_string r
      else if a = CHR 0xC5 \<and> b = CHR 0xBF then CHR ''s'' # fold_string (c # r)
      else lower_char a # fold_string (b # c # r))"
| "fold_string [a, b] =
     (if a = CHR 0xC5 \<and> b = CHR 0xBF then ''s'' else [lower_char a, lower_char b])"
| "fold_string [a] = [lower_char a]"
| "fold_string [] = []"

definition EqualFold :: "string \<Rightarrow> string \<Rightarrow> bool" where
  "EqualFold s t \<longleftrightarrow> fold_string s = fold_string t"

fun ToLower :: "string \<Rightarrow> string" where
  "ToLower (a # b # c # r) =
     (if a = CHR 0xE2 \<and> b = CHR 0x84 \<and> c = CHR 0xAA then CHR ''k'' # ToLower r
      else if a = CHR 0xC4 \<and> b = CHR 0xB0 then CHR ''i'' # ToLower (c # r)
      else lower_char a # ToLower (b # c # r))"
| "ToLower [a, b] = (if a = CHR 0xC4 \<and> b = CHR 0xB0 then ''i'' else [lower_char a, lower_char b])"
| "ToLower [a] = [lower_char a]"
| "ToLower [] = []"

section \<open>Numbers\<close>

definition digit_val :: "char \<Rightarrow> nat option" where
  "digit_val c = (let n = (of_char c :: nat) in if 48 \<le> n \<and> n \<le> 57 then Some (n - 48) else None)"

definition hex_val :: "char \<Rightarrow> nat option" where
  "hex_val c = (let n = (of_char c :: nat) in
     if 48 \<le> n \<and> n \<le> 57 then Some (n - 48)
     else if 97 \<le> n \<and> n \<le> 102 then Some (n - 87)
     else if 65 \<le> n \<and> n \<le> 70 then Some (n - 55)
     else None)"

fun digits_val :: "string \<Rightarrow> nat \<Rightarrow> nat option" where
  "digits_val [] acc = Some acc"
| "digits_val (c # s) acc = (case digit_val c of None \<Rightarrow> None | Some d \<Rightarrow> digits_val s (10 * acc + d))"

definition Atoi :: "string \<Rightarrow> int option" where
  "Atoi s =
     (let neg = HasPrefix s ''-''; ds = (if neg \<or> HasPrefix s ''+'' then tl s else s)
      in if ds = [] then None
         else case digits_val ds 0 of
           None \<Rightarrow> None
         | Some n \<Rightarrow> if neg then (if int n \<le> 2 ^ 63 then Some (- int n) else None)
                     else (if int n < 2 ^ 63 then Some (int n) else None))"

fun Itoa_nat :: "nat \<Rightarrow> string" where
  "Itoa_nat n = (if n < 10 then [char_of (48 + n)] else Itoa_nat (n div 10) @ [char_of (48 + n mod 10)])"

declare Itoa_nat.simps [simp del]

definition Itoa :: "int \<Rightarrow> string" where
  "Itoa i = (if i < 0 then CHR ''-'' # Itoa_nat (nat (- i)) else Itoa_nat (nat i))"

section \<open>Lemmas\<close>

lemma Cut_eq: "Cut s c = (a, b, ok) \<Longrightarrow> (if ok then s = a @ c # b else s = a \<and> b = []) \<and> c \<notin> set a"
  by (induction s arbitrary: a b ok) (auto split: if_splits prod.splits)

lemma Cut_append: "c \<notin> set a \<Longrightarrow> Cut (a @ c # b) c = (a, b, True)"
  by (induction a) auto

lemma Cut_none: "c \<notin> set a \<Longrightarrow> Cut a c = (a, [], False)"
  by (induction a) auto

lemma digits_val_append: "digits_val (a @ b) n = (case digits_val a n of None \<Rightarrow> None | Some m \<Rightarrow> digits_val b m)"
  by (induction a arbitrary: n) (auto split: option.splits)

lemma digit_val_char [simp]: "d < 10 \<Longrightarrow> digit_val (char_of (48 + d)) = Some d"
  by (simp add: digit_val_def Let_def)

lemma digits_val_Itoa: "digits_val (Itoa_nat n) 0 = Some n"
proof (induction n rule: less_induct)
  case (less n)
  show ?case
  proof (cases "n < 10")
    case True
    then show ?thesis by (simp add: Itoa_nat.simps [of n])
  next
    case False
    then have "digits_val (Itoa_nat (n div 10)) 0 = Some (n div 10)" using less by simp
    then show ?thesis using False by (subst Itoa_nat.simps) (simp add: digits_val_append)
  qed
qed

lemma Itoa_nat_digits: "c \<in> set (Itoa_nat n) \<Longrightarrow> \<exists>d < 10. c = char_of (48 + d :: nat)"
proof (induction n rule: less_induct)
  case (less n)
  show ?case
  proof (cases "n < 10")
    case True
    then show ?thesis using less(2) by (auto simp: Itoa_nat.simps [of n])
  next
    case False
    then have "c \<in> set (Itoa_nat (n div 10)) \<or> c = char_of (48 + n mod 10)"
      using less(2) by (auto simp: Itoa_nat.simps [of n])
    then show ?thesis
    proof
      assume "c \<in> set (Itoa_nat (n div 10))"
      then show ?thesis using less(1) [of "n div 10"] False by simp
    next
      assume "c = char_of (48 + n mod 10)"
      then show ?thesis by (intro exI [of _ "n mod 10"]) simp
    qed
  qed
qed

lemma Itoa_nat_ne [simp]: "Itoa_nat n \<noteq> []"
  by (subst Itoa_nat.simps) simp

lemma Itoa_nat_not: "of_char c < (48 :: nat) \<or> of_char c > (57 :: nat) \<Longrightarrow> c \<notin> set (Itoa_nat n)"
  using Itoa_nat_digits [of c n] by fastforce

text \<open>Printing and parsing an integer of the platform's range.\<close>

lemma HasPrefix1: "HasPrefix s [c] \<longleftrightarrow> s \<noteq> [] \<and> hd s = c"
  by (cases s) auto

lemma Atoi_Itoa: "- (2 ^ 63) \<le> i \<Longrightarrow> i < 2 ^ 63 \<Longrightarrow> Atoi (Itoa i) = Some i"
proof -
  assume r: "- (2 ^ 63) \<le> i" "i < 2 ^ 63"
  have hd: "hd (Itoa_nat n) \<noteq> CHR ''-''" "hd (Itoa_nat n) \<noteq> CHR ''+''" for n
    using Itoa_nat_not [of "CHR ''-''" n] Itoa_nat_not [of "CHR ''+''" n] hd_in_set [OF Itoa_nat_ne [of n]] by (fastforce simp del: hd_in_set)+
  show ?thesis
  proof (cases "i < 0")
    case True
    then have "int (nat (- i)) \<le> 2 ^ 63" using r by simp
    then show ?thesis using True by (simp add: Itoa_def Atoi_def HasPrefix1 digits_val_Itoa)
  next
    case False
    then have "int (nat i) < 2 ^ 63" using r by simp
    then show ?thesis using False by (simp add: Itoa_def Atoi_def HasPrefix1 digits_val_Itoa hd)
  qed
qed

end
