(* ===== verification/Net_Addr.thy ===== *)
theory Net_Addr
  imports Wire_Prelude
begin

text \<open>
  Addresses and prefixes as Go's net/netip has them: the zero address, IPv4 and IPv6 with an
  optional zone (an IPv4-mapped IPv6 address is an IPv6 address), and a prefix that is either
  invalid or an address without zone and a length. \<open>Contains\<close> is false across families and
  for addresses with a zone.
\<close>

datatype addr = NoAddr | Addr4 "32 word" | Addr6 "128 word" string

definition IsValid :: "addr \<Rightarrow> bool" where "IsValid a \<longleftrightarrow> a \<noteq> NoAddr"

fun Is4 :: "addr \<Rightarrow> bool" where
  "Is4 (Addr4 _) = True" | "Is4 _ = False"

fun Is6 :: "addr \<Rightarrow> bool" where
  "Is6 (Addr6 _ _) = True" | "Is6 _ = False"

fun Is4In6 :: "addr \<Rightarrow> bool" where
  "Is4In6 (Addr6 w _) = (drop_bit 32 w = 0xffff)" | "Is4In6 _ = False"

fun Unmap :: "addr \<Rightarrow> addr" where
  "Unmap (Addr6 w z) = (if drop_bit 32 w = 0xffff then Addr4 (ucast w) else Addr6 w z)"
| "Unmap a = a"

fun BitLen :: "addr \<Rightarrow> nat" where
  "BitLen NoAddr = 0" | "BitLen (Addr4 _) = 32" | "BitLen (Addr6 _ _) = 128"

fun WithoutZone :: "addr \<Rightarrow> addr" where
  "WithoutZone (Addr6 w _) = Addr6 w []" | "WithoutZone a = a"

fun has_zone :: "addr \<Rightarrow> bool" where
  "has_zone (Addr6 _ z) = (z \<noteq> [])" | "has_zone _ = False"

text \<open>Byte views: \<open>As4\<close>, \<open>As16\<close>, \<open>AddrFrom4\<close>, \<open>AddrFrom16\<close>.\<close>

definition put128 :: "128 word \<Rightarrow> bytes" where
  "put128 w = put64 (ucast (drop_bit 64 w)) @ put64 (ucast w)"

definition get128 :: "bytes \<Rightarrow> 128 word" where
  "get128 bs = push_bit 64 (ucast (get64 (take 8 bs))) OR ucast (get64 (take 8 (drop 8 bs)))"

fun addr_bytes :: "addr \<Rightarrow> bytes" where
  "addr_bytes NoAddr = []" | "addr_bytes (Addr4 w) = put32 w" | "addr_bytes (Addr6 w _) = put128 w"

definition AddrFrom4 :: "bytes \<Rightarrow> addr" where "AddrFrom4 bs = Addr4 (get32 bs)"
definition AddrFrom16 :: "bytes \<Rightarrow> addr" where "AddrFrom16 bs = Addr6 (get128 bs) []"

lemma length_put128 [simp]: "length (put128 w) = 16"
  by (simp add: put128_def)

lemma word64_bit_ge [simp]: "64 \<le> n \<Longrightarrow> \<not> bit (w :: 64 word) n"
  by (auto dest: bit_imp_le_length)

lemma halves_of_join128:
  fixes x y :: "64 word"
  shows "ucast (drop_bit 64 (push_bit 64 (ucast x) OR ucast y :: 128 word)) = x"
    and "ucast (push_bit 64 (ucast x) OR ucast y :: 128 word) = y"
  by (auto simp: bit_simps intro!: bit_word_eqI)

lemma join_halves128:
  "push_bit 64 (ucast (ucast (drop_bit 64 w) :: 64 word)) OR ucast (ucast w :: 64 word) = (w :: 128 word)"
  by (auto simp: bit_simps not_le intro!: bit_word_eqI dest: bit_imp_le_length)

lemma get128_put128 [simp, wire_simps]: "get128 (put128 w) = w"
  by (simp add: get128_def put128_def join_halves128)

lemma put128_get128_length: "length bs = 16 \<Longrightarrow> put128 (get128 bs) = bs"
  unfolding get128_def put128_def halves_of_join128 by (simp add: put64_get64_length)

section \<open>Prefixes\<close>

datatype prefix = NoPrefix | Prefix addr nat

fun prefix_valid :: "prefix \<Rightarrow> bool" where
  "prefix_valid NoPrefix = False" | "prefix_valid (Prefix _ _) = True"

fun prefix_addr :: "prefix \<Rightarrow> addr" where
  "prefix_addr NoPrefix = NoAddr" | "prefix_addr (Prefix a _) = a"

fun prefix_bits :: "prefix \<Rightarrow> int" where
  "prefix_bits NoPrefix = -1" | "prefix_bits (Prefix _ b) = int b"

text \<open>\<open>netip.PrefixFrom\<close>: the zone is dropped, a length out of range gives an invalid prefix.\<close>

definition PrefixFrom :: "addr \<Rightarrow> int \<Rightarrow> prefix" where
  "PrefixFrom a b = (if a = NoAddr \<or> b < 0 \<or> b > int (BitLen a) then NoPrefix else Prefix (WithoutZone a) (nat b))"

fun Contains :: "prefix \<Rightarrow> addr \<Rightarrow> bool" where
  "Contains (Prefix (Addr4 p) b) (Addr4 a) = (drop_bit (32 - b) (p XOR a) = 0)"
| "Contains (Prefix (Addr6 p _) b) (Addr6 a z) = (z = [] \<and> drop_bit (128 - b) (p XOR a) = 0)"
| "Contains _ _ = False"

fun Masked :: "prefix \<Rightarrow> prefix" where
  "Masked (Prefix (Addr4 p) b) = Prefix (Addr4 (push_bit (32 - b) (drop_bit (32 - b) p))) b"
| "Masked (Prefix (Addr6 p z) b) = Prefix (Addr6 (push_bit (128 - b) (drop_bit (128 - b) p)) []) b"
| "Masked _ = NoPrefix"

text \<open>The prefixes the constructors build: a length that fits, no zone.\<close>

fun prefix_wf :: "prefix \<Rightarrow> bool" where
  "prefix_wf NoPrefix = True"
| "prefix_wf (Prefix NoAddr b) = False"
| "prefix_wf (Prefix (Addr4 _) b) = (b \<le> 32)"
| "prefix_wf (Prefix (Addr6 _ z) b) = (b \<le> 128 \<and> z = [])"

lemma PrefixFrom_wf [simp]: "prefix_wf (PrefixFrom a b)"
  by (cases a) (auto simp: PrefixFrom_def)

lemma drop_bit_xor_eq_0:
  fixes p a :: "'a::len word"
  shows "drop_bit n (p XOR a) = 0 \<longleftrightarrow> drop_bit n p = drop_bit n a"
proof
  assume "drop_bit n (p XOR a) = 0"
  then have z: "\<not> bit (drop_bit n (p XOR a)) k" for k by simp
  have "bit p (n + k) \<longleftrightarrow> bit a (n + k)" for k
    using z [of k] by (auto simp: bit_drop_bit_eq bit_xor_iff)
  then show "drop_bit n p = drop_bit n a"
    by (intro bit_word_eqI) (simp add: bit_drop_bit_eq)
qed (simp add: drop_bit_xor)

lemma drop_push_drop: "drop_bit n (push_bit n (drop_bit n (w :: 'a::len word))) = drop_bit n w"
  by (auto simp: bit_simps intro!: bit_word_eqI dest: bit_imp_le_length)

lemma Contains_network4: "Contains (Prefix (Addr4 p) b) (Addr4 a) \<longleftrightarrow> drop_bit (32 - b) p = drop_bit (32 - b) a"
  by (simp only: Contains.simps drop_bit_xor_eq_0)

lemma Contains_network6:
  "Contains (Prefix (Addr6 p y) b) (Addr6 a z) \<longleftrightarrow> z = [] \<and> drop_bit (128 - b) p = drop_bit (128 - b) a"
  by (simp only: Contains.simps drop_bit_xor_eq_0)

lemma Contains_family: "Contains p a \<Longrightarrow> (Is4 (prefix_addr p) \<longleftrightarrow> Is4 a) \<and> (Is6 (prefix_addr p) \<longleftrightarrow> Is6 a)"
  by (cases "(p, a)" rule: Contains.cases) auto

lemma Contains_Masked: "Contains (Masked p) a = Contains p a"
proof (cases "(p, a)" rule: Contains.cases)
  case (1 p b a)
  then show ?thesis by (simp only: prod.inject Masked.simps Contains_network4 drop_push_drop)
next
  case (2 p z b a za)
  then show ?thesis by (simp only: prod.inject Masked.simps Contains_network6 drop_push_drop)
qed auto

end
