(* ===== verification/Net_Parse.thy ===== *)
theory Net_Parse
  imports Go_Strings Net_Addr
begin

text \<open>
  The text forms of net/netip: \<open>ParseAddr\<close> with its IPv4 and IPv6 parsers (leading zeros
  refused, zones, one \<open>::\<close>, an embedded IPv4 tail), \<open>ParsePrefix\<close> and \<open>Addr.String\<close>.
  An error is \<open>None\<close>.
\<close>

section \<open>Parsing addresses\<close>

definition parse_octet :: "string \<Rightarrow> nat option" where
  "parse_octet s =
     (if s = [] \<or> (length s > 1 \<and> hd s = CHR ''0'') then None
      else case digits_val s 0 of None \<Rightarrow> None | Some n \<Rightarrow> if n > 255 then None else Some n)"

definition parseIPv4Fields :: "string \<Rightarrow> bytes option" where
  "parseIPv4Fields s =
     (case map parse_octet (SplitOn s CHR ''.'') of
        [Some a, Some b, Some c, Some d] \<Rightarrow> Some [of_nat a, of_nat b, of_nat c, of_nat d]
      | _ \<Rightarrow> None)"

text \<open>The hexadecimal digits at the front: how many, and their value; a fifth digit is an error.\<close>

fun hex_group :: "string \<Rightarrow> nat \<Rightarrow> nat \<Rightarrow> (nat \<times> nat \<times> string) option" where
  "hex_group [] off acc = Some (off, acc, [])"
| "hex_group (c # s) off acc =
     (case hex_val c of None \<Rightarrow> Some (off, acc, c # s)
      | Some d \<Rightarrow> if off > 3 then None else hex_group s (off + 1) (16 * acc + d))"

text \<open>The loop over colon-separated groups. The bytes so far are \<open>ip\<close>, the place of the ellipsis
  is \<open>ell\<close>; the result is the bytes, the ellipsis and what is left of the text.\<close>

fun parse_groups :: "nat \<Rightarrow> string \<Rightarrow> bytes \<Rightarrow> nat option \<Rightarrow> (bytes \<times> nat option \<times> string) option" where
  "parse_groups 0 s ip ell = Some (ip, ell, s)"
| "parse_groups (Suc n) s ip ell =
     (if length ip \<ge> 16 then Some (ip, ell, s)
      else case hex_group s 0 0 of
        None \<Rightarrow> None
      | Some (off, acc, rest) \<Rightarrow>
          if off = 0 then None
          else if HasPrefix rest ''.'' then
            (if ell = None \<and> length ip \<noteq> 12 then None
             else if length ip + 4 > 16 then None
             else case parseIPv4Fields s of None \<Rightarrow> None | Some b \<Rightarrow> Some (ip @ b, ell, []))
          else
            let ip' = ip @ put16 (of_nat acc)
            in if rest = [] then Some (ip', ell, [])
               else if hd rest \<noteq> CHR '':'' then None
               else if tl rest = [] then None
               else
                 let s' = tl rest
                 in if hd s' = CHR '':'' then
                      (if ell \<noteq> None then None
                       else if tl s' = [] then Some (ip', Some (length ip'), [])
                       else parse_groups n (tl s') ip' (Some (length ip')))
                    else parse_groups n s' ip' ell)"

definition parseIPv6 :: "string \<Rightarrow> addr option" where
  "parseIPv6 s0 =
     (case Cut s0 CHR ''%'' of
        (s, zone, hasZone) \<Rightarrow>
          if hasZone \<and> zone = [] then None
          else
            let lead = HasPrefix s ''::''; s1 = (if lead then drop 2 s else s)
            in if lead \<and> s1 = [] then Some (Addr6 0 zone)
               else case parse_groups 9 s1 [] (if lead then Some 0 else None) of
                 None \<Rightarrow> None
               | Some (ip, ell, rest) \<Rightarrow>
                   if rest \<noteq> [] then None
                   else if length ip < 16 then
                     (case ell of None \<Rightarrow> None
                      | Some e \<Rightarrow> Some (Addr6 (get128 (take e ip @ replicate (16 - length ip) 0 @ drop e ip)) zone))
                   else if ell \<noteq> None then None
                   else Some (Addr6 (get128 ip) zone))"

text \<open>The first dot, colon or percent sign says what kind of address it is.\<close>

definition ParseAddr :: "string \<Rightarrow> addr option" where
  "ParseAddr s =
     (case find (\<lambda>c. c = CHR ''.'' \<or> c = CHR '':'' \<or> c = CHR ''%'') s of
        None \<Rightarrow> None
      | Some c \<Rightarrow>
          if c = CHR ''.'' then map_option AddrFrom4 (parseIPv4Fields s)
          else if c = CHR '':'' then parseIPv6 s
          else None)"

definition ParsePrefix :: "string \<Rightarrow> prefix option" where
  "ParsePrefix s =
     (case CutLast s CHR ''/'' of
        (_, _, False) \<Rightarrow> None
      | (as, bs, True) \<Rightarrow>
          (case ParseAddr as of
             None \<Rightarrow> None
           | Some ip \<Rightarrow>
               if has_zone ip then None
               else if length bs > 1 \<and> (of_char (hd bs) < (49 :: nat) \<or> of_char (hd bs) > (57 :: nat)) then None
               else case Atoi bs of
                 None \<Rightarrow> None
               | Some bits \<Rightarrow> if bits < 0 \<or> bits > int (BitLen ip) then None else Some (PrefixFrom ip bits)))"

section \<open>Printing addresses\<close>

definition join :: "string \<Rightarrow> string list \<Rightarrow> string" where
  "join sep ss = (case ss of [] \<Rightarrow> [] | s # r \<Rightarrow> s @ concat (map (\<lambda>x. sep @ x) r))"

definition hex_digit :: "nat \<Rightarrow> char" where
  "hex_digit d = (if d < 10 then char_of (48 + d) else char_of (87 + d))"

definition hex_text :: "nat \<Rightarrow> string" where
  "hex_text n =
     (if n \<ge> 4096 then [hex_digit (n div 4096)] else []) @
     (if n \<ge> 256 then [hex_digit (n div 256 mod 16)] else []) @
     (if n \<ge> 16 then [hex_digit (n div 16 mod 16)] else []) @ [hex_digit (n mod 16)]"

definition v6_groups :: "128 word \<Rightarrow> nat list" where
  "v6_groups w = map (\<lambda>i. unat (take_bit 16 (drop_bit (112 - 16 * i) w))) [0..<8]"

definition zero_run :: "nat list \<Rightarrow> nat \<Rightarrow> nat" where
  "zero_run gs i = length (takeWhile (\<lambda>g. g = 0) (drop i gs))"

definition best_run :: "nat list \<Rightarrow> nat \<times> nat" where
  "best_run gs = foldl (\<lambda>(s, l) i. let r = zero_run gs i in if r \<ge> 2 \<and> r > l then (i, r) else (s, l)) (8, 0) [0..<8]"

fun addr_String :: "addr \<Rightarrow> string" where
  "addr_String NoAddr = ''invalid IP''"
| "addr_String (Addr4 w) = join ''.'' (map (\<lambda>b. Itoa_nat (unat b)) (put32 w))"
| "addr_String (Addr6 w z) =
     (let body =
        (if drop_bit 32 w = 0xffff then ''::ffff:'' @ join ''.'' (map (\<lambda>b. Itoa_nat (unat b)) (put32 (ucast w)))
         else let gs = v6_groups w
              in case best_run gs of
                (s, l) \<Rightarrow>
                  if l = 0 then join '':'' (map hex_text gs)
                  else join '':'' (map hex_text (take s gs)) @ ''::'' @ join '':'' (map hex_text (drop (s + l) gs)))
      in if z = [] then body else body @ ''%'' @ z)"

definition prefix_String :: "prefix \<Rightarrow> string" where
  "prefix_String p = (case p of NoPrefix \<Rightarrow> ''invalid Prefix'' | Prefix a b \<Rightarrow> addr_String a @ ''/'' @ Itoa_nat b)"

section \<open>IPv4 text is read back\<close>

lemma SplitOn_ne [simp]: "SplitOn s c \<noteq> []"
  by (induction s) (auto split: list.splits)

lemma SplitOn_no: "c \<notin> set a \<Longrightarrow> SplitOn a c = [a]"
  by (induction a) auto

lemma SplitOn_append: "c \<notin> set a \<Longrightarrow> SplitOn (a @ c # b) c = a # SplitOn b c"
  by (induction a) auto

lemma Itoa_nat_hd: "length (Itoa_nat n) > 1 \<Longrightarrow> hd (Itoa_nat n) \<noteq> CHR ''0''"
proof (induction n rule: less_induct)
  case (less n)
  show ?case
  proof (cases "n < 10")
    case True
    then show ?thesis using less(2) by (simp add: Itoa_nat.simps [of n])
  next
    case False
    show ?thesis
    proof (cases "n div 10 < 10")
      case True
      have "char_of (48 + n div 10) \<noteq> CHR ''0''"
      proof
        assume "char_of (48 + n div 10) = CHR ''0''"
        then have "of_char (char_of (48 + n div 10) :: char) = (48 :: nat)" by simp
        then show False using True False by simp
      qed
      then show ?thesis using True False by (simp add: Itoa_nat.simps [of n] Itoa_nat.simps [of "n div 10"])
    next
      case c: False
      then have "length (Itoa_nat (n div 10)) > 1" by (simp add: Itoa_nat.simps [of "n div 10"] Suc_le_eq)
      then have "hd (Itoa_nat (n div 10)) \<noteq> CHR ''0''" using less(1) [of "n div 10"] False by simp
      then show ?thesis using False by (simp add: Itoa_nat.simps [of n])
    qed
  qed
qed

lemma parse_octet_Itoa: "n \<le> 255 \<Longrightarrow> parse_octet (Itoa_nat n) = Some n"
  using Itoa_nat_hd [of n] by (auto simp: parse_octet_def digits_val_Itoa)

lemma octet_byte: "parse_octet (Itoa_nat (unat (b :: byte))) = Some (unat b)"
  using unat_less_2p [of b] by (intro parse_octet_Itoa) simp

lemma find_dot: "\<forall>c \<in> set a. of_char c \<ge> (48 :: nat) \<and> of_char c \<le> (57 :: nat) \<Longrightarrow>
    find (\<lambda>c. c = CHR ''.'' \<or> c = CHR '':'' \<or> c = CHR ''%'') (a @ CHR ''.'' # r) = Some CHR ''.''"
  by (induction a) auto

lemma ParseAddr_String4: "ParseAddr (addr_String (Addr4 w)) = Some (Addr4 w)"
proof -
  obtain a b c d where abcd: "put32 w = [a, b, c, d]"
    by (auto simp: put32_def put16_def)
  have nodot: "CHR ''.'' \<notin> set (Itoa_nat n)" for n by (rule Itoa_nat_not) simp
  have dg: "\<forall>c \<in> set (Itoa_nat n). of_char c \<ge> (48 :: nat) \<and> of_char c \<le> (57 :: nat)" for n
    using Itoa_nat_not not_less by blast
  let ?i = "\<lambda>b. Itoa_nat (unat (b :: byte))"
  have s: "addr_String (Addr4 w) = ?i a @ CHR ''.'' # (?i b @ CHR ''.'' # (?i c @ CHR ''.'' # ?i d))"
    by (simp add: abcd join_def)
  have "parseIPv4Fields (addr_String (Addr4 w)) = Some [a, b, c, d]"
    unfolding s parseIPv4Fields_def by (simp add: SplitOn_append SplitOn_no nodot octet_byte)
  then show ?thesis
    unfolding ParseAddr_def s find_dot [OF dg] by (simp add: AddrFrom4_def abcd [symmetric])
qed

end
