(* ===== verification/Fw_Range.thy ===== *)
theory Fw_Range
  imports Net_Parse
begin

text \<open>
  The address ranges of internal/mesh/firewall.go: \<open>rangeToPrefixes\<close> splits an inclusive range
  into aligned CIDR blocks. Go's big integers are natural numbers here. The theorem says the
  blocks cover exactly the range.
\<close>

definition addrToBig :: "addr \<Rightarrow> nat" where
  "addrToBig a = (case a of Addr4 w \<Rightarrow> unat w | Addr6 w _ \<Rightarrow> unat w | NoAddr \<Rightarrow> 0)"

definition bigToAddr :: "nat \<Rightarrow> bool \<Rightarrow> addr" where
  "bigToAddr v v4 = (if v4 then Addr4 (of_nat v) else Addr6 (of_nat v) [])"

text \<open>\<open>TrailingZeroBits\<close> of a non-zero number, and \<open>BitLen\<close> minus one of a positive one.\<close>

fun trailing_zeros :: "nat \<Rightarrow> nat" where
  "trailing_zeros n = (if n = 0 \<or> odd n then 0 else Suc (trailing_zeros (n div 2)))"

fun floor_log2 :: "nat \<Rightarrow> nat" where
  "floor_log2 n = (if n < 2 then 0 else Suc (floor_log2 (n div 2)))"

declare trailing_zeros.simps [simp del] floor_log2.simps [simp del]

definition block_bits :: "nat \<Rightarrow> nat \<Rightarrow> nat \<Rightarrow> nat" where
  "block_bits bits cur hi =
     (let maxByAlign = (if cur \<noteq> 0 then trailing_zeros cur else bits);
          maxBySpan = floor_log2 (hi - cur + 1)
      in if maxBySpan < maxByAlign then maxBySpan else maxByAlign)"

function range_loop :: "nat \<Rightarrow> bool \<Rightarrow> nat \<Rightarrow> nat \<Rightarrow> prefix list" where
  "range_loop bits v4 cur hi =
     (if cur \<le> hi then
        let sz = block_bits bits cur hi
        in PrefixFrom (bigToAddr cur v4) (int bits - int sz) # range_loop bits v4 (cur + 2 ^ sz) hi
      else [])"
  by auto
termination
  by (relation "measure (\<lambda>(bits, v4, cur, hi). Suc hi - cur)") (auto simp: Let_def diff_less_mono2 less_Suc_eq_le)

declare range_loop.simps [simp del]

definition rangeToPrefixes :: "addr \<Rightarrow> addr \<Rightarrow> prefix list" where
  "rangeToPrefixes lo hi =
     (if addrToBig lo > addrToBig hi then []
      else range_loop (BitLen lo) (Is4 lo) (addrToBig lo) (addrToBig hi))"

section \<open>Blocks are aligned and inside the range\<close>

lemma trailing_zeros_dvd: "2 ^ trailing_zeros n dvd n"
proof (induction n rule: trailing_zeros.induct)
  case (1 n)
  then show ?case
    by (cases "n = 0 \<or> odd n") (auto simp: trailing_zeros.simps [of n] mult_dvd_mono elim!: evenE)
qed

lemma floor_log2_le: "0 < n \<Longrightarrow> 2 ^ floor_log2 n \<le> n"
proof (induction n rule: floor_log2.induct)
  case (1 n)
  show ?case
  proof (cases "n < 2")
    case True
    then show ?thesis using 1(2) by (simp add: floor_log2.simps [of n])
  next
    case False
    then have "2 ^ floor_log2 (n div 2) \<le> n div 2" using 1(1) by simp
    then have "2 * 2 ^ floor_log2 (n div 2) \<le> 2 * (n div 2)" by simp
    also have "\<dots> \<le> n" by simp
    finally show ?thesis using False by (simp add: floor_log2.simps [of n])
  qed
qed

lemma block_facts:
  assumes "cur \<le> hi" "hi < 2 ^ bits"
  shows "2 ^ block_bits bits cur hi dvd cur" "cur + 2 ^ block_bits bits cur hi \<le> Suc hi" "block_bits bits cur hi \<le> bits"
proof -
  let ?s = "block_bits bits cur hi"
  have "?s \<le> (if cur \<noteq> 0 then trailing_zeros cur else bits)" by (auto simp: block_bits_def Let_def)
  then have "(2 :: nat) ^ ?s dvd 2 ^ (if cur \<noteq> 0 then trailing_zeros cur else bits)" by (rule le_imp_power_dvd)
  then show "2 ^ ?s dvd cur" using dvd_trans [OF _ trailing_zeros_dvd [of cur]] by (cases "cur = 0") auto
  have "?s \<le> floor_log2 (hi - cur + 1)" by (auto simp: block_bits_def Let_def)
  then have "(2 :: nat) ^ ?s \<le> 2 ^ floor_log2 (hi - cur + 1)" by (rule power_increasing) simp
  also have "\<dots> \<le> hi - cur + 1" by (rule floor_log2_le) simp
  finally have le: "2 ^ ?s \<le> hi - cur + 1" .
  then show "cur + 2 ^ ?s \<le> Suc hi" using assms(1) by simp
  have "(2 :: nat) ^ ?s \<le> 2 ^ bits" using le assms by linarith
  then show "?s \<le> bits" by (intro power_le_imp_le_exp [of 2]) simp_all
qed

lemma block_div: "2 ^ k dvd (cur :: nat) \<Longrightarrow> cur div 2 ^ k = x div 2 ^ k \<longleftrightarrow> cur \<le> x \<and> x < cur + 2 ^ k"
proof -
  assume "2 ^ k dvd cur"
  then obtain m where m: "cur = 2 ^ k * m" by (elim dvdE)
  have "x div 2 ^ k = m \<longleftrightarrow> 2 ^ k * m \<le> x \<and> x < 2 ^ k * m + 2 ^ k"
    using div_nat_eqI [of "2 ^ k" m x] by (auto simp: dividend_less_times_div add.commute)
  then show ?thesis by (auto simp: m)
qed

lemma drop_bit_unat: "drop_bit k (p :: 'a::len word) = drop_bit k a \<longleftrightarrow> unat p div 2 ^ k = unat a div 2 ^ k"
  by (simp only: word_unat_eq_iff unat_drop_bit_eq) (simp only: drop_bit_eq_div)

text \<open>What an address of the family of the range is, as a number, and the members of a block.\<close>

definition in_family :: "bool \<Rightarrow> addr \<Rightarrow> bool" where
  "in_family v4 a \<longleftrightarrow> (if v4 then Is4 a else Is6 a \<and> \<not> has_zone a)"

lemma block_Contains:
  assumes "cur < 2 ^ (if v4 then 32 else 128)" "2 ^ k dvd cur" "k \<le> (if v4 then 32 else 128)"
  shows "Contains (PrefixFrom (bigToAddr cur v4) (int (if v4 then 32 else 128) - int k)) a \<longleftrightarrow>
    in_family v4 a \<and> cur \<le> addrToBig a \<and> addrToBig a < cur + 2 ^ k"
proof (cases v4)
  case True
  have p: "PrefixFrom (bigToAddr cur v4) (int 32 - int k) = Prefix (Addr4 (of_nat cur)) (32 - k)"
    using assms(3) True by (auto simp: PrefixFrom_def bigToAddr_def nat_diff_distrib)
  have u: "unat (of_nat cur :: 32 word) = cur" using assms(1) True by (simp add: unat_of_nat)
  show ?thesis
  proof (cases a)
    case (Addr4 w)
    then show ?thesis
      using assms(2,3) True p
      by (simp add: Contains_network4 drop_bit_unat u block_div in_family_def addrToBig_def del: Contains.simps)
  qed (use True p in \<open>simp_all add: in_family_def\<close>)
next
  case False
  have p: "PrefixFrom (bigToAddr cur v4) (int 128 - int k) = Prefix (Addr6 (of_nat cur) []) (128 - k)"
    using assms(3) False by (auto simp: PrefixFrom_def bigToAddr_def nat_diff_distrib)
  have u: "unat (of_nat cur :: 128 word) = cur" using assms(1) False by (simp add: unat_of_nat)
  show ?thesis
  proof (cases a)
    case (Addr6 w z)
    then show ?thesis
      using assms(2,3) False p
      by (simp add: Contains_network6 drop_bit_unat u block_div in_family_def addrToBig_def del: Contains.simps)
  qed (use False p in \<open>simp_all add: in_family_def\<close>)
qed

lemma range_loop_cover:
  assumes "bits = (if v4 then 32 else 128)" "hi < 2 ^ bits"
  shows "(\<exists>p \<in> set (range_loop bits v4 cur hi). Contains p a) \<longleftrightarrow> in_family v4 a \<and> cur \<le> addrToBig a \<and> addrToBig a \<le> hi"
  using assms
proof (induction bits v4 cur hi rule: range_loop.induct)
  case (1 bits v4 cur hi)
  show ?case
  proof (cases "cur \<le> hi")
    case False
    then show ?thesis by (auto simp: range_loop.simps [of bits v4 cur hi])
  next
    case True
    let ?s = "block_bits bits cur hi"
    note b = block_facts [OF True 1(3)]
    have "cur < 2 ^ bits" using True 1(3) by simp
    then have c: "Contains (PrefixFrom (bigToAddr cur v4) (int bits - int ?s)) a \<longleftrightarrow>
        in_family v4 a \<and> cur \<le> addrToBig a \<and> addrToBig a < cur + 2 ^ ?s"
      using block_Contains [of cur v4 ?s a] b 1(2) by simp
    have "(\<exists>p \<in> set (range_loop bits v4 (cur + 2 ^ ?s) hi). Contains p a) \<longleftrightarrow>
        in_family v4 a \<and> cur + 2 ^ ?s \<le> addrToBig a \<and> addrToBig a \<le> hi"
      using 1(1) [OF True refl 1(2,3)] .
    moreover have "range_loop bits v4 cur hi =
        PrefixFrom (bigToAddr cur v4) (int bits - int ?s) # range_loop bits v4 (cur + 2 ^ ?s) hi"
      using True by (subst range_loop.simps) (simp add: Let_def)
    ultimately show ?thesis using c b(2) by auto
  qed
qed

text \<open>C9: The blocks an address range is compiled to cover exactly the range: for two addresses of
  one family, a prefix of the list contains an address if and only if the address is of that
  family, has no zone and lies between the two, ends included.\<close>
theorem rangeToPrefixes_exact:
  assumes "lo \<noteq> NoAddr" "Is4 lo = Is4 hi" "hi \<noteq> NoAddr"
  shows "(\<exists>p \<in> set (rangeToPrefixes lo hi). Contains p a) \<longleftrightarrow>
    in_family (Is4 lo) a \<and> addrToBig lo \<le> addrToBig a \<and> addrToBig a \<le> addrToBig hi"
proof -
  have b: "BitLen lo = (if Is4 lo then 32 else 128)" using assms(1) by (cases lo) auto
  have "addrToBig hi < 2 ^ (if Is4 hi then 32 else 128)"
  proof (cases hi)
    case (Addr4 w)
    then show ?thesis using unat_less_2p [of w] by (simp add: addrToBig_def)
  next
    case (Addr6 w z)
    then show ?thesis using unat_less_2p [of w] by (simp add: addrToBig_def)
  qed (use assms(3) in simp)
  then show ?thesis
    using range_loop_cover [OF b, of "addrToBig hi" "addrToBig lo" a] assms(2) b
    by (auto simp: rangeToPrefixes_def)
qed

lemma rangeToPrefixes_exact_witness:
  "(\<exists>p \<in> set (rangeToPrefixes (Addr4 0x0a000003) (Addr4 0x0a000010)). Contains p (Addr4 0x0a000010)) \<and>
   \<not> (\<exists>p \<in> set (rangeToPrefixes (Addr4 0x0a000003) (Addr4 0x0a000010)). Contains p (Addr4 0x0a000011))"
  using rangeToPrefixes_exact [of "Addr4 0x0a000003" "Addr4 0x0a000010"]
  by (simp add: in_family_def addrToBig_def)

end
