(* ===== verification/Fw_Catalog.thy ===== *)
theory Fw_Catalog
  imports Fw_Range
begin

text \<open>
  The authored forms and the catalogs of internal/mesh/firewall.go: rules, address objects and
  services as an operator writes them, the catalog they are looked up in, and \<open>compileRule\<close>,
  which resolves a rule against a catalog into the form the data path evaluates.
  A map is a function to options. The recursive closure of \<open>buildCatalog\<close> mutates the set of
  names it has seen, which is threaded through; its recursion depth is bounded by fuel, and
  \<open>resolve_spec\<close> shows that the fuel given is enough. Hit counters are kept by value in
  the rule: the code never lets two rules share them.
\<close>

section \<open>Authored forms\<close>

record FirewallRule =
  fr_ID :: "64 word"
  fr_Disabled :: bool
  fr_Action :: string
  fr_Direction :: string
  fr_Proto :: string
  fr_Src :: string
  fr_Dst :: string
  fr_SrcNegate :: bool
  fr_DstNegate :: bool
  fr_SrcPortMin :: int
  fr_SrcPortMax :: int
  fr_DstPortMin :: int
  fr_DstPortMax :: int
  fr_Services :: "string list"
  fr_ServicesNegate :: bool
  fr_Log :: bool
  fr_Notes :: string
  fr_Scope :: string
  fr_Packets :: "64 word"
  fr_Bytes :: "64 word"

record FirewallObject =
  fo_Name :: string
  fo_Kind :: string
  fo_Addresses :: "string list"
  fo_Members :: "string list"
  fo_Notes :: string

record FirewallServicePort =
  sp_Proto :: string
  sp_PortMin :: int
  sp_PortMax :: int

record FirewallService =
  fs_Name :: string
  fs_Ports :: "FirewallServicePort list"
  fs_Notes :: string

datatype fwAction = fwAllow | fwDeny

datatype fwDir = fwBoth | fwIn | fwOut

record fwLeg =
  l_proto :: byte
  sportMin :: "16 word"
  sportMax :: "16 word"
  dportMin :: "16 word"
  dportMax :: "16 word"

record ruleCounters =
  pkts :: "64 word"
  rc_bytes :: "64 word"
  lastLogNanos :: int
  suppressed :: "64 word"

definition newRuleCounters :: ruleCounters where
  "newRuleCounters = \<lparr>pkts = 0, rc_bytes = 0, lastLogNanos = 0, suppressed = 0\<rparr>"

record fwRule =
  fw_id :: "64 word"
  spec :: FirewallRule
  disabled :: bool
  fw_dir :: fwDir
  fw_src :: "prefix list"
  fw_dst :: "prefix list"
  anySrc :: bool
  anyDst :: bool
  srcNegate :: bool
  dstNegate :: bool
  legs :: "fwLeg list"
  anyLeg :: bool
  legsNegate :: bool
  fw_action :: fwAction
  logMatch :: bool
  fw_notes :: string
  cnt :: "ruleCounters option"

datatype fw_error = ErrSrc string | ErrDst string | ErrService string | ErrNoNetwork | ErrNoFirewall | ErrNoRule "64 word"

section \<open>Field parsers\<close>

text \<open>The error of \<open>parsePrefixField\<close> is \<open>None\<close>; no text, or "any", is the invalid prefix.\<close>

definition parsePrefixField :: "string \<Rightarrow> prefix option" where
  "parsePrefixField s0 =
     (let s = TrimSpace s0
      in if s = [] \<or> EqualFold s ''any'' then Some NoPrefix
         else if ContainsChar s CHR ''/'' then ParsePrefix s
         else case ParseAddr s of None \<Rightarrow> None | Some a \<Rightarrow> Some (PrefixFrom a (int (BitLen a))))"

definition protoNum :: "string \<Rightarrow> byte" where
  "protoNum name =
     (let s = ToLower (TrimSpace name)
      in if s = [] \<or> s = ''any'' then 0
         else if s = ''tcp'' then 6
         else if s = ''udp'' then 17
         else if s = ''icmp'' then 1
         else if s = ''icmpv6'' \<or> s = ''ipv6-icmp'' then 58
         else if s = ''ospf'' then 89
         else case Atoi (TrimSpace name) of
           Some n \<Rightarrow> if n > 0 \<and> n < 256 then of_int n else 0
         | None \<Rightarrow> 0)"

definition protoName :: "byte \<Rightarrow> string" where
  "protoName n = (if n = 6 then ''tcp'' else if n = 17 then ''udp'' else if n = 1 then ''icmp'' else ''any'')"

definition dirFromString :: "string \<Rightarrow> fwDir" where
  "dirFromString s0 = (let s = ToLower (TrimSpace s0) in if s = ''in'' then fwIn else if s = ''out'' then fwOut else fwBoth)"

definition dirName :: "fwDir \<Rightarrow> string" where
  "dirName d = (case d of fwIn \<Rightarrow> ''in'' | fwOut \<Rightarrow> ''out'' | fwBoth \<Rightarrow> ''both'')"

definition fwAction_string :: "fwAction \<Rightarrow> string" where
  "fwAction_string a = (if a = fwDeny then ''deny'' else ''allow'')"

definition parseRangeField :: "string \<Rightarrow> prefix list" where
  "parseRangeField s0 =
     (let s = TrimSpace s0
      in case Cut s CHR ''-'' of
        (_, _, False) \<Rightarrow>
          (case parsePrefixField s of Some p \<Rightarrow> if prefix_valid p then [p] else [] | None \<Rightarrow> [])
      | (a, b, True) \<Rightarrow>
          (case (ParseAddr (TrimSpace a), ParseAddr (TrimSpace b)) of
             (Some lo, Some hi) \<Rightarrow>
               if Is4 lo \<noteq> Is4 hi \<or> BitLen lo \<noteq> BitLen hi then [] else rangeToPrefixes lo hi
           | _ \<Rightarrow> []))"

section \<open>The catalog\<close>

record fwCatalog =
  objects :: "string \<Rightarrow> prefix list option"
  services :: "string \<Rightarrow> fwLeg list option"
  cat_names :: "string set"

definition emptyCatalog :: fwCatalog where
  "emptyCatalog = \<lparr>objects = Map.empty, services = Map.empty, cat_names = {}\<rparr>"

definition svcLegs :: "FirewallService \<Rightarrow> fwLeg list" where
  "svcLegs s = map (\<lambda>p. let lo = of_int (sp_PortMin p); hi = of_int (sp_PortMax p); hi' = (if hi = 0 then lo else hi)
     in \<lparr>l_proto = protoNum (sp_Proto p), sportMin = 0, sportMax = 0, dportMin = lo, dportMax = hi'\<rparr>) (fs_Ports s)"

definition norm_name :: "string \<Rightarrow> string" where
  "norm_name s = ToLower (TrimSpace s)"

definition by_name :: "FirewallObject list \<Rightarrow> string \<Rightarrow> FirewallObject option" where
  "by_name objs = foldl (\<lambda>m ob. m(norm_name (fo_Name ob) \<mapsto> ob)) Map.empty objs"

text \<open>The prefixes an object that is not a group stands for.\<close>

definition own_prefixes :: "(string \<Rightarrow> prefix list) \<Rightarrow> string \<Rightarrow> FirewallObject \<Rightarrow> prefix list" where
  "own_prefixes fq key ob =
     (let kind = norm_name (fo_Kind ob)
      in if kind = ''fqdn'' then fq key
         else if kind = ''range'' then concat (map parseRangeField (fo_Addresses ob))
         else concat (map (\<lambda>a. case parsePrefixField a of
                Some p \<Rightarrow> if prefix_valid p then [p] else [] | None \<Rightarrow> []) (fo_Addresses ob)))"

fun resolve :: "nat \<Rightarrow> (string \<Rightarrow> FirewallObject option) \<Rightarrow> (string \<Rightarrow> prefix list) \<Rightarrow> string \<Rightarrow> string set \<Rightarrow>
      prefix list \<times> string set"
  and resolve_all :: "nat \<Rightarrow> (string \<Rightarrow> FirewallObject option) \<Rightarrow> (string \<Rightarrow> prefix list) \<Rightarrow> string list \<Rightarrow> string set \<Rightarrow>
      prefix list \<times> string set" where
  "resolve 0 bn fq name seen = ([], seen)"
| "resolve (Suc n) bn fq name seen =
     (let key = norm_name name
      in if key = [] \<or> key \<in> seen then ([], seen)
         else case bn key of
           None \<Rightarrow> ([], insert key seen)
         | Some ob \<Rightarrow>
             if norm_name (fo_Kind ob) = ''group'' then resolve_all n bn fq (fo_Members ob) (insert key seen)
             else (own_prefixes fq key ob, insert key seen))"
| "resolve_all n bn fq [] seen = ([], seen)"
| "resolve_all n bn fq (m # ms) seen =
     (case resolve n bn fq m seen of (p, s1) \<Rightarrow>
        (case resolve_all n bn fq ms s1 of (q, s2) \<Rightarrow> (p @ q, s2)))"

definition add_object :: "FirewallObject list \<Rightarrow> (string \<Rightarrow> prefix list) \<Rightarrow> fwCatalog \<Rightarrow> FirewallObject \<Rightarrow> fwCatalog" where
  "add_object objs fq c ob =
     (let key = norm_name (fo_Name ob)
      in if key = [] then c
         else c\<lparr>cat_names := insert key (cat_names c),
                objects := (objects c)(key \<mapsto> fst (resolve (length objs + 1) (by_name objs) fq (fo_Name ob) {}))\<rparr>)"

definition add_service :: "fwCatalog \<Rightarrow> FirewallService \<Rightarrow> fwCatalog" where
  "add_service c s =
     (let key = norm_name (fs_Name s)
      in if key = [] then c else c\<lparr>services := (services c)(key \<mapsto> svcLegs s)\<rparr>)"

definition buildCatalog :: "FirewallObject list \<Rightarrow> FirewallService list \<Rightarrow> (string \<Rightarrow> prefix list) \<Rightarrow> fwCatalog" where
  "buildCatalog objs svcs fq = foldl add_service (foldl (add_object objs fq) emptyCatalog objs) svcs"

section \<open>Compiling a rule\<close>

text \<open>\<open>cat.objects[key]\<close> of a name that is there: an absent entry would read as no prefixes.\<close>

definition resolveAddrField :: "string \<Rightarrow> fwCatalog \<Rightarrow> (prefix list \<times> bool) option" where
  "resolveAddrField s cat =
     (let t = TrimSpace s
      in if t = [] \<or> EqualFold t ''any'' then Some ([], True)
         else if ToLower t \<in> cat_names cat
         then Some (case objects cat (ToLower t) of None \<Rightarrow> [] | Some ps \<Rightarrow> ps, False)
         else case parsePrefixField t of None \<Rightarrow> None | Some p \<Rightarrow> Some ([p], False))"

fun service_legs :: "fwCatalog \<Rightarrow> string list \<Rightarrow> fw_error + fwLeg list" where
  "service_legs cat [] = Inr []"
| "service_legs cat (name # r) =
     (let key = ToLower (TrimSpace name)
      in if key = [] then service_legs cat r
         else case services cat key of
           None \<Rightarrow> Inl (ErrService name)
         | Some sl \<Rightarrow> (case service_legs cat r of Inl e \<Rightarrow> Inl e | Inr ls \<Rightarrow> Inr (sl @ ls)))"

definition resolveLegs :: "FirewallRule \<Rightarrow> fwCatalog \<Rightarrow> fw_error + (fwLeg list \<times> bool)" where
  "resolveLegs fr cat =
     (let hasInline = (TrimSpace (fr_Proto fr) \<noteq> [] \<and> \<not> EqualFold (TrimSpace (fr_Proto fr)) ''any'');
          hasPorts = (fr_SrcPortMin fr \<noteq> 0 \<or> fr_SrcPortMax fr \<noteq> 0 \<or> fr_DstPortMin fr \<noteq> 0 \<or> fr_DstPortMax fr \<noteq> 0);
          inline = (if hasInline \<or> hasPorts
                    then [\<lparr>l_proto = protoNum (fr_Proto fr), sportMin = of_int (fr_SrcPortMin fr),
                           sportMax = of_int (fr_SrcPortMax fr), dportMin = of_int (fr_DstPortMin fr),
                           dportMax = of_int (fr_DstPortMax fr)\<rparr>] else [])
      in case service_legs cat (fr_Services fr) of
           Inl e \<Rightarrow> Inl e
         | Inr ls \<Rightarrow> Inr (inline @ ls, inline @ ls = []))"

definition compileRule :: "FirewallRule \<Rightarrow> fwCatalog option \<Rightarrow> fw_error + fwRule" where
  "compileRule fr co =
     (let cat = (case co of None \<Rightarrow> emptyCatalog | Some c \<Rightarrow> c)
      in case resolveAddrField (fr_Src fr) cat of
        None \<Rightarrow> Inl (ErrSrc (fr_Src fr))
      | Some (src, as) \<Rightarrow>
          (case resolveAddrField (fr_Dst fr) cat of
             None \<Rightarrow> Inl (ErrDst (fr_Dst fr))
           | Some (dst, ad) \<Rightarrow>
               (case resolveLegs fr cat of
                  Inl e \<Rightarrow> Inl e
                | Inr (ls, al) \<Rightarrow>
                    Inr \<lparr>fw_id = fr_ID fr, spec = fr, disabled = fr_Disabled fr, fw_dir = dirFromString (fr_Direction fr),
                         fw_src = src, fw_dst = dst, anySrc = as, anyDst = ad, srcNegate = fr_SrcNegate fr,
                         dstNegate = fr_DstNegate fr, legs = ls, anyLeg = al, legsNegate = fr_ServicesNegate fr,
                         fw_action = (if EqualFold (fr_Action fr) ''deny'' then fwDeny else fwAllow),
                         logMatch = fr_Log fr, fw_notes = fr_Notes fr, cnt = Some newRuleCounters\<rparr>)))"

definition toRule :: "FirewallRule \<Rightarrow> fw_error + fwRule" where
  "toRule fr = compileRule fr (Some emptyCatalog)"

definition ruleToExport :: "fwRule \<Rightarrow> FirewallRule" where
  "ruleToExport r =
     (let out = (spec r)\<lparr>fr_ID := fw_id r\<rparr>
      in case cnt r of None \<Rightarrow> out | Some c \<Rightarrow> out\<lparr>fr_Packets := pkts c, fr_Bytes := rc_bytes c\<rparr>)"

section \<open>Matching\<close>

definition leg_match :: "fwLeg \<Rightarrow> 16 word \<Rightarrow> 16 word \<Rightarrow> 16 word \<Rightarrow> bool" where
  "leg_match l proto sp dp \<longleftrightarrow>
     \<not> (l_proto l \<noteq> 0 \<and> ucast (l_proto l) \<noteq> proto) \<and>
     \<not> ((sportMin l \<noteq> 0 \<or> sportMax l \<noteq> 0) \<and> (sp < sportMin l \<or> sp > sportMax l)) \<and>
     \<not> ((dportMin l \<noteq> 0 \<or> dportMax l \<noteq> 0) \<and> (dp < dportMin l \<or> dp > dportMax l))"

definition anyContains :: "prefix list \<Rightarrow> addr \<Rightarrow> bool" where
  "anyContains ps a = list_ex (\<lambda>p. Contains p a) ps"

definition rule_match :: "fwRule \<Rightarrow> fwDir \<Rightarrow> addr \<Rightarrow> addr \<Rightarrow> byte \<Rightarrow> 16 word \<Rightarrow> 16 word \<Rightarrow> bool" where
  "rule_match r d src dst proto sp dp \<longleftrightarrow>
     (fw_dir r = fwBoth \<or> fw_dir r = d) \<and>
     ((anySrc r \<or> anyContains (fw_src r) src) \<noteq> srcNegate r) \<and>
     ((anyDst r \<or> anyContains (fw_dst r) dst) \<noteq> dstNegate r) \<and>
     ((anyLeg r \<or> list_ex (\<lambda>l. leg_match l (ucast proto) sp dp) (legs r)) \<noteq> legsNegate r)"

section \<open>Groups stand for everything reachable through them\<close>

definition is_group :: "FirewallObject \<Rightarrow> bool" where
  "is_group ob \<longleftrightarrow> norm_name (fo_Kind ob) = ''group''"

definition member_edge :: "(string \<Rightarrow> FirewallObject option) \<Rightarrow> string \<Rightarrow> string \<Rightarrow> bool" where
  "member_edge bn k j \<longleftrightarrow> (\<exists>ob. bn k = Some ob \<and> is_group ob \<and> j \<in> norm_name ` set (fo_Members ob) \<and> j \<noteq> [])"

definition leaf_prefixes :: "(string \<Rightarrow> FirewallObject option) \<Rightarrow> (string \<Rightarrow> prefix list) \<Rightarrow> string \<Rightarrow> prefix set" where
  "leaf_prefixes bn fq j = (case bn j of None \<Rightarrow> {} | Some ob \<Rightarrow> if is_group ob then {} else set (own_prefixes fq j ob))"

text \<open>What a call that starts with the names \<open>seen\<close> and ends with \<open>s'\<close> has done, for the
  start names \<open>ks\<close>.\<close>

definition closed_step :: "(string \<Rightarrow> FirewallObject option) \<Rightarrow> (string \<Rightarrow> prefix list) \<Rightarrow> string set \<Rightarrow>
    string set \<Rightarrow> prefix list \<Rightarrow> string set \<Rightarrow> bool" where
  "closed_step bn fq ks seen out s' \<longleftrightarrow>
     seen \<subseteq> s' \<and> ks - {[]} \<subseteq> s' \<and>
     (\<forall>k \<in> s' - seen. (\<forall>j. member_edge bn k j \<longrightarrow> j \<in> s') \<and> (\<exists>k0 \<in> ks - {[]}. (member_edge bn)\<^sup>*\<^sup>* k0 k)) \<and>
     set out = \<Union> (leaf_prefixes bn fq ` (s' - seen))"

lemma closed_step_refl: "ks - {[]} \<subseteq> seen \<Longrightarrow> closed_step bn fq ks seen [] seen"
  by (simp add: closed_step_def)

lemma closed_stepD:
  assumes "closed_step bn fq ks seen out s'"
  shows "seen \<subseteq> s'" "ks - {[]} \<subseteq> s'" "set out = \<Union> (leaf_prefixes bn fq ` (s' - seen))"
    and "k \<in> s' - seen \<Longrightarrow> (\<forall>j. member_edge bn k j \<longrightarrow> j \<in> s') \<and> (\<exists>k0 \<in> ks - {[]}. (member_edge bn)\<^sup>*\<^sup>* k0 k)"
  using assms unfolding closed_step_def by (iprover | blast)+

lemma closed_stepI:
  assumes "seen \<subseteq> s'" "ks - {[]} \<subseteq> s'" "set out = \<Union> (leaf_prefixes bn fq ` (s' - seen))"
    and "\<And>k. k \<in> s' - seen \<Longrightarrow> (\<forall>j. member_edge bn k j \<longrightarrow> j \<in> s') \<and> (\<exists>k0 \<in> ks - {[]}. (member_edge bn)\<^sup>*\<^sup>* k0 k)"
  shows "closed_step bn fq ks seen out s'"
  using assms by (simp add: closed_step_def)

lemma closed_step_trans:
  assumes "closed_step bn fq ks seen p s1" "closed_step bn fq ls s1 q s2"
  shows "closed_step bn fq (ks \<union> ls) seen (p @ q) s2"
proof -
  note a = closed_stepD [OF assms(1)]
  note b = closed_stepD [OF assms(2)]
  have split: "s2 - seen = (s1 - seen) \<union> (s2 - s1)" using a(1) b(1) by blast
  show ?thesis
  proof (rule closed_stepI)
    show "seen \<subseteq> s2" using a(1) b(1) by simp
    show "ks \<union> ls - {[]} \<subseteq> s2" using a(2) b(1,2) by blast
    show "set (p @ q) = \<Union> (leaf_prefixes bn fq ` (s2 - seen))" unfolding split using a(3) b(3) by simp
    fix k assume "k \<in> s2 - seen"
    then consider "k \<in> s1 - seen" | "k \<in> s2 - s1" unfolding split by blast
    then show "(\<forall>j. member_edge bn k j \<longrightarrow> j \<in> s2) \<and> (\<exists>k0 \<in> ks \<union> ls - {[]}. (member_edge bn)\<^sup>*\<^sup>* k0 k)"
    proof cases
      case 1
      then show ?thesis using a(4) b(1) by (metis Un_iff Un_Diff subsetD)
    next
      case 2
      then show ?thesis using b(4) by (metis Un_iff Un_Diff)
    qed
  qed
qed

lemma closed_step_add:
  assumes "k \<noteq> []" "k \<notin> seen" "\<And>j. \<not> member_edge bn k j" "set out = leaf_prefixes bn fq k"
  shows "closed_step bn fq {k} seen out (insert k seen)"
proof -
  have "insert k seen - seen = {k}" using assms(2) by blast
  then show ?thesis using assms by (simp add: closed_step_def subset_insertI)
qed

lemma resolve_steps:
  "finite (dom bn) \<Longrightarrow> card (dom bn - seen) < n \<Longrightarrow>
     closed_step bn fq {norm_name name} seen (fst (resolve n bn fq name seen)) (snd (resolve n bn fq name seen))"
  "finite (dom bn) \<Longrightarrow> card (dom bn - seen) < n \<Longrightarrow>
     closed_step bn fq (norm_name ` set ms) seen (fst (resolve_all n bn fq ms seen)) (snd (resolve_all n bn fq ms seen))"
proof (induction n bn fq name seen and n bn fq ms seen rule: resolve_resolve_all.induct)
  case (2 n bn fq name seen)
  let ?k = "norm_name name"
  show ?case
  proof (cases "?k = [] \<or> ?k \<in> seen")
    case True
    then show ?thesis by (auto simp: Let_def intro: closed_step_refl)
  next
    case new: False
    show ?thesis
    proof (cases "bn ?k")
      case None
      have "closed_step bn fq {?k} seen [] (insert ?k seen)"
        by (rule closed_step_add) (use new None in \<open>simp_all add: member_edge_def leaf_prefixes_def\<close>)
      then show ?thesis using new None by (simp add: Let_def)
    next
      case (Some ob)
      show ?thesis
      proof (cases "is_group ob")
        case False
        have "closed_step bn fq {?k} seen (own_prefixes fq ?k ob) (insert ?k seen)"
          by (rule closed_step_add) (use new Some False in \<open>simp_all add: member_edge_def leaf_prefixes_def\<close>)
        then show ?thesis using new Some False by (simp add: Let_def is_group_def)
      next
        case True
        have "dom bn - insert ?k seen \<subset> dom bn - seen" using new Some by blast
        then have "card (dom bn - insert ?k seen) < card (dom bn - seen)"
          using 2(2) by (intro psubset_card_mono) auto
        then have lt: "card (dom bn - insert ?k seen) < n" using 2(3) by simp
        let ?r = "resolve_all n bn fq (fo_Members ob) (insert ?k seen)"
        have r: "resolve (Suc n) bn fq name seen = ?r" using new Some True by (simp add: Let_def is_group_def)
        have step: "closed_step bn fq (norm_name ` set (fo_Members ob)) (insert ?k seen) (fst ?r) (snd ?r)"
          using 2(1) [OF refl _ Some _ 2(2) lt] new True unfolding is_group_def by blast
        have e: "member_edge bn ?k j \<longleftrightarrow> j \<in> norm_name ` set (fo_Members ob) \<and> j \<noteq> []" for j
          using Some True by (simp add: member_edge_def)
        have leaf: "leaf_prefixes bn fq ?k = {}" using Some True by (simp add: leaf_prefixes_def)
        have sub: "insert ?k seen \<subseteq> snd ?r" "norm_name ` set (fo_Members ob) - {[]} \<subseteq> snd ?r"
          using step unfolding closed_step_def by blast+
        have split: "snd ?r - seen = insert ?k (snd ?r - insert ?k seen)" using sub(1) new by blast
        have cl: "(\<forall>j. member_edge bn k j \<longrightarrow> j \<in> snd ?r) \<and> (member_edge bn)\<^sup>*\<^sup>* ?k k" if "k \<in> snd ?r - seen" for k
        proof (cases "k = ?k")
          case True
          then show ?thesis using sub(2) e by blast
        next
          case False
          then have k: "k \<in> snd ?r - insert ?k seen" using that by blast
          then obtain k0 where k0: "k0 \<in> norm_name ` set (fo_Members ob) - {[]}" "(member_edge bn)\<^sup>*\<^sup>* k0 k"
              "\<forall>j. member_edge bn k j \<longrightarrow> j \<in> snd ?r"
            using closed_stepD(4) [OF step k] by blast
          then have "member_edge bn ?k k0" using e by blast
          then show ?thesis using k0 by (meson converse_rtranclp_into_rtranclp)
        qed
        have "set (fst ?r) = \<Union> (leaf_prefixes bn fq ` (snd ?r - insert ?k seen))"
          using step unfolding closed_step_def by blast
        then have "set (fst ?r) = \<Union> (leaf_prefixes bn fq ` (snd ?r - seen))" unfolding split using leaf by simp
        moreover have "?k \<in> {?k} - {[]}" using new by simp
        ultimately show ?thesis unfolding r using sub(1) cl by (intro closed_stepI) blast+
      qed
    qed
  qed
next
  case (3 n bn fq seen)
  then show ?case by (simp add: closed_step_refl)
next
  case (4 n bn fq m ms seen)
  let ?a = "resolve n bn fq m seen"
  let ?b = "resolve_all n bn fq ms (snd ?a)"
  have a: "closed_step bn fq {norm_name m} seen (fst ?a) (snd ?a)" using 4 by blast
  then have "card (dom bn - snd ?a) \<le> card (dom bn - seen)"
    using 4(3) by (intro card_mono) (auto simp: closed_step_def)
  then have "card (dom bn - snd ?a) < n" using 4(4) by simp
  then have "closed_step bn fq (norm_name ` set ms) (snd ?a) (fst ?b) (snd ?b)"
    using 4(2) [of "fst ?a" "snd ?a"] 4(3) by simp
  from closed_step_trans [OF a this] show ?case by (simp add: split_beta)
qed simp

lemma find_append: "find P (xs @ ys) = (case find P xs of None \<Rightarrow> find P ys | Some x \<Rightarrow> Some x)"
  by (induction xs) auto

lemma by_name_fold:
  "foldl (\<lambda>m ob. m(norm_name (fo_Name ob) \<mapsto> ob)) m0 objs k =
     (case find (\<lambda>ob. norm_name (fo_Name ob) = k) (rev objs) of Some ob \<Rightarrow> Some ob | None \<Rightarrow> m0 k)"
  by (induction objs arbitrary: m0) (auto simp: find_append split: option.splits)

lemma dom_by_name: "dom (by_name objs) = (norm_name \<circ> fo_Name) ` set objs"
  by (auto simp: by_name_def by_name_fold dom_def find_None_iff find_Some_iff split: option.splits)

lemma card_by_name: "card (dom (by_name objs)) \<le> length objs"
  unfolding dom_by_name by (meson card_image_le card_length finite_set order_trans)

text \<open>The closure of one name, on the map of a catalog.\<close>

lemma resolve_reachable:
  assumes "norm_name name \<noteq> []"
  shows "set (fst (resolve (length objs + 1) (by_name objs) fq name {})) =
    \<Union> (leaf_prefixes (by_name objs) fq ` {k. (member_edge (by_name objs))\<^sup>*\<^sup>* (norm_name name) k})"
proof -
  let ?bn = "by_name objs" and ?r = "resolve (length objs + 1) (by_name objs) fq name {}"
  have "finite (dom ?bn)" by (simp add: dom_by_name)
  moreover have "card (dom ?bn - {}) < length objs + 1" using card_by_name [of objs] by simp
  ultimately have "closed_step ?bn fq {norm_name name} {} (fst ?r) (snd ?r)" by (rule resolve_steps(1))
  note c = closed_stepD [OF this]
  have "snd ?r = {k. (member_edge ?bn)\<^sup>*\<^sup>* (norm_name name) k}"
  proof (intro set_eqI iffI)
    fix k assume "k \<in> snd ?r"
    then show "k \<in> {k. (member_edge ?bn)\<^sup>*\<^sup>* (norm_name name) k}" using c(4) by auto
  next
    fix k assume "k \<in> {k. (member_edge ?bn)\<^sup>*\<^sup>* (norm_name name) k}"
    then have "(member_edge ?bn)\<^sup>*\<^sup>* (norm_name name) k" by simp
    then show "k \<in> snd ?r"
      by (induction rule: rtranclp_induct) (use c(2,4) assms in auto)
  qed
  then show ?thesis using c(3) by simp
qed

lemma add_objects:
  "cat_names (foldl (add_object objs fq) c obs) = cat_names c \<union> (norm_name \<circ> fo_Name) ` set obs - {[]} \<or> [] \<in> cat_names c"
  "k \<noteq> [] \<Longrightarrow> objects (foldl (add_object objs fq) c obs) k =
     (case find (\<lambda>ob. norm_name (fo_Name ob) = k) (rev obs) of
        None \<Rightarrow> objects c k
      | Some ob \<Rightarrow> Some (fst (resolve (length objs + 1) (by_name objs) fq (fo_Name ob) {})))"
proof -
  show "cat_names (foldl (add_object objs fq) c obs) = cat_names c \<union> (norm_name \<circ> fo_Name) ` set obs - {[]} \<or> [] \<in> cat_names c"
    by (induction obs arbitrary: c rule: rev_induct) (auto simp: add_object_def Let_def)
  show "k \<noteq> [] \<Longrightarrow> objects (foldl (add_object objs fq) c obs) k =
     (case find (\<lambda>ob. norm_name (fo_Name ob) = k) (rev obs) of
        None \<Rightarrow> objects c k
      | Some ob \<Rightarrow> Some (fst (resolve (length objs + 1) (by_name objs) fq (fo_Name ob) {})))"
    by (induction obs rule: rev_induct) (auto simp: add_object_def Let_def)
qed

lemma add_services:
  "objects (foldl add_service c svcs) = objects c \<and> cat_names (foldl add_service c svcs) = cat_names c"
  by (induction svcs arbitrary: c) (auto simp: add_service_def Let_def)

lemma catalog_objects_spec:
  assumes "ob \<in> set objs" "norm_name (fo_Name ob) \<noteq> []"
  shows "\<exists>ps. objects (buildCatalog objs svcs fq) (norm_name (fo_Name ob)) = Some ps \<and>
    norm_name (fo_Name ob) \<in> cat_names (buildCatalog objs svcs fq) \<and>
    set ps = \<Union> (leaf_prefixes (by_name objs) fq `
      {k. (member_edge (by_name objs))\<^sup>*\<^sup>* (norm_name (fo_Name ob)) k})"
proof -
  let ?k = "norm_name (fo_Name ob)"
  obtain o2 where o2: "find (\<lambda>x. norm_name (fo_Name x) = ?k) (rev objs) = Some o2" "norm_name (fo_Name o2) = ?k"
    using assms(1) by (cases "find (\<lambda>x. norm_name (fo_Name x) = ?k) (rev objs)") (auto simp: find_None_iff find_Some_iff)
  have "?k \<in> cat_names (buildCatalog objs svcs fq)"
    using add_objects(1) [of objs fq emptyCatalog objs] assms
    unfolding buildCatalog_def add_services [THEN conjunct2] by (auto simp: emptyCatalog_def)
  moreover have "objects (buildCatalog objs svcs fq) ?k = Some (fst (resolve (length objs + 1) (by_name objs) fq (fo_Name o2) {}))"
    unfolding buildCatalog_def add_services [THEN conjunct1] add_objects(2) [OF assms(2)] by (simp add: o2)
  ultimately show ?thesis using resolve_reachable [of "fo_Name o2" objs fq] o2(2) assms(2) by simp
qed

text \<open>C7: Address groups are flattened exactly, whatever cycles or repetitions their membership
  has: in the catalog built from any list of objects, a named object stands for precisely the
  prefixes of the hosts, subnets, ranges and resolved domain names that can be reached from it
  through member names, and a name that reaches none stands for no prefix at all.\<close>
theorem catalog_objects_exact:
  assumes "ob \<in> set objs" "norm_name (fo_Name ob) \<noteq> []"
  shows "\<exists>ps. objects (buildCatalog objs svcs fq) (norm_name (fo_Name ob)) = Some ps \<and>
    norm_name (fo_Name ob) \<in> cat_names (buildCatalog objs svcs fq) \<and>
    set ps = \<Union> (leaf_prefixes (by_name objs) fq `
      {k. (member_edge (by_name objs))\<^sup>*\<^sup>* (norm_name (fo_Name ob)) k})"
  using assms by (rule catalog_objects_spec)

lemma catalog_objects_exact_witness:
  "\<exists>ps. objects (buildCatalog
       [\<lparr>fo_Name = ''Web'', fo_Kind = ''group'', fo_Addresses = [], fo_Members = [''web'', ''H1''], fo_Notes = []\<rparr>,
        \<lparr>fo_Name = ''h1'', fo_Kind = ''host'', fo_Addresses = [''10.0.0.1''], fo_Members = [], fo_Notes = []\<rparr>]
       [] (\<lambda>_. [])) ''web'' = Some ps"
proof -
  let ?g = "\<lparr>fo_Name = ''Web'', fo_Kind = ''group'', fo_Addresses = [], fo_Members = [''web'', ''H1''], fo_Notes = []\<rparr>"
  let ?h = "\<lparr>fo_Name = ''h1'', fo_Kind = ''host'', fo_Addresses = [''10.0.0.1''], fo_Members = [], fo_Notes = []\<rparr>"
  have n: "norm_name (fo_Name ?g) = ''web''" by code_simp
  show ?thesis using catalog_objects_exact [of ?g "[?g, ?h]" "[]" "\<lambda>_. []"] n by auto
qed

section \<open>The meaning of a compiled rule\<close>

text \<open>What the text of an address field denotes, and which services a rule names, said without the
  catalog: any address; the addresses reachable from an object's name; or a literal.\<close>

definition field_any :: "string \<Rightarrow> bool" where
  "field_any s \<longleftrightarrow> TrimSpace s = [] \<or> EqualFold (TrimSpace s) ''any''"

definition is_object :: "FirewallObject list \<Rightarrow> string \<Rightarrow> bool" where
  "is_object objs s \<longleftrightarrow> (\<exists>ob \<in> set objs. norm_name (fo_Name ob) = norm_name s)"

definition field_denotes :: "FirewallObject list \<Rightarrow> (string \<Rightarrow> prefix list) \<Rightarrow> string \<Rightarrow> addr \<Rightarrow> bool" where
  "field_denotes objs fq s a \<longleftrightarrow>
     field_any s \<or>
     (if is_object objs s
      then \<exists>k. (member_edge (by_name objs))\<^sup>*\<^sup>* (norm_name s) k \<and> (\<exists>p \<in> leaf_prefixes (by_name objs) fq k. Contains p a)
      else \<exists>p. parsePrefixField (TrimSpace s) = Some p \<and> Contains p a)"

definition named_service :: "FirewallService list \<Rightarrow> string \<Rightarrow> FirewallService option" where
  "named_service svcs s = find (\<lambda>x. norm_name (fs_Name x) = norm_name s) (rev svcs)"

definition inline_leg :: "FirewallRule \<Rightarrow> fwLeg option" where
  "inline_leg fr =
     (if (TrimSpace (fr_Proto fr) \<noteq> [] \<and> \<not> EqualFold (TrimSpace (fr_Proto fr)) ''any'') \<or> fr_SrcPortMin fr \<noteq> 0 \<or>
         fr_SrcPortMax fr \<noteq> 0 \<or> fr_DstPortMin fr \<noteq> 0 \<or> fr_DstPortMax fr \<noteq> 0
      then Some \<lparr>l_proto = protoNum (fr_Proto fr), sportMin = of_int (fr_SrcPortMin fr), sportMax = of_int (fr_SrcPortMax fr),
             dportMin = of_int (fr_DstPortMin fr), dportMax = of_int (fr_DstPortMax fr)\<rparr>
      else None)"

definition rule_leg :: "FirewallService list \<Rightarrow> FirewallRule \<Rightarrow> fwLeg \<Rightarrow> bool" where
  "rule_leg svcs fr l \<longleftrightarrow> inline_leg fr = Some l \<or>
     (\<exists>s \<in> set (fr_Services fr). norm_name s \<noteq> [] \<and> (\<exists>x. named_service svcs s = Some x \<and> l \<in> set (svcLegs x)))"

definition rule_denotes :: "FirewallObject list \<Rightarrow> FirewallService list \<Rightarrow> (string \<Rightarrow> prefix list) \<Rightarrow> FirewallRule \<Rightarrow>
    fwDir \<Rightarrow> addr \<Rightarrow> addr \<Rightarrow> byte \<Rightarrow> 16 word \<Rightarrow> 16 word \<Rightarrow> bool" where
  "rule_denotes objs svcs fq fr d src dst proto sp dp \<longleftrightarrow>
     (dirFromString (fr_Direction fr) = fwBoth \<or> dirFromString (fr_Direction fr) = d) \<and>
     (field_denotes objs fq (fr_Src fr) src \<noteq> fr_SrcNegate fr) \<and>
     (field_denotes objs fq (fr_Dst fr) dst \<noteq> fr_DstNegate fr) \<and>
     (((\<forall>l. \<not> rule_leg svcs fr l) \<or> (\<exists>l. rule_leg svcs fr l \<and> leg_match l (ucast proto) sp dp)) \<noteq> fr_ServicesNegate fr)"

lemma anyContains_iff: "anyContains ps a \<longleftrightarrow> (\<exists>p \<in> set ps. Contains p a)"
  by (auto simp: anyContains_def list_ex_iff)

lemma cat_names_build: "k \<noteq> [] \<Longrightarrow> k \<in> cat_names (buildCatalog objs svcs fq) \<longleftrightarrow> k \<in> (norm_name \<circ> fo_Name) ` set objs"
  using add_objects(1) [of objs fq emptyCatalog objs]
  unfolding buildCatalog_def add_services [THEN conjunct2] by (auto simp: emptyCatalog_def)

lemma ToLower_ne [simp]: "ToLower s = [] \<longleftrightarrow> s = []"
  by (induction s rule: ToLower.induct) auto

lemma resolveAddrField_denotes:
  assumes "resolveAddrField s (buildCatalog objs svcs fq) = Some (ps, any)"
  shows "(any \<or> anyContains ps a) = field_denotes objs fq s a"
proof (cases "field_any s")
  case True
  then show ?thesis using assms by (auto simp: resolveAddrField_def field_any_def field_denotes_def Let_def)
next
  case False
  let ?c = "buildCatalog objs svcs fq"
  have k: "ToLower (TrimSpace s) = norm_name s" "norm_name s \<noteq> []"
    using False by (auto simp: norm_name_def field_any_def)
  have m: "norm_name s \<in> cat_names ?c \<longleftrightarrow> is_object objs s"
    using cat_names_build [OF k(2)] by (force simp: is_object_def)
  show ?thesis
  proof (cases "is_object objs s")
    case True
    then obtain ob where ob: "ob \<in> set objs" "norm_name (fo_Name ob) = norm_name s" by (auto simp: is_object_def)
    then obtain qs where qs: "objects ?c (norm_name s) = Some qs"
        "set qs = \<Union> (leaf_prefixes (by_name objs) fq ` {k. (member_edge (by_name objs))\<^sup>*\<^sup>* (norm_name s) k})"
      using catalog_objects_spec [OF ob(1), of svcs fq] k(2) by auto
    have "any = False" "ps = qs"
      using assms False m True k qs(1) by (auto simp: resolveAddrField_def Let_def field_any_def)
    then show ?thesis using True False qs(2) by (auto simp: anyContains_iff field_denotes_def)
  next
    case f: False
    then have "any = False \<and> (\<exists>p. parsePrefixField (TrimSpace s) = Some p \<and> ps = [p])"
      using assms False m k by (auto simp: resolveAddrField_def Let_def field_any_def split: option.splits)
    then show ?thesis using f False by (auto simp: anyContains_iff field_denotes_def)
  qed
qed

lemma services_build: "key \<noteq> [] \<Longrightarrow> services (buildCatalog objs svcs fq) key =
    map_option svcLegs (find (\<lambda>x. norm_name (fs_Name x) = key) (rev svcs))"
proof -
  have o: "services (foldl (add_object objs fq) c obs) = services c" for c obs
    by (induction obs arbitrary: c) (auto simp: add_object_def Let_def)
  have "key \<noteq> [] \<Longrightarrow> services (foldl add_service c svcs) key =
      (case find (\<lambda>x. norm_name (fs_Name x) = key) (rev svcs) of None \<Rightarrow> services c key | Some x \<Rightarrow> Some (svcLegs x))" for c
    by (induction svcs rule: rev_induct) (auto simp: add_service_def Let_def)
  then show "key \<noteq> [] \<Longrightarrow> ?thesis"
    unfolding buildCatalog_def by (auto simp: o emptyCatalog_def split: option.splits)
qed

lemma service_legs_set:
  "service_legs (buildCatalog objs svcs fq) ss = Inr ls \<Longrightarrow>
    l \<in> set ls \<longleftrightarrow> (\<exists>s \<in> set ss. norm_name s \<noteq> [] \<and> (\<exists>x. named_service svcs s = Some x \<and> l \<in> set (svcLegs x)))"
proof (induction ss arbitrary: ls)
  case (Cons s ss)
  show ?case
  proof (cases "norm_name s = []")
    case True
    then show ?thesis using Cons by (auto simp: norm_name_def)
  next
    case False
    have k: "ToLower (TrimSpace s) = norm_name s" by (simp add: norm_name_def)
    from Cons(2) False obtain x rest where x: "named_service svcs s = Some x"
        "service_legs (buildCatalog objs svcs fq) ss = Inr rest" "ls = svcLegs x @ rest"
      by (auto simp: k Let_def services_build named_service_def simp del: ToLower_ne split: option.splits sum.splits)
    then show ?thesis using Cons(1) [OF x(2)] False by auto
  qed
qed simp

lemma compiled_rule_spec:
  assumes "compileRule fr (Some (buildCatalog objs svcs fq)) = Inr r"
  shows "rule_match r d src dst proto sp dp \<longleftrightarrow> rule_denotes objs svcs fq fr d src dst proto sp dp"
proof -
  let ?c = "buildCatalog objs svcs fq"
  obtain ps as qs ad ls where f: "resolveAddrField (fr_Src fr) ?c = Some (ps, as)" "resolveAddrField (fr_Dst fr) ?c = Some (qs, ad)"
      "service_legs ?c (fr_Services fr) = Inr ls"
    and r: "fw_dir r = dirFromString (fr_Direction fr)" "fw_src r = ps" "fw_dst r = qs" "anySrc r = as" "anyDst r = ad"
      "srcNegate r = fr_SrcNegate fr" "dstNegate r = fr_DstNegate fr" "legsNegate r = fr_ServicesNegate fr"
      "legs r = (case inline_leg fr of None \<Rightarrow> [] | Some l \<Rightarrow> [l]) @ ls" "anyLeg r \<longleftrightarrow> legs r = []"
    using assms by (auto simp: compileRule_def resolveLegs_def Let_def inline_leg_def split: option.splits sum.splits if_splits)
  have l: "l \<in> set (legs r) \<longleftrightarrow> rule_leg svcs fr l" for l
    using service_legs_set [OF f(3)] by (auto simp: r rule_leg_def split: option.splits)
  then have "(anyLeg r \<or> list_ex (\<lambda>l. leg_match l (ucast proto) sp dp) (legs r)) \<longleftrightarrow>
      (\<forall>l. \<not> rule_leg svcs fr l) \<or> (\<exists>l. rule_leg svcs fr l \<and> leg_match l (ucast proto) sp dp)"
    unfolding list_ex_iff r(10) by (metis (no_types, lifting) list.set_intros(1) neq_Nil_conv empty_iff list.set(1))
  then show ?thesis
    unfolding rule_match_def rule_denotes_def
    using resolveAddrField_denotes [OF f(1)] resolveAddrField_denotes [OF f(2)] r by simp
qed

text \<open>C8: A compiled rule means what its text says: compiled against the catalog of any objects and
  services, a rule matches a packet exactly when the direction fits, the source and destination
  lie in what the address fields denote (any address, everything reachable from a named object,
  or the literal prefix), each flipped by its negation flag, and the service is one of those the
  rule names, or it names none, flipped by its flag. An object that resolves to nothing denotes no
  address.\<close>
theorem compiled_rule_meaning:
  assumes "compileRule fr (Some (buildCatalog objs svcs fq)) = Inr r"
  shows "rule_match r d src dst proto sp dp \<longleftrightarrow> rule_denotes objs svcs fq fr d src dst proto sp dp"
  using assms by (rule compiled_rule_spec)

text \<open>A rule used by the witnesses: TCP to port 22 from a source.\<close>

definition ex_fw_rule :: "string \<Rightarrow> string \<Rightarrow> FirewallRule" where
  "ex_fw_rule act src =
     \<lparr>fr_ID = 0, fr_Disabled = False, fr_Action = act, fr_Direction = [], fr_Proto = ''tcp'', fr_Src = src, fr_Dst = [],
      fr_SrcNegate = False, fr_DstNegate = False, fr_SrcPortMin = 0, fr_SrcPortMax = 0, fr_DstPortMin = 22, fr_DstPortMax = 22,
      fr_Services = [], fr_ServicesNegate = False, fr_Log = False, fr_Notes = [], fr_Scope = [], fr_Packets = 0, fr_Bytes = 0\<rparr>"

definition ex_host :: FirewallObject where
  "ex_host = \<lparr>fo_Name = ''h1'', fo_Kind = ''host'', fo_Addresses = [''10.0.0.1''], fo_Members = [], fo_Notes = []\<rparr>"

lemma compiled_rule_meaning_witness:
  "rule_denotes [ex_host] [] (\<lambda>_. []) (ex_fw_rule ''deny'' ''H1'') fwIn (Addr4 0x0a000001) (Addr4 7) 6 1000 22"
proof -
  let ?c = "compileRule (ex_fw_rule ''deny'' ''H1'') (Some (buildCatalog [ex_host] [] (\<lambda>_. [])))"
  have "case ?c of Inl _ \<Rightarrow> False | Inr r \<Rightarrow> rule_match r fwIn (Addr4 0x0a000001) (Addr4 7) 6 1000 22" by code_simp
  then obtain r where r: "?c = Inr r" "rule_match r fwIn (Addr4 0x0a000001) (Addr4 7) 6 1000 22"
    by (cases ?c) auto
  then show ?thesis using compiled_rule_meaning [OF r(1)] by blast
qed

text \<open>A service without ports adds no leg, so a rule that names only such a service is compiled as a
  rule for any service.\<close>

lemma empty_service_is_any:
  "case compileRule ((ex_fw_rule ''deny'' [])\<lparr>fr_Proto := [], fr_DstPortMin := 0, fr_DstPortMax := 0, fr_Services := [''x'']\<rparr>)
      (Some (buildCatalog [] [\<lparr>fs_Name = ''x'', fs_Ports = [], fs_Notes = []\<rparr>] (\<lambda>_. []))) of
     Inl _ \<Rightarrow> False
   | Inr r \<Rightarrow> rule_match r fwIn (Addr4 1) (Addr4 2) 6 1000 22"
  by code_simp

end
