(* ===== verification/Fw_Dns.thy ===== *)
theory Fw_Dns
  imports Fw_Catalog "HOL-Library.AList"
begin

text \<open>
  The passive DNS sniffer and the name lists of internal/mesh/firewall_dns_sniff.go and
  firewall_fqdn.go: the compressed-name reader, the response parser, wildcard patterns, the
  time-to-live cache behind wildcard objects and its sweep, the payload finder and the prefix
  lists the resolver builds. A Go map is an association list where the code iterates over it; a
  message is a byte string, a name a string. The resolver (\<open>LookupNetIP\<close>) is a parameter.
\<close>

section \<open>Patterns\<close>

definition isWildcardFQDN :: "string \<Rightarrow> bool" where
  "isWildcardFQDN p = HasPrefix (TrimSpace p) ''*.''"

definition norm_fqdn :: "string \<Rightarrow> string" where
  "norm_fqdn s = ToLower (TrimSuffix (TrimSpace s) ''.'')"

definition fqdnPatternMatch :: "string \<Rightarrow> string \<Rightarrow> bool" where
  "fqdnPatternMatch pattern0 name0 =
     (let pattern = norm_fqdn pattern0; name = norm_fqdn name0
      in if pattern = [] \<or> name = [] then False
         else if HasPrefix pattern ''*.'' then
           let suffix = drop 2 pattern
           in if suffix = [] then False
              else if name = suffix then True
              else HasSuffix name suffix \<and> length name > length suffix + 1 \<and>
                   name ! (length name - length suffix - 1) = CHR ''.''
         else pattern = name)"

section \<open>Names in a message\<close>

definition dnsMaxNamePointers :: nat where "dnsMaxNamePointers = 128"

definition byte_char :: "byte \<Rightarrow> char" where "byte_char b = char_of (unat b)"

function dns_loop :: "bytes \<Rightarrow> nat \<Rightarrow> string \<Rightarrow> nat option \<Rightarrow> nat \<Rightarrow> (string \<times> nat) option" where
  "dns_loop msg pos b resumeAt hops =
     (if pos \<ge> length msg then None
      else
        let l = msg ! pos
        in if l = 0 then Some (ToLower b, case resumeAt of Some p \<Rightarrow> p | None \<Rightarrow> pos + 1)
           else if l AND 0xc0 = 0xc0 then
             (if pos + 1 \<ge> length msg then None
              else if hops + 1 > dnsMaxNamePointers then None
              else
                let ptr = unat (l AND 0x3f) * 256 + unat (msg ! (pos + 1));
                    r = (case resumeAt of None \<Rightarrow> Some (pos + 2) | Some p \<Rightarrow> Some p)
                in if ptr \<ge> pos then None else dns_loop msg ptr b r (hops + 1))
           else if l AND 0xc0 \<noteq> 0 then None
           else
             let ll = unat l
             in if pos + 1 + ll > length msg then None
                else dns_loop msg (pos + 1 + ll)
                       ((if b \<noteq> [] then b @ ''.'' else b) @ map byte_char (slice (pos + 1) (pos + 1 + ll) msg))
                       resumeAt hops)"
  by auto
termination
  by (relation "measures [\<lambda>(msg, pos, b, r, hops). dnsMaxNamePointers - hops, \<lambda>(msg, pos, b, r, hops). length msg - pos]")
     (auto simp: dnsMaxNamePointers_def)

declare dns_loop.simps [simp del]

definition dnsName :: "bytes \<Rightarrow> nat \<Rightarrow> (string \<times> nat) option" where
  "dnsName msg off = (if off \<ge> length msg then None else dns_loop msg off [] None 0)"

section \<open>Responses\<close>

record dnsAnswer =
  an_name :: string
  an_addr :: addr
  an_ttl :: int

definition second :: int where "second = 1000000000"

fun skip_questions :: "nat \<Rightarrow> bytes \<Rightarrow> nat \<Rightarrow> nat option" where
  "skip_questions 0 msg off = Some off"
| "skip_questions (Suc n) msg off =
     (case dnsName msg off of None \<Rightarrow> None
      | Some (_, nxt) \<Rightarrow> if nxt + 4 > length msg then None else skip_questions n msg (nxt + 4))"

fun read_answers :: "nat \<Rightarrow> bytes \<Rightarrow> nat \<Rightarrow> dnsAnswer list" where
  "read_answers 0 msg off = []"
| "read_answers (Suc n) msg off0 =
     (case dnsName msg off0 of None \<Rightarrow> []
      | Some (name, off) \<Rightarrow>
          if off + 10 > length msg then []
          else
            let typ = get16 (slice off (off + 2) msg);
                ttl = get32 (slice (off + 4) (off + 8) msg);
                rdlen = unat (get16 (slice (off + 8) (off + 10) msg))
            in if off + 10 + rdlen > length msg then []
               else
                 let rdata = slice (off + 10) (off + 10 + rdlen) msg;
                     mk = (\<lambda>a. [\<lparr>an_name = name, an_addr = a, an_ttl = int (unat ttl) * second\<rparr>]);
                     out = (if typ = 1 then (if rdlen = 4 then mk (AddrFrom4 rdata) else [])
                            else if typ = 28 then (if rdlen = 16 then mk (AddrFrom16 rdata) else [])
                            else [])
                 in out @ read_answers n msg (off + 10 + rdlen))"

definition dnsParseResponse :: "bytes \<Rightarrow> dnsAnswer list" where
  "dnsParseResponse msg =
     (if length msg < 12 then []
      else if msg ! 2 AND 0x80 = 0 then []
      else
        let qd = unat (get16 (slice 4 6 msg)); an = unat (get16 (slice 6 8 msg))
        in if qd > 64 \<or> an \<le> 0 \<or> an > 4096 then []
           else case skip_questions qd msg 12 of None \<Rightarrow> [] | Some off \<Rightarrow> read_answers an msg off)"

section \<open>The transport payload\<close>

definition l4PayloadFrom :: "bytes \<Rightarrow> nat \<Rightarrow> byte \<Rightarrow> bytes option" where
  "l4PayloadFrom pkt hdrStart proto =
     (if proto = 17 then (if length pkt < hdrStart + 8 then None else Some (drop (hdrStart + 8) pkt))
      else if proto = 6 then
        (if length pkt < hdrStart + 13 then None
         else let dataOff = unat (drop_bit 4 (pkt ! (hdrStart + 12))) * 4
              in if dataOff < 20 \<or> length pkt < hdrStart + dataOff then None
                 else Some (drop (hdrStart + dataOff) pkt))
      else None)"

definition l4Payload :: "bytes \<Rightarrow> byte \<Rightarrow> bytes option" where
  "l4Payload pkt proto =
     (if length pkt < 1 then None
      else if drop_bit 4 (pkt ! 0) = 4 then
        (if length pkt < 20 then None
         else let ihl = unat (pkt ! 0 AND 0x0f) * 4
              in if ihl < 20 \<or> length pkt < ihl then None else l4PayloadFrom pkt ihl proto)
      else if drop_bit 4 (pkt ! 0) = 6 then
        (if length pkt < 40 then None else l4PayloadFrom pkt 40 proto)
      else None)"

section \<open>The cache of sniffed addresses\<close>

type_synonym wc_cache = "(string \<times> (addr \<times> int) list) list"

definition cache_record :: "int \<Rightarrow> string \<Rightarrow> addr \<Rightarrow> int \<Rightarrow> wc_cache \<Rightarrow> wc_cache" where
  "cache_record now objName a ttl0 c =
     (let ttl = (if ttl0 \<le> 0 then second else ttl0);
          ex = now + ttl;
          m = (case map_of c objName of None \<Rightarrow> [] | Some m \<Rightarrow> m);
          m' = (case map_of m a of None \<Rightarrow> AList.update a ex m
                | Some cur \<Rightarrow> if ex > cur then AList.update a ex m else m)
      in AList.update objName m' c)"

text \<open>The sweep drops what has expired, and reports what is left per object.\<close>

definition ins_right :: "prefix \<Rightarrow> prefix list \<Rightarrow> prefix list" where
  "ins_right x acc =
     (let suf = takeWhile (\<lambda>y. str_cmp (prefix_String x) (prefix_String y) < 0) (rev acc)
      in take (length acc - length suf) acc @ x # rev suf)"

definition sortPrefixes :: "prefix list \<Rightarrow> prefix list" where
  "sortPrefixes ps = foldl (\<lambda>acc x. ins_right x acc) [] ps"

definition host_prefix :: "addr \<Rightarrow> prefix" where
  "host_prefix a = PrefixFrom a (int (BitLen a))"

definition cache_live :: "int \<Rightarrow> (addr \<times> int) list \<Rightarrow> (addr \<times> int) list" where
  "cache_live now m = filter (\<lambda>(a, ex). \<not> now > ex) m"

definition cache_sweep :: "int \<Rightarrow> wc_cache \<Rightarrow> wc_cache \<times> (string \<times> prefix list) list" where
  "cache_sweep now c =
     (filter (\<lambda>(_, m). m \<noteq> []) (map (\<lambda>(n, m). (n, cache_live now m)) c),
      map (\<lambda>(n, m). (n, sortPrefixes (map (host_prefix \<circ> fst) (cache_live now m)))) c)"

text \<open>\<open>observeDNSResponse\<close> for the payload of a packet: every answer is recorded once for every
  object one of whose patterns it matches.\<close>

definition observe :: "int \<Rightarrow> (string \<times> string list) list \<Rightarrow> bytes \<Rightarrow> byte \<Rightarrow> wc_cache \<Rightarrow> wc_cache" where
  "observe now pats pkt proto c =
     (if pats = [] then c
      else case l4Payload pkt proto of None \<Rightarrow> c
      | Some payload \<Rightarrow>
          foldl (\<lambda>c a. foldl (\<lambda>c (objName, patterns).
                    if list_ex (\<lambda>pat. fqdnPatternMatch pat (an_name a)) patterns
                    then cache_record now objName (an_addr a) (an_ttl a) c else c) c pats)
                c (dnsParseResponse payload))"

section \<open>Names to resolve\<close>

fun fields_func :: "(char \<Rightarrow> bool) \<Rightarrow> string \<Rightarrow> string \<Rightarrow> string list" where
  "fields_func p [] cur = (if cur = [] then [] else [rev cur])"
| "fields_func p (c # s) cur =
     (if p c then (if cur = [] then fields_func p s [] else rev cur # fields_func p s [])
      else fields_func p s (c # cur))"

definition fqdnNames :: "string list \<Rightarrow> string list" where
  "fqdnNames addrs =
     concat (map (\<lambda>a. filter (\<lambda>f. f \<noteq> [])
       (map TrimSpace (fields_func (\<lambda>c. c = CHR '','' \<or> c = CHR '' '' \<or> c = CHR 0x09) a []))) addrs)"

definition literalFQDNNames :: "string list \<Rightarrow> string list" where
  "literalFQDNNames addrs = filter (\<lambda>n. \<not> isWildcardFQDN n) (fqdnNames addrs)"

text \<open>\<open>resolveNames\<close>: the addresses of every name that resolves, unmapped and without repetition.\<close>

definition resolveNames :: "(string \<Rightarrow> addr list option) \<Rightarrow> string list \<Rightarrow> prefix list \<times> bool" where
  "resolveNames lookup names =
     (case foldl (\<lambda>(seen, ok) n. case lookup n of None \<Rightarrow> (seen, ok)
           | Some as \<Rightarrow> (foldl (\<lambda>seen a. if Unmap a \<in> set seen then seen else seen @ [Unmap a]) seen as, True))
         ([], False) names of
        (seen, ok) \<Rightarrow> (sortPrefixes (map host_prefix seen), ok))"

definition mergePrefixes :: "prefix list \<Rightarrow> prefix list \<Rightarrow> prefix list" where
  "mergePrefixes a b =
     (if a = [] then b else if b = [] then a
      else sortPrefixes (foldl (\<lambda>out p. if p \<in> set out then out else out @ [p]) [] (a @ b)))"

definition prefixEqual :: "prefix list \<Rightarrow> prefix list \<Rightarrow> bool" where
  "prefixEqual a b \<longleftrightarrow> length a = length b \<and> list_all2 (=) a b"

section \<open>Wildcards match on label boundaries\<close>

text \<open>A wildcard entry matches the domain itself and its subdomains, and nothing that merely ends
  in the same letters: for a pattern that reads \<open>*.d\<close> after trimming and lowering, a name
  matches exactly when it is d or a non-empty label sequence followed by a dot and d (so a
  look-alike such as evil-d never opens a rule).\<close>
theorem wildcard_matches_subdomains:
  assumes "norm_fqdn pattern = ''*.'' @ d" "d \<noteq> []"
  shows "fqdnPatternMatch pattern name \<longleftrightarrow> norm_fqdn name = d \<or> (\<exists>l. l \<noteq> [] \<and> norm_fqdn name = l @ ''.'' @ d)"
proof -
  let ?n = "norm_fqdn name"
  have m: "fqdnPatternMatch pattern name \<longleftrightarrow> ?n \<noteq> [] \<and> (?n = d \<or>
      (HasSuffix ?n d \<and> length ?n > length d + 1 \<and> ?n ! (length ?n - length d - 1) = CHR ''.''))"
    using assms by (auto simp: fqdnPatternMatch_def Let_def)
  have "HasSuffix ?n d \<and> length ?n > length d + 1 \<and> ?n ! (length ?n - length d - 1) = CHR ''.'' \<longleftrightarrow>
      (\<exists>l. l \<noteq> [] \<and> ?n = l @ ''.'' @ d)"
  proof
    assume a: "HasSuffix ?n d \<and> length ?n > length d + 1 \<and> ?n ! (length ?n - length d - 1) = CHR ''.''"
    then obtain r where r: "?n = r @ d" unfolding HasSuffix_iff by blast
    then have r1: "length r > 1" using a by simp
    then have "r ! (length r - 1) = CHR ''.''" using a r1 by (cases "length r - Suc 0 < length r") (simp_all add: r nth_append)
    moreover have "r \<noteq> []" using r1 by auto
    ultimately have "r = butlast r @ ''.''" by (metis append_butlast_last_id last_conv_nth)
    moreover have "butlast r \<noteq> []" using r1 by (cases r) auto
    ultimately show "\<exists>l. l \<noteq> [] \<and> ?n = l @ ''.'' @ d" using r by (metis append.assoc)
  next
    assume "\<exists>l. l \<noteq> [] \<and> ?n = l @ ''.'' @ d"
    then obtain l where l: "l \<noteq> []" "?n = l @ ''.'' @ d" by blast
    then have "HasSuffix ?n d" unfolding HasSuffix_iff by (metis append.assoc)
    then show "HasSuffix ?n d \<and> length ?n > length d + 1 \<and> ?n ! (length ?n - length d - 1) = CHR ''.''"
      using l by (auto simp: nth_append)
  qed
  then show ?thesis using m assms(2) by auto
qed

lemma wildcard_matches_subdomains_witness:
  "fqdnPatternMatch ''*.Example.com'' ''www.example.COM.'' \<and> \<not> fqdnPatternMatch ''*.Example.com'' ''evilexample.com''"
proof -
  have p: "norm_fqdn ''*.Example.com'' = ''*.'' @ ''example.com''" by code_simp
  have n: "norm_fqdn ''www.example.COM.'' = ''www.example.com''" "norm_fqdn ''evilexample.com'' = ''evilexample.com''" by code_simp+
  show ?thesis
    using wildcard_matches_subdomains [OF p, of "''www.example.COM.''"] wildcard_matches_subdomains [OF p, of "''evilexample.com''"]
    unfolding n by (auto simp: append_eq_Cons_conv Cons_eq_append_conv intro!: exI [of _ "''www''"])
qed

section \<open>Reading names\<close>

text \<open>Reading always makes progress and stays inside the message.\<close>

lemma dns_loop_bounds:
  "dns_loop msg pos b r hops = Some (n, nxt) \<Longrightarrow> (case r of Some p \<Rightarrow> nxt = p | None \<Rightarrow> pos < nxt \<and> nxt \<le> length msg)"
proof (induction msg pos b r hops rule: dns_loop.induct)
  case (1 msg pos b r hops)
  note eq = 1(3)
  show ?case
  proof (cases "pos \<ge> length msg \<or> msg ! pos = 0")
    case True
    then show ?thesis using eq by (subst (asm) dns_loop.simps) (auto simp: Let_def split: option.splits if_splits)
  next
    case f: False
    show ?thesis
    proof (cases "msg ! pos AND 0xc0 = 0xc0")
      case True
      let ?ptr = "unat (msg ! pos AND 0x3f) * 256 + unat (msg ! (pos + 1))"
      let ?r = "case r of None \<Rightarrow> Some (pos + 2) | Some p \<Rightarrow> Some p"
      have c: "pos + 1 < length msg" "hops + 1 \<le> dnsMaxNamePointers" "?ptr < pos"
          "dns_loop msg ?ptr b ?r (hops + 1) = Some (n, nxt)"
        using eq f True by (subst (asm) dns_loop.simps; auto simp: Let_def split: if_splits)+
      have "case ?r of Some p \<Rightarrow> nxt = p | None \<Rightarrow> ?ptr < nxt \<and> nxt \<le> length msg"
        using 1(1) [OF _ refl _ True _ _ refl refl] c f by simp
      then show ?thesis using c(1) by (auto split: option.splits)
    next
      case False
      let ?ll = "unat (msg ! pos)"
      have c: "msg ! pos AND 0xc0 = 0" "pos + 1 + ?ll \<le> length msg"
          "dns_loop msg (pos + 1 + ?ll) ((if b \<noteq> [] then b @ ''.'' else b) @
             map byte_char (slice (pos + 1) (pos + 1 + ?ll) msg)) r hops = Some (n, nxt)"
        using eq f False by (subst (asm) dns_loop.simps; auto simp: Let_def split: if_splits)+
      have "case r of Some p \<Rightarrow> nxt = p | None \<Rightarrow> pos + 1 + ?ll < nxt \<and> nxt \<le> length msg"
        using 1(2) [OF _ refl _ False _ refl] c f by simp
      then show ?thesis by (auto split: option.splits)
    qed
  qed
qed

lemma dnsName_bounds: "dnsName msg off = Some (n, nxt) \<Longrightarrow> off < nxt \<and> nxt \<le> length msg"
  using dns_loop_bounds [of msg off "[]" None 0 n nxt] by (auto simp: dnsName_def split: if_splits)

definition encode_name :: "bytes list \<Rightarrow> bytes" where
  "encode_name ls = concat (map (\<lambda>l. of_nat (length l) # l) ls) @ [0]"

definition dotted :: "string \<Rightarrow> bytes list \<Rightarrow> string" where
  "dotted b ls = foldl (\<lambda>b l. (if b \<noteq> [] then b @ ''.'' else b) @ map byte_char l) b ls"

lemma dns_loop_labels:
  assumes "\<forall>l \<in> set ls. l \<noteq> [] \<and> length l < 64"
  shows "dns_loop (pre @ encode_name ls @ post) (length pre) b None hops =
    Some (ToLower (dotted b ls), length pre + length (encode_name ls))"
  using assms
proof (induction ls arbitrary: pre b)
  case Nil
  then show ?case by (subst dns_loop.simps) (simp add: encode_name_def dotted_def nth_append)
next
  case (Cons l ls)
  let ?m = "pre @ encode_name (l # ls) @ post"
  let ?n = "of_nat (length l) :: byte"
  have l: "l \<noteq> []" "length l < 64" using Cons(2) by auto
  then have u: "unat ?n = length l" by (simp add: unat_of_nat)
  have n0: "?n \<noteq> 0" using u l(1) by auto
  have hi: "?n AND 0xc0 = 0"
  proof -
    have "take_bit 6 ?n = ?n" using l(2) by (simp add: word_unat_eq_iff take_bit_eq_mod unat_mod u)
    then have "?n AND 0x3f = ?n" by (simp add: take_bit_eq_mask mask_eq_exp_minus_1)
    then have "?n AND 0xc0 = ?n AND (0x3f AND 0xc0)" by (simp only: and.assoc [symmetric])
    then show ?thesis by simp
  qed
  have m: "?m = (pre @ ?n # l) @ encode_name ls @ post" by (simp add: encode_name_def)
  have at: "?m ! length pre = ?n" "length pre < length ?m" by (simp_all add: m nth_append)
  have sl: "slice (length pre + 1) (length pre + 1 + length l) ?m = l"
    by (simp add: m slice_def)
  have ne: "encode_name (l # ls) \<noteq> []" by (simp add: encode_name_def)
  have le: "length pre + 1 + length l \<le> length ?m" by (simp add: m)
  have "dns_loop ?m (length pre) b None hops =
      dns_loop ?m (length pre + 1 + length l) ((if b \<noteq> [] then b @ ''.'' else b) @ map byte_char l) None hops"
    using at n0 hi sl le ne by (subst dns_loop.simps) (simp add: Let_def u)
  also have "\<dots> = Some (ToLower (dotted b (l # ls)), length pre + length (encode_name (l # ls)))"
    using Cons(1) [of "pre @ ?n # l" "(if b \<noteq> [] then b @ ''.'' else b) @ map byte_char l"] Cons(2)
    by (simp add: m encode_name_def dotted_def)
  finally show ?case .
qed

text \<open>A name written in the plain label form of the DNS, at any place of a message, is read back
  as its labels joined by dots in lower case, and reading continues right behind it; and whatever
  the bytes (compression pointers that loop included), reading a name ends, moves forward and
  never leaves the message.\<close>
theorem dnsName_reads_labels:
  assumes "\<forall>l \<in> set ls. l \<noteq> [] \<and> length l < 64"
  shows "dnsName (pre @ encode_name ls @ post) (length pre) =
      Some (ToLower (dotted [] ls), length pre + length (encode_name ls)) \<and>
    (dnsName msg off = Some (n, nxt) \<longrightarrow> off < nxt \<and> nxt \<le> length msg)"
  using dns_loop_labels [OF assms, of pre post "[]" 0] dnsName_bounds [of msg off n nxt]
  by (simp add: dnsName_def encode_name_def)

lemma dnsName_reads_labels_witness:
  "dnsName (encode_name [[69, 120], [99, 111, 109]]) 0 = Some (''ex.com'', 8)"
proof -
  let ?ls = "[[69, 120], [99, 111, 109]] :: bytes list"
  have e: "ToLower (dotted [] ?ls) = ''ex.com''" "length (encode_name ?ls) = 8" by code_simp+
  show ?thesis
    using dnsName_reads_labels [of ?ls "[]" "[]" "[]" 0] e by simp
qed

section \<open>Responses over TCP\<close>

text \<open>Over TCP a message comes behind its length (RFC 1035, 4.2.2), which nothing strips: the flags
  of the response are then read as its question count, and the answer bit makes it too big.\<close>

lemma get16_top: "a AND 0x80 \<noteq> 0 \<Longrightarrow> 64 < unat (get16 (a # b # r))"
proof -
  assume "a AND 0x80 \<noteq> 0"
  then have "a AND 2 ^ 7 \<noteq> 0" by simp
  then have "bit a 7" by (simp only: and_exp_eq_0_iff_not_bit not_not)
  then have "bit (get16 (a # b # r)) 15" by (simp add: get16.simps bit_simps)
  then have "bit (unat (get16 (a # b # r))) 15" by (simp add: bit_unsigned_iff)
  then have "odd (unat (get16 (a # b # r)) div 2 ^ 15)" unfolding bit_iff_odd .
  then have "\<not> unat (get16 (a # b # r)) < 2 ^ 15" by auto
  then show ?thesis by simp
qed

text \<open>No response carried over TCP is ever sniffed: whatever two bytes of length stand before a
  message with the answer bit set, the parser returns no answer, so a wildcard object learns
  nothing from resolvers that answer over TCP.\<close>
theorem tcp_dns_never_sniffed:
  assumes "12 \<le> length msg" "msg ! 2 AND 0x80 \<noteq> 0"
  shows "dnsParseResponse (put16 n @ msg) = []"
proof -
  have "drop 2 msg = msg ! 2 # msg ! 3 # drop 4 msg"
    using assms(1) by (simp add: Cons_nth_drop_Suc [symmetric] numeral_2_eq_2 numeral_3_eq_3 eval_nat_numeral)
  then have "slice 4 6 (put16 n @ msg) = [msg ! 2, msg ! 3]" by (simp add: slice_def)
  then have "64 < unat (get16 (slice 4 6 (put16 n @ msg)))" using get16_top [OF assms(2)] by simp
  then show ?thesis by (simp add: dnsParseResponse_def Let_def)
qed

text \<open>The same answer (a.b has address 192.0.2.7) with and without the length in front.\<close>

definition ex_answer :: bytes where
  "ex_answer = [0, 1, 0x81, 0x80, 0, 0, 0, 1, 0, 0, 0, 0, 1, 97, 1, 98, 0, 0, 1, 0, 1, 0, 0, 0, 60, 0, 4, 192, 0, 2, 7]"

lemma tcp_dns_never_sniffed_witness:
  "map an_name (dnsParseResponse ex_answer) = [''a.b''] \<and> dnsParseResponse (put16 31 @ ex_answer) = []"
proof -
  have "map an_name (dnsParseResponse ex_answer) = [''a.b'']" by code_simp
  moreover have "12 \<le> length ex_answer" "ex_answer ! 2 AND 0x80 \<noteq> 0" by code_simp+
  ultimately show ?thesis using tcp_dns_never_sniffed [of ex_answer 31] by simp
qed

end
