(* ===== verification/Fw_Conntrack.thy ===== *)
theory Fw_Conntrack
  imports Go_Strings Net_Addr
begin

text \<open>
  Connection tracking of internal/mesh/firewall.go: direction-independent flow keys, the state of
  a packet, tracking and the idle sweep. \<open>Compare\<close> is that of net/netip. The lemmas relate the
  table to the history of tracked packets.
\<close>

section \<open>State and operations\<close>

definition val_of :: "addr \<Rightarrow> nat" where
  "val_of a = (case a of NoAddr \<Rightarrow> 0 | Addr4 w \<Rightarrow> unat w | Addr6 w _ \<Rightarrow> unat w)"

definition zone_of :: "addr \<Rightarrow> string" where
  "zone_of a = (case a of Addr6 _ z \<Rightarrow> z | _ \<Rightarrow> [])"

definition addr_Compare :: "addr \<Rightarrow> addr \<Rightarrow> int" where
  "addr_Compare a b =
     (if BitLen a < BitLen b then -1 else if BitLen a > BitLen b then 1
      else if val_of a < val_of b then -1 else if val_of a > val_of b then 1
      else str_cmp (zone_of a) (zone_of b))"

datatype ctState = ctNew | ctEstablished

record flowKey =
  f_proto :: byte
  f_a :: addr
  f_b :: addr
  f_ap :: "16 word"
  f_bp :: "16 word"

record flowEntry =
  initiator :: addr
  initPort :: "16 word"
  established :: bool
  fe_lastSeen :: int

type_synonym fwConntrack = "flowKey \<Rightarrow> flowEntry option"

definition newConntrack :: fwConntrack where "newConntrack = Map.empty"

definition ct_reset :: "fwConntrack \<Rightarrow> fwConntrack" where "ct_reset c = Map.empty"

definition ctTTLNew :: int where "ctTTLNew = 60 * 1000000000"
definition ctTTLEst :: int where "ctTTLEst = 300 * 1000000000"

definition canon :: "byte \<Rightarrow> addr \<Rightarrow> 16 word \<Rightarrow> addr \<Rightarrow> 16 word \<Rightarrow> flowKey" where
  "canon proto s sp d dp =
     (let c = addr_Compare s d
      in if c < 0 \<or> (c = 0 \<and> sp \<le> dp)
         then \<lparr>f_proto = proto, f_a = s, f_b = d, f_ap = sp, f_bp = dp\<rparr>
         else \<lparr>f_proto = proto, f_a = d, f_b = s, f_ap = dp, f_bp = sp\<rparr>)"

definition readState :: "fwConntrack \<Rightarrow> byte \<Rightarrow> addr \<Rightarrow> 16 word \<Rightarrow> addr \<Rightarrow> 16 word \<Rightarrow> ctState" where
  "readState c proto src sp dst dp =
     (case c (canon proto src sp dst dp) of
        None \<Rightarrow> ctNew
      | Some e \<Rightarrow> if established e then ctEstablished
                  else if src = initiator e \<and> sp = initPort e then ctNew
                  else ctEstablished)"

definition ct_track :: "byte \<Rightarrow> addr \<Rightarrow> 16 word \<Rightarrow> addr \<Rightarrow> 16 word \<Rightarrow> int \<Rightarrow> fwConntrack \<Rightarrow> fwConntrack" where
  "ct_track proto src sp dst dp now c =
     (let k = canon proto src sp dst dp
      in case c k of
        None \<Rightarrow> c(k \<mapsto> \<lparr>initiator = src, initPort = sp, established = False, fe_lastSeen = now\<rparr>)
      | Some e \<Rightarrow>
          let e' = (if \<not> established e \<and> (src \<noteq> initiator e \<or> sp \<noteq> initPort e) then e\<lparr>established := True\<rparr> else e)
          in c(k \<mapsto> e'\<lparr>fe_lastSeen := now\<rparr>))"

definition ct_sweep :: "int \<Rightarrow> fwConntrack \<Rightarrow> fwConntrack" where
  "ct_sweep now c = (\<lambda>k. case c k of None \<Rightarrow> None
     | Some e \<Rightarrow> if now - fe_lastSeen e > (if established e then ctTTLEst else ctTTLNew) then None else Some e)"

section \<open>Keys\<close>

lemma str_cmp_anti: "str_cmp s t < 0 \<longleftrightarrow> str_cmp t s > 0"
  by (induction s t rule: str_cmp.induct) auto

lemma addr_Compare_0: "addr_Compare a b = 0 \<longleftrightarrow> a = b"
  by (cases a; cases b) (auto simp: addr_Compare_def val_of_def zone_of_def word_unat_eq_iff)

lemma addr_Compare_anti: "addr_Compare a b < 0 \<longleftrightarrow> addr_Compare b a > 0"
  by (auto simp: addr_Compare_def str_cmp_anti)

lemma canon_sym: "canon proto s sp d dp = canon proto d dp s sp"
proof -
  consider "addr_Compare s d < 0" | "addr_Compare s d = 0" | "addr_Compare s d > 0" by linarith
  then show ?thesis
  proof cases
    case 1
    then have "addr_Compare d s > 0" by (simp add: addr_Compare_anti)
    then show ?thesis using 1 by (simp add: canon_def Let_def)
  next
    case 2
    then have "s = d" "addr_Compare d d = 0" by (simp_all add: addr_Compare_0)
    then show ?thesis by (auto simp: canon_def Let_def)
  next
    case 3
    then have "addr_Compare d s < 0" by (simp add: addr_Compare_anti)
    then show ?thesis using 3 by (simp add: canon_def Let_def)
  qed
qed

text \<open>Two packets share a key exactly when they go the same way or opposite ways between the same ends.\<close>

lemma canon_eq_iff: "canon proto s sp d dp = canon proto' s' sp' d' dp' \<longleftrightarrow>
    proto = proto' \<and> (s = s' \<and> sp = sp' \<and> d = d' \<and> dp = dp' \<or> s = d' \<and> sp = dp' \<and> d = s' \<and> dp = sp')"
proof
  assume "canon proto s sp d dp = canon proto' s' sp' d' dp'"
  then show "proto = proto' \<and> (s = s' \<and> sp = sp' \<and> d = d' \<and> dp = dp' \<or> s = d' \<and> sp = dp' \<and> d = s' \<and> dp = sp')"
    by (auto simp: canon_def Let_def split: if_splits)
qed (use canon_sym in metis)

section \<open>The history behind an entry\<close>

datatype ct_event = CtTrack byte addr "16 word" addr "16 word" int | CtSweep int | CtReset

fun ct_step :: "fwConntrack \<Rightarrow> ct_event \<Rightarrow> fwConntrack" where
  "ct_step c (CtTrack proto src sp dst dp now) = ct_track proto src sp dst dp now c"
| "ct_step c (CtSweep now) = ct_sweep now c"
| "ct_step c CtReset = ct_reset c"

definition ct_run :: "ct_event list \<Rightarrow> fwConntrack" where
  "ct_run evs = foldl ct_step newConntrack evs"

text \<open>The packets tracked since the last reset.\<close>

definition since_reset :: "ct_event list \<Rightarrow> ct_event list" where
  "since_reset evs = rev (takeWhile (\<lambda>e. e \<noteq> CtReset) (rev evs))"

definition ct_seen :: "ct_event list \<Rightarrow> byte \<Rightarrow> addr \<Rightarrow> 16 word \<Rightarrow> addr \<Rightarrow> 16 word \<Rightarrow> bool" where
  "ct_seen evs proto src sp dst dp \<longleftrightarrow> (\<exists>now. CtTrack proto src sp dst dp now \<in> set (since_reset evs))"

definition entry_ok :: "ct_event list \<Rightarrow> flowKey \<Rightarrow> flowEntry \<Rightarrow> bool" where
  "entry_ok evs k e \<longleftrightarrow> (\<exists>proto d dp. k = canon proto (initiator e) (initPort e) d dp \<and>
     ct_seen evs proto (initiator e) (initPort e) d dp \<and>
     (established e \<longrightarrow> ct_seen evs proto d dp (initiator e) (initPort e)))"

lemma since_reset_snoc: "since_reset (evs @ [e]) = (if e = CtReset then [] else since_reset evs @ [e])"
  by (simp add: since_reset_def)

lemma ct_seen_snoc: "e \<noteq> CtReset \<Longrightarrow> ct_seen evs p s sp d dp \<Longrightarrow> ct_seen (evs @ [e]) p s sp d dp"
  by (auto simp: ct_seen_def since_reset_snoc)

lemma entry_ok_snoc: "e \<noteq> CtReset \<Longrightarrow> entry_ok evs k x \<Longrightarrow> entry_ok (evs @ [e]) k x"
  unfolding entry_ok_def by (blast intro: ct_seen_snoc)

lemma entry_ok_time: "entry_ok evs k (x\<lparr>fe_lastSeen := n\<rparr>) = entry_ok evs k x"
  by (simp add: entry_ok_def)

lemma ct_entries: "ct_run evs k = Some e \<Longrightarrow> entry_ok evs k e"
proof (induction evs arbitrary: k e rule: rev_induct)
  case Nil
  then show ?case by (simp add: ct_run_def newConntrack_def)
next
  case (snoc ev evs)
  have run: "ct_run (evs @ [ev]) = ct_step (ct_run evs) ev" by (simp add: ct_run_def)
  show ?case
  proof (cases ev)
    case CtReset
    then show ?thesis using snoc(2) [unfolded run] by (simp add: CtReset ct_reset_def)
  next
    case (CtSweep now)
    then have "ct_run evs k = Some e" using snoc(2) [unfolded run] unfolding CtSweep by (auto simp: ct_sweep_def split: option.splits if_splits)
    then show ?thesis using snoc(1) entry_ok_snoc CtSweep by blast
  next
    case (CtTrack proto src sp dst dp now)
    let ?k = "canon proto src sp dst dp"
    have me: "ct_seen (evs @ [ev]) proto src sp dst dp" by (auto simp: ct_seen_def since_reset_snoc CtTrack)
    show ?thesis
    proof (cases "k = ?k")
      case False
      then have "ct_run evs k = Some e" using snoc(2) [unfolded run] unfolding CtTrack by (auto simp: ct_track_def Let_def split: option.splits)
      then show ?thesis using snoc(1) entry_ok_snoc CtTrack by blast
    next
      case True
      show ?thesis
      proof (cases "ct_run evs ?k")
        case None
        then have "e = \<lparr>initiator = src, initPort = sp, established = False, fe_lastSeen = now\<rparr>"
          using snoc(2) [unfolded run] True unfolding CtTrack by (simp add: ct_track_def Let_def)
        then show ?thesis unfolding entry_ok_def using me True by auto
      next
        case (Some x)
        define y where "y = (if \<not> established x \<and> (src \<noteq> initiator x \<or> sp \<noteq> initPort x) then x\<lparr>established := True\<rparr> else x)"
        have e: "e = y\<lparr>fe_lastSeen := now\<rparr>"
          using snoc(2) [unfolded run] True Some unfolding CtTrack by (simp add: ct_track_def Let_def y_def)
        have ok: "entry_ok (evs @ [ev]) ?k x" using snoc(1) [OF Some] entry_ok_snoc CtTrack by blast
        have "entry_ok (evs @ [ev]) ?k y"
        proof (cases "\<not> established x \<and> (src \<noteq> initiator x \<or> sp \<noteq> initPort x)")
          case False
          then show ?thesis using ok by (simp only: y_def if_False)
        next
          case new: True
          obtain p d dp' where x: "?k = canon p (initiator x) (initPort x) d dp'"
              "ct_seen (evs @ [ev]) p (initiator x) (initPort x) d dp'"
            using ok unfolding entry_ok_def by blast
          then have "p = proto \<and> d = src \<and> dp' = sp \<and> initiator x = dst \<and> initPort x = dp"
            using new unfolding canon_eq_iff by auto
          then show ?thesis using x me new by (auto simp: entry_ok_def y_def)
        qed
        then show ?thesis using True e by (simp add: entry_ok_time)
      qed
    qed
  qed
qed

text \<open>An established packet has a tracked packet the other way.\<close>

lemma readState_established:
  assumes "readState (ct_run evs) proto src sp dst dp = ctEstablished"
  shows "ct_seen evs proto dst dp src sp"
proof -
  obtain e where e: "ct_run evs (canon proto src sp dst dp) = Some e"
      "established e \<or> \<not> (src = initiator e \<and> sp = initPort e)"
    using assms by (auto simp: readState_def split: option.splits if_splits)
  obtain p d dp' where x: "canon proto src sp dst dp = canon p (initiator e) (initPort e) d dp'"
      "ct_seen evs p (initiator e) (initPort e) d dp'" "established e \<longrightarrow> ct_seen evs p d dp' (initiator e) (initPort e)"
    using ct_entries [OF e(1)] unfolding entry_ok_def by blast
  then show ?thesis using e(2) unfolding canon_eq_iff by auto
qed

text \<open>The reply to a tracked packet is established.\<close>

lemma readState_reply:
  "src \<noteq> dst \<or> sp \<noteq> dp \<Longrightarrow> readState (ct_track proto src sp dst dp now c) proto dst dp src sp = ctEstablished"
  by (cases "c (canon proto src sp dst dp)")
     (auto simp: readState_def ct_track_def Let_def canon_sym [of proto dst dp])

end
