(* ===== verification/Ip_Packet.thy ===== *)
theory Ip_Packet
  imports Net_Addr
begin

text \<open>
  Overlay packets as byte strings: the header parser of internal/mesh/nat.go for both
  families (with the IPv6 extension-header walk and the fragment rules), the in-place rewriting
  of addresses and ports, and the Internet checksum with its pseudo-header. Writes into a packet
  return the new packet. The \<open>rewrite\<close> lemmas say what a rewritten packet parses to, the
  \<open>checksum\<close> lemmas that a rewritten packet carries valid checksums.
\<close>

section \<open>Parsing\<close>

definition protoTCP :: byte where "protoTCP = 6"
definition protoUDP :: byte where "protoUDP = 17"
definition protoICMPv6 :: byte where "protoICMPv6 = 58"

record ipHdr =
  h_is6 :: bool
  l4off :: nat
  h_proto :: byte
  h_src :: addr
  h_dst :: addr
  h_sport :: "16 word"
  h_dport :: "16 word"

definition rd16 :: "bytes \<Rightarrow> nat \<Rightarrow> 16 word" where
  "rd16 pkt off = push_bit 8 (ucast (pkt ! off)) OR ucast (pkt ! (off + 1))"

definition l4Ports :: "bytes \<Rightarrow> nat \<Rightarrow> byte \<Rightarrow> 16 word \<times> 16 word" where
  "l4Ports pkt off proto =
     (if proto \<noteq> protoTCP \<and> proto \<noteq> protoUDP then (0, 0)
      else if length pkt < off + 4 then (0, 0)
      else (rd16 pkt off, rd16 pkt (off + 2)))"

definition ipv4Fields2 :: "bytes \<Rightarrow> ipHdr option" where
  "ipv4Fields2 pkt =
     (let ihl = unat (pkt ! 0 AND 0x0f) * 4
      in if ihl < 20 \<or> length pkt < ihl then None
         else
           let h = \<lparr>h_is6 = False, l4off = ihl, h_proto = pkt ! 9, h_src = AddrFrom4 (slice 12 16 pkt),
                    h_dst = AddrFrom4 (slice 16 20 pkt), h_sport = 0, h_dport = 0\<rparr>;
               fragOff = rd16 pkt 6 AND 0x1fff
           in Some (if fragOff = 0
                    then (case l4Ports pkt ihl (h_proto h) of (sp, dp) \<Rightarrow> h\<lparr>h_sport := sp, h_dport := dp\<rparr>)
                    else h))"

text \<open>The extension-header walk, bounded by 8 rounds: the upper-layer protocol, its offset, and
  whether this is a first (or only) fragment.\<close>

fun ext_walk :: "nat \<Rightarrow> bytes \<Rightarrow> byte \<Rightarrow> nat \<Rightarrow> bool \<Rightarrow> (byte \<times> nat \<times> bool) option" where
  "ext_walk 0 pkt nxt off first = None"
| "ext_walk (Suc n) pkt nxt off first =
     (if nxt = 0 \<or> nxt = 43 \<or> nxt = 60 then
        (if length pkt < off + 2 then None
         else let l = (unat (pkt ! (off + 1)) + 1) * 8
              in if l \<le> 0 \<or> length pkt < off + l then None
                 else ext_walk n pkt (pkt ! off) (off + l) first)
      else if nxt = 44 then
        (if length pkt < off + 8 then None
         else ext_walk n pkt (pkt ! off) (off + 8) (first \<and> drop_bit 3 (rd16 pkt (off + 2)) = 0))
      else if nxt = 50 \<or> nxt = 51 \<or> nxt = 59 then None
      else if off > length pkt then None
      else Some (nxt, off, first))"

definition ipv6Fields :: "bytes \<Rightarrow> ipHdr option" where
  "ipv6Fields pkt =
     (if length pkt < 40 then None
      else case ext_walk 8 pkt (pkt ! 6) 40 True of
        None \<Rightarrow> None
      | Some (proto, off, first) \<Rightarrow>
          let h = \<lparr>h_is6 = True, l4off = off, h_proto = proto, h_src = AddrFrom16 (slice 8 24 pkt),
                   h_dst = AddrFrom16 (slice 24 40 pkt), h_sport = 0, h_dport = 0\<rparr>
          in Some (if first
                   then (case l4Ports pkt off proto of (sp, dp) \<Rightarrow> h\<lparr>h_sport := sp, h_dport := dp\<rparr>)
                   else h))"

definition ipFields :: "bytes \<Rightarrow> ipHdr option" where
  "ipFields pkt =
     (if length pkt < 20 then None
      else if drop_bit 4 (pkt ! 0) = 4 then ipv4Fields2 pkt
      else if drop_bit 4 (pkt ! 0) = 6 then ipv6Fields pkt
      else None)"

definition ipv4Fields :: "bytes \<Rightarrow> (nat \<times> byte \<times> addr \<times> addr \<times> 16 word \<times> 16 word) option" where
  "ipv4Fields pkt =
     (case ipFields pkt of
        None \<Rightarrow> None
      | Some h \<Rightarrow> if h_is6 h then None else Some (l4off h, h_proto h, h_src h, h_dst h, h_sport h, h_dport h))"

section \<open>Rewriting\<close>

definition wr16 :: "nat \<Rightarrow> 16 word \<Rightarrow> bytes \<Rightarrow> bytes" where
  "wr16 off w pkt = pkt[off := ucast (drop_bit 8 w), off + 1 := ucast w]"

definition setSrc :: "bytes \<Rightarrow> ipHdr \<Rightarrow> addr \<Rightarrow> 16 word \<Rightarrow> bytes" where
  "setSrc pkt h a port =
     (let p1 = (if h_is6 h then write_at 8 (addr_bytes a) pkt else write_at 12 (addr_bytes a) pkt)
      in if (h_proto h = protoTCP \<or> h_proto h = protoUDP) \<and> port \<noteq> 0 \<and> length p1 \<ge> l4off h + 2
         then wr16 (l4off h) port p1 else p1)"

definition setDst :: "bytes \<Rightarrow> ipHdr \<Rightarrow> addr \<Rightarrow> 16 word \<Rightarrow> bytes" where
  "setDst pkt h a port =
     (let p1 = (if h_is6 h then write_at 24 (addr_bytes a) pkt else write_at 16 (addr_bytes a) pkt)
      in if (h_proto h = protoTCP \<or> h_proto h = protoUDP) \<and> port \<noteq> 0 \<and> length p1 \<ge> l4off h + 4
         then wr16 (l4off h + 2) port p1 else p1)"

section \<open>Checksums\<close>

text \<open>16-bit big-endian words summed in 32 bits, an odd last byte padded with zero.\<close>

fun sum_words :: "bytes \<Rightarrow> 32 word \<Rightarrow> 32 word" where
  "sum_words [] s = s"
| "sum_words [a] s = s + push_bit 8 (ucast a)"
| "sum_words (a # b # r) s = sum_words r (s + (push_bit 8 (ucast a) OR ucast b))"

function fold_sum :: "32 word \<Rightarrow> 32 word" where
  "fold_sum s = (if drop_bit 16 s \<noteq> 0 then fold_sum ((s AND 0xffff) + drop_bit 16 s) else s)"
  by auto

text \<open>One folding round makes the sum smaller.\<close>

lemma unat_drop_16: "unat (drop_bit 16 (s :: 32 word)) = unat s div 65536"
  by (simp add: drop_bit_eq_div unat_div)

lemma unat_and_16: "unat (s AND 0xffff :: 32 word) = unat s mod 65536"
proof -
  have "s AND 0xffff = take_bit 16 s" by (simp add: take_bit_eq_mask mask_eq_exp_minus_1)
  then show ?thesis by (simp add: take_bit_eq_mod unat_mod)
qed

lemma unat_fold_round:
  "unat ((s AND 0xffff) + drop_bit 16 s :: 32 word) = unat s mod 65536 + unat s div 65536"
proof -
  have "unat s < 2 ^ 32" using unat_less_2p [of s] by simp
  then have "unat s mod 65536 + unat s div 65536 < 2 ^ 32" by simp
  then show ?thesis by (subst unat_plus_small) (simp_all add: unat_drop_16 unat_and_16)
qed

termination fold_sum
proof (relation "measure unat")
  fix s :: "32 word"
  assume "drop_bit 16 s \<noteq> 0"
  then have "unat (drop_bit 16 s) \<noteq> 0" by (simp only: unat_eq_0 not_False_eq_True)
  then have "0 < unat s div 65536" by (simp only: unat_drop_16 neq0_conv)
  then show "((s AND 0xffff) + drop_bit 16 s, s) \<in> measure unat"
    unfolding in_measure unat_fold_round
    using div_mult_mod_eq [of "unat s" 65536] by linarith
qed simp

declare fold_sum.simps [simp del]

definition ones :: "bytes \<Rightarrow> 32 word \<Rightarrow> 16 word" where
  "ones b initial = NOT (ucast (fold_sum (sum_words b initial)))"

text \<open>The address bytes are \<open>lo..hi\<close>, always an even number of them.\<close>

definition pseudoSum :: "bytes \<Rightarrow> ipHdr \<Rightarrow> nat \<Rightarrow> 32 word" where
  "pseudoSum pkt h l4len =
     sum_words (if h_is6 h then slice 8 40 pkt else slice 12 20 pkt) 0 + ucast (h_proto h) + of_nat l4len"

definition fixChecksums :: "bytes \<Rightarrow> ipHdr \<Rightarrow> bytes" where
  "fixChecksums pkt h =
     (let p1 = (if \<not> h_is6 h
                then let z = pkt[10 := 0, 11 := 0] in wr16 10 (ones (take (l4off h) z) 0) z
                else pkt)
      in if h_proto h = protoICMPv6 \<and> \<not> h_is6 h then p1
         else if h_proto h \<noteq> protoTCP \<and> h_proto h \<noteq> protoUDP \<and> h_proto h \<noteq> protoICMPv6 then p1
         else
           let off = (if h_proto h = protoTCP then 16 else if h_proto h = protoUDP then 6 else 2)
           in if l4off h > length p1 then p1
              else
                let l4 = drop (l4off h) p1
                in if length l4 < off + 2 then p1
                   else
                     let pseudo = pseudoSum p1 h (length l4);
                         z = l4[off := 0, off + 1 := 0];
                         cc = ones z pseudo;
                         cc' = (if h_proto h = protoUDP \<and> cc = 0 then 0xffff else cc)
                     in take (l4off h) p1 @ wr16 off cc' z)"

section \<open>Checksum arithmetic\<close>

text \<open>The sum as a number, and the value of the folded sum: the representative modulo 65535
  that is 0 only for the empty sum.\<close>

fun wsum :: "bytes \<Rightarrow> nat" where
  "wsum [] = 0"
| "wsum [a] = 256 * unat a"
| "wsum (a # b # r) = 256 * unat a + unat b + wsum r"

lemma unat_pair: "unat (push_bit 8 (ucast (a :: byte)) OR ucast (b :: byte) :: 32 word) = 256 * unat a + unat b"
proof -
  have "push_bit 8 (ucast a) AND (ucast b :: 32 word) = 0"
    by (auto simp: bit_simps intro!: bit_word_eqI dest!: byte_bit_less)
  then have "push_bit 8 (ucast a) OR ucast b = push_bit 8 (ucast a) + (ucast b :: 32 word)"
    by (simp add: disjunctive_add_eq_or del: push_bit_numeral)
  moreover have "unat (push_bit 8 (ucast a) :: 32 word) = 256 * unat a"
  proof -
    have "unat a < 256" using unat_less_2p [of a] by simp
    then show ?thesis by (simp add: push_bit_eq_mult unat_word_ariths unat_ucast)
  qed
  moreover have "unat a < 256" "unat b < 256" using unat_less_2p [of a] unat_less_2p [of b] by simp_all
  moreover have "unat (ucast b :: 32 word) = unat b" using unat_less_2p [of b] by (simp add: unat_ucast)
  ultimately show ?thesis by (simp add: unat_plus_small del: push_bit_numeral)
qed

lemma unat_sum_words:
  "unat s + 65535 * ((length b + 1) div 2) < 2 ^ 32 \<Longrightarrow> unat (sum_words b s) = unat s + wsum b"
proof (induction b s rule: sum_words.induct)
  case (2 a s)
  have "unat a < 256" using unat_less_2p [of a] by simp
  moreover have "unat (push_bit 8 (ucast a) :: 32 word) = 256 * unat a" using unat_pair [of a 0] by simp
  ultimately show ?case using 2 by (simp add: unat_plus_small del: push_bit_numeral)
next
  case (3 a b r s)
  have lt: "unat a < 256" "unat b < 256" using unat_less_2p [of a] unat_less_2p [of b] by simp_all
  have e: "unat (s + (push_bit 8 (ucast a) OR ucast b)) = unat s + (256 * unat a + unat b)"
    using 3(2) lt by (subst unat_plus_small) (simp_all add: unat_pair del: push_bit_numeral)
  show ?case using 3 lt by (simp add: e del: push_bit_numeral)
qed simp

definition fold_nat :: "nat \<Rightarrow> nat" where
  "fold_nat n = (if n = 0 then 0 else (n - 1) mod 65535 + 1)"

lemma fold_nat_step: "65536 \<le> n \<Longrightarrow> fold_nat (n mod 65536 + n div 65536) = fold_nat n"
proof -
  assume big: "65536 \<le> n"
  define q r where "q = n div 65536" and "r = n mod 65536"
  have n: "n = q * 65536 + r" by (simp add: q_def r_def)
  have "0 < q" using big by (simp add: q_def div_greater_zero_iff)
  then have "n - 1 = (r + q - 1) + q * 65535" using n by simp
  then have "(n - 1) mod 65535 = (r + q - 1) mod 65535" by simp
  then show ?thesis using \<open>0 < q\<close> big by (simp add: fold_nat_def q_def [symmetric] r_def [symmetric])
qed

lemma unat_fold_sum: "unat (fold_sum s) = fold_nat (unat s)"
proof (induction s rule: fold_sum.induct)
  case (1 s)
  show ?case
  proof (cases "drop_bit 16 s = 0")
    case True
    then have "unat s div 65536 = 0" using unat_drop_16 [of s] by (simp only: unat_0)
    then have "unat s < 65536" by (simp add: div_eq_0_iff)
    then show ?thesis using True by (subst fold_sum.simps) (auto simp: fold_nat_def)
  next
    case False
    then have "unat (drop_bit 16 s) \<noteq> 0" by (simp only: unat_eq_0 not_False_eq_True)
    then have "65536 \<le> unat s" unfolding unat_drop_16 by (metis div_less not_le)
    then show ?thesis
      using 1 [OF False] False fold_nat_step by (subst fold_sum.simps) (simp only: if_True not_False_eq_True unat_fold_round)
  qed
qed

lemma unat_not16: "unat (NOT w :: 16 word) = 65535 - unat w"
proof -
  have "NOT w = -1 - w" by (simp add: not_eq_complement)
  moreover have "w \<le> -1" by simp
  ultimately show ?thesis by (simp add: unat_sub unsigned_minus_1_eq_mask mask_eq_exp_minus_1)
qed

lemma unat_ones:
  assumes "unat i + 65535 * ((length b + 1) div 2) < 2 ^ 32"
  shows "unat (ones b i) = 65535 - fold_nat (unat i + wsum b)"
proof -
  have "fold_nat n < 65536" for n by (simp add: fold_nat_def)
  then have "unat (fold_sum (sum_words b i)) < 65536" by (simp add: unat_fold_sum)
  then have "unat (ucast (fold_sum (sum_words b i)) :: 16 word) = unat (fold_sum (sum_words b i))"
    by (simp add: unat_ucast)
  then show ?thesis using assms by (simp add: ones_def unat_not16 unat_fold_sum unat_sum_words)
qed

lemma fold_nat_complement: "fold_nat (n + (65535 - fold_nat n)) = 65535"
proof (cases "n = 0")
  case True
  then show ?thesis by (simp add: fold_nat_def)
next
  case False
  define m where "m = (n - 1) mod 65535"
  have "m < 65535" by (simp add: m_def)
  have "n - 1 = (n - 1) div 65535 * 65535 + m" by (simp add: m_def)
  then have "n + (65534 - m) - 1 = ((n - 1) div 65535) * 65535 + 65534" using False \<open>m < 65535\<close> by simp
  then have "(n + (65534 - m) - 1) mod 65535 = 65534" by simp
  moreover have "65535 - fold_nat n = 65534 - m" using False by (simp add: fold_nat_def m_def)
  ultimately show ?thesis using False by (simp add: fold_nat_def)
qed

lemma fold_nat_add_65535: "fold_nat n = 65535 \<Longrightarrow> fold_nat (n + 65535) = 65535"
proof -
  assume a: "fold_nat n = 65535"
  then have "0 < n" by (auto simp: fold_nat_def split: if_splits)
  then have "n + 65535 - 1 = (n - 1) + 65535" by simp
  then have "(n + 65535 - 1) mod 65535 = (n - 1) mod 65535" by (simp only: mod_add_self2)
  then show ?thesis using a \<open>0 < n\<close> by (simp add: fold_nat_def)
qed

text \<open>Writing a 16-bit word over a zeroed one at an even offset adds it to the sum.\<close>

lemma wsum_wr16:
  "even off \<Longrightarrow> off + 2 \<le> length b \<Longrightarrow> b ! off = 0 \<Longrightarrow> b ! (off + 1) = 0 \<Longrightarrow>
   wsum (wr16 off w b) = wsum b + unat w"
proof (induction b arbitrary: off rule: wsum.induct)
  case (3 x y r)
  show ?case
  proof (cases off)
    case 0
    have "unat (ucast (drop_bit 8 w) :: byte) = unat w div 256"
      using unat_less_2p [of w] by (simp add: unat_ucast drop_bit_eq_div unat_div div_less_iff_less_mult)
    moreover have "unat (ucast w :: byte) = unat w mod 256" by (simp add: unat_ucast)
    ultimately show ?thesis using 3 0 by (simp add: wr16_def)
  next
    case (Suc n)
    then obtain m where m: "off = Suc (Suc m)" using 3(2) by (cases n) auto
    then show ?thesis using 3 by (simp add: wr16_def)
  qed
qed auto

lemma length_wr16 [simp]: "length (wr16 off w b) = length b"
  by (simp add: wr16_def)

text \<open>The inserted checksum makes the whole range sum to zero, also in the UDP form where
  a computed 0 is sent as 0xffff.\<close>

lemma checksum_inserted:
  assumes "even off" "off + 2 \<le> length b" "unat i + 65535 * ((length b + 1) div 2) < 2 ^ 32"
    and z: "z = b[off := 0, off + 1 := 0]" and c: "c = ones z i \<or> (ones z i = 0 \<and> c = 0xffff)"
  shows "ones (wr16 off c z) i = 0"
proof -
  have len: "length z = length b" by (simp add: z)
  have zs: "z ! off = 0" "z ! (off + 1) = 0" using assms(2) by (simp_all add: z nth_list_update)
  have o: "unat (ones z i) = 65535 - fold_nat (unat i + wsum z)"
    using assms(3) len by (intro unat_ones) simp
  have le: "fold_nat n \<le> 65535" for n
    using mod_less_divisor [of 65535 "n - 1"] by (auto simp: fold_nat_def)
  have "fold_nat (unat i + wsum z + unat c) = 65535"
  proof (cases "c = ones z i")
    case True
    then show ?thesis using o fold_nat_complement by simp
  next
    case False
    then have "c = 0xffff" "unat (ones z i) = 0" using c by simp_all
    then have "fold_nat (unat i + wsum z) = 65535" "unat c = 65535" using o le [of "unat i + wsum z"] by simp_all
    then show ?thesis using fold_nat_add_65535 by simp
  qed
  then have zero: "unat (ones (wr16 off c z) i) = 0"
    using assms(1-3) len zs by (subst unat_ones) (simp_all add: wsum_wr16 add.assoc)
  show ?thesis by (rule iffD1 [OF unat_eq_0 zero])
qed

section \<open>What a packet parses to depends on few of its bytes\<close>

lemma ext_walk_offset: "ext_walk n p nxt off first = Some (pr, o', f) \<Longrightarrow> off \<le> o' \<and> o' \<le> length p"
proof (induction n p nxt off first rule: ext_walk.induct)
  case (2 n pkt nxt off first)
  then show ?case by (fastforce simp: Let_def split: if_splits)
qed simp

lemma ext_walk_frame:
  "ext_walk n p nxt off first = Some (pr, o', f) \<Longrightarrow> length q = length p \<Longrightarrow>
   (\<And>i. off \<le> i \<Longrightarrow> i < o' \<Longrightarrow> q ! i = p ! i) \<Longrightarrow> ext_walk n q nxt off first = Some (pr, o', f)"
proof (induction n p nxt off first rule: ext_walk.induct)
  case (2 n pkt nxt off first)
  consider (opts) "nxt = 0 \<or> nxt = 43 \<or> nxt = 60" | (frag) "nxt = 44"
    | (stop) "\<not> (nxt = 0 \<or> nxt = 43 \<or> nxt = 60)" "nxt \<noteq> 44" by blast
  then show ?case
  proof cases
    case opts
    let ?l = "(unat (pkt ! (off + 1)) + 1) * 8"
    have w: "\<not> length pkt < off + 2" "\<not> length pkt < off + ?l"
      "ext_walk n pkt (pkt ! off) (off + ?l) first = Some (pr, o', f)"
      using 2(3) opts by (auto simp: Let_def split: if_splits)
    have le: "off + ?l \<le> o'" using ext_walk_offset [OF w(3)] by simp
    then have e: "q ! off = pkt ! off" "q ! (off + 1) = pkt ! (off + 1)" using 2(5) by simp_all
    have "ext_walk n q (pkt ! off) (off + ?l) first = Some (pr, o', f)"
      using w le by (intro 2(1) [OF opts]) (auto intro!: 2(4,5))
    then show ?thesis using opts w 2(4) e by (simp add: Let_def)
  next
    case frag
    let ?f = "first \<and> drop_bit 3 (rd16 pkt (off + 2)) = 0"
    have w: "\<not> length pkt < off + 8" "ext_walk n pkt (pkt ! off) (off + 8) ?f = Some (pr, o', f)"
      using 2(3) frag by (auto split: if_splits)
    have le: "off + 8 \<le> o'" using ext_walk_offset [OF w(2)] by simp
    then have e: "q ! off = pkt ! off" "rd16 q (off + 2) = rd16 pkt (off + 2)" using 2(5) by (simp_all add: rd16_def)
    have "ext_walk n q (pkt ! off) (off + 8) ?f = Some (pr, o', f)"
      using w le frag by (intro 2(2)) (auto intro!: 2(4,5))
    then show ?thesis using frag w 2(4) e by simp
  next
    case stop
    then show ?thesis using 2(3,4) by (auto split: if_splits)
  qed
qed simp

text \<open>Whether the ports of a parsed packet are really there.\<close>

definition has_ports :: "bytes \<Rightarrow> ipHdr \<Rightarrow> bool" where
  "has_ports pkt h \<longleftrightarrow> (h_proto h = protoTCP \<or> h_proto h = protoUDP) \<and> l4off h + 4 \<le> length pkt \<and>
     (if h_is6 h then (case ext_walk 8 pkt (pkt ! 6) 40 True of Some (_, _, first) \<Rightarrow> first | None \<Rightarrow> False)
      else rd16 pkt 6 AND 0x1fff = 0)"

text \<open>\<open>structural\<close>: the bytes that decide how a packet is read, other than addresses and ports.\<close>

definition structural :: "ipHdr \<Rightarrow> nat \<Rightarrow> bool" where
  "structural h i \<longleftrightarrow> (if h_is6 h then i < 8 \<or> (40 \<le> i \<and> i < l4off h) else i < 10)"

lemma ipFields_bounds:
  assumes "ipFields p = Some h"
  shows "20 \<le> length p" "l4off h \<le> length p" "h_is6 h \<Longrightarrow> 40 \<le> l4off h"
    "\<not> h_is6 h \<Longrightarrow> 20 \<le> l4off h \<and> l4off h \<le> 60 \<and> even (l4off h)"
proof -
  have "unat (b AND 0x0f :: byte) \<le> 15" for b
  proof -
    have "b AND 0x0f = take_bit 4 b" by (simp add: take_bit_eq_mask mask_eq_exp_minus_1)
    then show ?thesis using mod_less_divisor [of 16 "unat b"] by (simp add: take_bit_eq_mod unat_mod)
  qed
  then show "20 \<le> length p" "l4off h \<le> length p" "h_is6 h \<Longrightarrow> 40 \<le> l4off h"
    "\<not> h_is6 h \<Longrightarrow> 20 \<le> l4off h \<and> l4off h \<le> 60 \<and> even (l4off h)"
    using assms ext_walk_offset
    by (fastforce simp: ipFields_def ipv4Fields2_def ipv6Fields_def Let_def split: if_splits option.splits prod.splits)+
qed

definition src_of :: "bool \<Rightarrow> bytes \<Rightarrow> addr" where
  "src_of is6 p = (if is6 then AddrFrom16 (slice 8 24 p) else AddrFrom4 (slice 12 16 p))"

definition dst_of :: "bool \<Rightarrow> bytes \<Rightarrow> addr" where
  "dst_of is6 p = (if is6 then AddrFrom16 (slice 24 40 p) else AddrFrom4 (slice 16 20 p))"

lemma ipFields_fields:
  assumes "ipFields p = Some h"
  shows "h_src h = src_of (h_is6 h) p" "h_dst h = dst_of (h_is6 h) p"
    "h_sport h = (if has_ports p h then rd16 p (l4off h) else 0)"
    "h_dport h = (if has_ports p h then rd16 p (l4off h + 2) else 0)"
  using assms
  by (auto simp: ipFields_def ipv4Fields2_def ipv6Fields_def Let_def src_of_def dst_of_def has_ports_def l4Ports_def
      split: if_splits option.splits prod.splits)

lemma ipFields_frame:
  assumes h: "ipFields p = Some h" and len: "length q = length p"
    and same: "\<And>i. structural h i \<Longrightarrow> i < length p \<Longrightarrow> q ! i = p ! i"
  shows "ipFields q = Some (h\<lparr>h_src := src_of (h_is6 h) q, h_dst := dst_of (h_is6 h) q,
      h_sport := (if has_ports p h then rd16 q (l4off h) else 0),
      h_dport := (if has_ports p h then rd16 q (l4off h + 2) else 0)\<rparr>) \<and> has_ports q h = has_ports p h"
proof (cases "h_is6 h")
  case False
  have b: "20 \<le> length p" using ipFields_bounds [OF h] by simp
  have e: "q ! 0 = p ! 0" "rd16 q 6 = rd16 p 6" "q ! 9 = p ! 9"
    using same [of 0] same [of 6] same [of 7] same [of 9] False b
    by (simp_all add: structural_def rd16_def) (cases p, simp_all)
  have v4: "drop_bit 4 (p ! 0) = 4" using h False
    by (auto simp: ipFields_def ipv6Fields_def Let_def split: if_splits option.splits prod.splits)
  show ?thesis using h False v4 len b e
    by (auto simp: ipFields_def ipv4Fields2_def Let_def src_of_def dst_of_def has_ports_def l4Ports_def
      split: if_splits prod.splits)
next
  case True
  have v6: "drop_bit 4 (p ! 0) = 6" "40 \<le> length p" using h True
    by (auto simp: ipFields_def ipv4Fields2_def ipv6Fields_def Let_def split: if_splits option.splits prod.splits)
  have v4: "drop_bit 4 (p ! 0) \<noteq> 4" using v6 by simp
  obtain first where w: "ext_walk 8 p (p ! 6) 40 True = Some (h_proto h, l4off h, first)"
    using h v4 v6 by (auto simp: ipFields_def ipv6Fields_def Let_def split: if_splits option.splits prod.splits)
  have e: "q ! 0 = p ! 0" "q ! 6 = p ! 6"
    using same [of 0] same [of 6] True v6 by (simp_all add: structural_def) (cases p, simp_all)
  have "ext_walk 8 q (p ! 6) 40 True = Some (h_proto h, l4off h, first)"
    using ipFields_bounds(2) [OF h] same True by (intro ext_walk_frame [OF w len]) (simp add: structural_def)
  then show ?thesis using h True v4 v6 len e w
    by (auto simp: ipFields_def ipv6Fields_def Let_def src_of_def dst_of_def has_ports_def l4Ports_def
      split: if_splits prod.splits)
qed

section \<open>Effect of rewriting\<close>

text \<open>An address of the packet's family, as the parser gives it.\<close>

definition fits :: "ipHdr \<Rightarrow> addr \<Rightarrow> bool" where
  "fits h a \<longleftrightarrow> (if h_is6 h then (\<exists>w. a = Addr6 w []) else (\<exists>w. a = Addr4 w))"

lemma fits_bytes:
  "fits h a \<Longrightarrow> h_is6 h \<Longrightarrow> length (addr_bytes a) = 16 \<and> AddrFrom16 (addr_bytes a) = a"
  "fits h a \<Longrightarrow> \<not> h_is6 h \<Longrightarrow> length (addr_bytes a) = 4 \<and> AddrFrom4 (addr_bytes a) = a"
  by (auto simp: fits_def AddrFrom16_def AddrFrom4_def)

lemma fits_parsed: "ipFields p = Some h \<Longrightarrow> fits h (h_src h) \<and> fits h (h_dst h)"
  using ipFields_fields(1,2) [of p h] by (auto simp: fits_def src_of_def dst_of_def AddrFrom16_def AddrFrom4_def)

lemma nth_wr16: "i < length b \<Longrightarrow> wr16 off w b ! i =
    (if i = off + 1 then ucast w else if i = off then ucast (drop_bit 8 w) else b ! i)"
  by (auto simp: wr16_def nth_list_update)

lemma rd16_wr16 [simp]: "off + 1 < length b \<Longrightarrow> rd16 (wr16 off w b) off = w"
  by (auto simp: rd16_def nth_wr16 bit_simps intro!: bit_word_eqI)

lemma rd16_wr16_other: "off + 1 < length b \<Longrightarrow> o' + 1 < length b \<Longrightarrow> o' + 2 \<le> off \<or> off + 2 \<le> o' \<Longrightarrow>
    rd16 (wr16 off w b) o' = rd16 b o'"
  by (auto simp: rd16_def nth_wr16)

text \<open>\<open>fixChecksums\<close> changes only bytes 10 and 11 of an IPv4 header and two bytes of the
  transport header that are not ports.\<close>

definition csum_off :: "ipHdr \<Rightarrow> nat" where
  "csum_off h = (if h_proto h = protoTCP then 16 else if h_proto h = protoUDP then 6 else 2)"

definition has_csum :: "bytes \<Rightarrow> ipHdr \<Rightarrow> bool" where
  "has_csum p h \<longleftrightarrow> (h_proto h = protoTCP \<or> h_proto h = protoUDP \<or> (h_proto h = protoICMPv6 \<and> h_is6 h)) \<and>
     l4off h + csum_off h + 2 \<le> length p"

definition fix_ip :: "bytes \<Rightarrow> ipHdr \<Rightarrow> bytes" where
  "fix_ip p h = (if h_is6 h then p else let z = p[10 := 0, 11 := 0] in wr16 10 (ones (take (l4off h) z) 0) z)"

definition fix_l4 :: "bytes \<Rightarrow> ipHdr \<Rightarrow> bytes" where
  "fix_l4 p h =
     (if has_csum p h
      then let z = (drop (l4off h) p)[csum_off h := 0, csum_off h + 1 := 0];
               cc = ones z (pseudoSum p h (length p - l4off h))
           in take (l4off h) p @ wr16 (csum_off h) (if h_proto h = protoUDP \<and> cc = 0 then 0xffff else cc) z
      else p)"

lemma fixChecksums_split: "l4off h \<le> length p \<Longrightarrow> fixChecksums p h = fix_l4 (fix_ip p h) h"
  by (auto simp: fixChecksums_def fix_l4_def fix_ip_def Let_def has_csum_def csum_off_def
      protoTCP_def protoUDP_def protoICMPv6_def)

lemma length_fix_ip [simp]: "length (fix_ip p h) = length p"
  by (simp add: fix_ip_def Let_def)

lemma length_fix_l4 [simp]: "length (fix_l4 p h) = length p"
  by (auto simp: fix_l4_def Let_def has_csum_def)

lemma nth_fix_ip: "i \<noteq> 10 \<Longrightarrow> i \<noteq> 11 \<Longrightarrow> i < length p \<Longrightarrow> fix_ip p h ! i = p ! i"
  by (auto simp: fix_ip_def Let_def nth_wr16)

lemma nth_fix_l4:
  "i < length p \<Longrightarrow> i < l4off h + csum_off h \<or> l4off h + csum_off h + 2 \<le> i \<Longrightarrow> fix_l4 p h ! i = p ! i"
proof (cases "has_csum p h")
  case True
  assume i: "i < length p" "i < l4off h + csum_off h \<or> l4off h + csum_off h + 2 \<le> i"
  define off where "off = csum_off h"
  have o: "i - l4off h \<noteq> off" "i - l4off h \<noteq> off + 1" if "\<not> i < l4off h"
    using i(2) that by (auto simp: off_def)
  show ?thesis using True i(1) o unfolding fix_l4_def Let_def off_def [symmetric]
    by (auto simp: nth_append nth_wr16 min_def)
qed (simp add: fix_l4_def)

lemma slice_cong_nth:
  "length q = length p \<Longrightarrow> hi \<le> length p \<Longrightarrow> (\<And>i. lo \<le> i \<Longrightarrow> i < hi \<Longrightarrow> q ! i = p ! i) \<Longrightarrow> slice lo hi q = slice lo hi p"
  by (intro nth_equalityI) (auto simp: slice_def)

lemma parsed_room: "ipFields p = Some h \<Longrightarrow> (if h_is6 h then 40 else 20) \<le> length p"
  using ipFields_bounds [of p h] by (auto split: if_splits)

lemma src_of_cong:
  "ipFields p = Some h \<Longrightarrow> length q = length p \<Longrightarrow>
   (\<And>i. (if h_is6 h then 8 \<le> i \<and> i < 24 else 12 \<le> i \<and> i < 16) \<Longrightarrow> q ! i = p ! i) \<Longrightarrow>
   src_of (h_is6 h) q = src_of (h_is6 h) p"
  using parsed_room [of p h] slice_cong_nth [of q p 24 8] slice_cong_nth [of q p 16 12]
  by (auto simp: src_of_def split: if_splits)

lemma dst_of_cong:
  "ipFields p = Some h \<Longrightarrow> length q = length p \<Longrightarrow>
   (\<And>i. (if h_is6 h then 24 \<le> i \<and> i < 40 else 16 \<le> i \<and> i < 20) \<Longrightarrow> q ! i = p ! i) \<Longrightarrow>
   dst_of (h_is6 h) q = dst_of (h_is6 h) p"
  using parsed_room [of p h] slice_cong_nth [of q p 40 24] slice_cong_nth [of q p 20 16]
  by (auto simp: dst_of_def split: if_splits)

text \<open>Checksums do not change what a packet parses to.\<close>

lemma nth_fixChecksums:
  assumes h: "ipFields p = Some h" and i: "i < length p" "i \<noteq> 10" "i \<noteq> 11"
    and off: "i < l4off h + csum_off h \<or> l4off h + csum_off h + 2 \<le> i"
  shows "fixChecksums p h ! i = p ! i"
  using nth_fix_l4 [of i "fix_ip p h" h] nth_fix_ip [of i p h] i off ipFields_bounds(2) [OF h]
  by (simp add: fixChecksums_split)

lemma nth_fixChecksums6: "ipFields p = Some h \<Longrightarrow> h_is6 h \<Longrightarrow> i < l4off h \<Longrightarrow> fixChecksums p h ! i = p ! i"
  using ipFields_bounds(2) [of p h] by (simp add: fixChecksums_split fix_ip_def nth_fix_l4)

lemma length_fixChecksums: "ipFields p = Some h \<Longrightarrow> length (fixChecksums p h) = length p"
  using ipFields_bounds(2) [of p h] by (simp add: fixChecksums_split)

lemma rd16_cong: "q ! i = p ! i \<Longrightarrow> q ! (i + 1) = p ! (i + 1) \<Longrightarrow> rd16 q i = rd16 p i"
  by (simp add: rd16_def)

lemma ports_fixChecksums:
  assumes h: "ipFields p = Some h" and ports: "has_ports p h"
  shows "rd16 (fixChecksums p h) (l4off h) = rd16 p (l4off h)"
    and "rd16 (fixChecksums p h) (l4off h + 2) = rd16 p (l4off h + 2)"
proof -
  have c: "csum_off h \<ge> 6" using ports by (auto simp: has_ports_def csum_off_def)
  have len: "l4off h + 4 \<le> length p" using ports by (simp add: has_ports_def)
  have low: "11 < l4off h" using ipFields_bounds [OF h] by (cases "h_is6 h") auto
  have same: "fixChecksums p h ! i = p ! i" if "l4off h \<le> i" "i < l4off h + 4" for i
    using that c len low by (intro nth_fixChecksums [OF h]) simp_all
  show "rd16 (fixChecksums p h) (l4off h) = rd16 p (l4off h)"
    "rd16 (fixChecksums p h) (l4off h + 2) = rd16 p (l4off h + 2)"
    using same by (intro rd16_cong; simp)+
qed

lemma ipFields_fixChecksums:
  assumes h: "ipFields p = Some h"
  shows "ipFields (fixChecksums p h) = Some h"
proof -
  note b = ipFields_bounds [OF h]
  have same: "fixChecksums p h ! i = p ! i" if "i < length p" "i < l4off h" "i \<noteq> 10 \<or> h_is6 h" "i \<noteq> 11 \<or> h_is6 h" for i
    using that nth_fixChecksums6 [OF h] nth_fixChecksums [OF h, of i] by (cases "h_is6 h") auto
  have "ipFields (fixChecksums p h) = Some (h\<lparr>h_src := src_of (h_is6 h) (fixChecksums p h), h_dst := dst_of (h_is6 h) (fixChecksums p h),
      h_sport := (if has_ports p h then rd16 (fixChecksums p h) (l4off h) else 0),
      h_dport := (if has_ports p h then rd16 (fixChecksums p h) (l4off h + 2) else 0)\<rparr>)"
    using b same by (intro conjunct1 [OF ipFields_frame [OF h length_fixChecksums [OF h]]])
      (auto simp: structural_def split: if_splits)
  moreover have "src_of (h_is6 h) (fixChecksums p h) = src_of (h_is6 h) p"
    using b same parsed_room [OF h] by (intro src_of_cong [OF h length_fixChecksums [OF h]]) (auto split: if_splits)
  moreover have "dst_of (h_is6 h) (fixChecksums p h) = dst_of (h_is6 h) p"
    using b same parsed_room [OF h] by (intro dst_of_cong [OF h length_fixChecksums [OF h]]) (auto split: if_splits)
  ultimately show ?thesis using ports_fixChecksums [OF h] ipFields_fields [OF h] by simp
qed

text \<open>Rewriting the source or the destination.\<close>

lemma setSrc_bytes:
  assumes h: "ipFields p = Some h" and a: "fits h a"
  shows "length (setSrc p h a port) = length p"
    and "i < length p \<Longrightarrow> \<not> (if h_is6 h then 8 \<le> i \<and> i < 24 else 12 \<le> i \<and> i < 16) \<Longrightarrow> i < l4off h \<or> l4off h + 2 \<le> i \<Longrightarrow>
         setSrc p h a port ! i = p ! i"
    and "src_of (h_is6 h) (setSrc p h a port) = a"
    and "has_ports p h \<Longrightarrow> rd16 (setSrc p h a port) (l4off h) = (if port = 0 then rd16 p (l4off h) else port)"
proof -
  note b = ipFields_bounds [OF h] parsed_room [OF h]
  define w where "w = (if h_is6 h then write_at 8 (addr_bytes a) p else write_at 12 (addr_bytes a) p)"
  have len: "length w = length p" using b fits_bytes [OF a] by (auto simp: w_def)
  have s: "setSrc p h a port = (if (h_proto h = protoTCP \<or> h_proto h = protoUDP) \<and> port \<noteq> 0 \<and> length p \<ge> l4off h + 2
         then wr16 (l4off h) port w else w)"
    by (simp add: setSrc_def w_def [symmetric] Let_def len)
  have wi: "w ! i = p ! i" if "i < length p" "\<not> (if h_is6 h then 8 \<le> i \<and> i < 24 else 12 \<le> i \<and> i < 16)" for i
    using that fits_bytes [OF a] b by (auto simp: w_def nth_write_at split: if_splits)
  show "length (setSrc p h a port) = length p" by (simp add: s len)
  show "i < length p \<Longrightarrow> \<not> (if h_is6 h then 8 \<le> i \<and> i < 24 else 12 \<le> i \<and> i < 16) \<Longrightarrow> i < l4off h \<or> l4off h + 2 \<le> i \<Longrightarrow>
         setSrc p h a port ! i = p ! i"
    using wi [of i] by (auto simp: s len nth_wr16)
  have "src_of (h_is6 h) w = a"
    using fits_bytes [OF a] b by (auto simp: src_of_def w_def slice_write_at_same)
  moreover have "setSrc p h a port ! i = w ! i" if "i < l4off h" "i < length p" for i
    using that by (auto simp: s len nth_wr16)
  ultimately show "src_of (h_is6 h) (setSrc p h a port) = a"
    using b slice_cong_nth [of "setSrc p h a port" w 24 8] slice_cong_nth [of "setSrc p h a port" w 16 12]
    by (auto simp: src_of_def s len split: if_splits)
  assume hp: "has_ports p h"
  then have room: "l4off h + 4 \<le> length p" by (simp add: has_ports_def)
  have "rd16 w (l4off h) = rd16 p (l4off h)"
    using b room by (intro rd16_cong wi) (auto split: if_splits)
  then show "rd16 (setSrc p h a port) (l4off h) = (if port = 0 then rd16 p (l4off h) else port)"
    using hp room by (auto simp: s len has_ports_def)
qed

lemma setDst_bytes:
  assumes h: "ipFields p = Some h" and a: "fits h a"
  shows "length (setDst p h a port) = length p"
    and "i < length p \<Longrightarrow> \<not> (if h_is6 h then 24 \<le> i \<and> i < 40 else 16 \<le> i \<and> i < 20) \<Longrightarrow> i < l4off h + 2 \<or> l4off h + 4 \<le> i \<Longrightarrow>
         setDst p h a port ! i = p ! i"
    and "dst_of (h_is6 h) (setDst p h a port) = a"
    and "has_ports p h \<Longrightarrow> rd16 (setDst p h a port) (l4off h + 2) = (if port = 0 then rd16 p (l4off h + 2) else port)"
proof -
  note b = ipFields_bounds [OF h] parsed_room [OF h]
  define w where "w = (if h_is6 h then write_at 24 (addr_bytes a) p else write_at 16 (addr_bytes a) p)"
  have len: "length w = length p" using b fits_bytes [OF a] by (auto simp: w_def)
  have s: "setDst p h a port = (if (h_proto h = protoTCP \<or> h_proto h = protoUDP) \<and> port \<noteq> 0 \<and> length p \<ge> l4off h + 4
         then wr16 (l4off h + 2) port w else w)"
    by (simp add: setDst_def w_def [symmetric] Let_def len)
  have wi: "w ! i = p ! i" if "i < length p" "\<not> (if h_is6 h then 24 \<le> i \<and> i < 40 else 16 \<le> i \<and> i < 20)" for i
    using that fits_bytes [OF a] b by (auto simp: w_def nth_write_at split: if_splits)
  show "length (setDst p h a port) = length p" by (simp add: s len)
  show "i < length p \<Longrightarrow> \<not> (if h_is6 h then 24 \<le> i \<and> i < 40 else 16 \<le> i \<and> i < 20) \<Longrightarrow> i < l4off h + 2 \<or> l4off h + 4 \<le> i \<Longrightarrow>
         setDst p h a port ! i = p ! i"
    using wi [of i] by (auto simp: s len nth_wr16)
  have "dst_of (h_is6 h) w = a"
    using fits_bytes [OF a] b by (auto simp: dst_of_def w_def slice_write_at_same)
  moreover have "setDst p h a port ! i = w ! i" if "i < l4off h" "i < length p" for i
    using that by (auto simp: s len nth_wr16)
  ultimately show "dst_of (h_is6 h) (setDst p h a port) = a"
    using b slice_cong_nth [of "setDst p h a port" w 40 24] slice_cong_nth [of "setDst p h a port" w 20 16]
    by (auto simp: dst_of_def s len split: if_splits)
  assume hp: "has_ports p h"
  then have room: "l4off h + 4 \<le> length p" by (simp add: has_ports_def)
  have "rd16 w (l4off h + 2) = rd16 p (l4off h + 2)"
    using b room by (intro rd16_cong wi) (auto split: if_splits)
  then show "rd16 (setDst p h a port) (l4off h + 2) = (if port = 0 then rd16 p (l4off h + 2) else port)"
    using hp room by (auto simp: s len has_ports_def)
qed

definition new_port :: "bytes \<Rightarrow> ipHdr \<Rightarrow> 16 word \<Rightarrow> 16 word \<Rightarrow> 16 word" where
  "new_port p h port old = (if has_ports p h \<and> port \<noteq> 0 then port else old)"

lemma ipFields_setSrc:
  assumes h: "ipFields p = Some h" and a: "fits h a"
  shows "ipFields (setSrc p h a port) = Some (h\<lparr>h_src := a, h_sport := new_port p h port (h_sport h)\<rparr>)"
proof -
  note b = ipFields_bounds [OF h] parsed_room [OF h] and sb = setSrc_bytes [OF h a]
  let ?q = "setSrc p h a port"
  have same: "?q ! i = p ! i" if "structural h i" "i < length p" for i
    using that b by (intro sb(2)) (auto simp: structural_def split: if_splits)
  have d: "dst_of (h_is6 h) ?q = dst_of (h_is6 h) p"
    using b by (intro dst_of_cong [OF h sb(1)] sb(2)) (auto split: if_splits)
  have dp: "rd16 ?q (l4off h + 2) = rd16 p (l4off h + 2)" if "has_ports p h"
    using that b by (intro rd16_cong sb(2)) (auto simp: has_ports_def split: if_splits)
  show ?thesis
    using conjunct1 [OF ipFields_frame [OF h sb(1) same]] ipFields_fields [OF h] sb(3,4) d dp
    by (simp add: new_port_def)
qed

lemma ipFields_setDst:
  assumes h: "ipFields p = Some h" and a: "fits h a"
  shows "ipFields (setDst p h a port) = Some (h\<lparr>h_dst := a, h_dport := new_port p h port (h_dport h)\<rparr>)"
proof -
  note b = ipFields_bounds [OF h] parsed_room [OF h] and sb = setDst_bytes [OF h a]
  let ?q = "setDst p h a port"
  have same: "?q ! i = p ! i" if "structural h i" "i < length p" for i
    using that b by (intro sb(2)) (auto simp: structural_def split: if_splits)
  have d: "src_of (h_is6 h) ?q = src_of (h_is6 h) p"
    using b by (intro src_of_cong [OF h sb(1)] sb(2)) (auto split: if_splits)
  have dp: "rd16 ?q (l4off h) = rd16 p (l4off h)" if "has_ports p h"
    using that b by (intro rd16_cong sb(2)) (auto simp: has_ports_def split: if_splits)
  show ?thesis
    using conjunct1 [OF ipFields_frame [OF h sb(1) same]] ipFields_fields [OF h] sb(3,4) d dp
    by (simp add: new_port_def)
qed

lemma fixChecksums_hdr: "h_is6 g = h_is6 h \<Longrightarrow> l4off g = l4off h \<Longrightarrow> h_proto g = h_proto h \<Longrightarrow> fixChecksums p g = fixChecksums p h"
  by (simp add: fixChecksums_def pseudoSum_def Let_def)

text \<open>A translation step: rewrite one end, then redo the checksums.\<close>

lemma rewrite_src:
  "ipFields p = Some h \<Longrightarrow> fits h a \<Longrightarrow>
   ipFields (fixChecksums (setSrc p h a port) h) = Some (h\<lparr>h_src := a, h_sport := new_port p h port (h_sport h)\<rparr>)"
proof -
  assume h: "ipFields p = Some h" and a: "fits h a"
  let ?g = "h\<lparr>h_src := a, h_sport := new_port p h port (h_sport h)\<rparr>"
  have "fixChecksums (setSrc p h a port) ?g = fixChecksums (setSrc p h a port) h"
    by (rule fixChecksums_hdr) simp_all
  then show ?thesis using ipFields_fixChecksums [OF ipFields_setSrc [OF h a, of port]] by simp
qed

lemma rewrite_dst:
  "ipFields p = Some h \<Longrightarrow> fits h a \<Longrightarrow>
   ipFields (fixChecksums (setDst p h a port) h) = Some (h\<lparr>h_dst := a, h_dport := new_port p h port (h_dport h)\<rparr>)"
proof -
  assume h: "ipFields p = Some h" and a: "fits h a"
  let ?g = "h\<lparr>h_dst := a, h_dport := new_port p h port (h_dport h)\<rparr>"
  have "fixChecksums (setDst p h a port) ?g = fixChecksums (setDst p h a port) h"
    by (rule fixChecksums_hdr) simp_all
  then show ?thesis using ipFields_fixChecksums [OF ipFields_setDst [OF h a, of port]] by simp
qed

section \<open>The checksums of a rewritten packet are valid\<close>

text \<open>What a receiver checks: the IPv4 header sums to zero, and so does the transport header
  with its payload and the pseudo-header, when the protocol has a checksum and it is there.\<close>

definition checksums_valid :: "bytes \<Rightarrow> ipHdr \<Rightarrow> bool" where
  "checksums_valid p h \<longleftrightarrow>
     (\<not> h_is6 h \<longrightarrow> ones (take (l4off h) p) 0 = 0) \<and>
     (has_csum p h \<longrightarrow> ones (drop (l4off h) p) (pseudoSum p h (length p - l4off h)) = 0)"

lemma wsum_bound: "wsum b \<le> 65535 * ((length b + 1) div 2)"
proof (induction b rule: wsum.induct)
  case (2 a)
  then show ?case using unat_less_2p [of a] by simp
next
  case (3 a b r)
  then show ?case using unat_less_2p [of a] unat_less_2p [of b] by simp
qed simp

lemma unat_pseudoSum:
  assumes "l4 \<le> 65535"
  shows "unat (pseudoSum p h l4) \<le> 65535 * 16 + 255 + 65535"
proof -
  define b where "b = (if h_is6 h then slice 8 40 p else slice 12 20 p)"
  define s :: "32 word" where "s = sum_words b 0"
  define pr :: "32 word" where "pr = ucast (h_proto h)"
  define l :: "32 word" where "l = of_nat l4"
  have "length b \<le> 32" by (auto simp: b_def slice_def)
  then have n: "(length b + 1) div 2 \<le> 16" by simp
  then have "65535 * ((length b + 1) div 2) \<le> 65535 * 16" by (rule mult_le_mono2)
  moreover from this have "unat s = wsum b" unfolding s_def by (subst unat_sum_words) simp_all
  ultimately have us: "unat s \<le> 65535 * 16" using wsum_bound [of b] by linarith
  have up: "unat pr \<le> 255" using unat_less_2p [of "h_proto h"] by (simp add: pr_def unat_ucast)
  have ul: "unat l = l4" unfolding l_def using assms by (intro unat_of_nat_len) simp
  have "unat (s + pr) = unat s + unat pr" using us up by (intro unat_plus_small) simp
  moreover from this have "unat (s + pr + l) = unat s + unat pr + l4"
    using us up ul assms by (subst unat_plus_small) simp_all
  moreover have "pseudoSum p h l4 = s + pr + l" by (simp add: pseudoSum_def s_def b_def pr_def l_def)
  ultimately show ?thesis using us up assms by simp
qed

lemma take_wr16: "off + 2 \<le> n \<Longrightarrow> take n (wr16 off w b) = wr16 off w (take n b)"
  by (simp add: wr16_def take_update_swap)

lemma slice_take: "hi \<le> n \<Longrightarrow> slice lo hi (take n xs) = slice lo hi xs"
  by (simp add: slice_def drop_take min_def)

lemma pseudoSum_take:
  "take (l4off h) q = take (l4off h) p \<Longrightarrow> (if h_is6 h then 40 else 20) \<le> l4off h \<Longrightarrow> pseudoSum q h n = pseudoSum p h n"
  using slice_take [of 40 "l4off h" 8 q] slice_take [of 40 "l4off h" 8 p]
    slice_take [of 20 "l4off h" 12 q] slice_take [of 20 "l4off h" 12 p]
  by (auto simp: pseudoSum_def split: if_splits)

lemma take_fix_l4: "take (l4off h) (fix_l4 p h) = take (l4off h) p"
  by (auto simp: fix_l4_def Let_def has_csum_def min_def)

lemma fix_ip_valid:
  assumes "\<not> h_is6 h" "20 \<le> l4off h" "l4off h \<le> 60" "l4off h \<le> length p"
  shows "ones (take (l4off h) (fix_ip p h)) 0 = 0"
proof -
  define b where "b = take (l4off h) p"
  define z where "z = b[10 := 0, 10 + 1 := 0]"
  have tz: "take (l4off h) (p[10 := 0, 11 := 0]) = z" by (simp add: z_def b_def take_update_swap)
  have lb: "length b = l4off h" using assms(4) by (simp add: b_def)
  have "(l4off h + 1) div 2 \<le> 61 div 2" using assms(3) by (intro div_le_mono) simp
  then have "65535 * ((l4off h + 1) div 2) \<le> 65535 * 30" by simp
  then have "ones (wr16 10 (ones z 0) z) 0 = 0"
    using assms(2,3) lb by (intro checksum_inserted [of 10 b 0 z]) (simp_all add: z_def)
  moreover have "take (l4off h) (fix_ip p h) = wr16 10 (ones z 0) z"
    using assms by (simp add: fix_ip_def Let_def take_wr16 tz)
  ultimately show ?thesis by simp
qed

lemma fix_l4_valid:
  assumes "has_csum p h" "length p \<le> 65535" "(if h_is6 h then 40 else 20) \<le> l4off h"
  shows "ones (drop (l4off h) (fix_l4 p h)) (pseudoSum (fix_l4 p h) h (length p - l4off h)) = 0"
proof -
  define b where "b = drop (l4off h) p"
  define off where "off = csum_off h"
  define z where "z = b[off := 0, off + 1 := 0]"
  define i where "i = pseudoSum p h (length p - l4off h)"
  define cc where "cc = ones z i"
  have le: "l4off h \<le> length p" using assms(1) by (simp add: has_csum_def)
  have even: "even off" by (simp add: off_def csum_off_def)
  have "l4off h + off + 2 \<le> length p" using assms(1) by (simp add: has_csum_def off_def)
  then have room: "off + 2 \<le> length b" by (simp add: b_def)
  have lb: "length b \<le> 65535" using assms(2) by (simp add: b_def)
  have "unat i \<le> 65535 * 16 + 255 + 65535"
    unfolding i_def using assms(2) by (intro unat_pseudoSum) simp
  moreover have "(length b + 1) div 2 \<le> 65536 div 2" using lb by (intro div_le_mono) simp
  ultimately have bound: "unat i + 65535 * ((length b + 1) div 2) < 2 ^ 32" by simp
  have "ones (wr16 off (if h_proto h = protoUDP \<and> cc = 0 then 0xffff else cc) z) i = 0"
    by (rule checksum_inserted [OF even room bound z_def]) (simp add: cc_def)
  moreover have "drop (l4off h) (fix_l4 p h) = wr16 off (if h_proto h = protoUDP \<and> cc = 0 then 0xffff else cc) z"
  proof -
    have "fix_l4 p h = take (l4off h) p @ wr16 off (if h_proto h = protoUDP \<and> cc = 0 then 0xffff else cc) z"
      using assms(1) by (simp only: fix_l4_def if_True Let_def b_def off_def z_def i_def cc_def)
    then show ?thesis using le by simp
  qed
  moreover have "pseudoSum (fix_l4 p h) h (length p - l4off h) = i"
    unfolding i_def by (rule pseudoSum_take [OF take_fix_l4 assms(3)])
  ultimately show ?thesis by simp
qed

lemma fixChecksums_valid:
  assumes h: "ipFields p = Some h" and len: "length p \<le> 65535"
  shows "checksums_valid (fixChecksums p h) h"
proof -
  note b = ipFields_bounds [OF h]
  have l: "(if h_is6 h then 40 else 20) \<le> l4off h" using b by auto
  have fx: "fixChecksums p h = fix_l4 (fix_ip p h) h" using b by (intro fixChecksums_split) simp
  have hc: "has_csum (fix_ip p h) h = has_csum p h" "has_csum (fix_l4 (fix_ip p h) h) h = has_csum p h"
    by (simp_all add: has_csum_def)
  have "ones (take (l4off h) (fixChecksums p h)) 0 = 0" if "\<not> h_is6 h"
    using that b by (simp add: fx take_fix_l4 fix_ip_valid)
  moreover have "ones (drop (l4off h) (fixChecksums p h)) (pseudoSum (fixChecksums p h) h (length (fixChecksums p h) - l4off h)) = 0"
    if "has_csum (fixChecksums p h) h"
    using that fix_l4_valid [of "fix_ip p h" h] len l by (simp add: fx hc)
  ultimately show ?thesis by (simp add: checksums_valid_def)
qed

end
