(* ===== verification/Ip_L4.thy ===== *)
theory Ip_L4
  imports Ip_Packet
begin

text \<open>
  The lighter packet readers: \<open>parseL4\<close> and the DSCP writer of internal/mesh/qos.go, and
  \<open>parseAddrs\<close> of internal/mesh/firewall.go. None of them walks IPv6 extension headers.
\<close>

text \<open>Protocol, source port, destination port, DSCP; \<open>None\<close> where the code's \<open>ok\<close> is false (the
  values are then all zero).\<close>

definition parseL4 :: "bytes \<Rightarrow> (byte \<times> 16 word \<times> 16 word \<times> nat) option" where
  "parseL4 pkt =
     (if length pkt < 1 then None
      else if drop_bit 4 (pkt ! 0) = 4 then
        (if length pkt < 20 then None
         else
           let ihl = unat (pkt ! 0 AND 0x0f) * 4
           in if ihl < 20 \<or> length pkt < ihl then None
              else
                let dscp = unat (drop_bit 2 (pkt ! 1));
                    proto = pkt ! 9
                in if (proto = 6 \<or> proto = 17) \<and> length pkt \<ge> ihl + 4
                   then Some (proto, rd16 pkt ihl, rd16 pkt (ihl + 2), dscp)
                   else Some (proto, 0, 0, dscp))
      else if drop_bit 4 (pkt ! 0) = 6 then
        (if length pkt < 40 then None
         else
           let tc = push_bit 4 (pkt ! 0 AND 0x0f) OR drop_bit 4 (pkt ! 1);
               dscp = unat (drop_bit 2 tc);
               proto = pkt ! 6
           in if (proto = 6 \<or> proto = 17) \<and> length pkt \<ge> 44
              then Some (proto, rd16 pkt 40, rd16 pkt 42, dscp)
              else Some (proto, 0, 0, dscp))
      else None)"

definition parseAddrs :: "bytes \<Rightarrow> (addr \<times> addr) option" where
  "parseAddrs pkt =
     (if length pkt < 1 then None
      else if drop_bit 4 (pkt ! 0) = 4 then
        (if length pkt < 20 then None else Some (AddrFrom4 (slice 12 16 pkt), AddrFrom4 (slice 16 20 pkt)))
      else if drop_bit 4 (pkt ! 0) = 6 then
        (if length pkt < 40 then None else Some (AddrFrom16 (slice 8 24 pkt), AddrFrom16 (slice 24 40 pkt)))
      else None)"

definition setDSCP :: "bytes \<Rightarrow> int \<Rightarrow> bytes" where
  "setDSCP pkt dscp =
     (if dscp < 0 \<or> dscp > 63 \<or> length pkt < 1 then pkt
      else if drop_bit 4 (pkt ! 0) = 4 then
        (if length pkt < 20 then pkt
         else
           let ihl = unat (pkt ! 0 AND 0x0f) * 4
           in if ihl < 20 \<or> length pkt < ihl then pkt
              else
                let ecn = pkt ! 1 AND 0x03;
                    newTOS = push_bit 2 (of_int dscp) OR ecn
                in if pkt ! 1 = newTOS then pkt
                   else
                     let z = pkt[1 := newTOS, 10 := 0, 11 := 0]
                     in wr16 10 (ones (take ihl z) 0) z)
      else if drop_bit 4 (pkt ! 0) = 6 then
        (if length pkt < 2 then pkt
         else
           let ecn = (push_bit 4 (pkt ! 0 AND 0x0f) OR drop_bit 4 (pkt ! 1)) AND 0x03;
               tc = push_bit 2 (of_int dscp) OR ecn
           in pkt[0 := (pkt ! 0 AND 0xf0) OR drop_bit 4 tc, 1 := (pkt ! 1 AND 0x0f) OR push_bit 4 tc])
      else pkt)"

lemma length_setDSCP [simp]: "length (setDSCP pkt dscp) = length pkt"
  by (simp add: setDSCP_def Let_def)

lemma fix_ip_csum: "fix_ip p h = (if h_is6 h then p else (let z = p[10 := 0, 11 := 0] in wr16 10 (ones (take (l4off h) z) 0) z))"
  by (simp add: fix_ip_def)

section \<open>Marking changes the mark only\<close>

lemma dscp_bits:
  fixes e :: byte
  assumes "0 \<le> d" "d \<le> 63"
  shows "unat (drop_bit 2 (push_bit 2 (of_int d) OR (e AND 3) :: byte)) = nat d"
    and "(push_bit 2 (of_int d) OR (e AND 3)) AND 3 = e AND 3"
proof -
  have b: "(e AND 3) = take_bit 2 e" by (simp add: take_bit_eq_mask mask_eq_exp_minus_1)
  have "drop_bit 2 (push_bit 2 (of_int d) OR take_bit 2 e) = (take_bit 6 (of_int d) :: byte)"
    by (auto simp: bit_simps intro!: bit_word_eqI)
  moreover have "unat (take_bit 6 (of_int d :: byte)) = nat d"
  proof -
    obtain n where n: "d = int n" using assms(1) by (metis zero_le_imp_eq_int)
    then have "unat (of_int d :: byte) = n" using assms(2) by (simp add: unat_of_nat)
    then show ?thesis using n assms(2) by (simp add: take_bit_eq_mod unat_mod)
  qed
  ultimately show "unat (drop_bit 2 (push_bit 2 (of_int d) OR (e AND 3) :: byte)) = nat d" by (simp only: b)
  have m: "x AND 3 = take_bit 2 x" for x :: byte by (simp add: take_bit_eq_mask mask_eq_exp_minus_1)
  show "(push_bit 2 (of_int d) OR (e AND 3)) AND 3 = e AND 3"
    unfolding m by (auto simp: bit_simps intro!: bit_word_eqI)
qed

text \<open>The bytes a marking may change.\<close>

lemma setDSCP_nth:
  assumes "i < length pkt" "i \<noteq> 1" "drop_bit 4 (pkt ! 0) = 4 \<Longrightarrow> i \<noteq> 10 \<and> i \<noteq> 11" "drop_bit 4 (pkt ! 0) = 6 \<Longrightarrow> i \<noteq> 0"
  shows "setDSCP pkt dscp ! i = pkt ! i"
  using assms by (auto simp: setDSCP_def Let_def nth_wr16)

end
