(* ===== verification/Firewall.thy ===== *)
theory Firewall
  imports Fw_Dns Fw_Conntrack Ip_L4
begin

text \<open>
  The stateful packet filter of internal/mesh/firewall.go: the rule store and its management
  operations, live recompilation, exemptions, hit counters with their log gate, connection
  tracking and the data-path decision \<open>allow\<close>, with the engine operations that drive them.
  Methods that run under the firewall's mutex, and the reads of its atomic snapshot, are single
  transitions. Rules are values: the code shares a rule's counters between its old and new
  compiled form only, and drops the old one. The clock is an argument, log lines are results.
\<close>

section \<open>State\<close>

record FirewallExempt =
  ex_Name :: string
  ex_Proto :: byte
  ex_Port :: "16 word"
  ex_Mgmt :: bool

record firewall =
  snap :: "fwRule list"
  clipboard :: "fwRule list"
  nextID :: "64 word"
  enabled :: bool
  stateful :: bool
  fct :: fwConntrack
  mgmtPort :: "16 word"
  exempts :: "FirewallExempt list option"
  f_objects :: "FirewallObject list"
  f_services :: "FirewallService list"
  fqdn :: "string \<Rightarrow> prefix list option"
  fqdnWild :: "string \<Rightarrow> prefix list option"
  f_cat :: fwCatalog
  wcCache :: wc_cache
  wildcardPatterns :: "(string \<times> string list) list"
  has_log :: bool
  logInterval :: int

definition defaultFWLogInterval :: int where "defaultFWLogInterval = 2 * 1000000000"

section \<open>Counters\<close>

definition logGate :: "int \<Rightarrow> int \<Rightarrow> ruleCounters \<Rightarrow> (64 word) option \<times> ruleCounters" where
  "logGate now interval c =
     (if lastLogNanos c \<noteq> 0 \<and> now - lastLogNanos c < interval
      then (None, c\<lparr>suppressed := suppressed c + 1\<rparr>)
      else (Some (suppressed c), c\<lparr>lastLogNanos := now, suppressed := 0\<rparr>))"

text \<open>The rule with its new counters, and the suppressed count of the line logged, if one is.\<close>

definition recordHit :: "firewall \<Rightarrow> int \<Rightarrow> nat \<Rightarrow> fwRule \<Rightarrow> fwRule \<times> (64 word) option" where
  "recordHit f now n r =
     (case cnt r of
        None \<Rightarrow> (r, None)
      | Some c0 \<Rightarrow>
          let c = c0\<lparr>pkts := pkts c0 + 1, rc_bytes := rc_bytes c0 + of_nat n\<rparr>
          in if \<not> logMatch r \<or> \<not> has_log f then (r\<lparr>cnt := Some c\<rparr>, None)
             else
               let iv = (if logInterval f \<le> 0 then defaultFWLogInterval else logInterval f)
               in case logGate now iv c of (em, c') \<Rightarrow> (r\<lparr>cnt := Some c'\<rparr>, em))"

section \<open>The rule store\<close>

definition no_spec :: "fwRule \<Rightarrow> bool" where
  "no_spec r \<longleftrightarrow> fr_Action (spec r) = [] \<and> fr_Src (spec r) = [] \<and> fr_Dst (spec r) = []"

definition recompile :: "fwCatalog \<Rightarrow> fwRule \<Rightarrow> fwRule" where
  "recompile cat r =
     (if no_spec r then r
      else case compileRule (spec r) (Some cat) of
        Inl _ \<Rightarrow> r
      | Inr nc \<Rightarrow> nc\<lparr>fw_id := fw_id r, cnt := (if cnt r \<noteq> None then cnt r else cnt nc)\<rparr>)"

definition fw_store :: "fwRule list \<Rightarrow> firewall \<Rightarrow> firewall" where
  "fw_store rules f =
     (let cp = map (recompile (f_cat f)) rules
      in f\<lparr>snap := cp, stateful := list_ex (\<lambda>r. fw_action r = fwDeny) cp, fct := ct_reset (fct f)\<rparr>)"

definition adoptID :: "fwRule \<Rightarrow> firewall \<Rightarrow> fwRule \<times> firewall" where
  "adoptID r f =
     (if fw_id r = 0 then let n = nextID f + 1 in (r\<lparr>fw_id := n\<rparr>, f\<lparr>nextID := n\<rparr>)
      else (r, if fw_id r > nextID f then f\<lparr>nextID := fw_id r\<rparr> else f))"

fun adopt_all :: "fwRule list \<Rightarrow> firewall \<Rightarrow> fwRule list \<times> firewall" where
  "adopt_all [] f = ([], f)"
| "adopt_all (r # rs) f = (case adoptID r f of (r', f1) \<Rightarrow> (case adopt_all rs f1 of (rs', f2) \<Rightarrow> (r' # rs', f2)))"

definition empty_firewall :: firewall where
  "empty_firewall =
     \<lparr>snap = [], clipboard = [], nextID = 0, enabled = True, stateful = False, fct = newConntrack, mgmtPort = 0,
      exempts = None, f_objects = [], f_services = [], fqdn = Map.empty, fqdnWild = Map.empty, f_cat = emptyCatalog,
      wcCache = [], wildcardPatterns = [], has_log = False, logInterval = defaultFWLogInterval\<rparr>"

definition newFirewall :: "fwRule list \<Rightarrow> firewall" where
  "newFirewall rules =
     (case adopt_all rules empty_firewall of
        (rs, f) \<Rightarrow> fw_store (map (\<lambda>r. if cnt r = None then r\<lparr>cnt := Some newRuleCounters\<rparr> else r) rs) f)"

definition insertSliceAt :: "'a list \<Rightarrow> 'a list \<Rightarrow> int \<Rightarrow> 'a list" where
  "insertSliceAt rules ins at0 =
     (let at' = (if at0 < 0 \<or> at0 > int (length rules) then length rules else nat at0)
      in take at' rules @ ins @ drop at' rules)"

definition insertAt :: "'a list \<Rightarrow> 'a \<Rightarrow> int \<Rightarrow> 'a list" where
  "insertAt rules r at0 =
     (let at' = (if at0 < 0 \<or> at0 > int (length rules) then length rules else nat at0)
      in take at' rules @ [r] @ drop at' rules)"

fun indexOf :: "fwRule list \<Rightarrow> 64 word \<Rightarrow> nat option" where
  "indexOf [] i = None"
| "indexOf (r # rs) i = (if fw_id r = i then Some 0 else map_option Suc (indexOf rs i))"

definition cloneRule :: "fwRule \<Rightarrow> fwRule" where
  "cloneRule r = r\<lparr>cnt := Some newRuleCounters\<rparr>"

definition fw_add :: "fwRule \<Rightarrow> int \<Rightarrow> firewall \<Rightarrow> fwRule \<times> firewall" where
  "fw_add r at0 f = (case adoptID r f of (r', f') \<Rightarrow> (r', fw_store (insertAt (snap f') r' at0) f'))"

definition fw_remove :: "64 word list \<Rightarrow> firewall \<Rightarrow> nat \<times> firewall" where
  "fw_remove ids f =
     (length (filter (\<lambda>r. fw_id r \<in> set ids) (snap f)),
      fw_store (filter (\<lambda>r. fw_id r \<notin> set ids) (snap f)) f)"

definition fw_move :: "64 word \<Rightarrow> int \<Rightarrow> firewall \<Rightarrow> bool \<times> firewall" where
  "fw_move i to f =
     (case indexOf (snap f) i of
        None \<Rightarrow> (False, f)
      | Some idx \<Rightarrow>
          (True, fw_store (insertAt (take idx (snap f) @ drop (idx + 1) (snap f)) (snap f ! idx) to) f))"

definition fw_copy :: "64 word list \<Rightarrow> firewall \<Rightarrow> nat \<times> firewall" where
  "fw_copy ids f =
     (let clip = map cloneRule (filter (\<lambda>r. fw_id r \<in> set ids) (snap f))
      in (length clip, f\<lparr>clipboard := clip\<rparr>))"

definition fw_cut :: "64 word list \<Rightarrow> firewall \<Rightarrow> nat \<times> firewall" where
  "fw_cut ids f = (case fw_copy ids f of (n, f1) \<Rightarrow> (n, snd (fw_remove ids f1)))"

text \<open>The clipboard's rules as new rules: fresh counters and the next ids.\<close>

fun mint :: "64 word \<Rightarrow> fwRule list \<Rightarrow> fwRule list \<times> 64 word" where
  "mint n [] = ([], n)"
| "mint n (r # rs) = (case mint (n + 1) rs of (rs', m) \<Rightarrow> ((cloneRule r)\<lparr>fw_id := n + 1\<rparr> # rs', m))"

definition fw_paste :: "int \<Rightarrow> firewall \<Rightarrow> nat \<times> firewall" where
  "fw_paste at0 f =
     (if clipboard f = [] then (0, f)
      else case mint (nextID f) (clipboard f) of
        (ins, n) \<Rightarrow> let f1 = f\<lparr>nextID := n\<rparr> in (length ins, fw_store (insertSliceAt (snap f1) ins at0) f1))"

text \<open>\<open>loadRules\<close> skips what does not compile; \<open>ReloadFirewallRules\<close> gives up at the first error,
  with the ids it minted before it used up.\<close>

fun compile_some :: "fwCatalog \<Rightarrow> FirewallRule list \<Rightarrow> firewall \<Rightarrow> fwRule list \<times> firewall" where
  "compile_some cat [] f = ([], f)"
| "compile_some cat (fr # frs) f =
     (case compileRule fr (Some cat) of
        Inl _ \<Rightarrow> compile_some cat frs f
      | Inr r \<Rightarrow> (case adoptID r f of (r', f1) \<Rightarrow> (case compile_some cat frs f1 of (rs, f2) \<Rightarrow> (r' # rs, f2))))"

definition loadRules :: "FirewallRule list \<Rightarrow> firewall \<Rightarrow> firewall" where
  "loadRules rules f = (case compile_some (f_cat f) rules f of (nr, f') \<Rightarrow> fw_store nr f')"

fun compile_fresh :: "fwCatalog \<Rightarrow> FirewallRule list \<Rightarrow> 64 word \<Rightarrow> (fw_error + fwRule list) \<times> 64 word" where
  "compile_fresh cat [] n = (Inr [], n)"
| "compile_fresh cat (fr # frs) n =
     (case compileRule fr (Some cat) of
        Inl e \<Rightarrow> (Inl e, n)
      | Inr r \<Rightarrow>
          (case compile_fresh cat frs (n + 1) of
             (Inl e, m) \<Rightarrow> (Inl e, m)
           | (Inr rs, m) \<Rightarrow> (Inr (r\<lparr>fw_id := n + 1\<rparr> # rs), m)))"

definition reload_rules :: "FirewallRule list \<Rightarrow> firewall \<Rightarrow> fw_error option \<times> firewall" where
  "reload_rules rules f =
     (case compile_fresh (f_cat f) rules (nextID f) of
        (Inl e, n) \<Rightarrow> (Some e, f\<lparr>nextID := n\<rparr>)
      | (Inr nr, n) \<Rightarrow> (None, fw_store nr (f\<lparr>nextID := n\<rparr>)))"

section \<open>Catalog changes\<close>

definition getp :: "(string \<Rightarrow> prefix list option) \<Rightarrow> string \<Rightarrow> prefix list" where
  "getp m k = (case m k of None \<Rightarrow> [] | Some v \<Rightarrow> v)"

definition merged_sets :: "(string \<Rightarrow> prefix list option) \<Rightarrow> (string \<Rightarrow> prefix list option) \<Rightarrow> string \<Rightarrow> prefix list option" where
  "merged_sets literal wild =
     (\<lambda>k. case wild k of
        None \<Rightarrow> literal k
      | Some wv \<Rightarrow> if wv = [] then literal k else Some (mergePrefixes (getp literal k) wv))"

definition mergedFQDN :: "firewall \<Rightarrow> string \<Rightarrow> prefix list option" where
  "mergedFQDN f = merged_sets (fqdn f) (fqdnWild f)"

definition is_fqdn :: "FirewallObject \<Rightarrow> bool" where
  "is_fqdn ob \<longleftrightarrow> EqualFold (TrimSpace (fo_Kind ob)) ''fqdn''"

definition fqdnObjects :: "firewall \<Rightarrow> FirewallObject list" where
  "fqdnObjects f = filter is_fqdn (f_objects f)"

definition refreshWildcardPatterns :: "firewall \<Rightarrow> firewall" where
  "refreshWildcardPatterns f =
     f\<lparr>wildcardPatterns := foldl (\<lambda>pats ob.
         let key = norm_name (fo_Name ob)
         in if \<not> is_fqdn ob \<or> key = [] then pats
            else foldl (\<lambda>pats a. if isWildcardFQDN a
                    then AList.update key ((case map_of pats key of None \<Rightarrow> [] | Some l \<Rightarrow> l) @ [norm_name a]) pats
                    else pats) pats (fqdnNames (fo_Addresses ob))) [] (f_objects f)\<rparr>"

definition rebuildCatalog :: "firewall \<Rightarrow> firewall" where
  "rebuildCatalog f =
     (let f1 = refreshWildcardPatterns f
      in f1\<lparr>f_cat := buildCatalog (f_objects f1) (f_services f1) (getp (mergedFQDN f1))\<rparr>)"

definition fw_recatalog :: "firewall \<Rightarrow> firewall" where
  "fw_recatalog f = (let f1 = rebuildCatalog f in fw_store (snap f1) f1)"

definition setCatalog :: "FirewallObject list \<Rightarrow> FirewallService list \<Rightarrow> firewall \<Rightarrow> firewall" where
  "setCatalog objs svcs f = fw_recatalog (f\<lparr>f_objects := objs, f_services := svcs\<rparr>)"

definition setObjects :: "FirewallObject list \<Rightarrow> firewall \<Rightarrow> firewall" where
  "setObjects objs f = fw_recatalog (f\<lparr>f_objects := objs\<rparr>)"

definition setServices :: "FirewallService list \<Rightarrow> firewall \<Rightarrow> firewall" where
  "setServices svcs f = fw_recatalog (f\<lparr>f_services := svcs\<rparr>)"

definition setFQDN :: "string \<Rightarrow> prefix list \<Rightarrow> firewall \<Rightarrow> bool \<times> firewall" where
  "setFQDN name ps f =
     (let key = norm_name name
      in if prefixEqual (getp (fqdn f) key) ps then (False, f)
         else (True, fw_recatalog (f\<lparr>fqdn := (fqdn f)(key \<mapsto> ps)\<rparr>)))"

definition setFQDNWildcard :: "string \<Rightarrow> prefix list \<Rightarrow> firewall \<Rightarrow> bool \<times> firewall" where
  "setFQDNWildcard name ps f =
     (let key = norm_name name
      in if prefixEqual (getp (fqdnWild f) key) ps then (False, f)
         else (True, fw_recatalog (f\<lparr>fqdnWild := (if ps = [] then (fqdnWild f)(key := None) else (fqdnWild f)(key \<mapsto> ps))\<rparr>)))"

definition sweepWildcardFQDN :: "int \<Rightarrow> firewall \<Rightarrow> firewall" where
  "sweepWildcardFQDN now f =
     (case cache_sweep now (wcCache f) of
        (c, live) \<Rightarrow> foldl (\<lambda>f (name, ps). snd (setFQDNWildcard name ps f)) (f\<lparr>wcCache := c\<rparr>) live)"

text \<open>The periodic resolver: an object whose names do not resolve keeps what it had.\<close>

definition resolveFirewallFQDN :: "(string \<Rightarrow> addr list option) \<Rightarrow> firewall \<Rightarrow> firewall" where
  "resolveFirewallFQDN lookup f =
     foldl (\<lambda>f ob.
       let names = literalFQDNNames (fo_Addresses ob)
       in if names = [] then f
          else case resolveNames lookup names of
            (ps, ok) \<Rightarrow> if \<not> ok then f else snd (setFQDN (fo_Name ob) ps f)) f (fqdnObjects f)"

definition resetCounters :: "64 word list \<Rightarrow> firewall \<Rightarrow> firewall" where
  "resetCounters ids f =
     f\<lparr>snap := map (\<lambda>r. if (ids = [] \<or> fw_id r \<in> set ids) \<and> cnt r \<noteq> None
                        then r\<lparr>cnt := Some newRuleCounters\<rparr> else r) (snap f)\<rparr>"

section \<open>The decision\<close>

definition setExempts :: "FirewallExempt list \<Rightarrow> firewall \<Rightarrow> firewall" where
  "setExempts es f = f\<lparr>exempts := Some es\<rparr>"

definition exempt_entry :: "16 word \<Rightarrow> byte \<Rightarrow> 16 word \<Rightarrow> 16 word \<Rightarrow> FirewallExempt \<Rightarrow> bool" where
  "exempt_entry mgmt proto sp dp e =
     (if ex_Proto e \<noteq> 0 \<and> ex_Proto e \<noteq> proto then False
      else if ex_Mgmt e \<and> mgmt = 0 then False
      else let port = (if ex_Mgmt e then mgmt else ex_Port e) in port = 0 \<or> sp = port \<or> dp = port)"

definition exempt :: "firewall \<Rightarrow> byte \<Rightarrow> 16 word \<Rightarrow> 16 word \<Rightarrow> bool" where
  "exempt f proto sp dp =
     (case exempts f of None \<Rightarrow> False | Some es \<Rightarrow> list_ex (exempt_entry (mgmtPort f) proto sp dp) es)"

definition exemptProtoName :: "byte \<Rightarrow> string" where
  "exemptProtoName p =
     (if p = 0 then ''any'' else if p = 1 then ''icmp'' else if p = 6 then ''tcp'' else if p = 17 then ''udp''
      else if p = 89 then ''ospf'' else Itoa (int (unat p)))"

definition setEnabled :: "bool \<Rightarrow> firewall \<Rightarrow> firewall" where
  "setEnabled on f = f\<lparr>enabled := on, fct := ct_reset (fct f)\<rparr>"

fun first_match :: "fwRule list \<Rightarrow> (fwRule \<Rightarrow> bool) \<Rightarrow> nat option" where
  "first_match [] p = None"
| "first_match (r # rs) p = (if \<not> disabled r \<and> p r then Some 0 else map_option Suc (first_match rs p))"

text \<open>The decision on a parsed packet, with the log line it emits.\<close>

definition fw_decide :: "int \<Rightarrow> fwDir \<Rightarrow> nat \<Rightarrow> byte \<Rightarrow> addr \<Rightarrow> 16 word \<Rightarrow> addr \<Rightarrow> 16 word \<Rightarrow> firewall \<Rightarrow>
    bool \<times> (64 word) option \<times> firewall" where
  "fw_decide now d n proto src sp dst dp f =
     (if exempt f proto sp dp then (True, None, f)
      else if stateful f \<and> readState (fct f) proto src sp dst dp = ctEstablished
      then (True, None, f\<lparr>fct := ct_track proto src sp dst dp now (fct f)\<rparr>)
      else
        let (allowed, em, f1) =
          (case first_match (snap f) (\<lambda>r. rule_match r d src dst proto sp dp) of
             None \<Rightarrow> (True, None, f)
           | Some i \<Rightarrow>
               let r = snap f ! i
               in case recordHit f now n r of
                 (r', em) \<Rightarrow> (fw_action r = fwAllow, em, f\<lparr>snap := (snap f)[i := r']\<rparr>))
        in (allowed, em, if stateful f1 \<and> allowed then f1\<lparr>fct := ct_track proto src sp dst dp now (fct f1)\<rparr> else f1))"

definition allow :: "int \<Rightarrow> fwDir \<Rightarrow> bytes \<Rightarrow> firewall option \<Rightarrow> bool \<times> (64 word) option \<times> firewall option" where
  "allow now d pkt fo =
     (case fo of
        None \<Rightarrow> (True, None, None)
      | Some f \<Rightarrow>
          if \<not> enabled f then (True, None, Some f)
          else
            let (proto, sp, dp, l4ok) = (case parseL4 pkt of None \<Rightarrow> (0, 0, 0, False) | Some (p, s, d, _) \<Rightarrow> (p, s, d, True));
                f1 = (if l4ok \<and> sp = 53 \<and> (proto = 17 \<or> proto = 6)
                      then f\<lparr>wcCache := observe now (wildcardPatterns f) pkt proto (wcCache f)\<rparr> else f)
            in if snap f1 = [] then (True, None, Some f1)
               else case parseAddrs pkt of
                 None \<Rightarrow> (True, None, Some f1)
               | Some (src, dst) \<Rightarrow>
                   (case fw_decide now d (length pkt) proto src sp dst dp f1 of (a, em, f2) \<Rightarrow> (a, em, Some f2)))"

definition sweepConntrack :: "int \<Rightarrow> firewall option \<Rightarrow> firewall option" where
  "sweepConntrack now fo =
     (case fo of None \<Rightarrow> None
      | Some f \<Rightarrow> Some (if stateful f then f\<lparr>fct := ct_sweep now (fct f)\<rparr> else f))"

section \<open>The engine's operations\<close>

text \<open>Networks by id; one may have no firewall. What the operations tell the outside (the log and the
  change notification) is left out.\<close>

type_synonym fw_nets = "64 word \<Rightarrow> firewall option option"

definition fwOf :: "fw_nets \<Rightarrow> 64 word \<Rightarrow> fw_error + firewall" where
  "fwOf e net = (case e net of None \<Rightarrow> Inl ErrNoNetwork | Some None \<Rightarrow> Inl ErrNoFirewall | Some (Some f) \<Rightarrow> Inr f)"

definition put_fw :: "fw_nets \<Rightarrow> 64 word \<Rightarrow> firewall \<Rightarrow> fw_nets" where
  "put_fw e net f = e(net \<mapsto> Some f)"

definition ReloadFirewallRules :: "64 word \<Rightarrow> FirewallRule list \<Rightarrow> fw_nets \<Rightarrow> fw_error option \<times> fw_nets" where
  "ReloadFirewallRules net rules e =
     (case fwOf e net of Inl err \<Rightarrow> (Some err, e)
      | Inr f \<Rightarrow> (case reload_rules rules f of (r, f') \<Rightarrow> (r, put_fw e net f')))"

definition FirewallRules :: "64 word \<Rightarrow> fw_nets \<Rightarrow> fw_error + FirewallRule list" where
  "FirewallRules net e = (case fwOf e net of Inl err \<Rightarrow> Inl err | Inr f \<Rightarrow> Inr (map ruleToExport (snap f)))"

definition FirewallAdd :: "64 word \<Rightarrow> FirewallRule \<Rightarrow> int \<Rightarrow> fw_nets \<Rightarrow> (fw_error + FirewallRule) \<times> fw_nets" where
  "FirewallAdd net fr at0 e =
     (case fwOf e net of Inl err \<Rightarrow> (Inl err, e)
      | Inr f \<Rightarrow>
          (case compileRule fr (Some (f_cat f)) of
             Inl err \<Rightarrow> (Inl err, e)
           | Inr r \<Rightarrow> (case fw_add r at0 f of (added, f') \<Rightarrow> (Inr (ruleToExport added), put_fw e net f'))))"

definition FirewallDelete :: "64 word \<Rightarrow> 64 word list \<Rightarrow> fw_nets \<Rightarrow> fw_error option \<times> fw_nets" where
  "FirewallDelete net ids e =
     (case fwOf e net of Inl err \<Rightarrow> (Some err, e) | Inr f \<Rightarrow> (None, put_fw e net (snd (fw_remove ids f))))"

definition FirewallMove :: "64 word \<Rightarrow> 64 word \<Rightarrow> int \<Rightarrow> fw_nets \<Rightarrow> fw_error option \<times> fw_nets" where
  "FirewallMove net i to e =
     (case fwOf e net of Inl err \<Rightarrow> (Some err, e)
      | Inr f \<Rightarrow> (case fw_move i to f of (ok, f') \<Rightarrow> if ok then (None, put_fw e net f') else (Some (ErrNoRule i), e)))"

definition FirewallCopy :: "64 word \<Rightarrow> 64 word list \<Rightarrow> fw_nets \<Rightarrow> fw_error option \<times> fw_nets" where
  "FirewallCopy net ids e =
     (case fwOf e net of Inl err \<Rightarrow> (Some err, e) | Inr f \<Rightarrow> (None, put_fw e net (snd (fw_copy ids f))))"

definition FirewallCut :: "64 word \<Rightarrow> 64 word list \<Rightarrow> fw_nets \<Rightarrow> fw_error option \<times> fw_nets" where
  "FirewallCut net ids e =
     (case fwOf e net of Inl err \<Rightarrow> (Some err, e) | Inr f \<Rightarrow> (None, put_fw e net (snd (fw_cut ids f))))"

definition FirewallPaste :: "64 word \<Rightarrow> int \<Rightarrow> fw_nets \<Rightarrow> (fw_error + nat) \<times> fw_nets" where
  "FirewallPaste net at0 e =
     (case fwOf e net of Inl err \<Rightarrow> (Inl err, e)
      | Inr f \<Rightarrow> (case fw_paste at0 f of (n, f') \<Rightarrow> (Inr n, put_fw e net f')))"

definition FirewallResetCounters :: "64 word \<Rightarrow> 64 word list \<Rightarrow> fw_nets \<Rightarrow> fw_error option \<times> fw_nets" where
  "FirewallResetCounters net ids e =
     (case fwOf e net of Inl err \<Rightarrow> (Some err, e) | Inr f \<Rightarrow> (None, put_fw e net (resetCounters ids f)))"

record ExemptInfo =
  ei_Name :: string
  ei_Proto :: string
  ei_Port :: "16 word"
  ei_Mgmt :: bool

definition FirewallExemptsFor :: "64 word \<Rightarrow> fw_nets \<Rightarrow> ExemptInfo list" where
  "FirewallExemptsFor net e =
     (case fwOf e net of Inl _ \<Rightarrow> []
      | Inr f \<Rightarrow> (case exempts f of None \<Rightarrow> []
          | Some es \<Rightarrow> map (\<lambda>x. \<lparr>ei_Name = ex_Name x, ei_Proto = exemptProtoName (ex_Proto x),
                ei_Port = ex_Port x, ei_Mgmt = ex_Mgmt x\<rparr>) es))"

end
