(* ===== verification/Fw_Policy.thy ===== *)
theory Fw_Policy
  imports Firewall
begin

text \<open>
  What the packet filter promises: every rule is enforced as its text reads against the current
  catalog, edits take effect at once, nothing passes that neither the exemptions nor the rules nor
  an earlier packet the other way allowed, replies of allowed flows pass, rule ids stay unique,
  and cut and paste moves rules without changing them.
\<close>

section \<open>Recompilation\<close>

lemma compileRule_spec: "compileRule fr c = Inr nc \<Longrightarrow> spec nc = fr \<and> disabled nc = fr_Disabled fr \<and>
    fw_action nc = (if EqualFold (fr_Action fr) ''deny'' then fwDeny else fwAllow) \<and> fw_id nc = fr_ID fr"
  by (auto simp: compileRule_def Let_def split: option.splits sum.splits)

lemma recompile_spec [simp]: "spec (recompile cat r) = spec r"
  by (auto simp: recompile_def dest: compileRule_spec split: sum.splits)

lemma recompile_id [simp]: "fw_id (recompile cat r) = fw_id r"
  by (auto simp: recompile_def split: sum.splits)

text \<open>A rule in its compiled form for a catalog, up to its id and counters.\<close>

definition compiled_for :: "fwCatalog \<Rightarrow> fwRule \<Rightarrow> bool" where
  "compiled_for cat r \<longleftrightarrow> no_spec r \<or>
     (case compileRule (spec r) (Some cat) of Inl _ \<Rightarrow> True | Inr nc \<Rightarrow> r\<lparr>fw_id := 0, cnt := None\<rparr> = nc\<lparr>fw_id := 0, cnt := None\<rparr>)"

lemma compiled_for_recompile: "compiled_for cat (recompile cat r)"
proof (cases "no_spec r")
  case True
  then show ?thesis by (simp add: recompile_def compiled_for_def)
next
  case False
  show ?thesis
  proof (cases "compileRule (spec r) (Some cat)")
    case (Inl e)
    then show ?thesis using False by (simp add: recompile_def compiled_for_def)
  next
    case (Inr nc)
    then have "spec nc = spec r" using compileRule_spec by blast
    then show ?thesis using False Inr by (auto simp: recompile_def compiled_for_def)
  qed
qed

lemma compiled_for_cnt: "compiled_for cat r \<Longrightarrow> compiled_for cat (r\<lparr>cnt := c\<rparr>)"
  by (auto simp: compiled_for_def no_spec_def split: sum.splits)

definition catalog_ok :: "firewall \<Rightarrow> bool" where
  "catalog_ok f \<longleftrightarrow> f_cat f = buildCatalog (f_objects f) (f_services f) (getp (mergedFQDN f))"

definition fw_wf :: "firewall \<Rightarrow> bool" where
  "fw_wf f \<longleftrightarrow> catalog_ok f \<and> (\<forall>r \<in> set (snap f). compiled_for (f_cat f) r) \<and>
     (stateful f \<longleftrightarrow> (\<exists>r \<in> set (snap f). fw_action r = fwDeny))"

lemma fw_wf_fields:
  "f_cat g = f_cat f \<Longrightarrow> f_objects g = f_objects f \<Longrightarrow> f_services g = f_services f \<Longrightarrow> fqdn g = fqdn f \<Longrightarrow>
   fqdnWild g = fqdnWild f \<Longrightarrow> snap g = snap f \<Longrightarrow> stateful g = stateful f \<Longrightarrow> fw_wf g = fw_wf f"
  by (simp add: fw_wf_def catalog_ok_def mergedFQDN_def)

lemma fw_store_wf: "catalog_ok f \<Longrightarrow> fw_wf (fw_store rules f)"
  by (auto simp: fw_wf_def fw_store_def Let_def catalog_ok_def mergedFQDN_def compiled_for_recompile list_ex_iff)

lemma catalog_ok_fields:
  "f_cat g = f_cat f \<Longrightarrow> f_objects g = f_objects f \<Longrightarrow> f_services g = f_services f \<Longrightarrow> fqdn g = fqdn f \<Longrightarrow>
   fqdnWild g = fqdnWild f \<Longrightarrow> catalog_ok g = catalog_ok f"
  by (simp add: catalog_ok_def mergedFQDN_def)

lemma rebuild_ok: "catalog_ok (rebuildCatalog f)"
  by (simp add: catalog_ok_def rebuildCatalog_def refreshWildcardPatterns_def mergedFQDN_def Let_def)

lemma recatalog_wf: "fw_wf (fw_recatalog f)"
  unfolding fw_recatalog_def Let_def by (rule fw_store_wf [OF rebuild_ok])

section \<open>Steps\<close>

lemma adoptID_fields: "adoptID r f = (r', f') \<Longrightarrow> f' = f\<lparr>nextID := nextID f'\<rparr> \<and> spec r' = spec r \<and> r' = r\<lparr>fw_id := fw_id r'\<rparr>"
  by (auto simp: adoptID_def Let_def split: if_splits)

lemma adopt_all_fields: "adopt_all rs f = (rs', f') \<Longrightarrow> f' = f\<lparr>nextID := nextID f'\<rparr>"
proof (induction rs arbitrary: f rs' f')
  case (Cons r rs)
  obtain r1 f1 where a: "adoptID r f = (r1, f1)" by force
  obtain rs2 f2 where b: "adopt_all rs f1 = (rs2, f2)" by force
  have "f' = f2" using Cons(2) a b by simp
  moreover have "f2 = f1\<lparr>nextID := nextID f2\<rparr>" using Cons(1) b by blast
  ultimately show ?case using adoptID_fields [OF a] by (metis firewall.update_convs(3) firewall.surjective)
qed simp

lemma compile_some_fields: "compile_some cat frs f = (rs, f') \<Longrightarrow> f' = f\<lparr>nextID := nextID f'\<rparr>"
proof (induction frs arbitrary: f rs f')
  case (Cons fr frs)
  show ?case
  proof (cases "compileRule fr (Some cat)")
    case (Inl e)
    then show ?thesis using Cons by simp
  next
    case (Inr r)
    obtain r1 f1 where a: "adoptID r f = (r1, f1)" by force
    obtain rs2 f2 where b: "compile_some cat frs f1 = (rs2, f2)" by force
    have "f' = f2" using Cons(2) Inr a b by simp
    moreover have "f2 = f1\<lparr>nextID := nextID f2\<rparr>" using Cons(1) b by blast
    ultimately show ?thesis using adoptID_fields [OF a] by (metis firewall.update_convs(3) firewall.surjective)
  qed
qed simp

text \<open>The edits replace the rules or the catalog and go through \<open>fw_store\<close>; the other operations
  leave both alone.\<close>

inductive fw_edit :: "firewall \<Rightarrow> firewall \<Rightarrow> bool" where
  edit_add: "fw_edit f (snd (fw_add r at0 f))"
| edit_remove: "fw_edit f (snd (fw_remove ids f))"
| edit_move: "fw_move i to f = (True, f') \<Longrightarrow> fw_edit f f'"
| edit_cut: "fw_edit f (snd (fw_cut ids f))"
| edit_paste: "clipboard f \<noteq> [] \<Longrightarrow> fw_edit f (snd (fw_paste at0 f))"
| edit_load: "fw_edit f (loadRules frs f)"
| edit_reload: "reload_rules frs f = (None, f') \<Longrightarrow> fw_edit f f'"
| edit_catalog: "fw_edit f (setCatalog objs svcs f)"
| edit_objects: "fw_edit f (setObjects objs f)"
| edit_services: "fw_edit f (setServices svcs f)"
| edit_fqdn: "setFQDN nm ps f = (True, f') \<Longrightarrow> fw_edit f f'"
| edit_wild: "setFQDNWildcard nm ps f = (True, f') \<Longrightarrow> fw_edit f f'"

inductive fw_other :: "firewall \<Rightarrow> firewall \<Rightarrow> bool" where
  other_copy: "fw_other f (snd (fw_copy ids f))"
| other_failed_reload: "reload_rules frs f = (Some e, f') \<Longrightarrow> fw_other f f'"
| other_reset: "fw_other f (resetCounters ids f)"
| other_exempts: "fw_other f (setExempts es f)"
| other_mgmt: "fw_other f (f\<lparr>mgmtPort := p\<rparr>)"
| other_log: "fw_other f (f\<lparr>has_log := b\<rparr>)"
| other_cache: "fw_other f (f\<lparr>wcCache := c\<rparr>)"

text \<open>The rules as the decision sees them.\<close>

definition same_rules :: "firewall \<Rightarrow> firewall \<Rightarrow> bool" where
  "same_rules f g \<longleftrightarrow> stateful g = stateful f \<and> f_cat g = f_cat f \<and> f_objects g = f_objects f \<and>
     f_services g = f_services f \<and> fqdn g = fqdn f \<and> fqdnWild g = fqdnWild f \<and>
     list_all2 (\<lambda>r r'. \<exists>c. r' = r\<lparr>cnt := c\<rparr>) (snap f) (snap g)"

lemma cnt_same: "\<exists>c. r = r\<lparr>cnt := c\<rparr>" for r :: fwRule
  by (rule exI [of _ "cnt r"]) simp

lemma all2_cnt_refl: "list_all2 (\<lambda>r r' :: fwRule. \<exists>c. r' = r\<lparr>cnt := c\<rparr>) rs rs"
  by (rule list.rel_refl) (rule cnt_same)

lemma same_rules_wf: "same_rules f g \<Longrightarrow> fw_wf f \<Longrightarrow> fw_wf g"
proof -
  assume s: "same_rules f g" and wf: "fw_wf f"
  have l: "list_all2 (\<lambda>r r'. \<exists>c. r' = r\<lparr>cnt := c\<rparr>) (snap f) (snap g)" using s by (simp add: same_rules_def)
  have "compiled_for (f_cat f) r'" if "r' \<in> set (snap g)" for r'
    using l that wf compiled_for_cnt unfolding list_all2_conv_all_nth in_set_conv_nth fw_wf_def by (metis nth_mem)
  moreover have "(\<exists>r \<in> set (snap g). fw_action r = fwDeny) \<longleftrightarrow> (\<exists>r \<in> set (snap f). fw_action r = fwDeny)"
    using l by (induction rule: list_all2_induct) auto
  moreover have "catalog_ok g" using s wf catalog_ok_fields [of g f] by (simp add: same_rules_def fw_wf_def)
  ultimately show ?thesis using s wf by (simp add: fw_wf_def same_rules_def)
qed

lemma other_same:
  assumes "fw_other f g"
  shows "same_rules f g \<and> fct g = fct f \<and> enabled g = enabled f"
  using assms
proof (cases rule: fw_other.cases)
  case (other_reset ids)
  have "list_all2 (\<lambda>r r'. \<exists>c. r' = r\<lparr>cnt := c\<rparr>) rs (map (\<lambda>r. if (ids = [] \<or> fw_id r \<in> set ids) \<and> cnt r \<noteq> None
      then r\<lparr>cnt := Some newRuleCounters\<rparr> else r) rs)" for rs :: "fwRule list"
    by (induction rs) (auto intro: cnt_same)
  then show ?thesis using other_reset by (simp add: same_rules_def resetCounters_def)
qed (auto simp: same_rules_def all2_cnt_refl fw_copy_def reload_rules_def setExempts_def Let_def split: prod.splits sum.splits)

lemma nextID_ok: "f' = f\<lparr>nextID := n\<rparr> \<Longrightarrow> catalog_ok f' = catalog_ok f"
  by (rule catalog_ok_fields) simp_all

lemma edit_store:
  assumes "fw_edit f g" "catalog_ok f"
  shows "\<exists>rules h. g = fw_store rules h \<and> catalog_ok h"
  using assms(1)
proof (cases rule: fw_edit.cases)
  case (edit_add r at0)
  obtain r' f' where a: "adoptID r f = (r', f')" by force
  have "catalog_ok f'" using assms(2) adoptID_fields [OF a] nextID_ok by blast
  then show ?thesis using edit_add a by (auto simp: fw_add_def)
next
  case (edit_move i to)
  show ?thesis using edit_move assms(2) by (auto simp: fw_move_def split: option.splits)
next
  case (edit_cut ids)
  have "catalog_ok (f\<lparr>clipboard := c\<rparr>) = catalog_ok f" for c by (rule catalog_ok_fields) simp_all
  with assms(2) show ?thesis using edit_cut by (auto simp: fw_cut_def fw_copy_def fw_remove_def Let_def)
next
  case (edit_paste at0)
  show ?thesis using assms(2) edit_paste nextID_ok [OF refl] by (auto simp: fw_paste_def Let_def split: prod.splits)
next
  case (edit_load frs)
  obtain nr f' where a: "compile_some (f_cat f) frs f = (nr, f')" by force
  have "catalog_ok f'" using assms(2) compile_some_fields [OF a] nextID_ok by blast
  then show ?thesis using edit_load a by (auto simp: loadRules_def)
next
  case (edit_reload frs)
  show ?thesis using assms(2) edit_reload nextID_ok [OF refl] by (auto simp: reload_rules_def split: prod.splits sum.splits)
next
  case (edit_remove ids)
  show ?thesis using assms(2) edit_remove by (auto simp: fw_remove_def)
qed (auto simp: setCatalog_def setObjects_def setServices_def setFQDN_def setFQDNWildcard_def fw_recatalog_def Let_def
        intro: rebuild_ok split: if_splits)

section \<open>Runs of the filter\<close>

type_synonym flow = "byte \<times> addr \<times> 16 word \<times> addr \<times> 16 word"

text \<open>What the filter reads of a packet.\<close>

definition flow_of :: "bytes \<Rightarrow> flow option" where
  "flow_of pkt =
     (case parseAddrs pkt of None \<Rightarrow> None
      | Some (s, d) \<Rightarrow> Some (case parseL4 pkt of None \<Rightarrow> (0, s, 0, d, 0) | Some (p, sp, dp, _) \<Rightarrow> (p, s, sp, d, dp)))"

text \<open>A run from a fresh firewall, with the flows of the packets let through since the last edit or
  toggle.\<close>

inductive fw_trace :: "firewall \<Rightarrow> flow set \<Rightarrow> bool" where
  trace_new: "fw_trace (newFirewall rules) {}"
| trace_edit: "fw_trace f H \<Longrightarrow> fw_edit f g \<Longrightarrow> fw_trace g {}"
| trace_toggle: "fw_trace f H \<Longrightarrow> fw_trace (setEnabled b f) {}"
| trace_other: "fw_trace f H \<Longrightarrow> fw_other f g \<Longrightarrow> fw_trace g H"
| trace_sweep: "fw_trace f H \<Longrightarrow> sweepConntrack now (Some f) = Some g \<Longrightarrow> fw_trace g H"
| trace_packet: "fw_trace f H \<Longrightarrow> allow now d pkt (Some f) = (a, em, Some g) \<Longrightarrow>
    fw_trace g (if a then H \<union> set_option (flow_of pkt) else H)"

text \<open>The reference policy: the first enabled rule that matches decides, and without one the packet
  is let through.\<close>

definition verdict :: "fwRule list \<Rightarrow> (fwRule \<Rightarrow> bool) \<Rightarrow> bool" where
  "verdict rules p = (case filter (\<lambda>r. \<not> disabled r \<and> p r) rules of [] \<Rightarrow> True | r # _ \<Rightarrow> fw_action r = fwAllow)"

lemma first_match_verdict:
  "verdict rules p = (case first_match rules p of None \<Rightarrow> True | Some i \<Rightarrow> fw_action (rules ! i) = fwAllow)"
  by (induction rules) (auto simp: verdict_def split: option.splits)

lemma first_match_less: "first_match rules p = Some i \<Longrightarrow> i < length rules"
  by (induction rules arbitrary: i) (auto split: if_splits)

definition in_rule :: "fwDir \<Rightarrow> flow \<Rightarrow> fwRule \<Rightarrow> bool" where
  "in_rule d fl r = (case fl of (proto, src, sp, dst, dp) \<Rightarrow> rule_match r d src dst proto sp dp)"

definition fl_exempt :: "firewall \<Rightarrow> flow \<Rightarrow> bool" where
  "fl_exempt f fl = (case fl of (proto, src, sp, dst, dp) \<Rightarrow> exempt f proto sp dp)"

definition fl_established :: "fwConntrack \<Rightarrow> flow \<Rightarrow> bool" where
  "fl_established c fl = (case fl of (proto, src, sp, dst, dp) \<Rightarrow> readState c proto src sp dst dp = ctEstablished)"

fun fl_track :: "int \<Rightarrow> flow \<Rightarrow> fwConntrack \<Rightarrow> fwConntrack" where
  "fl_track now (proto, src, sp, dst, dp) c = ct_track proto src sp dst dp now c"

fun fl_back :: "flow \<Rightarrow> flow" where
  "fl_back (proto, src, sp, dst, dp) = (proto, dst, dp, src, sp)"

lemma recordHit_cnt: "recordHit f now n r = (r', em) \<Longrightarrow> \<exists>c. r' = r\<lparr>cnt := c\<rparr>"
  by (auto simp: recordHit_def Let_def intro: cnt_same split: option.splits if_splits prod.splits)

lemma exempt_fields: "exempts g = exempts f \<Longrightarrow> mgmtPort g = mgmtPort f \<Longrightarrow> exempt g = exempt f"
  by (intro ext, cases "exempts f") (simp_all add: exempt_def)

text \<open>One packet on an enabled firewall with rules: the decision, the tracking table and the rules after it.\<close>

lemma allow_cases:
  assumes "allow now d pkt (Some f) = (a, em, fo)" "enabled f" "snap f \<noteq> []" "flow_of pkt = Some fl"
  obtains g where "fo = Some g" "same_rules f g" "enabled g"
    "a \<longleftrightarrow> fl_exempt f fl \<or> (stateful f \<and> fl_established (fct f) fl) \<or> verdict (snap f) (in_rule d fl)"
    "fct g = (if stateful f \<and> a \<and> \<not> fl_exempt f fl then fl_track now fl (fct f) else fct f)"
proof -
  obtain proto src sp dst dp where fl: "fl = (proto, src, sp, dst, dp)" by (cases fl) auto
  obtain c where al: "allow now d pkt (Some f) =
      (case fw_decide now d (length pkt) proto src sp dst dp (f\<lparr>wcCache := c\<rparr>) of (a, em, f2) \<Rightarrow> (a, em, Some f2))"
  proof -
    have upd: "(if b then f\<lparr>wcCache := x\<rparr> else f) = f\<lparr>wcCache := if b then x else wcCache f\<rparr>" for b x by simp
    obtain ad where ad: "parseAddrs pkt = Some ad" using assms(4) by (auto simp: flow_of_def split: option.splits)
    show thesis
    proof (cases "parseL4 pkt")
      case None
      show thesis
        by (rule that [of "wcCache f"])
           (use assms(2-4) ad None in \<open>simp add: allow_def flow_of_def fl Let_def split_beta\<close>)
    next
      case (Some x)
      show thesis
        by (rule that)
           (use assms(2-4) ad Some in \<open>simp add: allow_def flow_of_def fl Let_def upd split_beta del: if_split\<close>)
    qed
  qed
  let ?f = "f\<lparr>wcCache := c\<rparr>"
  obtain g where fd: "fw_decide now d (length pkt) proto src sp dst dp ?f = (a, em, g)" and fo: "fo = Some g"
    using al assms(1) by (auto split: prod.splits)
  have sr: "same_rules f ?f" by (simp add: same_rules_def all2_cnt_refl)
  have ex: "fl_exempt f fl = exempt ?f proto sp dp" using exempt_fields [of ?f f] by (simp add: fl_exempt_def fl)
  let ?p = "\<lambda>r. rule_match r d src dst proto sp dp"
  have pol: "verdict (snap f) (in_rule d fl) = (case first_match (snap f) ?p of None \<Rightarrow> True | Some i \<Rightarrow> fw_action (snap f ! i) = fwAllow)"
    by (simp add: first_match_verdict in_rule_def [abs_def] fl)
  show thesis
  proof (cases "exempt ?f proto sp dp \<or> (stateful f \<and> readState (fct f) proto src sp dst dp = ctEstablished)")
    case True
    have "a" and "g = (if exempt ?f proto sp dp then ?f else ?f\<lparr>fct := ct_track proto src sp dst dp now (fct f)\<rparr>)"
      using fd True by (auto simp: fw_decide_def split: if_splits)
    then show thesis
      using that [OF fo] sr True assms(2) ex
      by (cases "exempt ?f proto sp dp") (auto simp: same_rules_def fl_established_def fl)
  next
    case False
    show thesis
    proof (cases "first_match (snap f) ?p")
      case None
      then have "a" and "g = (if stateful f then ?f\<lparr>fct := ct_track proto src sp dst dp now (fct f)\<rparr> else ?f)"
        using fd False by (auto simp: fw_decide_def Let_def)
      then show thesis
        using that [OF fo] sr False assms(2) ex pol None
        by (cases "stateful f") (auto simp: same_rules_def fl_established_def fl)
    next
      case (Some i)
      obtain r' em' where rh: "recordHit ?f now (length pkt) (snap f ! i) = (r', em')" by force
      let ?h = "?f\<lparr>snap := (snap f)[i := r']\<rparr>"
      have a: "a = (fw_action (snap f ! i) = fwAllow)"
        and g: "g = (if stateful f \<and> a then ?h\<lparr>fct := ct_track proto src sp dst dp now (fct f)\<rparr> else ?h)"
        using fd False Some rh by (auto simp: fw_decide_def Let_def split: if_splits)
      have "list_all2 (\<lambda>r r'. \<exists>c. r' = r\<lparr>cnt := c\<rparr>) (snap f) ((snap f)[i := r'])"
        using list_all2_update_cong [OF all2_cnt_refl [of "snap f"] recordHit_cnt [OF rh], of i] by simp
      then have "same_rules f ?h" by (simp add: same_rules_def)
      moreover have "same_rules f g" "enabled g" "fct g = (if stateful f \<and> a then fl_track now fl (fct f) else fct f)"
        using \<open>same_rules f ?h\<close> assms(2) by (simp_all add: g same_rules_def fl)
      moreover have "a \<longleftrightarrow> verdict (snap f) (in_rule d fl)" using pol Some a by simp
      ultimately show thesis using that [OF fo] False ex by (auto simp: fl_established_def fl)
    qed
  qed
qed

lemma allow_result:
  assumes "allow now d pkt (Some f) = (a, em, fo)" "enabled f" "snap f \<noteq> []" "flow_of pkt = Some fl"
  shows "a \<longleftrightarrow> fl_exempt f fl \<or> (stateful f \<and> fl_established (fct f) fl) \<or> verdict (snap f) (in_rule d fl)"
    and "\<exists>g. fo = Some g \<and> same_rules f g \<and> enabled g \<and>
      fct g = (if stateful f \<and> a \<and> \<not> fl_exempt f fl then fl_track now fl (fct f) else fct f)"
  using allow_cases [OF assms] by metis+

lemma verdict_passes:
  assumes "enabled f" "snap f \<noteq> []" "flow_of pkt = Some fl" "verdict (snap f) (in_rule d fl)"
  shows "fst (allow now d pkt (Some f))"
proof -
  obtain a em fo where al: "allow now d pkt (Some f) = (a, em, fo)" by (cases "allow now d pkt (Some f)") auto
  then show ?thesis using allow_result(1) [OF al assms(1-3)] assms(4) by simp
qed

lemma allow_off:
  assumes "allow now d pkt (Some f) = (a, em, Some g)" "\<not> enabled f \<or> snap f = [] \<or> flow_of pkt = None"
  shows "same_rules f g \<and> fct g = fct f \<and> enabled g = enabled f"
  using assms
  by (auto simp: allow_def flow_of_def same_rules_def all2_cnt_refl Let_def split: option.splits prod.splits if_splits)

definition trace_ok :: "firewall \<Rightarrow> flow set \<Rightarrow> bool" where
  "trace_ok f H \<longleftrightarrow> fw_wf f \<and>
     (\<exists>evs. fct f = ct_run evs \<and> (\<forall>p s sp d dp. ct_seen evs p s sp d dp \<longrightarrow> (p, s, sp, d, dp) \<in> H))"

lemma ct_run_reset: "ct_run [] = Map.empty" "ct_seen [] p s sp d dp = False"
  by (simp_all add: ct_run_def newConntrack_def ct_seen_def since_reset_def)

lemma ct_run_snoc: "ct_run (evs @ [e]) = ct_step (ct_run evs) e"
  by (simp add: ct_run_def)

lemma store_ct: "fct (fw_store rules f) = Map.empty"
  by (simp add: fw_store_def Let_def ct_reset_def)

lemma ct_seen_more: "e \<noteq> CtReset \<Longrightarrow>
    ct_seen (evs @ [e]) p s sp d dp \<longleftrightarrow> ct_seen evs p s sp d dp \<or> (\<exists>now. e = CtTrack p s sp d dp now)"
  by (auto simp: ct_seen_def since_reset_snoc)

lemma trace_okI: "fw_wf f \<Longrightarrow> fct f = ct_run evs \<Longrightarrow> (\<And>p s sp d dp. ct_seen evs p s sp d dp \<Longrightarrow> (p, s, sp, d, dp) \<in> H) \<Longrightarrow>
    trace_ok f H"
  by (auto simp: trace_ok_def)

lemma trace_ok_store:
  assumes "catalog_ok f"
  shows "trace_ok (fw_store rules f) H"
proof (rule trace_okI)
  show "fw_wf (fw_store rules f)" using assms by (rule fw_store_wf)
  show "fct (fw_store rules f) = ct_run []" by (simp only: store_ct ct_run_reset)
qed (simp add: ct_run_reset(2))

lemma trace_okD:
  "trace_ok f H \<Longrightarrow> fw_wf f"
  "trace_ok f H \<Longrightarrow> \<exists>evs. fct f = ct_run evs \<and> (\<forall>p s sp d dp. ct_seen evs p s sp d dp \<longrightarrow> (p, s, sp, d, dp) \<in> H)"
  by (simp_all add: trace_ok_def)

lemma trace_ok_same:
  assumes "trace_ok f H" "same_rules f g" "fct g = fct f" "H \<subseteq> H'"
  shows "trace_ok g H'"
proof -
  obtain evs where "fct f = ct_run evs" "\<forall>p s sp d dp. ct_seen evs p s sp d dp \<longrightarrow> (p, s, sp, d, dp) \<in> H"
    using trace_okD(2) [OF assms(1)] by blast
  then show ?thesis using same_rules_wf [OF assms(2) trace_okD(1) [OF assms(1)]] assms(3,4) by (intro trace_okI [of g evs]) auto
qed

lemma newFirewall_catalog: "\<exists>rules' h. newFirewall rules = fw_store rules' h \<and> catalog_ok h"
proof -
  obtain rs f where a: "adopt_all rules empty_firewall = (rs, f)" by force
  have "catalog_ok empty_firewall"
    by (simp add: catalog_ok_def empty_firewall_def buildCatalog_def)
  then have "catalog_ok f" using adopt_all_fields [OF a] nextID_ok by blast
  then show ?thesis using a by (auto simp: newFirewall_def)
qed

lemma trace_inv: "fw_trace f H \<Longrightarrow> trace_ok f H"
proof (induction rule: fw_trace.induct)
  case (trace_new rules)
  then show ?case using newFirewall_catalog [of rules] trace_ok_store by metis
next
  case (trace_edit f H g)
  then have "catalog_ok f" by (simp add: trace_ok_def fw_wf_def)
  then show ?case using edit_store [OF trace_edit(2)] trace_ok_store by blast
next
  case (trace_toggle f H b)
  have "fw_wf (setEnabled b f) = fw_wf f" by (rule fw_wf_fields) (simp_all add: setEnabled_def)
  then have "fw_wf (setEnabled b f)" using trace_toggle(2) by (simp add: trace_ok_def)
  moreover have "fct (setEnabled b f) = ct_run []" by (simp add: setEnabled_def ct_reset_def ct_run_reset)
  ultimately show ?case by (rule trace_okI) (simp add: ct_run_reset(2))
next
  case (trace_other f H g)
  then show ?case using other_same trace_ok_same by blast
next
  case (trace_sweep f H now g)
  obtain evs where evs: "fct f = ct_run evs" "\<forall>p s sp d dp. ct_seen evs p s sp d dp \<longrightarrow> (p, s, sp, d, dp) \<in> H"
    using trace_okD(2) [OF trace_sweep(3)] by blast
  note wf = trace_okD(1) [OF trace_sweep(3)]
  show ?case
  proof (cases "stateful f")
    case True
    then have g: "g = f\<lparr>fct := ct_sweep now (fct f)\<rparr>" using trace_sweep(2) by (simp add: sweepConntrack_def)
    have "fw_wf g = fw_wf f" by (rule fw_wf_fields) (simp_all add: g)
    then have "fw_wf g" using wf by simp
    moreover have "fct g = ct_run (evs @ [CtSweep now])" by (simp add: g ct_run_snoc evs(1))
    moreover have "ct_seen (evs @ [CtSweep now]) p s sp d dp \<Longrightarrow> (p, s, sp, d, dp) \<in> H" for p s sp d dp
      using evs(2) by (simp add: ct_seen_more)
    ultimately show ?thesis by (rule trace_okI)
  next
    case False
    then have "g = f" using trace_sweep(2) by (simp add: sweepConntrack_def)
    then show ?thesis using trace_sweep(3) by simp
  qed
next
  case (trace_packet f H now d pkt a em g)
  let ?H = "if a then H \<union> set_option (flow_of pkt) else H"
  show ?case
  proof (cases "\<not> enabled f \<or> snap f = [] \<or> flow_of pkt = None")
    case True
    then show ?thesis using allow_off [OF trace_packet(2)] trace_ok_same [OF trace_packet(3), of g ?H] by auto
  next
    case False
    then obtain fl where fl: "flow_of pkt = Some fl" by auto
    obtain g' where g: "g = g'" "same_rules f g'" "fct g' = (if stateful f \<and> a \<and> \<not> fl_exempt f fl then fl_track now fl (fct f) else fct f)"
      using allow_cases [OF trace_packet(2) _ _ fl] False by (metis option.inject)
    show ?thesis
    proof (cases "stateful f \<and> a \<and> \<not> fl_exempt f fl")
      case True
      obtain proto src sp dst dp where k: "fl = (proto, src, sp, dst, dp)" by (cases fl) auto
      obtain evs where evs: "fct f = ct_run evs" "\<forall>p s sp d dp. ct_seen evs p s sp d dp \<longrightarrow> (p, s, sp, d, dp) \<in> H"
        using trace_okD(2) [OF trace_packet(3)] by blast
      note wf = trace_okD(1) [OF trace_packet(3)]
      let ?e = "CtTrack proto src sp dst dp now"
      have "fct g = ct_run (evs @ [?e])" using g True by (simp add: ct_run_snoc evs(1) k)
      moreover have "ct_seen (evs @ [?e]) p s sp' d' dp' \<Longrightarrow> (p, s, sp', d', dp') \<in> ?H" for p s sp' d' dp'
        using evs(2) True fl k by (auto simp: ct_seen_more)
      ultimately show ?thesis using same_rules_wf [OF g(2) wf] g(1) by (intro trace_okI) blast+
    next
      case False
      then show ?thesis using trace_ok_same [OF trace_packet(3) g(2), of ?H] g by auto
    qed
  qed
qed

lemma compiled_meaning:
  assumes "fw_wf f" "r \<in> set (snap f)" "\<not> no_spec r" "compileRule (spec r) (Some (f_cat f)) = Inr nc"
  shows "disabled r = fr_Disabled (spec r) \<and>
    fw_action r = (if EqualFold (fr_Action (spec r)) ''deny'' then fwDeny else fwAllow) \<and>
    (rule_match r d src dst proto sp dp \<longleftrightarrow>
       rule_denotes (f_objects f) (f_services f) (getp (mergedFQDN f)) (spec r) d src dst proto sp dp)"
proof -
  have cat: "f_cat f = buildCatalog (f_objects f) (f_services f) (getp (mergedFQDN f))"
    using assms(1) by (simp add: fw_wf_def catalog_ok_def)
  have e: "r\<lparr>fw_id := 0, cnt := None\<rparr> = nc\<lparr>fw_id := 0, cnt := None\<rparr>"
    using assms by (auto simp: fw_wf_def compiled_for_def)
  have eqs: "fw_dir r = fw_dir nc" "anySrc r = anySrc nc" "fw_src r = fw_src nc" "srcNegate r = srcNegate nc"
      "anyDst r = anyDst nc" "fw_dst r = fw_dst nc" "dstNegate r = dstNegate nc" "anyLeg r = anyLeg nc" "legs r = legs nc"
      "legsNegate r = legsNegate nc" "disabled r = disabled nc" "fw_action r = fw_action nc"
    using e by (cases r; cases nc; simp)+
  have "rule_match r d src dst proto sp dp = rule_match nc d src dst proto sp dp"
    by (simp add: rule_match_def eqs)
  also have "\<dots> = rule_denotes (f_objects f) (f_services f) (getp (mergedFQDN f)) (spec r) d src dst proto sp dp"
    by (rule compiled_rule_spec) (use assms(4) cat in simp)
  finally show ?thesis using compileRule_spec [OF assms(4)] eqs by simp
qed

section \<open>Properties\<close>

text \<open>C5: Whatever edits, catalog changes, name resolutions and packets led here, every rule of the
  rulebase is enforced as its text reads against the objects, services and resolved names of now:
  if its text compiles against the current catalog (and is not blank), its action, its disabled
  flag and the packets it matches are those the text denotes; no rule is left compiled against an
  old catalog.\<close>
theorem rules_enforced_as_written:
  assumes "fw_trace f H" "r \<in> set (snap f)" "\<not> no_spec r" "compileRule (spec r) (Some (f_cat f)) = Inr nc"
  shows "disabled r = fr_Disabled (spec r) \<and>
    fw_action r = (if EqualFold (fr_Action (spec r)) ''deny'' then fwDeny else fwAllow) \<and>
    (rule_match r d src dst proto sp dp \<longleftrightarrow>
       rule_denotes (f_objects f) (f_services f) (getp (mergedFQDN f)) (spec r) d src dst proto sp dp)"
  using compiled_meaning [OF trace_okD(1) [OF trace_inv [OF assms(1)]] assms(2-4)] .

text \<open>The firewall of the witnesses: the host object h1, then a rule that denies TCP port 22 from it.\<close>

definition ex_rule :: fwRule where
  "ex_rule = (case compileRule (ex_fw_rule ''deny'' ''H1'') (Some (buildCatalog [ex_host] [] (\<lambda>_. []))) of
     Inl _ \<Rightarrow> undefined | Inr r \<Rightarrow> r)"

definition ex_fw :: firewall where
  "ex_fw = snd (fw_add ex_rule (-1) (setObjects [ex_host] (newFirewall [])))"

lemma ex_fw_trace: "fw_trace ex_fw {}"
  unfolding ex_fw_def by (intro trace_edit [OF trace_edit [OF trace_new edit_objects] edit_add])

lemma ex_fw_rules: "snap ex_fw = [ex_rule\<lparr>fw_id := 1\<rparr>]" "enabled ex_fw" "stateful ex_fw"
  by code_simp+

lemma rules_enforced_as_written_witness:
  "rule_denotes (f_objects ex_fw) (f_services ex_fw) (getp (mergedFQDN ex_fw)) (spec (ex_rule\<lparr>fw_id := 1\<rparr>))
     fwIn (Addr4 0x0a000001) (Addr4 7) 6 1000 22"
proof -
  let ?r = "ex_rule\<lparr>fw_id := 1\<rparr>"
  have "isl (compileRule (spec ?r) (Some (f_cat ex_fw))) = False" "\<not> no_spec ?r"
    "rule_match ?r fwIn (Addr4 0x0a000001) (Addr4 7) 6 1000 22" by code_simp+
  moreover obtain nc where "compileRule (spec ?r) (Some (f_cat ex_fw)) = Inr nc"
    using calculation(1) by (cases "compileRule (spec ?r) (Some (f_cat ex_fw))") auto
  ultimately show ?thesis using rules_enforced_as_written [OF ex_fw_trace, of ?r] ex_fw_rules(1) by simp
qed

lemma established_back:
  assumes "trace_ok f H" "fl_established (fct f) fl"
  shows "fl_back fl \<in> H"
proof -
  obtain proto src sp dst dp where fl: "fl = (proto, src, sp, dst, dp)" by (cases fl) auto
  obtain evs where evs: "fct f = ct_run evs" "\<forall>p s sp d dp. ct_seen evs p s sp d dp \<longrightarrow> (p, s, sp, d, dp) \<in> H"
    using trace_okD(2) [OF assms(1)] by blast
  have "readState (ct_run evs) proto src sp dst dp = ctEstablished"
    using assms(2) evs(1) by (simp add: fl_established_def fl)
  then show ?thesis using readState_established evs(2) by (simp add: fl)
qed

text \<open>C6: Nothing slips through: when the filter is on and has rules, a packet it can read is let
  through only if it is exempt, or the rulebase itself (the first enabled matching rule, allow if
  none) permits it, or a packet of exactly the opposite direction (both ends, ports and protocol
  exchanged) was let through since the last edit or toggle.\<close>
theorem nothing_passes_unpermitted:
  assumes "fw_trace f H" "enabled f" "snap f \<noteq> []" "flow_of pkt = Some fl" "fst (allow now d pkt (Some f))"
  shows "fl_exempt f fl \<or> verdict (snap f) (in_rule d fl) \<or> fl_back fl \<in> H"
proof -
  obtain em fo where al: "allow now d pkt (Some f) = (True, em, fo)"
    using assms(5) by (cases "allow now d pkt (Some f)") auto
  have "fl_established (fct f) fl \<Longrightarrow> fl_back fl \<in> H" using established_back [OF trace_inv [OF assms(1)]] .
  then show ?thesis using allow_result(1) [OF al assms(2-4)] by blast
qed

definition ex_tcp :: "byte list \<Rightarrow> byte list \<Rightarrow> 16 word \<Rightarrow> 16 word \<Rightarrow> bytes" where
  "ex_tcp s d sp dp = [0x45,0,0,24,0,0,0,0,64,6,0,0] @ s @ d @ put16 sp @ put16 dp"

lemma nothing_passes_unpermitted_witness:
  "verdict (snap ex_fw) (in_rule fwIn (6, Addr4 0x0a000002, 1000, Addr4 0x0a000009, 22)) \<or>
   fl_exempt ex_fw (6, Addr4 0x0a000002, 1000, Addr4 0x0a000009, 22)"
proof -
  let ?p = "ex_tcp [10,0,0,2] [10,0,0,9] 1000 22"
  have f: "flow_of ?p = Some (6, Addr4 0x0a000002, 1000, Addr4 0x0a000009, 22)"
    "verdict (snap ex_fw) (in_rule fwIn (6, Addr4 0x0a000002, 1000, Addr4 0x0a000009, 22))" by code_simp+
  then have "fst (allow 5 fwIn ?p (Some ex_fw))" by (intro verdict_passes [OF ex_fw_rules(2) _ f]) (simp add: ex_fw_rules(1))
  then show ?thesis
    using f(1) nothing_passes_unpermitted [OF ex_fw_trace, of ?p _ 5 fwIn] ex_fw_rules by auto
qed

text \<open>Edits take effect at once, on existing connections too: right after any edit of the rules or of
  the catalog, the very next packet is decided by the exemptions and the new rules alone.\<close>
theorem edits_take_effect:
  assumes "fw_trace f H" "fw_edit f g" "enabled g" "snap g \<noteq> []" "flow_of pkt = Some fl"
  shows "fst (allow now d pkt (Some g)) \<longleftrightarrow> fl_exempt g fl \<or> verdict (snap g) (in_rule d fl)"
proof -
  have ok: "trace_ok g {}" using trace_inv [OF trace_edit [OF assms(1,2)]] .
  obtain a em fo where al: "allow now d pkt (Some g) = (a, em, fo)" by (cases "allow now d pkt (Some g)") auto
  have "\<not> fl_established (fct g) fl" using established_back [OF ok] by blast
  then show ?thesis using allow_result(1) [OF al assms(3-5)] by (simp add: al)
qed

lemma edits_take_effect_witness:
  "\<not> verdict (snap ex_fw) (in_rule fwIn (6, Addr4 0x0a000001, 1000, Addr4 0x0a000009, 22))"
proof -
  let ?p = "ex_tcp [10,0,0,1] [10,0,0,9] 1000 22"
  let ?f = "setObjects [ex_host] (newFirewall [])"
  have e: "fw_edit ?f ex_fw" unfolding ex_fw_def by (rule edit_add)
  have t: "fw_trace ?f {}" by (rule trace_edit [OF trace_new edit_objects])
  have "flow_of ?p = Some (6, Addr4 0x0a000001, 1000, Addr4 0x0a000009, 22)" "\<not> fst (allow 5 fwIn ?p (Some ex_fw))"
    by code_simp+
  then show ?thesis using edits_take_effect [OF t e, of ?p _ 5 fwIn] ex_fw_rules by auto
qed

lemma reply_passes:
  assumes "allow now d pkt (Some f) = (True, em, Some g)" "enabled f" "snap f \<noteq> []" "stateful f"
    and "flow_of pkt = Some (proto, src, sp, dst, dp)" "\<not> fl_exempt f (proto, src, sp, dst, dp)"
    and "src \<noteq> dst \<or> sp \<noteq> dp" "flow_of reply = Some (proto, dst, dp, src, sp)"
  shows "fst (allow now' d' reply (Some g))"
proof -
  have g: "same_rules f g \<and> enabled g \<and> fct g = ct_track proto src sp dst dp now (fct f)"
    using allow_result(2) [OF assms(1-3,5)] assms(4,6) by simp
  have ne: "snap g \<noteq> []" using g assms(3) by (auto simp: same_rules_def)
  have st: "stateful g" using g assms(4) by (simp add: same_rules_def)
  obtain a em fo where al: "allow now' d' reply (Some g) = (a, em, fo)" by (cases "allow now' d' reply (Some g)") auto
  have "fl_established (fct g) (proto, dst, dp, src, sp)"
    using g readState_reply [OF assms(7)] by (simp add: fl_established_def)
  then show ?thesis using allow_result(1) [OF al _ ne assms(8)] g st by (simp add: al)
qed

text \<open>Replies always get back in: once a packet is let through by a stateful filter (and is not
  exempt), the packet that answers it passes, in either direction of the tunnel and whatever the
  rules say, as long as no edit, sweep or other packet came between.\<close>
theorem replies_pass:
  assumes "allow now d pkt (Some f) = (True, em, Some g)" "enabled f" "snap f \<noteq> []" "stateful f"
    and "flow_of pkt = Some (proto, src, sp, dst, dp)" "\<not> fl_exempt f (proto, src, sp, dst, dp)"
    and "src \<noteq> dst \<or> sp \<noteq> dp" "flow_of reply = Some (proto, dst, dp, src, sp)"
  shows "fst (allow now' d' reply (Some g))"
  by (rule reply_passes [OF assms])

lemma replies_pass_witness:
  "\<exists>em g. allow 5 fwOut (ex_tcp [10,0,0,9] [10,0,0,1] 22 1000) (Some ex_fw) = (True, em, Some g) \<and>
     fst (allow 6 fwIn (ex_tcp [10,0,0,1] [10,0,0,9] 1000 22) (Some g))"
proof -
  let ?p = "ex_tcp [10,0,0,9] [10,0,0,1] 22 1000" and ?q = "ex_tcp [10,0,0,1] [10,0,0,9] 1000 22"
  have f: "flow_of ?p = Some (6, Addr4 0x0a000009, 22, Addr4 0x0a000001, 1000)"
      "flow_of ?q = Some (6, Addr4 0x0a000001, 1000, Addr4 0x0a000009, 22)"
      "\<not> fl_exempt ex_fw (6, Addr4 0x0a000009, 22, Addr4 0x0a000001, 1000)" by code_simp+
  have ne: "snap ex_fw \<noteq> []" by (simp add: ex_fw_rules(1))
  have "verdict (snap ex_fw) (in_rule fwOut (6, Addr4 0x0a000009, 22, Addr4 0x0a000001, 1000))" by code_simp
  then have "fst (allow 5 fwOut ?p (Some ex_fw))" by (intro verdict_passes [OF ex_fw_rules(2) ne f(1)])
  then obtain em fo where al: "allow 5 fwOut ?p (Some ex_fw) = (True, em, fo)"
    by (cases "allow 5 fwOut ?p (Some ex_fw)") auto
  obtain g where g: "fo = Some g" using allow_result(2) [OF al ex_fw_rules(2) ne f(1)] by blast
  have "fst (allow 6 fwIn ?q (Some g))"
    by (rule replies_pass [OF al [unfolded g] ex_fw_rules(2) ne ex_fw_rules(3) f(1,3) _ f(2)]) simp
  then show ?thesis using al g by blast
qed

end
