(* ===== verification/Fw_Manage.thy ===== *)
theory Fw_Manage
  imports Fw_Policy "HOL-Library.Multiset"
begin

text \<open>
  The management operations of the packet filter: inserting, moving, cutting and pasting rules keep
  every rule's text, and rule ids stay unique and below the next id whatever the sequence of
  operations, as long as the 64-bit counter has room.
\<close>

lemma store_ids [simp]: "map fw_id (snap (fw_store rules f)) = map fw_id rules"
  by (simp add: fw_store_def Let_def)

lemma store_specs [simp]: "map spec (snap (fw_store rules f)) = map spec rules"
  by (simp add: fw_store_def Let_def)

lemma store_nextID [simp]: "nextID (fw_store rules f) = nextID f" "clipboard (fw_store rules f) = clipboard f"
  by (simp_all add: fw_store_def Let_def)

lemma insertSliceAt_map: "map h (insertSliceAt xs ys at0) = insertSliceAt (map h xs) (map h ys) at0"
  by (simp add: insertSliceAt_def Let_def take_map drop_map)

lemma insertAt_slice: "insertAt xs x at0 = insertSliceAt xs [x] at0"
  by (simp add: insertAt_def insertSliceAt_def)

lemma mset_insertSliceAt: "mset (insertSliceAt xs ys at0) = mset xs + mset ys"
proof -
  have "mset (take n xs) + (mset ys + mset (drop n xs)) = mset xs + mset ys" for n
  proof -
    have "mset (take n xs) + mset (drop n xs) = mset xs" by (metis append_take_drop_id mset_append)
    then show ?thesis by (simp add: ac_simps)
  qed
  then show ?thesis by (simp add: insertSliceAt_def Let_def)
qed

lemma mint_specs: "mint n rs = (rs', m) \<Longrightarrow> map spec rs' = map spec rs"
  by (induction rs arbitrary: n rs' m) (auto simp: cloneRule_def split: prod.splits)

lemma mint_ids: "mint n rs = (rs', m) \<Longrightarrow> unat n + length rs < 2 ^ 64 \<Longrightarrow>
    map unat (map fw_id rs') = [unat n + 1 ..< unat n + 1 + length rs] \<and> unat m = unat n + length rs"
proof (induction rs arbitrary: n rs' m)
  case (Cons r rs)
  obtain rs2 m2 where a: "mint (n + 1) rs = (rs2, m2)" by force
  have u: "unat (n + 1) = unat n + 1" using Cons(3) by (simp add: unat_plus_small)
  have ih: "map unat (map fw_id rs2) = [unat (n + 1) + 1 ..< unat (n + 1) + 1 + length rs] \<and> unat m2 = unat (n + 1) + length rs"
    using Cons(1) [OF a] Cons(3) u by simp
  have "rs' = (cloneRule r)\<lparr>fw_id := n + 1\<rparr> # rs2" "m = m2" using Cons(2) a by simp_all
  moreover have "[unat n + 1 ..< unat n + 1 + length (r # rs)] = (unat n + 1) # [unat n + 2 ..< unat n + 2 + length rs]"
    by (subst upt_conv_Cons) simp_all
  ultimately show ?case using ih u by simp
qed simp

lemma compile_fresh_ids: "compile_fresh cat frs n = (Inr rs', m) \<Longrightarrow> unat n + length frs < 2 ^ 64 \<Longrightarrow>
    map unat (map fw_id rs') = [unat n + 1 ..< unat n + 1 + length frs] \<and> unat m = unat n + length frs"
proof (induction frs arbitrary: n rs' m)
  case (Cons fr frs)
  obtain r where r: "compileRule fr (Some cat) = Inr r" using Cons(2) by (auto split: sum.splits prod.splits)
  obtain rs2 m2 where a: "compile_fresh cat frs (n + 1) = (Inr rs2, m2)" using Cons(2) r by (auto split: sum.splits prod.splits)
  have u: "unat (n + 1) = unat n + 1" using Cons(3) by (simp add: unat_plus_small)
  have ih: "map unat (map fw_id rs2) = [unat (n + 1) + 1 ..< unat (n + 1) + 1 + length frs] \<and> unat m2 = unat (n + 1) + length frs"
    using Cons(1) [OF a] Cons(3) u by simp
  have "rs' = r\<lparr>fw_id := n + 1\<rparr> # rs2" "m = m2" using Cons(2) r a by simp_all
  moreover have "[unat n + 1 ..< unat n + 1 + length (fr # frs)] = (unat n + 1) # [unat n + 2 ..< unat n + 2 + length frs]"
    by (subst upt_conv_Cons) simp_all
  ultimately show ?case using ih u by simp
qed simp

definition rule_ids :: "firewall \<Rightarrow> nat list" where
  "rule_ids f = map (unat \<circ> fw_id) (snap f)"

definition ids_ok :: "firewall \<Rightarrow> bool" where
  "ids_ok f \<longleftrightarrow> distinct (rule_ids f) \<and> (\<forall>i \<in> set (rule_ids f). 0 < i \<and> i \<le> unat (nextID f))"

lemma ids_ok_mset:
  assumes "mset (rule_ids g) \<subseteq># mset (rule_ids f)" "nextID g = nextID f" "ids_ok f"
  shows "ids_ok g"
proof -
  have "set (rule_ids g) \<subseteq> set (rule_ids f)" using assms(1) by (metis mset_subset_eqD set_mset_mset subsetI)
  moreover have "distinct (rule_ids g)"
  proof -
    obtain zs where "mset (rule_ids f) = mset (rule_ids g @ zs)"
      using assms(1) unfolding mset_subset_eq_exists_conv by (metis ex_mset mset_append)
    then have "distinct (rule_ids f) = distinct (rule_ids g @ zs)" by (rule mset_eq_imp_distinct_iff)
    then have "distinct (rule_ids g @ zs)" using assms(3) by (simp add: ids_ok_def)
    then show ?thesis by simp
  qed
  ultimately show ?thesis using assms(2,3) by (auto simp: ids_ok_def)
qed

lemma rule_ids_store [simp]: "rule_ids (fw_store rules f) = map (unat \<circ> fw_id) rules"
proof -
  have "map unat (map fw_id (snap (fw_store rules f))) = map unat (map fw_id rules)" by simp
  then show ?thesis by (simp only: rule_ids_def map_map)
qed

lemma ids_ok_new:
  assumes "ids_ok f" "snap h = snap f" "map unat (map fw_id ins) = [unat (nextID f) + 1 ..< unat (nextID f) + 1 + k]"
    "unat (nextID h) = unat (nextID f) + k"
  shows "ids_ok (fw_store (insertSliceAt (snap f) ins at0) h)"
proof -
  have s: "rule_ids (fw_store (insertSliceAt (snap f) ins at0) h) = insertSliceAt (rule_ids f) [unat (nextID f) + 1 ..< unat (nextID f) + 1 + k] at0"
    unfolding rule_ids_store using assms(3) [unfolded map_map] by (simp only: insertSliceAt_map rule_ids_def)
  have m: "mset (insertSliceAt (rule_ids f) [unat (nextID f) + 1 ..< unat (nextID f) + 1 + k] at0) =
      mset (rule_ids f @ [unat (nextID f) + 1 ..< unat (nextID f) + 1 + k])" by (simp add: mset_insertSliceAt)
  have old: "distinct (rule_ids f)" "\<And>i. i \<in> set (rule_ids f) \<Longrightarrow> 0 < i \<and> i \<le> unat (nextID f)"
    using assms(1) by (simp_all add: ids_ok_def)
  have "set (rule_ids f) \<inter> set [unat (nextID f) + 1 ..< unat (nextID f) + 1 + k] = {}"
  proof (intro equals0I)
    fix i assume "i \<in> set (rule_ids f) \<inter> set [unat (nextID f) + 1 ..< unat (nextID f) + 1 + k]"
    then have "i \<in> set (rule_ids f)" "unat (nextID f) + 1 \<le> i" by (simp_all only: Int_iff set_upt atLeastLessThan_iff)
    then have "i \<le> unat (nextID f)" "unat (nextID f) + 1 \<le> i" using old(2) by blast+
    then show False by simp
  qed
  then have "distinct (rule_ids f @ [unat (nextID f) + 1 ..< unat (nextID f) + 1 + k])"
    using old(1) by (simp only: distinct_append distinct_upt simp_thms)
  then have "distinct (insertSliceAt (rule_ids f) [unat (nextID f) + 1 ..< unat (nextID f) + 1 + k] at0)"
    by (rule iffD2 [OF mset_eq_imp_distinct_iff [OF m]])
  moreover have "\<forall>i \<in> set (insertSliceAt (rule_ids f) [unat (nextID f) + 1 ..< unat (nextID f) + 1 + k] at0).
      0 < i \<and> i \<le> unat (nextID f) + k"
  proof
    fix i assume "i \<in> set (insertSliceAt (rule_ids f) [unat (nextID f) + 1 ..< unat (nextID f) + 1 + k] at0)"
    then have "i \<in> set (rule_ids f) \<or> i \<in> set [unat (nextID f) + 1 ..< unat (nextID f) + 1 + k]"
      unfolding mset_eq_setD [OF m] by simp
    then show "0 < i \<and> i \<le> unat (nextID f) + k"
    proof
      assume "i \<in> set (rule_ids f)"
      then show ?thesis using old(2) [of i] by simp
    next
      assume "i \<in> set [unat (nextID f) + 1 ..< unat (nextID f) + 1 + k]"
      then have "unat (nextID f) + 1 \<le> i" "i < unat (nextID f) + 1 + k" by (simp_all only: set_upt atLeastLessThan_iff)
      then show ?thesis by simp
    qed
  qed
  ultimately show ?thesis using assms(4) by (simp only: ids_ok_def s store_nextID)
qed

text \<open>The operations of the control plane, with room left for new ids; a rule is added without an id of
  its own.\<close>

inductive id_step :: "firewall \<Rightarrow> firewall \<Rightarrow> bool" where
  id_add: "fw_id r = 0 \<Longrightarrow> unat (nextID f) + 1 < 2 ^ 64 \<Longrightarrow> id_step f (snd (fw_add r at0 f))"
| id_remove: "id_step f (snd (fw_remove ids f))"
| id_move: "id_step f (snd (fw_move i to f))"
| id_cut: "id_step f (snd (fw_cut ids f))"
| id_paste: "unat (nextID f) + length (clipboard f) < 2 ^ 64 \<Longrightarrow> id_step f (snd (fw_paste at0 f))"
| id_reload: "unat (nextID f) + length frs < 2 ^ 64 \<Longrightarrow> reload_rules frs f = (None, f') \<Longrightarrow> id_step f f'"
| id_copy: "id_step f (snd (fw_copy ids f))"
| id_recatalog: "id_step f (fw_recatalog (f\<lparr>f_objects := objs, f_services := svcs, fqdn := m, fqdnWild := w\<rparr>))"
| id_packet: "allow now d pkt (Some f) = (a, em, Some g) \<Longrightarrow> id_step f g"

lemma same_rules_ids: "same_rules f g \<Longrightarrow> rule_ids g = rule_ids f"
proof -
  assume "same_rules f g"
  then have "list_all2 (\<lambda>r r'. \<exists>c. r' = r\<lparr>cnt := c\<rparr>) (snap f) (snap g)" by (simp add: same_rules_def)
  moreover have "list_all2 (\<lambda>r r'. \<exists>c. r' = r\<lparr>cnt := c\<rparr>) rs rs' \<Longrightarrow>
      map (unat \<circ> fw_id) rs' = map (unat \<circ> fw_id) rs" for rs rs' :: "fwRule list"
    by (induction rule: list_all2_induct) auto
  ultimately show ?thesis by (simp only: rule_ids_def)
qed

lemma indexOf_less: "indexOf rs i = Some k \<Longrightarrow> k < length rs"
  by (induction rs arbitrary: k) (auto split: if_splits)

lemma recatalog_ids: "rule_ids (fw_recatalog f) = rule_ids f" "nextID (fw_recatalog f) = nextID f"
  by (simp_all add: fw_recatalog_def rebuildCatalog_def refreshWildcardPatterns_def Let_def)
     (simp add: rule_ids_def)

lemma decide_nextID: "nextID (snd (snd (fw_decide now d n proto src sp dst dp f))) = nextID f"
  by (auto simp: fw_decide_def Let_def split: option.splits prod.splits)

lemma allow_same:
  assumes "allow now d pkt (Some f) = (a, em, Some g)"
  shows "same_rules f g \<and> nextID g = nextID f"
proof
  show "same_rules f g"
  proof (cases "\<not> enabled f \<or> snap f = [] \<or> flow_of pkt = None")
    case True
    then show ?thesis using allow_off [OF assms] by simp
  next
    case False
    then show ?thesis using allow_result(2) [OF assms] by auto
  qed
  show "nextID g = nextID f"
    using assms decide_nextID
    by (auto simp: allow_def Let_def split: option.splits prod.splits if_splits) (metis (no_types, lifting) decide_nextID firewall.select_convs(3) firewall.surjective firewall.update_convs(14) snd_conv)+
qed

lemma id_step_ok: "id_step f g \<Longrightarrow> ids_ok f \<Longrightarrow> ids_ok g"
proof (induction rule: id_step.induct)
  case (id_add r f at0)
  let ?r = "r\<lparr>fw_id := nextID f + 1\<rparr>" and ?h = "f\<lparr>nextID := nextID f + 1\<rparr>"
  have u: "unat (nextID f + 1) = unat (nextID f) + 1" using id_add(2) by (simp add: unat_plus_small)
  have "ids_ok (fw_store (insertSliceAt (snap f) [?r] at0) ?h)"
    by (rule ids_ok_new [OF id_add(3), where k = 1]) (simp_all add: u)
  moreover have "snd (fw_add r at0 f) = fw_store (insertSliceAt (snap f) [?r] at0) ?h"
    using id_add(1) by (simp add: fw_add_def adoptID_def Let_def insertAt_slice)
  ultimately show ?case by simp
next
  case (id_remove f ids)
  have "mset (rule_ids (snd (fw_remove ids f))) \<subseteq># mset (rule_ids f)"
    by (simp add: fw_remove_def) (simp add: rule_ids_def mset_filter image_mset_subseteq_mono multiset_filter_subset)
  then show ?case by (rule ids_ok_mset [OF _ _ id_remove]) (simp add: fw_remove_def)
next
  case (id_move f i to)
  show ?case
  proof (cases "indexOf (snap f) i")
    case None
    then show ?thesis using id_move by (simp add: fw_move_def)
  next
    case (Some k)
    note k = indexOf_less [OF Some]
    have "mset (take k (snap f) @ drop (k + 1) (snap f)) + {#snap f ! k#} = mset (snap f)"
      by (subst id_take_nth_drop [OF k]) (simp add: min_def k)
    then have "mset (insertAt (take k (snap f) @ drop (k + 1) (snap f)) (snap f ! k) to) = mset (snap f)"
      by (simp add: insertAt_slice mset_insertSliceAt)
    then have "image_mset (unat \<circ> fw_id) (mset (insertAt (take k (snap f) @ drop (k + 1) (snap f)) (snap f ! k) to)) =
        image_mset (unat \<circ> fw_id) (mset (snap f))" by (simp only:)
    then have "mset (rule_ids (snd (fw_move i to f))) = mset (rule_ids f)"
      using Some by (simp add: fw_move_def rule_ids_def [of f])
    then show ?thesis by (intro ids_ok_mset [OF _ _ id_move]) (simp_all add: fw_move_def Some)
  qed
next
  case (id_cut f ids)
  have "mset (rule_ids (snd (fw_cut ids f))) \<subseteq># mset (rule_ids f)"
    by (simp add: fw_cut_def fw_copy_def fw_remove_def Let_def)
       (simp add: rule_ids_def mset_filter image_mset_subseteq_mono multiset_filter_subset)
  then show ?case by (rule ids_ok_mset [OF _ _ id_cut]) (simp add: fw_cut_def fw_copy_def fw_remove_def Let_def)
next
  case (id_paste f at0)
  show ?case
  proof (cases "clipboard f = []")
    case True
    then show ?thesis using id_paste by (simp add: fw_paste_def)
  next
    case False
    obtain ins n where m: "mint (nextID f) (clipboard f) = (ins, n)" by force
    have "ids_ok (fw_store (insertSliceAt (snap f) ins at0) (f\<lparr>nextID := n\<rparr>))"
      by (rule ids_ok_new [OF id_paste(2), where k = "length (clipboard f)"]) (use mint_ids [OF m id_paste(1)] in simp_all)
    then show ?thesis using False m by (simp add: fw_paste_def Let_def)
  qed
next
  case (id_reload f frs f')
  obtain nr n where m: "compile_fresh (f_cat f) frs (nextID f) = (Inr nr, n)" "f' = fw_store nr (f\<lparr>nextID := n\<rparr>)"
    using id_reload(2) by (auto simp: reload_rules_def split: prod.splits sum.splits)
  have "rule_ids f' = [unat (nextID f) + 1 ..< unat (nextID f) + 1 + length frs]" "unat n = unat (nextID f) + length frs"
    using compile_fresh_ids [OF m(1) id_reload(1)] by (simp_all only: m(2) rule_ids_store map_map)
  then show ?case by (auto simp: ids_ok_def m(2))
next
  case (id_copy f ids)
  then show ?case by (simp add: fw_copy_def Let_def ids_ok_def rule_ids_def)
next
  case (id_recatalog f w m svcs objs)
  let ?h = "f\<lparr>f_objects := objs, f_services := svcs, fqdn := m, fqdnWild := w\<rparr>"
  have "rule_ids (fw_recatalog ?h) = rule_ids f" by (simp only: recatalog_ids) (simp add: rule_ids_def)
  moreover have "nextID (fw_recatalog ?h) = nextID f" by (simp add: recatalog_ids)
  ultimately show ?case using id_recatalog by (simp add: ids_ok_def)
next
  case (id_packet now d pkt f a em g)
  note s = allow_same [OF id_packet(1)]
  have "rule_ids g = rule_ids f" using s same_rules_ids by blast
  then show ?case using id_packet(2) s by (simp add: ids_ok_def)
qed

text \<open>Rule ids identify rules: from an empty firewall, after any sequence of adding (without an
  id), removing, moving, cutting, copying and pasting rules, reloading the rulebase, catalog
  changes and packets, the ids of the rules are non-zero, pairwise different and at most the last
  id given out, as long as the 64-bit id counter never runs out.\<close>
theorem rule_ids_unique:
  assumes "id_step\<^sup>*\<^sup>* (newFirewall []) f"
  shows "distinct (map fw_id (snap f)) \<and> (\<forall>r \<in> set (snap f). fw_id r \<noteq> 0 \<and> fw_id r \<le> nextID f)"
proof -
  have "ids_ok f"
    using assms
  proof (induction rule: rtranclp_induct)
    case base
    have "rule_ids (newFirewall []) = []" by (simp add: newFirewall_def)
    then show ?case by (simp add: ids_ok_def)
  qed (rule id_step_ok)
  then show ?thesis by (auto simp: ids_ok_def rule_ids_def distinct_map word_le_nat_alt inj_on_def unat_eq_0 dest: word_unat_eq_iff [THEN iffD2])
qed

lemma rule_ids_unique_witness:
  "distinct (map fw_id (snap (snd (fw_paste 0 (snd (fw_copy [1] (snd (fw_add (ex_rule\<lparr>fw_id := 0\<rparr>) 0 (newFirewall [])))))))))"
proof -
  let ?a = "snd (fw_add (ex_rule\<lparr>fw_id := 0\<rparr>) 0 (newFirewall []))"
  let ?b = "snd (fw_copy [1] ?a)"
  have a: "id_step (newFirewall []) ?a"
    by (rule id_add) (simp_all add: newFirewall_def empty_firewall_def)
  have b: "id_step ?a ?b" by (rule id_copy)
  have "length (clipboard ?b) = 1" "nextID ?b = 1" by code_simp+
  then have "id_step ?b (snd (fw_paste 0 ?b))" by (intro id_paste) simp
  then show ?thesis using rule_ids_unique a b by (meson converse_rtranclp_into_rtranclp rtranclp.rtrancl_refl)
qed

text \<open>Cutting rules and pasting them back moves their text unchanged: pasting right after a cut
  gives as many rules as were cut, and the rulebase then reads like the old one without the cut
  rules, with those rules, in their old order, at the place of the paste (at the end when that
  place does not exist).\<close>
theorem cut_paste_moves:
  "(let (n, f1) = fw_cut ids f; (m, f2) = fw_paste at0 f1
    in n = m \<and> map spec (snap f2) =
         insertSliceAt (map spec (filter (\<lambda>r. fw_id r \<notin> set ids) (snap f)))
                       (map spec (filter (\<lambda>r. fw_id r \<in> set ids) (snap f))) at0)"
proof -
  let ?in = "filter (\<lambda>r. fw_id r \<in> set ids) (snap f)" and ?out = "filter (\<lambda>r. fw_id r \<notin> set ids) (snap f)"
  let ?f1 = "fw_store ?out (f\<lparr>clipboard := map cloneRule ?in\<rparr>)"
  have cut: "fw_cut ids f = (length ?in, ?f1)"
    by (simp add: fw_cut_def fw_copy_def fw_remove_def Let_def)
  show ?thesis
  proof (cases "?in = []")
    case True
    then have "clipboard ?f1 = []" by (simp only: store_nextID) simp
    then have "fw_paste at0 ?f1 = (0, ?f1)" by (simp add: fw_paste_def)
    then show ?thesis using True by (simp add: cut insertSliceAt_def Let_def)
  next
    case False
    obtain ins n where m: "mint (nextID ?f1) (clipboard ?f1) = (ins, n)" by force
    have c: "clipboard ?f1 = map cloneRule ?in" by (simp only: store_nextID) simp
    have s: "map spec ins = map spec ?in" using mint_specs [OF m] by (simp add: c cloneRule_def)
    then have l: "length ins = length ?in" by (metis length_map)
    have "fw_paste at0 ?f1 = (length ins, fw_store (insertSliceAt (snap ?f1) ins at0) (?f1\<lparr>nextID := n\<rparr>))"
      using False m c by (simp add: fw_paste_def Let_def)
    moreover have "map spec (snap (fw_store (insertSliceAt (snap ?f1) ins at0) (?f1\<lparr>nextID := n\<rparr>))) =
        insertSliceAt (map spec ?out) (map spec ?in) at0"
      by (simp only: store_specs insertSliceAt_map s)
    ultimately show ?thesis by (simp only: cut prod.case l) (simp only: Let_def prod.case simp_thms)
  qed
qed

end
