(* ===== verification/Fw_Errors.thy ===== *)
theory Fw_Errors
  imports Fw_Manage
begin

text \<open>
  The error paths of the rule management of internal/mesh/firewall.go: which rule texts
  \<open>compileRule\<close> refuses, and that an operation that reports an error (unknown network, no
  firewall, unknown object, network or service name) leaves every rulebase as it was.
\<close>

section \<open>Which rules compile\<close>

definition known_addr :: "fwCatalog \<Rightarrow> string \<Rightarrow> bool" where
  "known_addr cat s \<longleftrightarrow> TrimSpace s = [] \<or> EqualFold (TrimSpace s) ''any'' \<or>
     ToLower (TrimSpace s) \<in> cat_names cat \<or> parsePrefixField (TrimSpace s) \<noteq> None"

definition known_service :: "fwCatalog \<Rightarrow> string \<Rightarrow> bool" where
  "known_service cat s \<longleftrightarrow> TrimSpace s = [] \<or> services cat (ToLower (TrimSpace s)) \<noteq> None"

definition acceptable :: "fwCatalog \<Rightarrow> FirewallRule \<Rightarrow> bool" where
  "acceptable cat fr \<longleftrightarrow> known_addr cat (fr_Src fr) \<and> known_addr cat (fr_Dst fr) \<and>
     list_all (known_service cat) (fr_Services fr)"

lemma resolveAddrField_None: "resolveAddrField s cat = None \<longleftrightarrow> \<not> known_addr cat s"
  by (auto simp: resolveAddrField_def known_addr_def Let_def split: option.splits)

lemma ToLower_Nil [simp]: "ToLower s = [] \<longleftrightarrow> s = []"
  by (cases s rule: ToLower.cases) auto

lemma service_legs_ok: "(\<exists>ls. service_legs cat ns = Inr ls) \<longleftrightarrow> list_all (known_service cat) ns"
proof (induction ns)
  case (Cons n ns)
  then show ?case
    by (cases "service_legs cat ns") (auto simp: known_service_def Let_def split: option.splits)
qed simp

lemma resolveLegs_ok: "(\<exists>x. resolveLegs fr cat = Inr x) \<longleftrightarrow> list_all (known_service cat) (fr_Services fr)"
  unfolding service_legs_ok [symmetric]
  by (auto simp: resolveLegs_def Let_def split: sum.splits)

lemma compileRule_ok: "(\<exists>r. compileRule fr (Some cat) = Inr r) \<longleftrightarrow> acceptable cat fr"
proof -
  have "(\<exists>r. compileRule fr (Some cat) = Inr r) \<longleftrightarrow>
      resolveAddrField (fr_Src fr) cat \<noteq> None \<and> resolveAddrField (fr_Dst fr) cat \<noteq> None \<and>
      (\<exists>x. resolveLegs fr cat = Inr x)"
    by (auto simp: compileRule_def Let_def split: option.splits sum.splits prod.splits)
  then show ?thesis unfolding resolveAddrField_None resolveLegs_ok acceptable_def by blast
qed

lemma compile_fresh_ok: "(\<exists>rs m. compile_fresh cat frs n = (Inr rs, m)) \<longleftrightarrow> list_all (acceptable cat) frs"
proof (induction frs arbitrary: n)
  case (Cons fr frs)
  show ?case
  proof (cases "compileRule fr (Some cat)")
    case (Inl e)
    then have "\<not> acceptable cat fr" unfolding compileRule_ok [symmetric] by simp
    then show ?thesis using Inl by simp
  next
    case (Inr r)
    then have "acceptable cat fr" unfolding compileRule_ok [symmetric] by blast
    then show ?thesis using Inr Cons [of "n + 1"]
      by (auto split: prod.splits sum.splits)
  qed
qed simp

lemma compile_fresh_specs: "compile_fresh cat frs n = (Inr rs, m) \<Longrightarrow> map spec rs = frs"
proof (induction frs arbitrary: n rs m)
  case (Cons fr frs)
  then show ?case by (auto split: prod.splits sum.splits dest: compileRule_spec)
qed simp

section \<open>All or nothing\<close>

text \<open>The texts of a network's rules.\<close>

definition rule_texts :: "fw_nets \<Rightarrow> 64 word \<Rightarrow> FirewallRule list option" where
  "rule_texts e net = (case e net of Some (Some f) \<Rightarrow> Some (map spec (snap f)) | _ \<Rightarrow> None)"

lemma fwOf_Inr: "fwOf e net = Inr f \<longleftrightarrow> e net = Some (Some f)"
  by (auto simp: fwOf_def split: option.splits)

text \<open>Reloading a rulebase is all or nothing. It succeeds exactly when the network has a
  firewall and every rule of the new list is acceptable to its catalog (each address field blank,
  "any", a known object or a readable network, and every service named known), and then the
  rulebase reads exactly like the list; otherwise it reports an error and no rule of any network is
  changed. No other network is touched in either case.\<close>
theorem reload_all_or_nothing:
  "(case ReloadFirewallRules net frs e of (err, e') \<Rightarrow>
     (err = None \<longleftrightarrow> (\<exists>f. e net = Some (Some f) \<and> list_all (acceptable (f_cat f)) frs)) \<and>
     (if err = None then rule_texts e' net = Some frs else rule_texts e' = rule_texts e) \<and>
     (\<forall>m. m = net \<or> e' m = e m))"
proof (cases "fwOf e net")
  case (Inl err)
  then have "\<not> (\<exists>f. e net = Some (Some f))" by (auto simp: fwOf_def)
  then show ?thesis using Inl by (simp add: ReloadFirewallRules_def)
next
  case (Inr f)
  then have e: "e net = Some (Some f)" by (simp add: fwOf_Inr)
  obtain x m where c: "compile_fresh (f_cat f) frs (nextID f) = (x, m)" by force
  show ?thesis
  proof (cases x)
    case (Inl err)
    then have "\<not> list_all (acceptable (f_cat f)) frs" using c unfolding compile_fresh_ok [of _ _ "nextID f", symmetric] by simp
    then show ?thesis using Inl c e Inr
      by (auto simp: ReloadFirewallRules_def reload_rules_def put_fw_def rule_texts_def fun_eq_iff)
  next
    case r: (Inr rs)
    then have "list_all (acceptable (f_cat f)) frs" using c unfolding compile_fresh_ok [of _ _ "nextID f", symmetric] by blast
    moreover have "map spec rs = frs" using c r by (simp add: compile_fresh_specs)
    ultimately show ?thesis using r c e Inr
      by (simp add: ReloadFirewallRules_def reload_rules_def put_fw_def rule_texts_def)
  qed
qed

text \<open>A rule is added exactly when it is acceptable: \<open>FirewallAdd\<close> reports an error if and only
  if the network is unknown, has no firewall, or its catalog does not know what the rule names, and
  an error, like the error of moving a rule no rulebase has, leaves the whole engine as it was.\<close>
theorem add_move_errors:
  "((\<exists>err. fst (FirewallAdd net fr at0 e) = Inl err) \<longleftrightarrow>
      \<not> (\<exists>f. e net = Some (Some f) \<and> acceptable (f_cat f) fr)) \<and>
   (fst (FirewallMove net i to e) \<noteq> None \<longleftrightarrow>
      \<not> (\<exists>f. e net = Some (Some f) \<and> i \<in> fw_id ` set (snap f))) \<and>
   (\<exists>added. fst (FirewallAdd net fr at0 e) = Inr added \<or> snd (FirewallAdd net fr at0 e) = e) \<and>
   (fst (FirewallMove net i to e) = None \<or> snd (FirewallMove net i to e) = e)"
proof -
  have idx: "indexOf rs i = None \<longleftrightarrow> i \<notin> fw_id ` set rs" for rs
    by (induction rs) auto
  show ?thesis
  proof (cases "fwOf e net")
    case (Inl err)
    then have "\<not> (\<exists>f. e net = Some (Some f))" by (auto simp: fwOf_def)
    then show ?thesis using Inl by (auto simp: FirewallAdd_def FirewallMove_def)
  next
    case (Inr f)
    then have e: "e net = Some (Some f)" by (simp add: fwOf_Inr)
    have add: "(\<exists>err. fst (FirewallAdd net fr at0 e) = Inl err) \<longleftrightarrow> \<not> acceptable (f_cat f) fr"
        "(\<exists>added. fst (FirewallAdd net fr at0 e) = Inr added \<or> snd (FirewallAdd net fr at0 e) = e)"
      using Inr compileRule_ok [of fr "f_cat f"]
      by (cases "compileRule fr (Some (f_cat f))"; simp add: FirewallAdd_def split: prod.splits)+
    have move: "fst (FirewallMove net i to e) \<noteq> None \<longleftrightarrow> i \<notin> fw_id ` set (snap f)"
        "fst (FirewallMove net i to e) = None \<or> snd (FirewallMove net i to e) = e"
      using Inr idx [of "snap f"]
      by (cases "indexOf (snap f) i"; simp add: FirewallMove_def fw_move_def)+
    show ?thesis using add move e by auto
  qed
qed

end
