(* ===== verification/Qos.thy ===== *)
theory Qos
  imports Ip_L4 Protocol_Codec
begin

text \<open>
  Quality of service: the classifier of internal/mesh/qos.go (its reader and writer of the DSCP
  field are in Ip_L4) and the egress shaper of internal/mesh/shaper.go. A Go \<open>int\<close> is an
  \<open>int\<close>, a nil classifier is \<open>None\<close>. The divisions of \<open>DefaultClassDSCP\<close> have a positive
  divisor and a non-negative dividend, where \<open>div\<close> is Go's division. What the token bucket
  answers to the drainer is an argument of its turn; the goroutine's waiting has no effect on
  the queues.
\<close>

section \<open>The classifier\<close>

record ClassRule =
  cr_Proto :: byte
  cr_PortMin :: "16 word"
  cr_PortMax :: "16 word"
  cr_DSCP :: int
  cr_Class :: int

record qosRule =
  q_proto :: byte
  q_portMin :: "16 word"
  q_portMax :: "16 word"
  q_dscp :: int
  q_class :: int

record classifier =
  q_rules :: "qosRule list"
  q_classes :: int
  q_defClass :: int
  q_classDSCP :: "int list"

definition NewClassifier :: "int \<Rightarrow> int \<Rightarrow> ClassRule list \<Rightarrow> int list \<Rightarrow> classifier" where
  "NewClassifier classes0 defClass0 rules classDSCP =
     (let classes = (if classes0 < 1 then 1 else classes0);
          defClass = (if defClass0 < 0 \<or> defClass0 \<ge> classes then classes - 1 else defClass0);
          rs = map (\<lambda>r. let c = (if cr_Class r < 0 \<or> cr_Class r \<ge> classes then defClass else cr_Class r)
                 in \<lparr>q_proto = cr_Proto r, q_portMin = cr_PortMin r, q_portMax = cr_PortMax r,
                     q_dscp = cr_DSCP r, q_class = c\<rparr>) rules
      in \<lparr>q_rules = rs, q_classes = classes, q_defClass = defClass, q_classDSCP = classDSCP\<rparr>)"

definition qos_match :: "qosRule \<Rightarrow> byte \<Rightarrow> 16 word \<Rightarrow> 16 word \<Rightarrow> int \<Rightarrow> bool" where
  "qos_match r proto sp dp dscp =
     (if q_proto r \<noteq> 0 \<and> q_proto r \<noteq> proto then False
      else if q_dscp r \<ge> 0 \<and> q_dscp r \<noteq> dscp then False
      else if q_portMin r \<noteq> 0 \<or> q_portMax r \<noteq> 0 then
        let inRange = (\<lambda>p. p \<ge> q_portMin r \<and> p \<le> q_portMax r)
        in \<not> (\<not> inRange sp \<and> \<not> inRange dp)
      else True)"

definition numClasses :: "classifier option \<Rightarrow> int" where
  "numClasses co = (case co of None \<Rightarrow> 1 | Some c \<Rightarrow> if q_classes c < 1 then 1 else q_classes c)"

fun first_class :: "qosRule list \<Rightarrow> byte \<Rightarrow> 16 word \<Rightarrow> 16 word \<Rightarrow> int \<Rightarrow> int \<Rightarrow> int" where
  "first_class [] proto sp dp dscp d = d"
| "first_class (r # rs) proto sp dp dscp d =
     (if qos_match r proto sp dp dscp then q_class r else first_class rs proto sp dp dscp d)"

definition classify :: "classifier option \<Rightarrow> bytes \<Rightarrow> int" where
  "classify co pkt =
     (case co of None \<Rightarrow> 0
      | Some c \<Rightarrow>
          (case parseL4 pkt of None \<Rightarrow> q_defClass c
           | Some (proto, sp, dp, dscp) \<Rightarrow> first_class (q_rules c) proto sp dp (int dscp) (q_defClass c)))"

definition DefaultClassDSCP :: "int \<Rightarrow> int \<Rightarrow> int \<Rightarrow> int" where
  "DefaultClassDSCP class0 classes defClass0 =
     (if classes \<le> 1 then 0
      else
        let class1 = (if class0 < 0 then 0 else class0);
            class = (if class1 > classes - 1 then classes - 1 else class1);
            defClass = (if defClass0 \<le> 0 \<or> defClass0 \<ge> classes - 1
                        then (if classes div 2 = 0 then 1 else classes div 2) else defClass0)
        in if class = 0 then 46
           else if class = defClass then 0
           else if class = classes - 1 then 8
           else if class < defClass then
             let af = [34, 26, 18, 10];
                 idx = (class - 1) * 4 div defClass
             in af ! nat (if idx \<ge> 4 then 3 else idx)
           else
             let span = classes - 1 - defClass;
                 idx = class - defClass
             in idx * 8 div span)"

definition dscpFor :: "classifier option \<Rightarrow> int \<Rightarrow> int" where
  "dscpFor co class =
     (case co of None \<Rightarrow> -1
      | Some c \<Rightarrow>
          if class \<ge> 0 \<and> class < int (length (q_classDSCP c)) \<and> q_classDSCP c ! nat class \<ge> 0
          then q_classDSCP c ! nat class
          else DefaultClassDSCP class (q_classes c) (q_defClass c))"

definition markDSCP :: "classifier option \<Rightarrow> bytes \<Rightarrow> int \<Rightarrow> bytes" where
  "markDSCP co pkt class = (case co of None \<Rightarrow> pkt | Some c \<Rightarrow> setDSCP pkt (dscpFor co class))"

section \<open>The shaper\<close>

definition shaperOverhead :: int where "shaperOverhead = 1 + int DataHeaderLen + int GCMOverhead"

definition defaultShaperQueueBytes :: int where "defaultShaperQueueBytes = 4194304"

type_synonym 'p shapedPkt = "'p \<times> bytes"

record 'p shaper =
  sh_classes :: "'p shapedPkt list list"
  classBytes :: "int list"
  classCap :: int
  sh_cls :: "classifier option"

text \<open>The second component is the burst the token bucket is made with.\<close>

definition newShaper :: "int \<Rightarrow> int \<Rightarrow> classifier option \<Rightarrow> 'p shaper \<times> int" where
  "newShaper burstBytes queueBytes co =
     (let n = nat (numClasses co)
      in (\<lparr>sh_classes = replicate n [], classBytes = replicate n 0,
           classCap = (if queueBytes \<le> 0 then defaultShaperQueueBytes else queueBytes), sh_cls = co\<rparr>,
          if burstBytes < int MaxUDPPayload then int MaxUDPPayload else burstBytes))"

definition sh_cost :: "bytes \<Rightarrow> int" where "sh_cost pkt = int (length pkt) + shaperOverhead"

text \<open>The packet is marked in place, whether or not it is queued.\<close>

definition enqueue :: "'p \<Rightarrow> bytes \<Rightarrow> 'p shaper \<Rightarrow> bool \<times> bytes \<times> 'p shaper" where
  "enqueue ps pkt0 s =
     (let n = int (length (sh_classes s));
          c0 = classify (sh_cls s) pkt0;
          class = nat (if c0 < 0 \<or> c0 \<ge> n then n - 1 else c0);
          pkt = markDSCP (sh_cls s) pkt0 (int class);
          cost = sh_cost pkt
      in if classBytes s ! class + cost > classCap s then (False, pkt, s)
         else (True, pkt, s\<lparr>sh_classes := (sh_classes s)[class := sh_classes s ! class @ [(ps, pkt)]],
                             classBytes := (classBytes s)[class := classBytes s ! class + cost]\<rparr>))"

fun pick_from :: "nat \<Rightarrow> 'p shapedPkt list list \<Rightarrow> (nat \<times> 'p shapedPkt) option" where
  "pick_from i [] = None"
| "pick_from i (q # qs) = (case q of [] \<Rightarrow> pick_from (i + 1) qs | x # _ \<Rightarrow> Some (i, x))"

definition pickLocked :: "'p shaper \<Rightarrow> (nat \<times> 'p shapedPkt) option" where
  "pickLocked s = pick_from 0 (sh_classes s)"

text \<open>One turn of the drainer after its wait: what it sends, if the bucket has the tokens.\<close>

datatype 'p turn = TurnIdle | TurnNoTokens | TurnSent 'p bytes

definition run_turn :: "(int \<Rightarrow> bool) \<Rightarrow> 'p shaper \<Rightarrow> 'p turn \<times> 'p shaper" where
  "run_turn allowN s =
     (case pickLocked s of None \<Rightarrow> (TurnIdle, s)
      | Some (ci, ps, pkt) \<Rightarrow>
          let cost = sh_cost pkt
          in if \<not> allowN cost then (TurnNoTokens, s)
             else (TurnSent ps pkt,
                   s\<lparr>sh_classes := (sh_classes s)[ci := tl (sh_classes s ! ci)],
                     classBytes := (classBytes s)[ci := classBytes s ! ci - cost]\<rparr>))"

section \<open>Classes and marks are in range\<close>

lemma first_class_range:
  "\<forall>r \<in> set rs. 0 \<le> q_class r \<and> q_class r < n \<Longrightarrow> 0 \<le> d \<Longrightarrow> d < n \<Longrightarrow>
    0 \<le> first_class rs proto sp dp dscp d \<and> first_class rs proto sp dp dscp d < n"
  by (induction rs) auto

lemma NewClassifier_range:
  fixes classes defClass :: int and rules marks
  defines "c \<equiv> NewClassifier classes defClass rules marks"
  shows "0 \<le> classify (Some c) pkt" "classify (Some c) pkt < numClasses (Some c)" "0 < numClasses (Some c)"
    "0 \<le> q_defClass c" "q_defClass c < q_classes c" "numClasses (Some c) = q_classes c"
proof -
  have r: "\<forall>r \<in> set (q_rules c). 0 \<le> q_class r \<and> q_class r < q_classes c" and
      d: "0 \<le> q_defClass c" "q_defClass c < q_classes c" "0 < q_classes c"
    by (auto simp: c_def NewClassifier_def Let_def)
  note first_class_range [OF r d(1,2)]
  then show "0 \<le> classify (Some c) pkt" "classify (Some c) pkt < numClasses (Some c)" "0 < numClasses (Some c)"
      "0 \<le> q_defClass c" "q_defClass c < q_classes c" "numClasses (Some c) = q_classes c"
    using d by (auto simp: classify_def numClasses_def split: option.splits)
qed

lemma af_index: "i < 4 \<Longrightarrow> [34, 26, 18, 10 :: int] ! i \<in> {34, 26, 18, 10}"
  by (auto simp: less_Suc_eq numeral_eq_Suc)

lemma DefaultClassDSCP_range: "DefaultClassDSCP k n d \<in> {0..63}"
proof (cases "n \<le> 1")
  case True
  then show ?thesis by (simp add: DefaultClassDSCP_def)
next
  case False
  define c where "c = (let c1 = (if k < 0 then 0 else k) in if c1 > n - 1 then n - 1 else c1)"
  define e where "e = (if d \<le> 0 \<or> d \<ge> n - 1 then (if n div 2 = 0 then 1 else n div 2) else d)"
  have eq: "DefaultClassDSCP k n d =
      (if c = 0 then 46 else if c = e then 0 else if c = n - 1 then 8
       else if c < e then [34, 26, 18, 10] ! nat (let i = (c - 1) * 4 div e in if i \<ge> 4 then 3 else i)
       else (c - e) * 8 div (n - 1 - e))"
    using False unfolding DefaultClassDSCP_def c_def e_def Let_def by (simp only: if_False)
  have c: "0 \<le> c" "c \<le> n - 1" using False by (auto simp: c_def Let_def)
  have e: "0 < e" using False by (auto simp: e_def)
  show ?thesis
  proof (cases "c < e")
    case True
    let ?i = "(c - 1) * 4 div e"
    have "nat (if ?i \<ge> 4 then 3 else ?i) < 4" by (cases "?i \<ge> 4") auto
    then have "[34, 26, 18, 10 :: int] ! nat (if ?i \<ge> 4 then 3 else ?i) \<in> {34, 26, 18, 10}" by (rule af_index)
    then have "[34, 26, 18, 10 :: int] ! nat (if ?i \<ge> 4 then 3 else ?i) \<in> {0..63}" by auto
    then show ?thesis using True by (simp only: eq Let_def) simp
  next
    case f: False
    show ?thesis
    proof (cases "c = 0 \<or> c = e \<or> c = n - 1")
      case True
      then show ?thesis using f by (auto simp: eq)
    next
      case g: False
      then have lt: "e < c" "c < n - 1" using f c by auto
      have "(c - e) * 8 div (n - 1 - e) \<le> (n - 1 - e) * 8 div (n - 1 - e)" using lt by (intro zdiv_mono1) auto
      also have "\<dots> = 8" by (rule nonzero_mult_div_cancel_left) (use lt in simp)
      finally have "(c - e) * 8 div (n - 1 - e) \<le> 8" .
      moreover have "0 \<le> (c - e) * 8 div (n - 1 - e)" using lt by (intro pos_imp_zdiv_nonneg_iff [THEN iffD2]) auto
      ultimately show ?thesis using f g by (simp only: eq) simp
    qed
  qed
qed

lemma dscpFor_range: "list_all (\<lambda>m. m \<le> 63) (q_classDSCP c) \<Longrightarrow> dscpFor (Some c) k \<in> {0..63}"
  using DefaultClassDSCP_range [of k "q_classes c" "q_defClass c"]
  by (auto simp: dscpFor_def list_all_length)

text \<open>A classifier built from any configuration stays in range: it has at least one class,
  every packet (readable or not) is put into one of its classes, and unless a configured mark is
  above 63 the mark of every class is one of the 64 codepoints, so marking never refuses it.\<close>
theorem classifier_in_range:
  assumes "c = NewClassifier classes defClass rules marks" "list_all (\<lambda>m. m \<le> 63) marks"
  shows "0 < numClasses (Some c) \<and> 0 \<le> classify (Some c) pkt \<and> classify (Some c) pkt < numClasses (Some c) \<and>
    dscpFor (Some c) k \<in> {0..63}"
proof -
  have "q_classDSCP c = marks" by (simp add: assms(1) NewClassifier_def Let_def)
  then have "dscpFor (Some c) k \<in> {0..63}" using assms(2) by (intro dscpFor_range) simp
  then show ?thesis using NewClassifier_range(1,2) [of classes defClass rules marks pkt] NewClassifier_range(3) [of classes defClass rules marks]
      assms(1) by blast
qed

lemma classifier_in_range_witness:
  "classify (Some (NewClassifier 0 9 [] [46])) [] = 0 \<and> dscpFor (Some (NewClassifier 0 9 [] [46])) 5 \<in> {0..63}"
  using classifier_in_range [of "NewClassifier 0 9 [] [46]" 0 9 "[]" "[46]" "[]" 5] by (simp add: numClasses_def NewClassifier_def)

text \<open>Traffic no rule matches goes to the lowest class by default, and from three classes on that
  class is marked as scavenger (8), not as default (0).\<close>

lemma default_class_is_scavenger:
  assumes "3 \<le> classes"
  shows "dscpFor (Some (NewClassifier classes (-1) [] [])) (classify (Some (NewClassifier classes (-1) [] [])) pkt) = 8"
proof -
  have "classify (Some (NewClassifier classes (-1) [] [])) pkt = classes - 1"
    using assms by (simp add: classify_def NewClassifier_def split: option.splits prod.splits)
  moreover have "classes - 1 \<noteq> classes div 2" "classes div 2 \<noteq> 0" using assms by presburger+
  ultimately show ?thesis using assms by (simp add: dscpFor_def NewClassifier_def DefaultClassDSCP_def Let_def)
qed

section \<open>Marks are read back\<close>

lemma parseL4_cases:
  assumes "parseL4 pkt = Some (proto, sp, dp, d)"
  obtains "drop_bit 4 (pkt ! 0) = 4" "20 \<le> length pkt" "20 \<le> unat (pkt ! 0 AND 0x0f) * 4"
      "unat (pkt ! 0 AND 0x0f) * 4 \<le> length pkt"
  | "drop_bit 4 (pkt ! 0) = 6" "40 \<le> length pkt"
  using assms by (auto simp: parseL4_def Let_def not_le not_less split: if_splits)

lemma nibbles: "drop_bit 4 ((a AND 0xf0) OR drop_bit 4 t) = drop_bit 4 (a :: byte)"
    "((a AND 0xf0) OR drop_bit 4 t) AND 0x0f = drop_bit 4 (t :: byte)"
    "drop_bit 4 ((b AND 0x0f) OR push_bit 4 t) = (t AND 0x0f :: byte)"
    "push_bit 4 (drop_bit 4 t) OR (t AND 0x0f) = (t :: byte)"
proof -
  have m: "x AND 0x0f = take_bit 4 x" for x :: byte by (simp add: take_bit_eq_mask mask_eq_exp_minus_1)
  have h: "x AND 0xf0 = push_bit 4 (drop_bit 4 x)" for x :: byte
  proof -
    have "(0xf0 :: byte) = push_bit 4 0x0f" by simp
    then have "x AND 0xf0 = x AND push_bit 4 (mask 4)" by (simp add: mask_eq_exp_minus_1)
    then show ?thesis by (auto simp: bit_simps intro!: bit_word_eqI)
  qed
  have bl: "bit x (4 + n) \<Longrightarrow> n < 4" for x :: byte and n using bit_imp_le_length [of x "4 + n"] by simp
  show "drop_bit 4 ((a AND 0xf0) OR drop_bit 4 t) = drop_bit 4 a"
      "((a AND 0xf0) OR drop_bit 4 t) AND 0x0f = drop_bit 4 t"
      "drop_bit 4 ((b AND 0x0f) OR push_bit 4 t) = (t AND 0x0f :: byte)"
      "push_bit 4 (drop_bit 4 t) OR (t AND 0x0f) = t"
    unfolding m h using bl by (auto simp: bit_simps intro!: bit_word_eqI)
qed

text \<open>A mark is read back as it was written: on any packet the classifier can read, setting a
  codepoint of 0 to 63 leaves protocol, ports and length as they were, the codepoint becomes the
  new one, and an IPv4 header whose mark changed has a valid checksum afterwards.\<close>
theorem mark_read_back:
  assumes "parseL4 pkt = Some (proto, sp, dp, d0)" "0 \<le> d" "d \<le> 63"
  shows "parseL4 (setDSCP pkt d) = Some (proto, sp, dp, nat d) \<and>
    (pkt ! 0 < 0x50 \<and> setDSCP pkt d \<noteq> pkt \<longrightarrow> ones (take (unat (pkt ! 0 AND 0x0f) * 4) (setDSCP pkt d)) 0 = 0)"
  using assms(1)
proof (cases rule: parseL4_cases)
  case 1
  let ?q = "setDSCP pkt d"
  let ?ihl = "unat (pkt ! 0 AND 0x0f) * 4"
  let ?t = "push_bit 2 (of_int d) OR (pkt ! 1 AND 3) :: byte"
  have nth: "i < length pkt \<Longrightarrow> i \<noteq> 1 \<Longrightarrow> i \<noteq> 10 \<Longrightarrow> i \<noteq> 11 \<Longrightarrow> ?q ! i = pkt ! i" for i
    using 1 by (intro setDSCP_nth) auto
  have q0: "?q ! 0 = pkt ! 0" "?q ! 9 = pkt ! 9" using nth 1(2) by force+
  have q1: "?q ! 1 = ?t"
    using 1 assms(2,3) by (auto simp: setDSCP_def Let_def nth_wr16)
  have rd: "20 \<le> i \<Longrightarrow> i + 1 < length pkt \<Longrightarrow> rd16 ?q i = rd16 pkt i" for i
    by (rule rd16_cong) (simp_all add: nth)
  have "parseL4 ?q = Some (proto, sp, dp, nat d)"
    using assms(1) 1 q0 q1 rd [of ?ihl] rd [of "?ihl + 2"] dscp_bits(1) [OF assms(2,3), of "pkt ! 1"]
    by (auto simp: parseL4_def Let_def split: if_splits)
  moreover have "ones (take ?ihl ?q) 0 = 0" if "?q \<noteq> pkt"
  proof -
    let ?h = "\<lparr>h_is6 = False, l4off = ?ihl, h_proto = 0, h_src = NoAddr, h_dst = NoAddr, h_sport = 0, h_dport = 0\<rparr>"
    have "?q = fix_ip (pkt[1 := ?t]) ?h"
      using that 1 assms(2,3) by (auto simp: setDSCP_def fix_ip_csum Let_def split: if_splits)
    moreover have "unat (pkt ! 0 AND 0x0f) \<le> 15"
      using word_and_le1 [of "pkt ! 0" "0x0f"] by (simp add: word_le_nat_alt)
    ultimately show ?thesis using 1 fix_ip_valid [of ?h "pkt[1 := ?t]"] by simp
  qed
  ultimately show ?thesis by simp
next
  case 2
  let ?q = "setDSCP pkt d"
  let ?e = "(push_bit 4 (pkt ! 0 AND 0x0f) OR drop_bit 4 (pkt ! 1)) :: byte"
  let ?t = "push_bit 2 (of_int d) OR (?e AND 3) :: byte"
  have q: "?q = pkt[0 := (pkt ! 0 AND 0xf0) OR drop_bit 4 ?t, 1 := (pkt ! 1 AND 0x0f) OR push_bit 4 ?t]"
    using 2 assms(2,3) by (simp add: setDSCP_def Let_def)
  have ne: "pkt \<noteq> []" using 2(2) by auto
  have rd: "2 \<le> i \<Longrightarrow> rd16 ?q i = rd16 pkt i" for i unfolding q by (rule rd16_cong) simp_all
  have "?q ! 6 = pkt ! 6" unfolding q by simp
  moreover have "drop_bit 4 (?q ! 0) = 6" using 2 ne unfolding q by (simp add: nibbles)
  moreover have "push_bit 4 (?q ! 0 AND 0x0f) OR drop_bit 4 (?q ! 1) = ?t"
  proof -
    have "?q ! 0 = (pkt ! 0 AND 0xf0) OR drop_bit 4 ?t" "?q ! 1 = (pkt ! 1 AND 0x0f) OR push_bit 4 ?t"
      using 2(2) ne unfolding q by simp_all
    then show ?thesis by (simp only: nibbles)
  qed
  ultimately have "parseL4 ?q = Some (proto, sp, dp, nat d)"
    using assms(1) 2 rd [of 40] rd [of 42] dscp_bits(1) [OF assms(2,3), of ?e]
    by (auto simp: parseL4_def Let_def simp del: nibbles split: if_splits)
  moreover have "\<not> pkt ! 0 < 0x50"
  proof -
    have "unat (drop_bit 4 (pkt ! 0)) = 6" using 2 by simp
    then have "drop_bit 4 (unat (pkt ! 0)) = 6" by (simp only: unat_drop_bit_eq)
    then have "unat (pkt ! 0) div 16 = 6" by (simp add: drop_bit_eq_div)
    then show ?thesis by (simp add: word_less_nat_alt)
  qed
  ultimately show ?thesis by simp
qed

lemma mark_read_back_witness:
  "parseL4 (setDSCP ([0x45,0,0,24,0,0,0,0,64,6,0,0,10,0,0,1,10,0,0,2] @ [0,22,0,80]) 46) = Some (6, 22, 80, 46)"
proof -
  have "parseL4 ([0x45,0,0,24,0,0,0,0,64,6,0,0,10,0,0,1,10,0,0,2] @ [0,22,0,80]) = Some (6, 22, 80, 0)" by code_simp
  from mark_read_back [OF this, of 46] show ?thesis by simp
qed

end
