(* ===== verification/Shaper_Order.thy ===== *)
theory Shaper_Order
  imports Qos
begin

text \<open>
  What the egress shaper promises: it is a priority queue with a byte bound per class. The
  specification keeps one list of the packets waiting, in order of arrival; the shaper's
  class queues and byte counters implement it step by step.
\<close>

datatype 'p sh_event = Enqueue 'p bytes | Turn "int \<Rightarrow> bool"

datatype 'p sh_out = Queued bytes | TailDrop bytes | Turned "'p turn"

fun sh_step :: "'p sh_event \<Rightarrow> 'p shaper \<Rightarrow> 'p sh_out \<times> 'p shaper" where
  "sh_step (Enqueue ps pkt) s =
     (case enqueue ps pkt s of (ok, pkt', s') \<Rightarrow> (if ok then Queued pkt' else TailDrop pkt', s'))"
| "sh_step (Turn ok) s = (case run_turn ok s of (t, s') \<Rightarrow> (Turned t, s'))"

fun sh_run :: "'p sh_event list \<Rightarrow> 'p shaper \<Rightarrow> 'p sh_out list" where
  "sh_run [] s = []"
| "sh_run (e # es) s = (case sh_step e s of (out, s') \<Rightarrow> out # sh_run es s')"

section \<open>The specification\<close>

text \<open>Waiting packets with their class; a class takes a packet while its bytes, overhead included,
  stay within the cap, and a turn sends the oldest packet of the best class.\<close>

type_synonym 'p waiting = "(nat \<times> 'p \<times> bytes) list"

definition waiting_bytes :: "nat \<Rightarrow> 'p waiting \<Rightarrow> int" where
  "waiting_bytes c w = sum_list (map (\<lambda>(_, _, pkt). sh_cost pkt) (filter (\<lambda>e. fst e = c) w))"

definition best :: "'p waiting \<Rightarrow> (nat \<times> 'p \<times> bytes) option" where
  "best w = find (\<lambda>e. list_all (\<lambda>e'. fst e \<le> fst e') w) w"

fun spec_step :: "classifier option \<Rightarrow> int \<Rightarrow> 'p sh_event \<Rightarrow> 'p waiting \<Rightarrow> 'p sh_out \<times> 'p waiting" where
  "spec_step co cap (Enqueue ps pkt0) w =
     (let n = numClasses co;
          c = nat (if classify co pkt0 < 0 \<or> classify co pkt0 \<ge> n then n - 1 else classify co pkt0);
          pkt = markDSCP co pkt0 (int c)
      in if waiting_bytes c w + sh_cost pkt > cap then (TailDrop pkt, w) else (Queued pkt, w @ [(c, ps, pkt)]))"
| "spec_step co cap (Turn ok) w =
     (case best w of None \<Rightarrow> (Turned TurnIdle, w)
      | Some (c, ps, pkt) \<Rightarrow>
          if ok (sh_cost pkt) then (Turned (TurnSent ps pkt), remove1 (c, ps, pkt) w) else (Turned TurnNoTokens, w))"

fun spec_run :: "classifier option \<Rightarrow> int \<Rightarrow> 'p sh_event list \<Rightarrow> 'p waiting \<Rightarrow> 'p sh_out list" where
  "spec_run co cap [] w = []"
| "spec_run co cap (e # es) w = (case spec_step co cap e w of (out, w') \<Rightarrow> out # spec_run co cap es w')"

section \<open>The simulation\<close>

definition class_queue :: "nat \<Rightarrow> 'p waiting \<Rightarrow> 'p shapedPkt list" where
  "class_queue c w = map snd (filter (\<lambda>e. fst e = c) w)"

definition shaper_rel :: "classifier option \<Rightarrow> int \<Rightarrow> 'p shaper \<Rightarrow> 'p waiting \<Rightarrow> bool" where
  "shaper_rel co cap s w \<longleftrightarrow> sh_cls s = co \<and> classCap s = cap \<and>
     length (sh_classes s) = nat (numClasses co) \<and> length (classBytes s) = nat (numClasses co) \<and>
     (\<forall>e \<in> set w. fst e < nat (numClasses co)) \<and>
     (\<forall>c < nat (numClasses co). sh_classes s ! c = class_queue c w \<and> classBytes s ! c = waiting_bytes c w)"

lemma numClasses_pos: "0 < numClasses co"
  by (simp add: numClasses_def split: option.split)

lemma waiting_bytes_simps [simp]:
  "waiting_bytes c [] = 0"
  "waiting_bytes c (w @ w') = waiting_bytes c w + waiting_bytes c w'"
  "waiting_bytes c ((d, ps, pkt) # w) = (if d = c then sh_cost pkt else 0) + waiting_bytes c w"
  by (simp_all add: waiting_bytes_def)

lemma class_queue_simps [simp]:
  "class_queue c [] = []"
  "class_queue c (w @ w') = class_queue c w @ class_queue c w'"
  "class_queue c (e # w) = (if fst e = c then snd e # class_queue c w else class_queue c w)"
  by (simp_all add: class_queue_def)

lemma enqueue_sim:
  assumes r: "shaper_rel co cap s w" and s1: "sh_step (Enqueue ps pkt) s = (out, s')"
  shows "\<exists>w'. spec_step co cap (Enqueue ps pkt) w = (out, w') \<and> shaper_rel co cap s' w'"
proof -
  let ?n = "numClasses co"
  let ?c = "nat (if classify co pkt < 0 \<or> classify co pkt \<ge> ?n then ?n - 1 else classify co pkt)"
  have l: "int (length (sh_classes s)) = ?n" using r numClasses_pos [of co] by (simp add: shaper_rel_def)
  have c: "?c < nat ?n" using numClasses_pos [of co] by auto
  have cls: "sh_cls s = co" "classCap s = cap" using r by (auto simp: shaper_rel_def)
  have q: "sh_classes s ! ?c = class_queue ?c w" "classBytes s ! ?c = waiting_bytes ?c w"
    using r c by (simp_all only: shaper_rel_def)
  let ?pkt = "markDSCP co pkt (int ?c)"
  show ?thesis
  proof (cases "waiting_bytes ?c w + sh_cost ?pkt > cap")
    case True
    then have "enqueue ps pkt s = (False, ?pkt, s)"
      by (simp only: enqueue_def Let_def l cls q if_True)
    then show ?thesis using s1 r True by (simp add: Let_def)
  next
    case False
    define d where "d = ?c"
    define m where "m = ?pkt"
    have e: "enqueue ps pkt s = (True, m, s\<lparr>sh_classes := (sh_classes s)[d := class_queue d w @ [(ps, m)]],
        classBytes := (classBytes s)[d := waiting_bytes d w + sh_cost m]\<rparr>)"
      using False by (simp only: enqueue_def Let_def l cls q if_False d_def m_def)
    then have s': "out = Queued m" "s' = s\<lparr>sh_classes := (sh_classes s)[d := class_queue d w @ [(ps, m)]],
        classBytes := (classBytes s)[d := waiting_bytes d w + sh_cost m]\<rparr>" using s1 by simp_all
    have "spec_step co cap (Enqueue ps pkt) w = (out, w @ [(d, ps, m)])"
      using False unfolding s'(1) m_def d_def by (simp only: spec_step.simps Let_def if_False)
    moreover have "shaper_rel co cap s' (w @ [(d, ps, m)])"
      using r c unfolding d_def [symmetric] s'(2) by (auto simp: shaper_rel_def nth_list_update)
    ultimately show ?thesis by blast
  qed
qed

lemma waiting_bytes_queue: "waiting_bytes c w = sum_list (map (sh_cost \<circ> snd) (class_queue c w))"
  by (simp add: waiting_bytes_def class_queue_def comp_def case_prod_beta')

lemma pick_from_None: "pick_from i qs = None \<longleftrightarrow> (\<forall>q \<in> set qs. q = [])"
  by (induction qs arbitrary: i) (auto split: list.splits)

lemma pick_from_Some:
  "pick_from i qs = Some (k, x) \<Longrightarrow>
    i \<le> k \<and> k - i < length qs \<and> (\<exists>r. qs ! (k - i) = x # r) \<and> (\<forall>j < k - i. qs ! j = [])"
proof (induction qs arbitrary: i)
  case (Cons q qs)
  show ?case
  proof (cases q)
    case Nil
    then have "i + 1 \<le> k \<and> k - (i + 1) < length qs \<and> (\<exists>r. qs ! (k - (i + 1)) = x # r) \<and> (\<forall>j < k - (i + 1). qs ! j = [])"
      using Cons by simp
    then show ?thesis using Nil by (auto simp: nth_Cons' Suc_diff_Suc)
  qed (use Cons(2) in auto)
qed simp

lemma find_filter: "find P xs = (case filter P xs of [] \<Rightarrow> None | x # _ \<Rightarrow> Some x)"
  by (induction xs) auto

lemma turn_sim:
  assumes r: "shaper_rel co cap s w" and s1: "sh_step (Turn ok) s = (out, s')"
  shows "\<exists>w'. spec_step co cap (Turn ok) w = (out, w') \<and> shaper_rel co cap s' w'"
proof -
  let ?n = "nat (numClasses co)"
  have l: "length (sh_classes s) = ?n" "length (classBytes s) = ?n" and lt: "\<forall>e \<in> set w. fst e < ?n"
    and q: "\<And>c. c < ?n \<Longrightarrow> sh_classes s ! c = class_queue c w" "\<And>c. c < ?n \<Longrightarrow> classBytes s ! c = waiting_bytes c w"
    using r by (simp_all add: shaper_rel_def)
  show ?thesis
  proof (cases "pickLocked s")
    case None
    have "w = []"
    proof (rule ccontr)
      assume "w \<noteq> []"
      then obtain e where e: "e \<in> set w" by (cases w) auto
      then have "fst e < ?n" "class_queue (fst e) w \<noteq> []" using lt by (auto simp: class_queue_def filter_empty_conv)
      then show False using None l q by (metis nth_mem pickLocked_def pick_from_None)
    qed
    moreover have "run_turn ok s = (TurnIdle, s)" using None by (simp add: run_turn_def)
    ultimately show ?thesis using s1 r by (simp add: best_def)
  next
    case (Some y)
    obtain k ps pkt where y: "y = (k, ps, pkt)" by (cases y) auto
    have p: "k < ?n" "\<exists>t. sh_classes s ! k = (ps, pkt) # t" "\<forall>j<k. sh_classes s ! j = []"
      using pick_from_Some [of 0 "sh_classes s" k "(ps, pkt)"] Some y l by (auto simp: pickLocked_def)
    then obtain t where t: "class_queue k w = (ps, pkt) # t" using q by auto
    have ge: "k \<le> fst e" if "e \<in> set w" for e
    proof (rule ccontr)
      assume "\<not> k \<le> fst e"
      then have "class_queue (fst e) w = []" using p q by (metis less_trans not_le)
      then show False using that by (auto simp: class_queue_def filter_empty_conv)
    qed
    obtain u where u: "filter (\<lambda>e. fst e = k) w = (k, ps, pkt) # u" "t = map snd u"
    proof -
      from t obtain e u where eu: "filter (\<lambda>e. fst e = k) w = e # u" "snd e = (ps, pkt)" "t = map snd u"
        by (auto simp: class_queue_def)
      have "e \<in> set (filter (\<lambda>e. fst e = k) w)" unfolding eu(1) by simp
      then have "fst e = k" by simp
      then have "e = (k, ps, pkt)" using eu(2) by (simp add: prod_eq_iff)
      then show ?thesis using that eu by blast
    qed
    have mem: "(k, ps, pkt) \<in> set w" using u(1) by (metis filter_is_subset list.set_intros(1) subsetD)
    have fk: "find (\<lambda>e. list_all (\<lambda>e'. fst e \<le> fst e') w) w = find (\<lambda>e. fst e = k) w"
    proof (rule find_cong [OF refl])
      fix e assume e: "e \<in> set w"
      show "list_all (\<lambda>e'. fst e \<le> fst e') w \<longleftrightarrow> fst e = k"
        using ge [OF e] mem by (metis antisym fst_conv ge list_all_iff)
    qed
    have best: "best w = Some (k, ps, pkt)" unfolding best_def fk by (simp add: find_filter u)
    have run: "run_turn ok s = (if ok (sh_cost pkt) then
        (TurnSent ps pkt, s\<lparr>sh_classes := (sh_classes s)[k := t], classBytes := (classBytes s)[k := waiting_bytes k w - sh_cost pkt]\<rparr>)
        else (TurnNoTokens, s))"
      using Some y p(1) q t by (simp add: run_turn_def Let_def)
    have rest: "class_queue c (remove1 (k, ps, pkt) w) = (if c = k then t else class_queue c w)" for c
    proof (cases "c = k")
      case True
      then show ?thesis by (simp add: class_queue_def filter_remove1 u)
    next
      case False
      then have "(k, ps, pkt) \<notin> set (filter (\<lambda>e. fst e = c) w)" by simp
      then show ?thesis using False by (simp add: class_queue_def filter_remove1 remove1_idem)
    qed
    have "shaper_rel co cap (s\<lparr>sh_classes := (sh_classes s)[k := t],
        classBytes := (classBytes s)[k := waiting_bytes k w - sh_cost pkt]\<rparr>) (remove1 (k, ps, pkt) w)"
      using r p(1) t by (auto simp: shaper_rel_def rest nth_list_update waiting_bytes_queue dest: notin_set_remove1 set_remove1_subset [THEN subsetD])
    then show ?thesis using s1 r by (cases "ok (sh_cost pkt)") (auto simp: run best)
  qed
qed

lemma step_sim: "shaper_rel co cap s w \<Longrightarrow> sh_step e s = (out, s') \<Longrightarrow>
    \<exists>w'. spec_step co cap e w = (out, w') \<and> shaper_rel co cap s' w'"
  by (cases e) (auto dest: enqueue_sim turn_sim simp del: sh_step.simps spec_step.simps)

lemma run_sim: "shaper_rel co cap s w \<Longrightarrow> sh_run es s = spec_run co cap es w"
proof (induction es arbitrary: s w)
  case (Cons e es)
  obtain out s' where s: "sh_step e s = (out, s')" by force
  then show ?case using step_sim [OF Cons(2) s] Cons(1) by (auto simp del: sh_step.simps spec_step.simps)
qed simp

lemma newShaper_rel: "newShaper burst queue co = (s, b) \<Longrightarrow> shaper_rel co (if queue \<le> 0 then defaultShaperQueueBytes else queue) s []"
  by (auto simp: newShaper_def shaper_rel_def Let_def)

text \<open>C18: The shaper is a priority queue with bounded classes. Whatever packets are queued and
  whatever the token bucket answers, it gives the same answers as the specification: a packet is
  marked, then refused exactly when the bytes of its class, overhead included, would exceed the cap,
  and a turn sends the oldest packet of the best class waiting (and nothing else); so each class is
  first-in first-out, no packet is lost, repeated or sent before a better class is empty, and the
  drainer sees work exactly when some packet waits.\<close>
theorem shaper_is_priority_queue:
  "sh_run es (fst (newShaper burst queue co)) =
   spec_run co (if queue \<le> 0 then defaultShaperQueueBytes else queue) es []"
  by (rule run_sim, rule newShaper_rel, rule prod.collapse [symmetric])

end
