(* ===== verification/Wire_Reader.thy ===== *)
theory Wire_Reader
  imports Net_Addr "HOL-Library.Monad_Syntax"
begin

text \<open>
  The bounds-checked byte cursor of internal/mesh/handshake.go and control.go, and the fields
  both codecs share: length-prefixed strings, port lists, endpoints. A reader is its unread
  suffix; a read gives \<open>None\<close> where the code's \<open>ok\<close> is false (a \<open>take\<close> that fails does not
  move the cursor, and after any other failed read the callers stop). A Go string is a list of
  characters, one per byte; the zero \<open>netip.AddrPort\<close> has no address.
\<close>

type_synonym reader = bytes

definition r_take :: "nat \<Rightarrow> reader \<Rightarrow> (bytes \<times> reader) option" where
  "r_take n r = (if n > length r then None else Some (take n r, drop n r))"

definition r_byte :: "reader \<Rightarrow> (byte \<times> reader) option" where
  "r_byte r = do { (s, r) \<leftarrow> r_take 1 r; Some (s ! 0, r) }"

definition r_u16 :: "reader \<Rightarrow> (16 word \<times> reader) option" where
  "r_u16 r = do { (s, r) \<leftarrow> r_take 2 r; Some (get16 s, r) }"

definition r_u32 :: "reader \<Rightarrow> (32 word \<times> reader) option" where
  "r_u32 r = do { (s, r) \<leftarrow> r_take 4 r; Some (get32 s, r) }"

definition r_u64 :: "reader \<Rightarrow> (64 word \<times> reader) option" where
  "r_u64 r = do { (s, r) \<leftarrow> r_take 8 r; Some (get64 s, r) }"

definition str_bytes :: "string \<Rightarrow> bytes" where "str_bytes s = map of_char s"

definition bytes_str :: "bytes \<Rightarrow> string" where "bytes_str b = map (\<lambda>x. char_of (unat x)) b"

definition clip255 :: "'a list \<Rightarrow> 'a list" where "clip255 xs = take 255 xs"

definition appendLenStr :: "bytes \<Rightarrow> string \<Rightarrow> bytes" where
  "appendLenStr b s0 =
     (let s = (if length s0 > 255 then clip255 s0 else s0) in b @ [of_nat (length s)] @ str_bytes s)"

definition r_lenStr :: "reader \<Rightarrow> (string \<times> reader) option" where
  "r_lenStr r = do { (n, r) \<leftarrow> r_byte r; (s, r) \<leftarrow> r_take (unat n) r; Some (bytes_str s, r) }"

section \<open>Ports\<close>

fun put_ports :: "16 word list \<Rightarrow> bytes" where
  "put_ports [] = []"
| "put_ports (p # ps) = put16 p @ put_ports ps"

definition appendPortList :: "bytes \<Rightarrow> 16 word list \<Rightarrow> bytes" where
  "appendPortList b ports =
     (let n = (if length ports > 255 then 255 else length ports)
      in b @ [of_nat n] @ put_ports (take n ports))"

fun read_ports :: "nat \<Rightarrow> reader \<Rightarrow> (16 word list \<times> reader) option" where
  "read_ports 0 r = Some ([], r)"
| "read_ports (Suc n) r = do { (pb, r) \<leftarrow> r_take 2 r; (ps, r) \<leftarrow> read_ports n r; Some (get16 pb # ps, r) }"

definition readPortList :: "reader \<Rightarrow> (16 word list \<times> reader) option" where
  "readPortList r = do { (n, r) \<leftarrow> r_byte r; read_ports (unat n) r }"

section \<open>Endpoints\<close>

type_synonym addrport = "addr \<times> 16 word"

definition appendEndpoint :: "bytes \<Rightarrow> addrport \<Rightarrow> bytes" where
  "appendEndpoint b ep =
     (let a = Unmap (fst ep)
      in if Is4 a then b @ [4] @ addr_bytes a @ put16 (snd ep)
         else if Is6 a then b @ [6] @ addr_bytes a @ put16 (snd ep)
         else b @ [0])"

definition r_endpoint :: "reader \<Rightarrow> (addrport \<times> reader) option" where
  "r_endpoint r = do {
     (fam, r) \<leftarrow> r_byte r;
     if fam = 0 then Some ((NoAddr, 0), r)
     else if fam = 4 then do { (v, r) \<leftarrow> r_take 4 r; (p, r) \<leftarrow> r_u16 r; Some ((AddrFrom4 v, p), r) }
     else if fam = 6 then do { (v, r) \<leftarrow> r_take 16 r; (p, r) \<leftarrow> r_u16 r; Some ((AddrFrom16 v, p), r) }
     else None }"

definition maxLocalEndpoints :: nat where "maxLocalEndpoints = 8"

definition appendEndpointList :: "bytes \<Rightarrow> addrport list \<Rightarrow> bytes" where
  "appendEndpointList b eps =
     (let n = (if length eps > maxLocalEndpoints then maxLocalEndpoints else length eps)
      in foldl appendEndpoint (b @ [of_nat n]) (take n eps))"

fun read_endpoints :: "nat \<Rightarrow> reader \<Rightarrow> (addrport list \<times> reader) option" where
  "read_endpoints 0 r = Some ([], r)"
| "read_endpoints (Suc n) r = do {
     (ep, r) \<leftarrow> r_endpoint r; (eps, r) \<leftarrow> read_endpoints n r;
     Some (if IsValid (fst ep) then ep # eps else eps, r) }"

definition readEndpointList :: "reader \<Rightarrow> (addrport list \<times> reader) option" where
  "readEndpointList r = do {
     (n, r) \<leftarrow> r_byte r;
     if unat n > maxLocalEndpoints then None else read_endpoints (unat n) r }"

section \<open>What is read is what was written\<close>

text \<open>Every field written in front of any bytes is read back and the reader then stands on them.\<close>

lemma r_take_append [wire_simps]: "n = length xs \<Longrightarrow> r_take n (xs @ r) = Some (xs, r)"
  by (simp add: r_take_def)

lemma r_byte_Cons [wire_simps]: "r_byte (x # r) = Some (x, r)"
  by (simp add: r_byte_def r_take_def)

lemma r_byte_Nil [wire_simps]: "r_byte [] = None"
  by (simp add: r_byte_def r_take_def)

lemma r_u16_put [wire_simps]: "r_u16 (put16 w @ r) = Some (w, r)"
  by (simp add: r_u16_def wire_simps)

lemma r_u32_put [wire_simps]: "r_u32 (put32 w @ r) = Some (w, r)"
  by (simp add: r_u32_def wire_simps)

lemma r_u64_put [wire_simps]: "r_u64 (put64 w @ r) = Some (w, r)"
  by (simp add: r_u64_def wire_simps)

lemma bytes_str_bytes [simp]: "bytes_str (str_bytes s) = s"
proof -
  have "char_of (unat (of_char c :: byte)) = c" for c :: char
  proof -
    have "(of_char c :: byte) = of_nat (of_char c)" by (simp only: of_nat_of_char)
    moreover have "(of_char c :: nat) < 256" by (metis mod_less_divisor of_char_mod_256 zero_less_numeral)
    ultimately have "unat (of_char c :: byte) = of_char c" by (simp only: unat_of_nat) simp
    then show ?thesis by (simp only: char_of_char)
  qed
  then show ?thesis by (simp add: bytes_str_def str_bytes_def comp_def)
qed

lemma length_str_bytes [simp]: "length (str_bytes s) = length s"
  by (simp add: str_bytes_def)

lemma length_clip255 [simp]: "length (clip255 xs) = min (length xs) 255"
  by (simp add: clip255_def min.commute)

lemma clip255_short [simp]: "length xs \<le> 255 \<Longrightarrow> clip255 xs = xs"
  by (simp add: clip255_def)

lemma appendLenStr_eq: "appendLenStr b s = b @ [of_nat (length (clip255 s))] @ str_bytes (clip255 s)"
  by (simp add: appendLenStr_def Let_def)

lemma unat_byte_min [simp]: "unat (of_nat (min n 255) :: byte) = min n 255"
  by (simp add: unat_of_nat)

lemma r_lenStr_put [wire_simps]:
  "r_lenStr (of_nat (length (clip255 s)) # str_bytes (clip255 s) @ r) = Some (clip255 s, r)"
  by (simp add: r_lenStr_def wire_simps)

lemma read_ports_put [wire_simps]: "n = length ps \<Longrightarrow> read_ports n (put_ports ps @ r) = Some (ps, r)"
  by (induction ps arbitrary: n) (simp_all add: wire_simps)

lemma appendPortList_eq: "appendPortList b ps = b @ [of_nat (length (clip255 ps))] @ put_ports (clip255 ps)"
  by (simp add: appendPortList_def clip255_def Let_def)

lemma readPortList_put [wire_simps]:
  "readPortList (of_nat (length (clip255 ps)) # put_ports (clip255 ps) @ r) = Some (clip255 ps, r)"
  by (simp add: readPortList_def wire_simps)

text \<open>What an endpoint becomes on the wire: unmapped, without its zone.\<close>

definition wire_ep :: "addrport \<Rightarrow> addrport" where
  "wire_ep ep = (if Unmap (fst ep) = NoAddr then (NoAddr, 0) else (WithoutZone (Unmap (fst ep)), snd ep))"

definition put_ep :: "addrport \<Rightarrow> bytes" where "put_ep ep = appendEndpoint [] ep"

lemma appendEndpoint_eq: "appendEndpoint b ep = b @ put_ep ep"
  by (simp add: put_ep_def appendEndpoint_def Let_def)

lemma r_endpoint_put [wire_simps]: "r_endpoint (put_ep ep @ r) = Some (wire_ep ep, r)"
  by (cases "Unmap (fst ep)")
    (simp_all add: put_ep_def appendEndpoint_def r_endpoint_def wire_ep_def Let_def AddrFrom4_def AddrFrom16_def wire_simps)

lemma foldl_appendEndpoint: "foldl appendEndpoint b eps = b @ concat (map put_ep eps)"
  by (induction eps arbitrary: b) (simp_all add: appendEndpoint_eq)

definition wire_eps :: "addrport list \<Rightarrow> addrport list" where
  "wire_eps eps = filter (IsValid \<circ> fst) (map wire_ep (take maxLocalEndpoints eps))"

lemma read_endpoints_put:
  "n = length eps \<Longrightarrow> read_endpoints n (concat (map put_ep eps) @ r) = Some (filter (IsValid \<circ> fst) (map wire_ep eps), r)"
  by (induction eps arbitrary: n) (simp_all add: wire_simps)

lemma appendEndpointList_eq:
  "appendEndpointList b eps = b @ [of_nat (min (length eps) maxLocalEndpoints)] @ concat (map put_ep (take maxLocalEndpoints eps))"
  by (simp add: appendEndpointList_def foldl_appendEndpoint Let_def min_def)

lemma readEndpointList_put [wire_simps]:
  "readEndpointList (of_nat (min (length eps) maxLocalEndpoints) # concat (map put_ep (take maxLocalEndpoints eps)) @ r) =
    Some (wire_eps eps, r)"
proof -
  have "unat (of_nat (min (length eps) maxLocalEndpoints) :: byte) = min (length eps) maxLocalEndpoints"
    by (simp add: unat_of_nat maxLocalEndpoints_def)
  moreover have "read_endpoints (min (length eps) maxLocalEndpoints) (concat (map put_ep (take maxLocalEndpoints eps)) @ r) =
      Some (wire_eps eps, r)"
    by (subst read_endpoints_put) (simp_all add: wire_eps_def min.commute)
  ultimately show ?thesis by (simp add: readEndpointList_def wire_simps)
qed

end
