(* ===== verification/Handshake_Codec.thy ===== *)
theory Handshake_Codec
  imports Wire_Reader
begin

text \<open>
  The plaintext exchanged inside a handshake (internal/mesh/handshake.go): its record, encoder
  and decoder. The mandatory part must be complete; what follows it was added over time and may be
  missing, and then the fields keep their zero values. A signed time stamp is kept as its 64-bit
  pattern. \<open>Addr.Prefix\<close> masks and refuses a length that does not fit.
\<close>

record hsPayload =
  hs_Index :: "32 word"
  hs_TimeNano :: "64 word"
  hs_Ephemeral :: bytes
  hs_Overlay4 :: addr
  hs_Overlay6 :: addr
  hs_NodeID :: string
  hs_Hostname :: string
  hs_Subnet4 :: prefix
  hs_Subnet6 :: prefix
  hs_Name :: string
  hs_Managed :: bool
  hs_Manager :: bool
  hs_SelfSeed :: bool
  hs_WebPort :: "16 word"
  hs_TCPPort :: "16 word"
  hs_ExtraTCPPorts :: "16 word list"
  hs_ExtraUDPPorts :: "16 word list"
  hs_AllowRelay :: bool
  hs_PartialMesh :: bool
  hs_PartialKnown :: bool
  hs_RelayKnown :: bool
  hs_LocalEndpoints :: "addrport list"
  hs_BGPASN :: "32 word"
  hs_Version :: string

definition ephemeralLen :: nat where "ephemeralLen = 32"
definition flagHasV4 :: byte where "flagHasV4 = 1"
definition flagHasV6 :: byte where "flagHasV6 = 2"
definition flagManaged :: byte where "flagManaged = 4"
definition flagManager :: byte where "flagManager = 8"
definition flagRelayKnown :: byte where "flagRelayKnown = 16"
definition flagAllowRelay :: byte where "flagAllowRelay = 32"
definition flagPartialKnown :: byte where "flagPartialKnown = 64"
definition flagPartialMesh :: byte where "flagPartialMesh = 128"

lemmas hs_flags = flagHasV4_def flagHasV6_def flagManaged_def flagManager_def flagRelayKnown_def
  flagAllowRelay_def flagPartialKnown_def flagPartialMesh_def

definition fl :: "bool \<Rightarrow> byte \<Rightarrow> byte" where "fl b w = (if b then w else 0)"

definition plain6 :: "addr \<Rightarrow> bool" where "plain6 a \<longleftrightarrow> Is6 a \<and> \<not> Is4In6 a"

definition hs_head_flags :: "hsPayload \<Rightarrow> byte" where
  "hs_head_flags p =
     fl (Is4 (hs_Overlay4 p)) flagHasV4 OR fl (plain6 (hs_Overlay6 p)) flagHasV6 OR flagRelayKnown OR
     flagPartialKnown OR fl (hs_PartialMesh p) flagPartialMesh OR fl (hs_AllowRelay p) flagAllowRelay"

definition has :: "byte \<Rightarrow> byte \<Rightarrow> bool" where "has flags f \<longleftrightarrow> flags AND f \<noteq> 0"

definition hs_sub_flags :: "hsPayload \<Rightarrow> byte" where
  "hs_sub_flags p =
     fl (prefix_valid (hs_Subnet4 p) \<and> Is4 (prefix_addr (hs_Subnet4 p))) flagHasV4 OR
     fl (prefix_valid (hs_Subnet6 p) \<and> plain6 (prefix_addr (hs_Subnet6 p))) flagHasV6"

definition encodeHSPayload :: "hsPayload \<Rightarrow> bytes" where
  "encodeHSPayload p =
     (let flags = hs_head_flags p;
          nid = str_bytes (if length (hs_NodeID p) > 255 then clip255 (hs_NodeID p) else hs_NodeID p);
          hn = str_bytes (if length (hs_Hostname p) > 255 then clip255 (hs_Hostname p) else hs_Hostname p);
          b = put32 (hs_Index p) @ put64 (hs_TimeNano p) @ hs_Ephemeral p @ [flags]
            @ (if has flags flagHasV4 then addr_bytes (hs_Overlay4 p) else [])
            @ (if has flags flagHasV6 then addr_bytes (hs_Overlay6 p) else [])
            @ [of_nat (length nid)] @ nid @ [of_nat (length hn)] @ hn;
          subFlags = hs_sub_flags p;
          b = b @ [subFlags]
            @ (if has subFlags flagHasV4
               then addr_bytes (prefix_addr (hs_Subnet4 p)) @ [of_int (prefix_bits (hs_Subnet4 p))] else [])
            @ (if has subFlags flagHasV6
               then addr_bytes (prefix_addr (hs_Subnet6 p)) @ [of_int (prefix_bits (hs_Subnet6 p))] else []);
          nm = str_bytes (if length (hs_Name p) > 255 then clip255 (hs_Name p) else hs_Name p);
          mflag = fl (hs_Managed p) 1 OR fl (hs_Manager p) 2 OR fl (hs_SelfSeed p) 4;
          b = b @ [of_nat (length nm)] @ nm @ [mflag] @ put16 (hs_WebPort p) @ put16 (hs_TCPPort p);
          b = appendPortList b (hs_ExtraTCPPorts p);
          b = appendPortList b (hs_ExtraUDPPorts p);
          b = appendEndpointList b (hs_LocalEndpoints p);
          b = b @ put32 (hs_BGPASN p)
      in appendLenStr b (hs_Version p))"

section \<open>Decoding\<close>

definition zeroHS :: hsPayload where
  "zeroHS = \<lparr>hs_Index = 0, hs_TimeNano = 0, hs_Ephemeral = [], hs_Overlay4 = NoAddr, hs_Overlay6 = NoAddr,
     hs_NodeID = [], hs_Hostname = [], hs_Subnet4 = NoPrefix, hs_Subnet6 = NoPrefix, hs_Name = [],
     hs_Managed = False, hs_Manager = False, hs_SelfSeed = False, hs_WebPort = 0, hs_TCPPort = 0,
     hs_ExtraTCPPorts = [], hs_ExtraUDPPorts = [], hs_AllowRelay = False, hs_PartialMesh = False,
     hs_PartialKnown = False, hs_RelayKnown = False, hs_LocalEndpoints = [], hs_BGPASN = 0, hs_Version = []\<rparr>"

definition read_if :: "bool \<Rightarrow> nat \<Rightarrow> (bytes \<Rightarrow> addr) \<Rightarrow> reader \<Rightarrow> (addr \<times> reader) option" where
  "read_if c n mk r = (if c then do { (v, r) \<leftarrow> r_take n r; Some (mk v, r) } else Some (NoAddr, r))"

text \<open>The mandatory part: any missing byte is an error.\<close>

definition decode_head :: "reader \<Rightarrow> (hsPayload \<times> reader) option" where
  "decode_head r = do {
     (idx, r) \<leftarrow> r_u32 r;
     (ts, r) \<leftarrow> r_u64 r;
     (eph, r) \<leftarrow> r_take ephemeralLen r;
     (flags, r) \<leftarrow> r_byte r;
     (o4, r) \<leftarrow> read_if (has flags flagHasV4) 4 AddrFrom4 r;
     (o6, r) \<leftarrow> read_if (has flags flagHasV6) 16 AddrFrom16 r;
     (nidLen, r) \<leftarrow> r_byte r;
     (nid, r) \<leftarrow> r_take (unat nidLen) r;
     (hnLen, r) \<leftarrow> r_byte r;
     (hn, r) \<leftarrow> r_take (unat hnLen) r;
     Some (zeroHS\<lparr>hs_Index := idx, hs_TimeNano := ts, hs_Ephemeral := eph, hs_RelayKnown := has flags flagRelayKnown,
       hs_AllowRelay := has flags flagAllowRelay, hs_PartialKnown := has flags flagPartialKnown,
       hs_PartialMesh := has flags flagPartialMesh, hs_Overlay4 := o4, hs_Overlay6 := o6,
       hs_NodeID := bytes_str nid, hs_Hostname := bytes_str hn\<rparr>, r) }"

definition AddrPrefix :: "addr \<Rightarrow> nat \<Rightarrow> prefix option" where
  "AddrPrefix a bits = (if bits > BitLen a then None else Some (Masked (Prefix (WithoutZone a) bits)))"

definition read_subnet :: "bool \<Rightarrow> nat \<Rightarrow> (bytes \<Rightarrow> addr) \<Rightarrow> reader \<Rightarrow> (prefix \<times> reader) option" where
  "read_subnet c n mk r =
     (if c then do { (a, r) \<leftarrow> r_take n r; (bits, r) \<leftarrow> r_byte r;
                     Some (case AddrPrefix (mk a) (unat bits) of Some pfx \<Rightarrow> pfx | None \<Rightarrow> NoPrefix, r) }
      else Some (NoPrefix, r))"

text \<open>The subnets may be missing as a whole, not in part.\<close>

definition decode_subnets :: "hsPayload \<Rightarrow> reader \<Rightarrow> (hsPayload \<times> reader) option" where
  "decode_subnets p r =
     (case r_byte r of None \<Rightarrow> Some (p, r)
      | Some (subFlags, r) \<Rightarrow> do {
          (s4, r) \<leftarrow> read_subnet (has subFlags flagHasV4) 4 AddrFrom4 r;
          (s6, r) \<leftarrow> read_subnet (has subFlags flagHasV6) 16 AddrFrom16 r;
          Some (p\<lparr>hs_Subnet4 := s4, hs_Subnet6 := s6\<rparr>, r) })"

text \<open>The rest may stop anywhere. A name that is cut off is skipped: reading goes on behind its
  length.\<close>

definition decode_name :: "hsPayload \<Rightarrow> reader \<Rightarrow> hsPayload \<times> reader" where
  "decode_name p r =
     (case r_byte r of None \<Rightarrow> (p, r)
      | Some (nmLen, r) \<Rightarrow>
          (case r_take (unat nmLen) r of None \<Rightarrow> (p, r)
           | Some (nm, r) \<Rightarrow> (p\<lparr>hs_Name := bytes_str nm\<rparr>, r)))"

definition decode_lists :: "hsPayload \<Rightarrow> reader \<Rightarrow> hsPayload" where
  "decode_lists p r =
     (case readPortList r of None \<Rightarrow> p
      | Some (extraTCP, r) \<Rightarrow> (let p = p\<lparr>hs_ExtraTCPPorts := extraTCP\<rparr> in
     (case readPortList r of None \<Rightarrow> p
      | Some (extraUDP, r) \<Rightarrow> (let p = p\<lparr>hs_ExtraUDPPorts := extraUDP\<rparr> in
     (case readEndpointList r of None \<Rightarrow> p
      | Some (local, r) \<Rightarrow> (let p = p\<lparr>hs_LocalEndpoints := local\<rparr> in
     (case r_take 4 r of None \<Rightarrow> p
      | Some (asnB, r) \<Rightarrow> (let p = p\<lparr>hs_BGPASN := get32 asnB\<rparr> in
     (case r_lenStr r of None \<Rightarrow> p
      | Some (v, r) \<Rightarrow> p\<lparr>hs_Version := v\<rparr>)))))))))"

definition decode_cluster :: "hsPayload \<Rightarrow> reader \<Rightarrow> hsPayload" where
  "decode_cluster p r =
     (case r_byte r of None \<Rightarrow> p
      | Some (mflag, r) \<Rightarrow>
          (let p = p\<lparr>hs_Managed := has mflag 1, hs_Manager := has mflag 2, hs_SelfSeed := has mflag 4\<rparr>;
               (p, r) = (case r_take 2 r of None \<Rightarrow> (p, r) | Some (wp, r) \<Rightarrow> (p\<lparr>hs_WebPort := get16 wp\<rparr>, r))
           in case r_take 2 r of None \<Rightarrow> p
              | Some (tp, r) \<Rightarrow> decode_lists (p\<lparr>hs_TCPPort := get16 tp\<rparr>) r))"

definition decodeHSPayload :: "bytes \<Rightarrow> hsPayload option" where
  "decodeHSPayload b = do {
     (p, r) \<leftarrow> decode_head b;
     (p, r) \<leftarrow> decode_subnets p r;
     Some (case decode_name p r of (p, r) \<Rightarrow> decode_cluster p r) }"

section \<open>What survives the wire\<close>

text \<open>The payload as the other side sees it: strings of at most 255 bytes, the advertised addresses
  of their own family only, subnets masked, at most 8 valid local endpoints, and both modes known.\<close>

definition wire_prefix :: "(addr \<Rightarrow> bool) \<Rightarrow> prefix \<Rightarrow> prefix" where
  "wire_prefix ok p = (if prefix_valid p \<and> ok (prefix_addr p) then Masked p else NoPrefix)"

definition hs_seen :: "hsPayload \<Rightarrow> hsPayload" where
  "hs_seen p = p\<lparr>
     hs_Overlay4 := (if Is4 (hs_Overlay4 p) then hs_Overlay4 p else NoAddr),
     hs_Overlay6 := (if plain6 (hs_Overlay6 p) then WithoutZone (hs_Overlay6 p) else NoAddr),
     hs_NodeID := clip255 (hs_NodeID p), hs_Hostname := clip255 (hs_Hostname p),
     hs_Subnet4 := wire_prefix Is4 (hs_Subnet4 p), hs_Subnet6 := wire_prefix plain6 (hs_Subnet6 p),
     hs_Name := clip255 (hs_Name p), hs_ExtraTCPPorts := clip255 (hs_ExtraTCPPorts p),
     hs_ExtraUDPPorts := clip255 (hs_ExtraUDPPorts p), hs_PartialKnown := True, hs_RelayKnown := True,
     hs_LocalEndpoints := wire_eps (hs_LocalEndpoints p), hs_Version := clip255 (hs_Version p)\<rparr>"

section \<open>Round trip\<close>

text \<open>The encoding block by block.\<close>

definition head_bytes :: "hsPayload \<Rightarrow> bytes" where
  "head_bytes p = put32 (hs_Index p) @ put64 (hs_TimeNano p) @ hs_Ephemeral p @ [hs_head_flags p]
     @ (if Is4 (hs_Overlay4 p) then addr_bytes (hs_Overlay4 p) else [])
     @ (if plain6 (hs_Overlay6 p) then addr_bytes (hs_Overlay6 p) else [])
     @ (of_nat (length (clip255 (hs_NodeID p))) # str_bytes (clip255 (hs_NodeID p)))
     @ (of_nat (length (clip255 (hs_Hostname p))) # str_bytes (clip255 (hs_Hostname p)))"

definition subnet_bytes :: "(addr \<Rightarrow> bool) \<Rightarrow> prefix \<Rightarrow> bytes" where
  "subnet_bytes ok p = (if prefix_valid p \<and> ok (prefix_addr p)
     then addr_bytes (prefix_addr p) @ [of_int (prefix_bits p)] else [])"

definition cluster_flags :: "hsPayload \<Rightarrow> byte" where
  "cluster_flags p = fl (hs_Managed p) 1 OR fl (hs_Manager p) 2 OR fl (hs_SelfSeed p) 4"

definition hs_blocks :: "hsPayload \<Rightarrow> bytes list" where
  "hs_blocks p =
     [head_bytes p,
      hs_sub_flags p # subnet_bytes Is4 (hs_Subnet4 p) @ subnet_bytes plain6 (hs_Subnet6 p),
      of_nat (length (clip255 (hs_Name p))) # str_bytes (clip255 (hs_Name p)),
      [cluster_flags p],
      put16 (hs_WebPort p),
      put16 (hs_TCPPort p),
      of_nat (length (clip255 (hs_ExtraTCPPorts p))) # put_ports (clip255 (hs_ExtraTCPPorts p)),
      of_nat (length (clip255 (hs_ExtraUDPPorts p))) # put_ports (clip255 (hs_ExtraUDPPorts p)),
      of_nat (min (length (hs_LocalEndpoints p)) maxLocalEndpoints)
        # concat (map put_ep (take maxLocalEndpoints (hs_LocalEndpoints p))),
      put32 (hs_BGPASN p),
      of_nat (length (clip255 (hs_Version p))) # str_bytes (clip255 (hs_Version p))]"

lemma six_flags:
  fixes a b c d :: bool
  defines "w \<equiv> fl a 1 OR fl b 2 OR 16 OR 64 OR fl c 128 OR fl d 32"
  shows "has w 1 = a" "has w 2 = b" "has w 16" "has w 64" "has w 128 = c" "has w 32 = d"
  unfolding w_def has_def fl_def by (cases a; cases b; cases c; cases d; simp)+

lemma three_flags:
  fixes a b c :: bool
  defines "w \<equiv> fl a 1 OR fl b 2 OR fl c 4"
  shows "has w 1 = a" "has w 2 = b" "has w 4 = c" "has (fl a 1 OR fl b 2) 1 = a" "has (fl a 1 OR fl b 2) 2 = b"
  unfolding w_def has_def fl_def by (cases a; cases b; cases c; simp)+

lemma head_flags:
  "has (hs_head_flags p) flagHasV4 = Is4 (hs_Overlay4 p)" "has (hs_head_flags p) flagHasV6 = plain6 (hs_Overlay6 p)"
  "has (hs_head_flags p) flagRelayKnown" "has (hs_head_flags p) flagPartialKnown"
  "has (hs_head_flags p) flagPartialMesh = hs_PartialMesh p" "has (hs_head_flags p) flagAllowRelay = hs_AllowRelay p"
  unfolding hs_head_flags_def hs_flags by (rule six_flags)+

lemma sub_flags:
  "has (hs_sub_flags p) flagHasV4 \<longleftrightarrow> prefix_valid (hs_Subnet4 p) \<and> Is4 (prefix_addr (hs_Subnet4 p))"
  "has (hs_sub_flags p) flagHasV6 \<longleftrightarrow> prefix_valid (hs_Subnet6 p) \<and> plain6 (prefix_addr (hs_Subnet6 p))"
  unfolding hs_sub_flags_def hs_flags by (rule three_flags)+

lemma cluster_flag_bits:
  "has (cluster_flags p) 1 = hs_Managed p" "has (cluster_flags p) 2 = hs_Manager p" "has (cluster_flags p) 4 = hs_SelfSeed p"
  unfolding cluster_flags_def by (rule three_flags)+

lemma clip_if: "(if length s > 255 then clip255 s else s) = clip255 s"
  by simp

lemma encode_blocks: "encodeHSPayload p = concat (hs_blocks p)"
  by (simp add: encodeHSPayload_def Let_def head_flags sub_flags clip_if appendPortList_eq appendEndpointList_eq
      appendLenStr_eq hs_blocks_def head_bytes_def subnet_bytes_def cluster_flags_def del: length_clip255)

text \<open>Reading the blocks.\<close>

lemma read_addr4 [wire_simps]: "Is4 a \<Longrightarrow> read_if True 4 AddrFrom4 (addr_bytes a @ r) = Some (a, r)"
  by (cases a) (simp_all add: read_if_def AddrFrom4_def wire_simps)

lemma read_addr6 [wire_simps]: "plain6 a \<Longrightarrow> read_if True 16 AddrFrom16 (addr_bytes a @ r) = Some (WithoutZone a, r)"
  by (cases a) (simp_all add: read_if_def AddrFrom16_def plain6_def wire_simps)

lemma read_if_no [wire_simps]: "read_if False n mk r = Some (NoAddr, r)"
  by (simp add: read_if_def)

lemma decode_head_bytes:
  assumes "length (hs_Ephemeral p) = 32"
  shows "decode_head (head_bytes p @ r) = Some (zeroHS\<lparr>hs_Index := hs_Index p, hs_TimeNano := hs_TimeNano p,
      hs_Ephemeral := hs_Ephemeral p, hs_RelayKnown := True, hs_AllowRelay := hs_AllowRelay p, hs_PartialKnown := True,
      hs_PartialMesh := hs_PartialMesh p, hs_Overlay4 := hs_Overlay4 (hs_seen p), hs_Overlay6 := hs_Overlay6 (hs_seen p),
      hs_NodeID := clip255 (hs_NodeID p), hs_Hostname := clip255 (hs_Hostname p)\<rparr>, r)"
  using assms
  by (cases "Is4 (hs_Overlay4 p)"; cases "plain6 (hs_Overlay6 p)")
    (simp_all add: decode_head_def head_bytes_def wire_simps ephemeralLen_def head_flags hs_seen_def)

lemma read_subnet_bytes:
  assumes "prefix_wf p" "(ok, n, mk) = (Is4, 4, AddrFrom4) \<or> (ok, n, mk) = (plain6, 16, AddrFrom16)"
    "c = (prefix_valid p \<and> ok (prefix_addr p))"
  shows "read_subnet c n mk (subnet_bytes ok p @ r) = Some (wire_prefix ok p, r)"
proof (cases p)
  case NoPrefix
  then show ?thesis using assms by (simp add: read_subnet_def subnet_bytes_def wire_prefix_def)
next
  case (Prefix a b)
  have u: "unat (of_int (int b) :: byte) = b" if "b \<le> 128" using that by (simp add: unat_of_nat)
  show ?thesis
    using assms Prefix u
    by (cases a) (auto simp: read_subnet_def subnet_bytes_def wire_prefix_def plain6_def AddrFrom4_def AddrFrom16_def
        AddrPrefix_def wire_simps)
qed

lemma decode_subnets_bytes:
  assumes "prefix_wf (hs_Subnet4 p)" "prefix_wf (hs_Subnet6 p)"
  shows "decode_subnets q (hs_sub_flags p # subnet_bytes Is4 (hs_Subnet4 p) @ subnet_bytes plain6 (hs_Subnet6 p) @ r) =
    Some (q\<lparr>hs_Subnet4 := wire_prefix Is4 (hs_Subnet4 p), hs_Subnet6 := wire_prefix plain6 (hs_Subnet6 p)\<rparr>, r)"
  by (simp add: decode_subnets_def wire_simps read_subnet_bytes [OF assms(1) disjI1 [OF refl] sub_flags(1)]
      read_subnet_bytes [OF assms(2) disjI2 [OF refl] sub_flags(2)])

lemma decode_name_bytes: "decode_name q (of_nat (length (clip255 s)) # str_bytes (clip255 s) @ r) = (q\<lparr>hs_Name := clip255 s\<rparr>, r)"
  by (simp add: decode_name_def wire_simps)

lemma reads_Nil [wire_simps]:
  "r_take (Suc n) [] = None" "readPortList [] = None" "readEndpointList [] = None" "r_lenStr [] = None"
  "r_take 2 [] = None" "r_take 4 [] = None"
  by (simp_all add: r_take_def readPortList_def readEndpointList_def r_lenStr_def r_byte_Nil)

lemma take_put [wire_simps]: "r_take 2 (put16 w @ r) = Some (put16 w, r)" "r_take 4 (put32 v @ r) = Some (put32 v, r)"
  "r_take 2 (put16 w) = Some (put16 w, [])" "r_take 4 (put32 v) = Some (put32 v, [])"
  by (simp_all add: r_take_def)

lemmas block_reads = decode_head_bytes [of _ "[]", unfolded append_Nil2] decode_head_bytes decode_subnets_bytes
  decode_subnets_bytes [of _ _ "[]", unfolded append_Nil2]
  decode_name_bytes decode_name_bytes [of _ _ "[]", unfolded append_Nil2] cluster_flag_bits
  readPortList_put [of _ "[]", unfolded append_Nil2] readEndpointList_put [of _ "[]", unfolded append_Nil2] r_lenStr_put [of _ "[]", unfolded append_Nil2]

lemma hs_payload_seen:
  assumes "length (hs_Ephemeral p) = 32" "prefix_wf (hs_Subnet4 p)" "prefix_wf (hs_Subnet6 p)"
  shows "decodeHSPayload (encodeHSPayload p @ later) = Some (hs_seen p)"
  using assms
  by (simp add: encode_blocks hs_blocks_def decodeHSPayload_def block_reads decode_cluster_def decode_lists_def
      wire_simps Let_def hs_seen_def zeroHS_def del: length_clip255)

text \<open>C17: A handshake payload survives the wire: any payload with a 32-byte ephemeral key and well
  formed subnets decodes to itself as the other side is to see it (strings and port lists of at
  most 255 entries, addresses of their own family, masked subnets, at most 8 valid local endpoints,
  both modes known), and whatever a later version appends is ignored.\<close>
theorem hs_payload_roundtrip:
  assumes "length (hs_Ephemeral p) = 32" "prefix_wf (hs_Subnet4 p)" "prefix_wf (hs_Subnet6 p)"
  shows "decodeHSPayload (encodeHSPayload p @ later) = Some (hs_seen p)"
  by (rule hs_payload_seen [OF assms])

text \<open>The payload an older version sends, which knows the first k blocks of fields only.\<close>

definition hs_known :: "nat \<Rightarrow> hsPayload \<Rightarrow> hsPayload" where
  "hs_known k p = p\<lparr>
     hs_Subnet4 := (if k < 2 then NoPrefix else hs_Subnet4 p), hs_Subnet6 := (if k < 2 then NoPrefix else hs_Subnet6 p),
     hs_Name := (if k < 3 then [] else hs_Name p),
     hs_Managed := (k \<ge> 4 \<and> hs_Managed p), hs_Manager := (k \<ge> 4 \<and> hs_Manager p), hs_SelfSeed := (k \<ge> 4 \<and> hs_SelfSeed p),
     hs_WebPort := (if k < 5 then 0 else hs_WebPort p), hs_TCPPort := (if k < 6 then 0 else hs_TCPPort p),
     hs_ExtraTCPPorts := (if k < 7 then [] else hs_ExtraTCPPorts p), hs_ExtraUDPPorts := (if k < 8 then [] else hs_ExtraUDPPorts p),
     hs_LocalEndpoints := (if k < 9 then [] else hs_LocalEndpoints p), hs_BGPASN := (if k < 10 then 0 else hs_BGPASN p),
     hs_Version := (if k < 11 then [] else hs_Version p)\<rparr>"

text \<open>Payloads of older versions are understood: cut behind any of its eleven blocks of fields
  but the first, a payload decodes without error to the fields it has, all later ones at their zero
  value.\<close>
theorem hs_payload_of_older_versions:
  assumes "length (hs_Ephemeral p) = 32" "prefix_wf (hs_Subnet4 p)" "prefix_wf (hs_Subnet6 p)" "1 \<le> k" "k \<le> 11"
  shows "decodeHSPayload (concat (take k (hs_blocks p))) = Some (hs_known k (hs_seen p))"
proof -
  have "k \<in> {1, 2, 3, 4, 5, 6, 7, 8, 9, 10, 11}" using assms(4,5) by (simp; arith)
  then show ?thesis
    using assms(1-3)
    by (elim insertE; simp add: hs_blocks_def decodeHSPayload_def block_reads decode_cluster_def decode_lists_def decode_name_def [of _ "[]"]
      decode_subnets_def [of _ "[]"] wire_simps Let_def hs_seen_def hs_known_def zeroHS_def del: length_clip255)
qed

text \<open>Every block is there to be cut: the encoding is their concatenation.\<close>

definition ex_payload :: hsPayload where
  "ex_payload = zeroHS\<lparr>hs_Index := 7, hs_Ephemeral := replicate 32 9, hs_Overlay4 := Addr4 0x0a000001, hs_NodeID := ''n1'',
     hs_Subnet4 := Prefix (Addr4 0x0a000000) 8, hs_Name := ''net'', hs_Managed := True, hs_WebPort := 8443,
     hs_LocalEndpoints := [(Addr4 0xc0a80001, 655)], hs_Version := ''587''\<rparr>"

lemma ex_payload_ok: "length (hs_Ephemeral ex_payload) = 32" "prefix_wf (hs_Subnet4 ex_payload)" "prefix_wf (hs_Subnet6 ex_payload)"
  by (simp_all add: ex_payload_def zeroHS_def)

lemma hs_payload_roundtrip_witness:
  "map_option hs_NodeID (decodeHSPayload (encodeHSPayload ex_payload @ [1, 2, 3])) = Some ''n1''"
  unfolding hs_payload_roundtrip [OF ex_payload_ok] by (simp add: hs_seen_def ex_payload_def zeroHS_def)

lemma hs_payload_of_older_versions_witness:
  "map_option hs_Name (decodeHSPayload (concat (take 3 (hs_blocks ex_payload)))) = Some ''net'' \<and>
   map_option hs_WebPort (decodeHSPayload (concat (take 4 (hs_blocks ex_payload)))) = Some 0"
  using hs_payload_of_older_versions [OF ex_payload_ok, of 3] hs_payload_of_older_versions [OF ex_payload_ok, of 4]
  by (simp add: hs_known_def hs_seen_def ex_payload_def zeroHS_def)

end
