(* ===== verification/Peer_List.thy ===== *)
theory Peer_List
  imports Handshake_Codec
begin

text \<open>
  The gossiped peer list of internal/mesh/control.go: its entry, encoder and decoder. The entries
  come first; behind them each block adds one field of every entry. A decoder reads blocks until
  the bytes end, a block is cut off (the entries read so far keep the new field) or its marker is
  unknown.
\<close>

record peerEntry =
  pe_nodeID :: string
  pe_hostname :: string
  pe_overlay4 :: addr
  pe_overlay6 :: addr
  pe_endpoint :: addrport
  pe_managed :: bool
  pe_manager :: bool
  pe_webPort :: "16 word"
  pe_tcpPort :: "16 word"
  pe_extraTCPPorts :: "16 word list"
  pe_extraUDPPorts :: "16 word list"
  pe_localEndpoints :: "addrport list"
  pe_version :: string
  pe_selfSeed :: bool
  pe_partialMesh :: bool
  pe_partialKnown :: bool
  pe_rttMillis :: "16 word"

definition peerListTCPBlock :: byte where "peerListTCPBlock = 1"
definition peerListExtraTCPBlock :: byte where "peerListExtraTCPBlock = 2"
definition peerListExtraUDPBlock :: byte where "peerListExtraUDPBlock = 3"
definition peerListLocalBlock :: byte where "peerListLocalBlock = 4"
definition peerListVersionBlock :: byte where "peerListVersionBlock = 5"
definition peerListSeedBlock :: byte where "peerListSeedBlock = 6"
definition peerListRTTBlock :: byte where "peerListRTTBlock = 7"
definition peerListPartialBlock :: byte where "peerListPartialBlock = 8"

lemmas block_markers = peerListTCPBlock_def peerListExtraTCPBlock_def peerListExtraUDPBlock_def peerListLocalBlock_def
  peerListVersionBlock_def peerListSeedBlock_def peerListRTTBlock_def peerListPartialBlock_def

definition peerListHasExtraTCP :: "peerEntry list \<Rightarrow> bool" where
  "peerListHasExtraTCP es = list_ex (\<lambda>en. length (pe_extraTCPPorts en) > 0) es"

definition peerListHasExtraUDP :: "peerEntry list \<Rightarrow> bool" where
  "peerListHasExtraUDP es = list_ex (\<lambda>en. length (pe_extraUDPPorts en) > 0) es"

definition peerListHasLocal :: "peerEntry list \<Rightarrow> bool" where
  "peerListHasLocal es = list_ex (\<lambda>en. length (pe_localEndpoints en) > 0) es"

definition peerListHasVersion :: "peerEntry list \<Rightarrow> bool" where
  "peerListHasVersion es = list_ex (\<lambda>en. pe_version en \<noteq> []) es"

definition peerListHasRTT :: "peerEntry list \<Rightarrow> bool" where
  "peerListHasRTT es = list_ex (\<lambda>en. pe_rttMillis en \<noteq> 0) es"

definition peerListHasPartial :: "peerEntry list \<Rightarrow> bool" where
  "peerListHasPartial es = list_ex pe_partialKnown es"

definition peerListHasSeed :: "peerEntry list \<Rightarrow> bool" where
  "peerListHasSeed es = list_ex pe_selfSeed es"

section \<open>Encoding\<close>

definition pe_flags :: "peerEntry \<Rightarrow> byte" where
  "pe_flags en = fl (Is4 (pe_overlay4 en)) flagHasV4 OR fl (plain6 (pe_overlay6 en)) flagHasV6 OR
     fl (pe_managed en) flagManaged OR fl (pe_manager en) flagManager"

definition encode_entry :: "bytes \<Rightarrow> peerEntry \<Rightarrow> bytes" where
  "encode_entry b en =
     (let b = appendLenStr b (pe_nodeID en);
          b = appendLenStr b (pe_hostname en);
          flags = pe_flags en;
          b = b @ [flags]
            @ (if has flags flagHasV4 then addr_bytes (pe_overlay4 en) else [])
            @ (if has flags flagHasV6 then addr_bytes (pe_overlay6 en) else []);
          b = appendEndpoint b (pe_endpoint en)
      in if has flags flagManaged then b @ put16 (pe_webPort en) else b)"

definition encodePeerList :: "peerEntry list \<Rightarrow> bytes" where
  "encodePeerList es =
     (let b = foldl encode_entry (put16 (of_nat (length es))) es
      in if length es > 0 then
           let b = foldl (\<lambda>b en. b @ put16 (pe_tcpPort en)) (b @ [peerListTCPBlock]) es;
               b = (if peerListHasExtraTCP es
                    then foldl (\<lambda>b en. appendPortList b (pe_extraTCPPorts en)) (b @ [peerListExtraTCPBlock]) es else b);
               b = (if peerListHasExtraUDP es
                    then foldl (\<lambda>b en. appendPortList b (pe_extraUDPPorts en)) (b @ [peerListExtraUDPBlock]) es else b);
               b = (if peerListHasLocal es
                    then foldl (\<lambda>b en. appendEndpointList b (pe_localEndpoints en)) (b @ [peerListLocalBlock]) es else b);
               b = (if peerListHasVersion es
                    then foldl (\<lambda>b en. appendLenStr b (pe_version en)) (b @ [peerListVersionBlock]) es else b);
               b = (if peerListHasSeed es
                    then foldl (\<lambda>b en. b @ [if pe_selfSeed en then 1 else 0]) (b @ [peerListSeedBlock]) es else b);
               b = (if peerListHasRTT es
                    then foldl (\<lambda>b en. b @ put16 (pe_rttMillis en)) (b @ [peerListRTTBlock]) es else b);
               b = (if peerListHasPartial es
                    then foldl (\<lambda>b en. b @ [fl (pe_partialKnown en) 1 OR fl (pe_partialMesh en) 2])
                           (b @ [peerListPartialBlock]) es else b)
           in b
         else b)"

section \<open>Decoding\<close>

definition zeroEntry :: peerEntry where
  "zeroEntry = \<lparr>pe_nodeID = [], pe_hostname = [], pe_overlay4 = NoAddr, pe_overlay6 = NoAddr, pe_endpoint = (NoAddr, 0),
     pe_managed = False, pe_manager = False, pe_webPort = 0, pe_tcpPort = 0, pe_extraTCPPorts = [], pe_extraUDPPorts = [],
     pe_localEndpoints = [], pe_version = [], pe_selfSeed = False, pe_partialMesh = False, pe_partialKnown = False,
     pe_rttMillis = 0\<rparr>"

definition decode_entry :: "reader \<Rightarrow> (peerEntry \<times> reader) option" where
  "decode_entry r = do {
     (nid, r) \<leftarrow> r_lenStr r;
     (hn, r) \<leftarrow> r_lenStr r;
     (flags, r) \<leftarrow> r_byte r;
     (o4, r) \<leftarrow> read_if (has flags flagHasV4) 4 AddrFrom4 r;
     (o6, r) \<leftarrow> read_if (has flags flagHasV6) 16 AddrFrom16 r;
     (ep, r) \<leftarrow> r_endpoint r;
     (managed, web, r) \<leftarrow> (if has flags flagManaged then do { (wp, r) \<leftarrow> r_take 2 r; Some (True, get16 wp, r) }
                          else Some (False, 0, r));
     Some (zeroEntry\<lparr>pe_nodeID := nid, pe_hostname := hn, pe_overlay4 := o4, pe_overlay6 := o6, pe_endpoint := ep,
       pe_managed := managed, pe_webPort := web, pe_manager := has flags flagManager\<rparr>, r) }"

fun decode_entries :: "nat \<Rightarrow> reader \<Rightarrow> (peerEntry list \<times> reader) option" where
  "decode_entries 0 r = Some ([], r)"
| "decode_entries (Suc n) r = do { (en, r) \<leftarrow> decode_entry r; (es, r) \<leftarrow> decode_entries n r; Some (en # es, r) }"

text \<open>How the block of a marker reads the field of one entry.\<close>

definition block_field :: "byte \<Rightarrow> (peerEntry \<Rightarrow> reader \<Rightarrow> (peerEntry \<times> reader) option) option" where
  "block_field marker =
     (if marker = peerListTCPBlock then Some (\<lambda>e r. do { (tp, r) \<leftarrow> r_take 2 r; Some (e\<lparr>pe_tcpPort := get16 tp\<rparr>, r) })
      else if marker = peerListExtraTCPBlock then
        Some (\<lambda>e r. do { (ps, r) \<leftarrow> readPortList r; Some (e\<lparr>pe_extraTCPPorts := ps\<rparr>, r) })
      else if marker = peerListExtraUDPBlock then
        Some (\<lambda>e r. do { (ps, r) \<leftarrow> readPortList r; Some (e\<lparr>pe_extraUDPPorts := ps\<rparr>, r) })
      else if marker = peerListLocalBlock then
        Some (\<lambda>e r. do { (eps, r) \<leftarrow> readEndpointList r; Some (e\<lparr>pe_localEndpoints := eps\<rparr>, r) })
      else if marker = peerListVersionBlock then
        Some (\<lambda>e r. do { (v, r) \<leftarrow> r_lenStr r; Some (e\<lparr>pe_version := v\<rparr>, r) })
      else if marker = peerListSeedBlock then
        Some (\<lambda>e r. do { (v, r) \<leftarrow> r_byte r; Some (e\<lparr>pe_selfSeed := v \<noteq> 0\<rparr>, r) })
      else if marker = peerListPartialBlock then
        Some (\<lambda>e r. do { (v, r) \<leftarrow> r_byte r; Some (e\<lparr>pe_partialKnown := has v 1, pe_partialMesh := has v 2\<rparr>, r) })
      else if marker = peerListRTTBlock then
        Some (\<lambda>e r. do { (rt, r) \<leftarrow> r_take 2 r; Some (e\<lparr>pe_rttMillis := get16 rt\<rparr>, r) })
      else None)"

fun fill_block :: "(peerEntry \<Rightarrow> reader \<Rightarrow> (peerEntry \<times> reader) option) \<Rightarrow> peerEntry list \<Rightarrow> reader \<Rightarrow>
    peerEntry list \<times> reader option" where
  "fill_block u [] r = ([], Some r)"
| "fill_block u (e # es) r =
     (case u e r of None \<Rightarrow> (e # es, None)
      | Some (e', r') \<Rightarrow> (case fill_block u es r' of (es', cont) \<Rightarrow> (e' # es', cont)))"

text \<open>No read gives bytes back, so the blocks end.\<close>

lemma reads_shrink:
  "r_take n r = Some (x, r') \<Longrightarrow> length r' \<le> length r"
  "r_byte r = Some (b, r') \<Longrightarrow> length r' < length r"
  "r_u16 r = Some (w, r') \<Longrightarrow> length r' \<le> length r"
  "r_lenStr r = Some (s, r') \<Longrightarrow> length r' \<le> length r"
  by (auto simp: r_take_def r_byte_def r_u16_def r_lenStr_def bind_eq_Some_conv split: if_splits)

lemma ports_shrink: "read_ports n r = Some (x, r') \<Longrightarrow> length r' \<le> length r"
  by (induction n arbitrary: r x r') (auto simp: bind_eq_Some_conv dest!: reads_shrink(1) intro: order_trans)

lemma endpoint_shrink: "r_endpoint r = Some (x, r') \<Longrightarrow> length r' \<le> length r"
  by (auto simp: r_endpoint_def bind_eq_Some_conv dest!: reads_shrink split: if_splits)

lemma endpoints_shrink: "read_endpoints n r = Some (x, r') \<Longrightarrow> length r' \<le> length r"
  by (induction n arbitrary: r x r') (auto simp: bind_eq_Some_conv dest!: endpoint_shrink intro: order_trans)

lemma lists_shrink:
  "readPortList r = Some (x, r') \<Longrightarrow> length r' \<le> length r"
  "readEndpointList r = Some (y, r') \<Longrightarrow> length r' \<le> length r"
  by (auto simp: readPortList_def readEndpointList_def bind_eq_Some_conv dest!: reads_shrink(2) ports_shrink endpoints_shrink split: if_splits)

lemma field_shrink: "block_field m = Some u \<Longrightarrow> u e r = Some (e', r') \<Longrightarrow> length r' \<le> length r"
  by (auto simp: block_field_def bind_eq_Some_conv dest: reads_shrink lists_shrink less_imp_le [OF reads_shrink(2)] split: if_splits)

lemma block_shrink:
  "block_field m = Some u \<Longrightarrow> fill_block u es r = (es', Some r') \<Longrightarrow> length r' \<le> length r"
  by (induction es arbitrary: r es') (auto split: option.splits prod.splits dest: field_shrink intro: order_trans)

function decode_blocks :: "peerEntry list \<Rightarrow> reader \<Rightarrow> peerEntry list" where
  "decode_blocks es r =
     (case r_byte r of None \<Rightarrow> es
      | Some (marker, r1) \<Rightarrow>
          (case block_field marker of None \<Rightarrow> es
           | Some u \<Rightarrow> (case fill_block u es r1 of (es', None) \<Rightarrow> es' | (es', Some r2) \<Rightarrow> decode_blocks es' r2)))"
  by pat_completeness auto
termination
  by (relation "measure (length \<circ> snd)") (auto dest: block_shrink [OF _ sym] intro: le_less_trans reads_shrink(2))

declare decode_blocks.simps [simp del]

definition decodePeerList :: "bytes \<Rightarrow> peerEntry list option" where
  "decodePeerList b = do {
     (count, r) \<leftarrow> r_u16 b;
     (es, r) \<leftarrow> decode_entries (unat count) r;
     Some (decode_blocks es r) }"

section \<open>Round trip\<close>

definition put_str :: "string \<Rightarrow> bytes" where "put_str s = of_nat (length (clip255 s)) # str_bytes (clip255 s)"
definition put_port_list :: "16 word list \<Rightarrow> bytes" where "put_port_list ps = of_nat (length (clip255 ps)) # put_ports (clip255 ps)"
definition put_ep_list :: "addrport list \<Rightarrow> bytes" where
  "put_ep_list eps = of_nat (min (length eps) maxLocalEndpoints) # concat (map put_ep (take maxLocalEndpoints eps))"

lemma append_fields: "appendLenStr b s = b @ put_str s" "appendPortList b ps = b @ put_port_list ps"
  "appendEndpointList b eps = b @ put_ep_list eps"
  by (simp_all add: appendLenStr_eq appendPortList_eq appendEndpointList_eq put_str_def put_port_list_def put_ep_list_def
      del: length_clip255)

lemma read_fields [wire_simps]: "r_lenStr (put_str s @ r) = Some (clip255 s, r)"
  "readPortList (put_port_list ps @ r) = Some (clip255 ps, r)"
  "readEndpointList (put_ep_list eps @ r) = Some (wire_eps eps, r)"
  by (simp_all add: put_str_def put_port_list_def put_ep_list_def wire_simps del: length_clip255)

definition put_entry :: "peerEntry \<Rightarrow> bytes" where
  "put_entry en = put_str (pe_nodeID en) @ put_str (pe_hostname en) @ [pe_flags en]
     @ (if Is4 (pe_overlay4 en) then addr_bytes (pe_overlay4 en) else [])
     @ (if plain6 (pe_overlay6 en) then addr_bytes (pe_overlay6 en) else [])
     @ put_ep (pe_endpoint en) @ (if pe_managed en then put16 (pe_webPort en) else [])"

lemma pe_flag_bits:
  "has (pe_flags en) flagHasV4 = Is4 (pe_overlay4 en)" "has (pe_flags en) flagHasV6 = plain6 (pe_overlay6 en)"
  "has (pe_flags en) flagManaged = pe_managed en" "has (pe_flags en) flagManager = pe_manager en"
proof -
  have "has (fl a 1 OR fl b 2 OR fl c 4 OR fl d 8) 1 = a \<and> has (fl a 1 OR fl b 2 OR fl c 4 OR fl d 8) 2 = b \<and>
      has (fl a 1 OR fl b 2 OR fl c 4 OR fl d 8) 4 = c \<and> has (fl a 1 OR fl b 2 OR fl c 4 OR fl d 8) 8 = d" for a b c d
    unfolding has_def fl_def by (cases a; cases b; cases c; cases d; simp)
  then show "has (pe_flags en) flagHasV4 = Is4 (pe_overlay4 en)" "has (pe_flags en) flagHasV6 = plain6 (pe_overlay6 en)"
      "has (pe_flags en) flagManaged = pe_managed en" "has (pe_flags en) flagManager = pe_manager en"
    unfolding pe_flags_def hs_flags by blast+
qed

lemma encode_entry_eq: "encode_entry b en = b @ put_entry en"
  by (simp add: encode_entry_def Let_def append_fields appendEndpoint_eq pe_flag_bits put_entry_def)

lemma foldl_app: "(\<And>b e. f b e = b @ g e) \<Longrightarrow> foldl f b es = b @ concat (map g es)"
  by (induction es arbitrary: b) simp_all

definition opt_block :: "bool \<Rightarrow> byte \<Rightarrow> (peerEntry \<Rightarrow> bytes) \<Rightarrow> peerEntry list \<Rightarrow> bytes" where
  "opt_block c m g es = (if c then m # concat (map g es) else [])"

lemma encode_blocks_eq:
  assumes "es \<noteq> []"
  shows "encodePeerList es = put16 (of_nat (length es)) @ concat (map put_entry es) @
    opt_block True peerListTCPBlock (put16 \<circ> pe_tcpPort) es @
    opt_block (peerListHasExtraTCP es) peerListExtraTCPBlock (put_port_list \<circ> pe_extraTCPPorts) es @
    opt_block (peerListHasExtraUDP es) peerListExtraUDPBlock (put_port_list \<circ> pe_extraUDPPorts) es @
    opt_block (peerListHasLocal es) peerListLocalBlock (put_ep_list \<circ> pe_localEndpoints) es @
    opt_block (peerListHasVersion es) peerListVersionBlock (put_str \<circ> pe_version) es @
    opt_block (peerListHasSeed es) peerListSeedBlock (\<lambda>en. [if pe_selfSeed en then 1 else 0]) es @
    opt_block (peerListHasRTT es) peerListRTTBlock (put16 \<circ> pe_rttMillis) es @
    opt_block (peerListHasPartial es) peerListPartialBlock (\<lambda>en. [fl (pe_partialKnown en) 1 OR fl (pe_partialMesh en) 2]) es"
  using assms
  by (simp add: encodePeerList_def Let_def opt_block_def append_fields foldl_app [of encode_entry put_entry] encode_entry_eq
      foldl_app [of "\<lambda>b en. b @ h en" h for h] comp_def)

text \<open>An entry as it arrives, field by field.\<close>

definition pe_base :: "peerEntry \<Rightarrow> peerEntry" where
  "pe_base en = zeroEntry\<lparr>pe_nodeID := clip255 (pe_nodeID en), pe_hostname := clip255 (pe_hostname en),
     pe_overlay4 := (if Is4 (pe_overlay4 en) then pe_overlay4 en else NoAddr),
     pe_overlay6 := (if plain6 (pe_overlay6 en) then WithoutZone (pe_overlay6 en) else NoAddr),
     pe_endpoint := wire_ep (pe_endpoint en), pe_managed := pe_managed en,
     pe_webPort := (if pe_managed en then pe_webPort en else 0), pe_manager := pe_manager en\<rparr>"

lemma decode_entry_put [wire_simps]: "decode_entry (put_entry en @ r) = Some (pe_base en, r)"
  by (cases "Is4 (pe_overlay4 en)"; cases "plain6 (pe_overlay6 en)"; cases "pe_managed en")
    (simp_all add: decode_entry_def put_entry_def wire_simps pe_flag_bits pe_base_def)

lemma decode_entries_put: "n = length es \<Longrightarrow> decode_entries n (concat (map put_entry es) @ r) = Some (map pe_base es, r)"
  by (induction es arbitrary: n) (simp_all add: wire_simps)

lemma fill_block_put:
  assumes "\<And>e r. e \<in> set es \<Longrightarrow> u (f e) (g e @ r) = Some (h e, r)"
  shows "fill_block u (map f es) (concat (map g es) @ r) = (map h es, Some r)"
  using assms by (induction es) simp_all

lemma decode_opt_block:
  assumes "block_field m = Some u" "\<And>e r. e \<in> set es \<Longrightarrow> u (f e) (g e @ r) = Some (h e, r)"
    "\<And>e. \<not> c \<Longrightarrow> e \<in> set es \<Longrightarrow> h e = f e"
  shows "decode_blocks (map f es) (opt_block c m g es @ r) = decode_blocks (map h es) r"
proof (cases c)
  case True
  then show ?thesis
    using assms(1) fill_block_put [of es u f g h r] assms(2)
    by (subst decode_blocks.simps) (simp add: opt_block_def wire_simps)
next
  case False
  then have "map h es = map f es" using assms(3) by simp
  then show ?thesis using False by (simp only: opt_block_def if_False append_Nil)
qed

lemma decode_blocks_Nil: "decode_blocks es [] = es"
  by (subst decode_blocks.simps) (simp add: wire_simps)

definition pe_seen :: "peerEntry \<Rightarrow> peerEntry" where
  "pe_seen en = (pe_base en)\<lparr>pe_tcpPort := pe_tcpPort en, pe_extraTCPPorts := clip255 (pe_extraTCPPorts en),
     pe_extraUDPPorts := clip255 (pe_extraUDPPorts en), pe_localEndpoints := wire_eps (pe_localEndpoints en),
     pe_version := clip255 (pe_version en), pe_selfSeed := pe_selfSeed en, pe_rttMillis := pe_rttMillis en,
     pe_partialKnown := pe_partialKnown en, pe_partialMesh := pe_partialMesh en\<rparr>"

lemma block_fields:
  "block_field peerListTCPBlock = Some (\<lambda>e r. do { (tp, r) \<leftarrow> r_take 2 r; Some (e\<lparr>pe_tcpPort := get16 tp\<rparr>, r) })"
  "block_field peerListExtraTCPBlock = Some (\<lambda>e r. do { (ps, r) \<leftarrow> readPortList r; Some (e\<lparr>pe_extraTCPPorts := ps\<rparr>, r) })"
  "block_field peerListExtraUDPBlock = Some (\<lambda>e r. do { (ps, r) \<leftarrow> readPortList r; Some (e\<lparr>pe_extraUDPPorts := ps\<rparr>, r) })"
  "block_field peerListLocalBlock = Some (\<lambda>e r. do { (eps, r) \<leftarrow> readEndpointList r; Some (e\<lparr>pe_localEndpoints := eps\<rparr>, r) })"
  "block_field peerListVersionBlock = Some (\<lambda>e r. do { (v, r) \<leftarrow> r_lenStr r; Some (e\<lparr>pe_version := v\<rparr>, r) })"
  "block_field peerListSeedBlock = Some (\<lambda>e r. do { (v, r) \<leftarrow> r_byte r; Some (e\<lparr>pe_selfSeed := v \<noteq> 0\<rparr>, r) })"
  "block_field peerListRTTBlock = Some (\<lambda>e r. do { (rt, r) \<leftarrow> r_take 2 r; Some (e\<lparr>pe_rttMillis := get16 rt\<rparr>, r) })"
  "block_field peerListPartialBlock =
     Some (\<lambda>e r. do { (v, r) \<leftarrow> r_byte r; Some (e\<lparr>pe_partialKnown := has v 1, pe_partialMesh := has v 2\<rparr>, r) })"
  by (simp_all add: block_field_def block_markers)

lemma blocks_chain:
  assumes "\<forall>en \<in> set es. pe_partialMesh en \<longrightarrow> pe_partialKnown en"
  shows "decode_blocks (map pe_base es)
    (opt_block True peerListTCPBlock (put16 \<circ> pe_tcpPort) es @
     opt_block (peerListHasExtraTCP es) peerListExtraTCPBlock (put_port_list \<circ> pe_extraTCPPorts) es @
     opt_block (peerListHasExtraUDP es) peerListExtraUDPBlock (put_port_list \<circ> pe_extraUDPPorts) es @
     opt_block (peerListHasLocal es) peerListLocalBlock (put_ep_list \<circ> pe_localEndpoints) es @
     opt_block (peerListHasVersion es) peerListVersionBlock (put_str \<circ> pe_version) es @
     opt_block (peerListHasSeed es) peerListSeedBlock (\<lambda>en. [if pe_selfSeed en then 1 else 0]) es @
     opt_block (peerListHasRTT es) peerListRTTBlock (put16 \<circ> pe_rttMillis) es @
     opt_block (peerListHasPartial es) peerListPartialBlock (\<lambda>en. [fl (pe_partialKnown en) 1 OR fl (pe_partialMesh en) 2]) es) =
    map pe_seen es" (is "decode_blocks (map ?f0 es) _ = _")
proof -
  let ?f1 = "\<lambda>en. (?f0 en)\<lparr>pe_tcpPort := pe_tcpPort en\<rparr>"
  let ?f2 = "\<lambda>en. (?f1 en)\<lparr>pe_extraTCPPorts := clip255 (pe_extraTCPPorts en)\<rparr>"
  let ?f3 = "\<lambda>en. (?f2 en)\<lparr>pe_extraUDPPorts := clip255 (pe_extraUDPPorts en)\<rparr>"
  let ?f4 = "\<lambda>en. (?f3 en)\<lparr>pe_localEndpoints := wire_eps (pe_localEndpoints en)\<rparr>"
  let ?f5 = "\<lambda>en. (?f4 en)\<lparr>pe_version := clip255 (pe_version en)\<rparr>"
  let ?f6 = "\<lambda>en. (?f5 en)\<lparr>pe_selfSeed := pe_selfSeed en\<rparr>"
  let ?f7 = "\<lambda>en. (?f6 en)\<lparr>pe_rttMillis := pe_rttMillis en\<rparr>"
  note z = pe_base_def zeroEntry_def clip255_def wire_eps_def
  have s1: "decode_blocks (map ?f0 es) (opt_block True peerListTCPBlock (put16 \<circ> pe_tcpPort) es @ r) = decode_blocks (map ?f1 es) r" for r
    by (rule decode_opt_block [OF block_fields(1)]) (simp_all add: wire_simps)
  have s2: "decode_blocks (map ?f1 es) (opt_block (peerListHasExtraTCP es) peerListExtraTCPBlock (put_port_list \<circ> pe_extraTCPPorts) es @ r) =
      decode_blocks (map ?f2 es) r" for r
    by (rule decode_opt_block [OF block_fields(2)]) (auto simp: wire_simps peerListHasExtraTCP_def list_ex_iff z)
  have s3: "decode_blocks (map ?f2 es) (opt_block (peerListHasExtraUDP es) peerListExtraUDPBlock (put_port_list \<circ> pe_extraUDPPorts) es @ r) =
      decode_blocks (map ?f3 es) r" for r
    by (rule decode_opt_block [OF block_fields(3)]) (auto simp: wire_simps peerListHasExtraUDP_def list_ex_iff z)
  have s4: "decode_blocks (map ?f3 es) (opt_block (peerListHasLocal es) peerListLocalBlock (put_ep_list \<circ> pe_localEndpoints) es @ r) =
      decode_blocks (map ?f4 es) r" for r
    by (rule decode_opt_block [OF block_fields(4)]) (auto simp: wire_simps peerListHasLocal_def list_ex_iff z)
  have s5: "decode_blocks (map ?f4 es) (opt_block (peerListHasVersion es) peerListVersionBlock (put_str \<circ> pe_version) es @ r) =
      decode_blocks (map ?f5 es) r" for r
    by (rule decode_opt_block [OF block_fields(5)]) (auto simp: wire_simps peerListHasVersion_def list_ex_iff z)
  have s6: "decode_blocks (map ?f5 es) (opt_block (peerListHasSeed es) peerListSeedBlock (\<lambda>en. [if pe_selfSeed en then 1 else 0]) es @ r) =
      decode_blocks (map ?f6 es) r" for r
    by (rule decode_opt_block [OF block_fields(6)]) (auto simp: wire_simps peerListHasSeed_def list_ex_iff z)
  have s7: "decode_blocks (map ?f6 es) (opt_block (peerListHasRTT es) peerListRTTBlock (put16 \<circ> pe_rttMillis) es @ r) =
      decode_blocks (map ?f7 es) r" for r
    by (rule decode_opt_block [OF block_fields(7)]) (auto simp: wire_simps peerListHasRTT_def list_ex_iff z)
  have s8: "decode_blocks (map ?f7 es) (opt_block (peerListHasPartial es) peerListPartialBlock
        (\<lambda>en. [fl (pe_partialKnown en) 1 OR fl (pe_partialMesh en) 2]) es @ r) = decode_blocks (map pe_seen es) r" for r
    using assms
    by (intro decode_opt_block [OF block_fields(8)])
      (auto simp: wire_simps three_flags(4,5) peerListHasPartial_def list_ex_iff pe_seen_def z)
  show ?thesis
    using s8 [of "[]"] by (simp only: s1 s2 s3 s4 s5 s6 s7 append_Nil2 decode_blocks_Nil)
qed

text \<open>Gossip is faithful: a peer list of fewer than 65536 entries, none of which claims a partial
  mesh without knowing it, is decoded entry by entry to what was encoded, as it is to be seen on
  the other side; each optional block is left out exactly when it would carry nothing.\<close>
theorem peer_list_roundtrip:
  assumes "length es < 65536" "\<forall>en \<in> set es. pe_partialMesh en \<longrightarrow> pe_partialKnown en"
  shows "decodePeerList (encodePeerList es) = Some (map pe_seen es)"
proof (cases "es = []")
  case True
  then have "decodePeerList (encodePeerList es) = Some (decode_blocks [] [])"
    using r_u16_put [of 0 "[]"] by (simp add: decodePeerList_def encodePeerList_def)
  then show ?thesis using True by (simp add: decode_blocks_Nil)
next
  case False
  have "unat (of_nat (length es) :: 16 word) = length es" using assms(1) by (simp add: unat_of_nat)
  then show ?thesis
    unfolding encode_blocks_eq [OF False]
    by (simp add: decodePeerList_def wire_simps decode_entries_put blocks_chain [OF assms(2)])
qed

lemma peer_list_roundtrip_witness:
  "map_option (map pe_nodeID) (decodePeerList (encodePeerList
     [zeroEntry\<lparr>pe_nodeID := ''a'', pe_tcpPort := 443, pe_selfSeed := True\<rparr>, zeroEntry\<lparr>pe_nodeID := ''b''\<rparr>])) = Some [''a'', ''b'']"
  by (subst peer_list_roundtrip) (simp_all add: pe_seen_def pe_base_def zeroEntry_def)

text \<open>The count is 16 bits wide: one entry more and the list arrives empty.\<close>

lemma peer_list_count_wraps:
  assumes "length es = 65536"
  shows "\<exists>r. encodePeerList es = put16 0 @ r"
proof -
  have ne: "es \<noteq> []" using assms by auto
  have w: "(of_nat 65536 :: 16 word) = 0" by (simp add: word_unat_eq_iff)
  show ?thesis unfolding encode_blocks_eq [OF ne] assms w by (rule exI, rule refl)
qed

end
