(* ===== verification/Flood.thy ===== *)
theory Flood
  imports Net_Addr
begin

text \<open>
  Which overlay destinations are flooded (internal/mesh/broadcast.go): the kind of a destination
  against the overlay subnet, the subnet's broadcast address, and the flood itself (the peers of the
  forwarding snapshot in the order the map gives them).
\<close>

datatype dstKind = kindUnicast | kindBroadcast | kindMulticast

definition v4Broadcast :: addr where "v4Broadcast = Addr4 0xffffffff"

definition subnetBroadcast4 :: "prefix \<Rightarrow> addr" where
  "subnetBroadcast4 p =
     (case Masked p of
        Prefix (Addr4 net) bits \<Rightarrow>
          let hostBits = 32 - int bits;
              hostMask = (if hostBits > 0 then push_bit (nat hostBits) 1 - 1 else 0)
          in Addr4 (net OR hostMask)
      | _ \<Rightarrow> NoAddr)"

definition classify_dst :: "prefix \<Rightarrow> addr \<Rightarrow> dstKind" where
  "classify_dst sub dst =
     (case dst of
        Addr4 w \<Rightarrow>
          if dst = v4Broadcast then kindBroadcast
          else
            let a0 = unat (drop_bit 24 w)
            in if a0 \<ge> 224 \<and> a0 \<le> 239 then kindMulticast
               else if prefix_valid sub \<and> dst = subnetBroadcast4 sub then kindBroadcast
               else kindUnicast
      | Addr6 w _ \<Rightarrow> if drop_bit 120 w = 0xff then kindMulticast else kindUnicast
      | NoAddr \<Rightarrow> kindUnicast)"

definition flood :: "'p list option \<Rightarrow> bytes \<Rightarrow> ('p \<times> bytes) list" where
  "flood snap pkt = (case snap of None \<Rightarrow> [] | Some peers \<Rightarrow> map (\<lambda>ps. (ps, pkt)) peers)"

lemma push_bit_minus_1: "k \<le> 32 \<Longrightarrow> push_bit k 1 - 1 = (mask k :: 32 word)"
  by (simp add: mask_eq_exp_minus_1 push_bit_eq_mult)

lemma subnetBroadcast4_eq:
  assumes "b \<le> 32"
  shows "subnetBroadcast4 (Prefix (Addr4 w) b) = Addr4 (push_bit (32 - b) (drop_bit (32 - b) w) OR mask (32 - b))"
proof -
  have "nat (32 - int b) = 32 - b" by simp
  then show ?thesis
    using assms push_bit_minus_1 [of "32 - b"] by (simp add: subnetBroadcast4_def Let_def)
qed

end
