(* ===== verification/Addressing.thy ===== *)
theory Addressing
  imports Handshake_Codec Flood
begin

text \<open>
  Dynamic overlay addressing (internal/mesh/addressing.go): what a node learns of its network, the
  random choice of a host address, duplicate address detection and address announcements. Sessions
  are handles into a store, the route tables map addresses to handles. Random draws, the messages
  that arrive while a probe waits and the device's answers are arguments; a run-time panic of Go is
  \<open>None\<close> of the outer option. The zero address has sixteen zero bytes where the code asks for them.
\<close>

record nodeInfo =
  ni_overlay4 :: addr
  ni_overlay6 :: addr

record peer_addrs =
  ps_nodeID :: string
  ps_overlay4 :: addr
  ps_overlay6 :: addr

record addr_state =
  self4 :: addr
  self6 :: addr
  subnet4 :: prefix
  subnet6 :: prefix
  ns_name :: string
  assigning :: bool
  dadCandidate :: addr
  dadDefended :: bool
  routes4 :: "addr \<Rightarrow> nat option"
  routes6 :: "addr \<Rightarrow> nat option"
  ns_nodes :: "string \<Rightarrow> nodeInfo option"
  sessions :: "nat \<Rightarrow> peer_addrs"

definition dadAttempts :: nat where "dadAttempts = 8"

definition selfAddrs :: "addr_state \<Rightarrow> addr \<times> addr" where "selfAddrs ns = (self4 ns, self6 ns)"
definition subnets :: "addr_state \<Rightarrow> prefix \<times> prefix" where "subnets ns = (subnet4 ns, subnet6 ns)"

definition absorbIdentity :: "hsPayload \<Rightarrow> addr_state \<Rightarrow> bool \<times> addr_state" where
  "absorbIdentity pl ns =
     (let c4 = (\<not> prefix_valid (subnet4 ns) \<and> prefix_valid (hs_Subnet4 pl));
          ns1 = (if c4 then ns\<lparr>subnet4 := hs_Subnet4 pl\<rparr> else ns);
          c6 = (\<not> prefix_valid (subnet6 ns1) \<and> prefix_valid (hs_Subnet6 pl));
          ns2 = (if c6 then ns1\<lparr>subnet6 := hs_Subnet6 pl\<rparr> else ns1);
          cn = (ns_name ns2 = [] \<and> hs_Name pl \<noteq> []);
          ns3 = (if cn then ns2\<lparr>ns_name := hs_Name pl\<rparr> else ns2)
      in (c4 \<or> c6 \<or> cn, ns3))"

definition need4 :: "addr_state \<Rightarrow> bool" where "need4 ns \<longleftrightarrow> \<not> IsValid (self4 ns) \<and> prefix_valid (subnet4 ns)"
definition need6 :: "addr_state \<Rightarrow> bool" where "need6 ns \<longleftrightarrow> \<not> IsValid (self6 ns) \<and> prefix_valid (subnet6 ns)"

text \<open>Whether an assignment pass starts.\<close>

definition maybeAssignAddress :: "addr_state \<Rightarrow> bool \<times> addr_state" where
  "maybeAssignAddress ns =
     (if assigning ns then (False, ns)
      else if \<not> need4 ns \<and> \<not> need6 ns then (False, ns)
      else (True, ns\<lparr>assigning := True\<rparr>))"

section \<open>Address codecs\<close>

definition as16 :: "addr \<Rightarrow> bytes" where
  "as16 a = (case a of NoAddr \<Rightarrow> replicate 16 0 | Addr4 w \<Rightarrow> replicate 10 0 @ [0xff, 0xff] @ put32 w | Addr6 w _ \<Rightarrow> put128 w)"

definition encodeAddr :: "addr \<Rightarrow> bytes" where
  "encodeAddr a0 = (let a = Unmap a0 in if Is4 a then [4] @ addr_bytes a else [6] @ as16 a)"

definition decodeAddr :: "bytes \<Rightarrow> addr option" where
  "decodeAddr b =
     (if length b < 1 then None
      else if b ! 0 = 4 then (if length b < 5 then None else Some (AddrFrom4 (slice 1 5 b)))
      else if b ! 0 = 6 then (if length b < 17 then None else Some (AddrFrom16 (slice 1 17 b)))
      else None)"

definition encodeOptAddr :: "addr \<Rightarrow> bytes" where
  "encodeOptAddr a = (if \<not> IsValid a then [0] else encodeAddr a)"

text \<open>A failed read gives the zero address; the cursor is then at the end or behind the family.\<close>

definition optAddr :: "reader \<Rightarrow> addr \<times> reader" where
  "optAddr r =
     (case r_byte r of None \<Rightarrow> (NoAddr, r)
      | Some (fam, r1) \<Rightarrow>
          if fam = 0 then (NoAddr, r1)
          else if fam = 4 then (case r_take 4 r1 of None \<Rightarrow> (NoAddr, r1) | Some (v, r2) \<Rightarrow> (AddrFrom4 v, r2))
          else if fam = 6 then (case r_take 16 r1 of None \<Rightarrow> (NoAddr, r1) | Some (v, r2) \<Rightarrow> (AddrFrom16 v, r2))
          else (NoAddr, r1))"

section \<open>Random hosts\<close>

fun host4_loop :: "nat \<Rightarrow> (nat \<Rightarrow> 32 word) \<Rightarrow> 32 word \<Rightarrow> 32 word \<Rightarrow> addr option" where
  "host4_loop 0 draw span net = Some NoAddr"
| "host4_loop (Suc n) draw span net =
     (if span = 0 then None
      else
        let h = draw n mod span
        in if h = 0 \<or> h = span - 1 then host4_loop n draw span net else Some (Addr4 (net OR h)))"

definition randomHost4 :: "(nat \<Rightarrow> 32 word) \<Rightarrow> 32 word \<Rightarrow> nat \<Rightarrow> addr option" where
  "randomHost4 draw net bits =
     (let hostBits = 32 - int bits
      in if hostBits \<le> 1 then Some (Addr4 net)
         else host4_loop 16 draw (push_bit (nat hostBits) 1) net)"

definition randomHost6 :: "bytes \<Rightarrow> 128 word \<Rightarrow> nat \<Rightarrow> addr" where
  "randomHost6 rnd net bits =
     (let rw = get128 rnd;
          out = foldl (\<lambda>out i. if i < bits then out
                  else if bit rw (127 - i) then set_bit (127 - i) out else unset_bit (127 - i) out) net [0..<128]
      in if out = net then Addr6 (out OR 1) [] else Addr6 out [])"

definition randomHost :: "(nat \<Rightarrow> 32 word) \<Rightarrow> bytes \<Rightarrow> prefix \<Rightarrow> addr option" where
  "randomHost draw rnd prefix0 =
     (case Masked prefix0 of
        Prefix (Addr4 net) bits \<Rightarrow> randomHost4 draw net bits
      | Prefix (Addr6 net _) bits \<Rightarrow> Some (randomHost6 rnd net bits)
      | _ \<Rightarrow> Some (Addr6 (get128 rnd) []))"

section \<open>Duplicate address detection\<close>

definition addrInUse :: "addr_state \<Rightarrow> addr \<Rightarrow> bool" where
  "addrInUse ns a \<longleftrightarrow>
     a = self4 ns \<or> a = self6 ns \<or>
     (if Is4 a then routes4 ns a \<noteq> None else routes6 ns a \<noteq> None) \<or>
     (\<exists>ni \<in> ran (ns_nodes ns). ni_overlay4 ni = a \<or> ni_overlay6 ni = a)"

definition ctrlDADQuery :: byte where "ctrlDADQuery = 0x04"
definition ctrlDADDefend :: byte where "ctrlDADDefend = 0x05"
definition ctrlAddrNotify :: byte where "ctrlAddrNotify = 0x06"

definition onDADQuery :: "addr_state \<Rightarrow> bytes \<Rightarrow> bytes option" where
  "onDADQuery ns body =
     (case decodeAddr body of None \<Rightarrow> None
      | Some a \<Rightarrow> if addrInUse ns a then Some (ctrlDADDefend # encodeAddr a) else None)"

definition onDADDefend :: "bytes \<Rightarrow> addr_state \<Rightarrow> addr_state" where
  "onDADDefend body ns =
     (case decodeAddr body of None \<Rightarrow> ns
      | Some a \<Rightarrow> if a = dadCandidate ns then ns\<lparr>dadDefended := True\<rparr> else ns)"

text \<open>A probe: the query it broadcasts, then what arrived while it waited, then the verdict.\<close>

definition dadProbe :: "bool \<Rightarrow> bytes list \<Rightarrow> addr \<Rightarrow> addr_state \<Rightarrow> bool \<times> bytes option \<times> addr_state" where
  "dadProbe stopped defends cand ns =
     (if addrInUse ns cand then (False, None, ns)
      else
        let ns1 = ns\<lparr>dadCandidate := cand, dadDefended := False\<rparr>;
            q = ctrlDADQuery # encodeAddr cand;
            ns2 = foldl (\<lambda>ns body. onDADDefend body ns) ns1 defends
        in if stopped then (False, Some q, ns2)
           else (\<not> dadDefended ns2, Some q, ns2\<lparr>dadCandidate := NoAddr\<rparr>))"

record dad_try =
  t_draw :: "nat \<Rightarrow> 32 word"
  t_rnd :: bytes
  t_stopped :: bool
  t_defends :: "bytes list"

fun dad_loop :: "dad_try list \<Rightarrow> prefix \<Rightarrow> addr_state \<Rightarrow> (addr option \<times> addr_state) option" where
  "dad_loop [] p ns = Some (None, ns)"
| "dad_loop (t # ts) p ns =
     (case randomHost (t_draw t) (t_rnd t) p of None \<Rightarrow> None
      | Some cand \<Rightarrow>
          if \<not> IsValid cand then Some (None, ns)
          else case dadProbe (t_stopped t) (t_defends t) cand ns of
            (free, _, ns') \<Rightarrow> if free then Some (Some cand, ns') else dad_loop ts p ns')"

definition dadPick :: "(nat \<Rightarrow> dad_try) \<Rightarrow> prefix \<Rightarrow> addr_state \<Rightarrow> (addr option \<times> addr_state) option" where
  "dadPick tries p ns = dad_loop (map tries [0..<dadAttempts]) p ns"

text \<open>Assigning announces both addresses, unless the device refuses.\<close>

definition announce_body :: "addr \<Rightarrow> addr \<Rightarrow> bytes" where
  "announce_body v4 v6 = [ctrlAddrNotify] @ encodeOptAddr v4 @ encodeOptAddr v6"

definition assignAddr :: "bool \<Rightarrow> addr \<Rightarrow> addr_state \<Rightarrow> bytes option \<times> addr_state" where
  "assignAddr dev_err a ns =
     (if dev_err then (None, ns)
      else let ns' = (if Is4 a then ns\<lparr>self4 := a\<rparr> else ns\<lparr>self6 := a\<rparr>)
           in (Some (announce_body (self4 ns') (self6 ns')), ns'))"

definition runDAD :: "(nat \<Rightarrow> dad_try) \<Rightarrow> bool \<Rightarrow> (nat \<Rightarrow> dad_try) \<Rightarrow> bool \<Rightarrow> addr_state \<Rightarrow> addr_state option" where
  "runDAD tries4 err4 tries6 err6 ns0 =
     (let n4 = need4 ns0; sub4 = subnet4 ns0; n6 = need6 ns0; sub6 = subnet6 ns0
      in do {
        ns1 \<leftarrow> (if n4 then (case dadPick tries4 sub4 ns0 of None \<Rightarrow> None
                  | Some (None, ns) \<Rightarrow> Some ns | Some (Some a, ns) \<Rightarrow> Some (snd (assignAddr err4 a ns)))
               else Some ns0);
        ns2 \<leftarrow> (if n6 then (case dadPick tries6 sub6 ns1 of None \<Rightarrow> None
                  | Some (None, ns) \<Rightarrow> Some ns | Some (Some a, ns) \<Rightarrow> Some (snd (assignAddr err6 a ns)))
               else Some ns1);
        Some (ns2\<lparr>assigning := False\<rparr>) })"

text \<open>A peer announces its addresses.\<close>

definition drop_route :: "addr \<Rightarrow> nat \<Rightarrow> (addr \<Rightarrow> nat option) \<Rightarrow> addr \<Rightarrow> nat option" where
  "drop_route old ps rt = (if IsValid old \<and> rt old = Some ps then rt(old := None) else rt)"

definition onAddrNotify :: "nat \<Rightarrow> bytes \<Rightarrow> addr_state \<Rightarrow> addr_state" where
  "onAddrNotify ps body ns =
     (let (v4, r) = optAddr body; (v6, _) = optAddr r;
          p = sessions ns ps;
          ns1 = ns\<lparr>routes4 := drop_route (ps_overlay4 p) ps (routes4 ns), routes6 := drop_route (ps_overlay6 p) ps (routes6 ns)\<rparr>;
          ns2 = (if IsValid v4 then ns1\<lparr>sessions := (sessions ns1)(ps := (sessions ns1 ps)\<lparr>ps_overlay4 := v4\<rparr>),
                                       routes4 := (routes4 ns1)(v4 \<mapsto> ps)\<rparr> else ns1);
          ns3 = (if IsValid v6 then ns2\<lparr>sessions := (sessions ns2)(ps := (sessions ns2 ps)\<lparr>ps_overlay6 := v6\<rparr>),
                                       routes6 := (routes6 ns2)(v6 \<mapsto> ps)\<rparr> else ns2)
      in case ns_nodes ns3 (ps_nodeID p) of None \<Rightarrow> ns3
         | Some ni \<Rightarrow>
             let ni1 = (if IsValid v4 then ni\<lparr>ni_overlay4 := v4\<rparr> else ni);
                 ni2 = (if IsValid v6 then ni1\<lparr>ni_overlay6 := v6\<rparr> else ni1)
             in ns3\<lparr>ns_nodes := (ns_nodes ns3)(ps_nodeID p \<mapsto> ni2)\<rparr>)"

section \<open>Hosts are inside their subnet\<close>

lemma span_word:
  assumes "2 \<le> k" "k < 32"
  shows "unat (push_bit k 1 :: 32 word) = 2 ^ k"
proof -
  have "(2 :: nat) ^ k < 2 ^ 32" using assms(2) by (intro power_strict_increasing) simp_all
  then have "take_bit 32 (push_bit k (1 :: nat)) = 2 ^ k"
    using assms(2) by (simp add: push_bit_eq_mult take_bit_nat_eq_self)
  then show ?thesis by (simp only: unsigned_push_bit_eq) simp
qed

lemma host4_loop_cases:
  assumes "host4_loop n draw span net = Some a" "span \<noteq> 0"
  shows "a = NoAddr \<or> (\<exists>h. a = Addr4 (net OR h) \<and> h \<noteq> 0 \<and> h < span \<and> h \<noteq> span - 1)"
  using assms by (induction n) (auto simp: Let_def word_mod_less_divisor word_neq_0_conv split: if_splits)

lemma host4_loop_None: "host4_loop n draw span net = None \<longleftrightarrow> n \<noteq> 0 \<and> span = 0"
  by (induction n) (auto simp: Let_def)

lemma take_low:
  assumes "h < push_bit k 1" "2 \<le> k" "k < 32"
  shows "take_bit k h = (h :: 32 word)"
proof -
  have "unat h < 2 ^ k" using assms(1) unfolding word_less_nat_alt span_word [OF assms(2,3)] .
  then show ?thesis by (simp only: word_unat_eq_iff unsigned_take_bit_eq take_bit_nat_eq_self)
qed

lemma split_low:
  assumes "take_bit k h = (h :: 32 word)"
  shows "drop_bit k (push_bit k (drop_bit k w) OR h) = drop_bit k w" "take_bit k (push_bit k (drop_bit k w) OR h) = h"
proof -
  have "\<not> bit h n" if "k \<le> n" for n using assms that by (metis bit_take_bit_iff not_le)
  moreover have "bit w (k + n) \<Longrightarrow> k + n < 32" for n using bit_imp_le_length [of w "k + n"] by simp
  ultimately show "drop_bit k (push_bit k (drop_bit k w) OR h) = drop_bit k w"
    by (auto simp: bit_simps intro!: bit_word_eqI)
  show "take_bit k (push_bit k (drop_bit k w) OR h) = h"
    by (subst (2) assms [symmetric]) (auto simp: bit_simps intro!: bit_word_eqI)
qed

lemma randomHost4_spec:
  assumes "randomHost4 draw (push_bit (32 - b) (drop_bit (32 - b) w)) b = Some a" "a \<noteq> NoAddr" "b \<le> 32" "b \<noteq> 0"
  shows "Contains (Prefix (Addr4 w) b) a \<and>
    (b \<le> 30 \<longrightarrow> Masked (Prefix (Addr4 w) b) \<noteq> Prefix a b \<and> a \<noteq> subnetBroadcast4 (Prefix (Addr4 w) b))"
proof (cases "b \<le> 30")
  case False
  then have "a = Addr4 (push_bit (32 - b) (drop_bit (32 - b) w))" using assms by (simp add: randomHost4_def Let_def)
  then show ?thesis using False by (simp only: Contains_network4 drop_push_drop) simp
next
  case True
  let ?k = "32 - b" and ?net = "push_bit (32 - b) (drop_bit (32 - b) w)"
  have k: "2 \<le> ?k" "?k < 32" "nat (32 - int b) = ?k" using True assms(4) by auto
  have s0: "(push_bit ?k 1 :: 32 word) \<noteq> 0" using span_word [OF k(1,2)] by (metis power_eq_0_iff unat_0 zero_neq_numeral)
  have "host4_loop 16 draw (push_bit ?k 1) ?net = Some a" using assms(1) True k(3) by (simp add: randomHost4_def Let_def)
  from host4_loop_cases [OF this s0] assms(2)
  obtain h where h: "a = Addr4 (?net OR h)" "h \<noteq> 0" "h < push_bit ?k 1" "h \<noteq> push_bit ?k 1 - 1" by auto
  have t: "take_bit ?k h = h" by (rule take_low [OF h(3) k(1,2)])
  have m: "take_bit ?k (mask ?k) = (mask ?k :: 32 word)" by simp
  have "Contains (Prefix (Addr4 w) b) a" unfolding h(1) Contains_network4 split_low(1) [OF t] ..
  moreover have "?net OR h \<noteq> ?net OR 0" using split_low(2) [OF t, of w] split_low(2) [of ?k 0 w, OF take_bit_of_0] h(2) by metis
  moreover have "?net OR h \<noteq> ?net OR mask ?k"
    using split_low(2) [OF t, of w] split_low(2) [OF m, of w] h(4) push_bit_minus_1 [of ?k] by (metis diff_le_self)
  ultimately show ?thesis using h(1) assms(3) by (simp add: subnetBroadcast4_eq)
qed

lemma masked_net: "prefix_valid p \<Longrightarrow> prefix_wf p \<Longrightarrow>
    (\<exists>w b. p = Prefix (Addr4 w) b \<and> b \<le> 32 \<and> Masked p = Prefix (Addr4 (push_bit (32 - b) (drop_bit (32 - b) w))) b) \<or>
    (\<exists>w b. p = Prefix (Addr6 w []) b \<and> b \<le> 128 \<and> Masked p = Prefix (Addr6 (push_bit (128 - b) (drop_bit (128 - b) w)) []) b)"
  by (cases p rule: prefix_wf.cases) auto

text \<open>The loop over the 128 bits takes the host bits from the random bytes.\<close>

lemma host6_fold:
  "n \<le> 128 \<Longrightarrow> bit (foldl (\<lambda>out i. if i < bits then out
      else if bit rw (127 - i) then set_bit (127 - i) out else unset_bit (127 - i) out) net [0..<n]) (127 - j) \<longleftrightarrow>
    (if bits \<le> j \<and> j < n then bit rw (127 - j) else bit net (127 - j))" if "j < 128" for net rw :: "128 word"
proof (induction n)
  case (Suc n)
  have "127 - n = 127 - j \<longleftrightarrow> n = j" using that Suc(2) by auto
  then show ?case using Suc that
    by (cases "n = j") (auto simp: bit_set_bit_iff bit_unset_bit_iff less_Suc_eq)
qed simp

lemma randomHost6_spec:
  fixes w :: "128 word"
  assumes "b \<le> 127"
  defines "net \<equiv> push_bit (128 - b) (drop_bit (128 - b) w)"
  shows "\<exists>x. randomHost6 rnd net b = Addr6 x [] \<and> Contains (Prefix (Addr6 w []) b) (Addr6 x []) \<and> x \<noteq> net"
proof -
  define rw where "rw = get128 rnd"
  define out where "out = foldl (\<lambda>out i. if i < b then out
      else if bit rw (127 - i) then set_bit (127 - i) out else unset_bit (127 - i) out) net [0..<128]"
  have bits: "bit out (127 - j) \<longleftrightarrow> (if b \<le> j then bit rw (127 - j) else bit net (127 - j))" if "j < 128" for j
    using host6_fold [OF that order_refl, of b rw net] that by (simp add: out_def)
  have high: "bit out n \<longleftrightarrow> bit net n" if "128 - b \<le> n" "n < 128" for n
    using bits [of "127 - n"] that assms(1) by (auto split: if_splits)
  let ?x = "if out = net then out OR 1 else out"
  have one: "bit ?x n \<longleftrightarrow> bit out n" if "0 < n" for n using that by (simp add: bit_simps)
  have "drop_bit (128 - b) ?x = drop_bit (128 - b) net"
  proof (rule bit_word_eqI)
    fix n assume "n < LENGTH(128)"
    show "bit (drop_bit (128 - b) ?x) n \<longleftrightarrow> bit (drop_bit (128 - b) net) n"
    proof (cases "128 - b + n < 128")
      case True
      then show ?thesis using one [of "128 - b + n"] high [of "128 - b + n"] assms(1) by (simp add: bit_drop_bit_eq)
    next
      case False
      then show ?thesis using bit_imp_le_length [of ?x "128 - b + n"] bit_imp_le_length [of net "128 - b + n"]
        by (auto simp: bit_drop_bit_eq)
    qed
  qed
  then have "Contains (Prefix (Addr6 w []) b) (Addr6 ?x [])"
    by (simp only: Contains_network6 net_def drop_push_drop)
  moreover have "?x \<noteq> net"
  proof -
    have "\<not> bit net 0" using assms(1) by (simp add: net_def bit_push_bit_iff)
    moreover have "bit (net OR 1) 0" by (simp add: bit_or_iff)
    ultimately show ?thesis by metis
  qed
  moreover have "randomHost6 rnd net b = Addr6 ?x []"
    unfolding randomHost6_def Let_def rw_def [symmetric] out_def [symmetric] by (cases "out = net") simp_all
  ultimately show ?thesis by blast
qed

text \<open>The choice on any well formed subnet.\<close>

lemma randomHost_spec:
  assumes "prefix_wf p" "prefix_valid p" "randomHost draw rnd p = Some a" "IsValid a" "prefix_bits p \<noteq> 128"
  shows "Contains p a \<and> (Is4 a \<and> prefix_bits p > 30 \<or> (a \<noteq> prefix_addr (Masked p) \<and> (Is4 a \<longrightarrow> a \<noteq> subnetBroadcast4 p)))"
  using masked_net [OF assms(2,1)]
proof (elim disjE exE conjE)
  fix w b assume p: "p = Prefix (Addr4 w) b" "b \<le> 32"
    and m: "Masked p = Prefix (Addr4 (push_bit (32 - b) (drop_bit (32 - b) w))) b"
  have r: "randomHost4 draw (push_bit (32 - b) (drop_bit (32 - b) w)) b = Some a"
    using assms(3) p by (simp add: randomHost_def)
  have "b \<noteq> 0"
  proof
    assume "b = 0"
    then have "randomHost4 draw (push_bit (32 - b) (drop_bit (32 - b) w)) b = None"
      using host4_loop_None [of 16 draw "push_bit 32 1"] by (simp add: randomHost4_def Let_def)
    then show False using r by simp
  qed
  from randomHost4_spec [OF r _ p(2) this] assms(4) have c: "Contains p a"
      "b \<le> 30 \<longrightarrow> Masked p \<noteq> Prefix a b \<and> a \<noteq> subnetBroadcast4 p"
    by (auto simp: IsValid_def p(1))
  moreover have "Is4 a" using c(1) p(1) by (cases a) auto
  ultimately show ?thesis using m p(1) by auto
next
  fix w b assume p: "p = Prefix (Addr6 w []) b" "b \<le> 128"
    and m: "Masked p = Prefix (Addr6 (push_bit (128 - b) (drop_bit (128 - b) w)) []) b"
  have "b \<le> 127" using assms(5) p by simp
  from randomHost6_spec [OF this, of rnd w] obtain x where
    x: "randomHost6 rnd (push_bit (128 - b) (drop_bit (128 - b) w)) b = Addr6 x []"
      "Contains p (Addr6 x [])" "x \<noteq> push_bit (128 - b) (drop_bit (128 - b) w)" unfolding p(1) by blast
  then have "a = Addr6 x []" using assms(3) p(1) by (simp add: randomHost_def)
  then show ?thesis using x m by simp
qed

lemma randomHost_panics: "randomHost draw rnd p = None \<longleftrightarrow> (\<exists>w. p = Prefix (Addr4 w) 0)"
proof (cases p)
  case (Prefix a b)
  show ?thesis
  proof (cases a)
    case (Addr4 w)
    have "randomHost draw rnd p = None \<longleftrightarrow> nat (32 - int b) \<ge> 2 \<and> (push_bit (nat (32 - int b)) 1 :: 32 word) = 0"
      using Prefix Addr4 by (auto simp: randomHost_def randomHost4_def Let_def host4_loop_None)
    also have "\<dots> \<longleftrightarrow> b = 0"
    proof (cases "b = 0")
      case False
      then have "nat (32 - int b) < 32" by simp
      then show ?thesis using span_word [of "nat (32 - int b)"] False
        by (metis power_eq_0_iff unat_0 zero_neq_numeral)
    qed (simp add: push_bit_eq_mult)
    finally show ?thesis using Prefix Addr4 by simp
  qed (use Prefix in \<open>auto simp: randomHost_def\<close>)
qed (simp add: randomHost_def)

section \<open>Detection\<close>

text \<open>What arrives during a probe changes nothing but the verdict.\<close>

lemma defends_fold:
  "foldl (\<lambda>ns body. onDADDefend body ns) ns ds =
    ns\<lparr>dadDefended := (dadDefended ns \<or> (\<exists>d \<in> set ds. decodeAddr d = Some (dadCandidate ns)))\<rparr>"
proof (induction ds arbitrary: ns)
  case (Cons d ds)
  have "onDADDefend d ns = ns\<lparr>dadDefended := (dadDefended ns \<or> decodeAddr d = Some (dadCandidate ns))\<rparr>"
    by (auto simp: onDADDefend_def split: option.splits)
  then show ?case by (simp add: Cons disj_assoc)
qed simp

lemma dadProbe_free:
  "fst (dadProbe stopped ds cand ns) \<longleftrightarrow>
    \<not> addrInUse ns cand \<and> \<not> stopped \<and> (\<forall>d \<in> set ds. decodeAddr d \<noteq> Some cand)"
  by (auto simp: dadProbe_def Let_def defends_fold)

lemma addrInUse_probe: "addrInUse (snd (snd (dadProbe stopped ds cand ns))) a = addrInUse ns a"
  by (simp add: dadProbe_def Let_def defends_fold addrInUse_def)

lemma dad_loop_ok:
  "dad_loop ts p ns = Some (Some a, ns') \<Longrightarrow>
    \<exists>t \<in> set ts. randomHost (t_draw t) (t_rnd t) p = Some a \<and> IsValid a \<and> \<not> addrInUse ns a \<and> \<not> t_stopped t \<and>
      (\<forall>d \<in> set (t_defends t). decodeAddr d \<noteq> Some a)"
proof (induction ts arbitrary: ns)
  case (Cons t ts)
  then obtain cand where c: "randomHost (t_draw t) (t_rnd t) p = Some cand" by (auto split: option.splits)
  have v: "IsValid cand" using Cons(2) c by (auto split: if_splits)
  obtain free q ns1 where pr: "dadProbe (t_stopped t) (t_defends t) cand ns = (free, q, ns1)" by (metis prod_cases3)
  show ?case
  proof (cases free)
    case True
    then have "cand = a" using Cons(2) c v pr by simp
    then show ?thesis using True pr c v dadProbe_free [of "t_stopped t" "t_defends t" cand ns] by auto
  next
    case False
    then have "dad_loop ts p ns1 = Some (Some a, ns')" using Cons(2) c v pr by simp
    moreover have "addrInUse ns1 a = addrInUse ns a" using addrInUse_probe [of "t_stopped t" "t_defends t" cand ns a] pr by simp
    ultimately show ?thesis using Cons(1) by auto
  qed
qed simp

text \<open>C19: An address the node gives itself is a good one: if duplicate address detection on a well
  formed subnet (an IPv6 one of at most 127 bits) ends with an address, that address lies in the
  subnet, is neither its network nor its broadcast address (a /31 or /32 excepted), was in use by
  nobody this node knows, and nobody defended it while it was probed.\<close>
theorem dad_address_good:
  assumes "prefix_wf p" "prefix_valid p" "prefix_bits p \<noteq> 128" "dadPick tries p ns = Some (Some a, ns')"
  shows "Contains p a \<and> \<not> addrInUse ns a \<and>
    (Is4 a \<and> prefix_bits p > 30 \<or> (a \<noteq> prefix_addr (Masked p) \<and> (Is4 a \<longrightarrow> a \<noteq> subnetBroadcast4 p))) \<and>
    (\<exists>i < dadAttempts. \<forall>d \<in> set (t_defends (tries i)). decodeAddr d \<noteq> Some a)"
proof -
  have "dad_loop (map tries [0..<dadAttempts]) p ns = Some (Some a, ns')" using assms(4) by (simp add: dadPick_def)
  from dad_loop_ok [OF this] obtain i where i: "i < dadAttempts" "randomHost (t_draw (tries i)) (t_rnd (tries i)) p = Some a"
    "IsValid a" "\<not> addrInUse ns a" "\<forall>d \<in> set (t_defends (tries i)). decodeAddr d \<noteq> Some a" by auto
  show ?thesis using randomHost_spec [OF assms(1,2) i(2,3) assms(3)] i by blast
qed

lemma dad_panics: "dadPick tries (Prefix (Addr4 w) 0) ns = None"
proof -
  have "[0..<dadAttempts] = 0 # [1..<dadAttempts]" by (simp add: dadAttempts_def upt_conv_Cons)
  then show ?thesis
    using randomHost_panics [of "t_draw (tries 0)" "t_rnd (tries 0)" "Prefix (Addr4 w) 0"] by (simp add: dadPick_def)
qed

text \<open>Detection panics exactly on the IPv4 subnet of length 0: the span of addresses overflows
  to 0 and the first draw is divided by it; on every other subnet it returns.\<close>
theorem dad_panics_iff: "dadPick tries p ns = None \<longleftrightarrow> (\<exists>w. p = Prefix (Addr4 w) 0)"
proof -
  have no: "dad_loop ts p ns \<noteq> None" if "\<not> (\<exists>w. p = Prefix (Addr4 w) 0)" for ts
    using that randomHost_panics [of _ _ p]
    by (induction ts arbitrary: ns) (auto split: option.splits prod.splits)
  have "dadPick tries p ns = None" if "\<exists>w. p = Prefix (Addr4 w) 0" using that by (elim exE) (simp add: dad_panics)
  then show ?thesis using no [of "map tries [0..<dadAttempts]"]
    by (cases "\<exists>w. p = Prefix (Addr4 w) 0") (simp_all add: dadPick_def)
qed

definition ex_state :: addr_state where
  "ex_state = \<lparr>self4 = NoAddr, self6 = NoAddr, subnet4 = NoPrefix, subnet6 = NoPrefix, ns_name = [], assigning = False,
     dadCandidate = NoAddr, dadDefended = False, routes4 = Map.empty, routes6 = Map.empty, ns_nodes = Map.empty,
     sessions = (\<lambda>_. \<lparr>ps_nodeID = [], ps_overlay4 = NoAddr, ps_overlay6 = NoAddr\<rparr>)\<rparr>"

definition ex_try :: dad_try where
  "ex_try = \<lparr>t_draw = (\<lambda>_. 7), t_rnd = replicate 16 0, t_stopped = False, t_defends = []\<rparr>"

lemma dad_address_good_witness:
  "Contains (Prefix (Addr4 0x0a000000) 8) (Addr4 0x0a000007) \<and>
   Addr4 0x0a000007 \<noteq> subnetBroadcast4 (Prefix (Addr4 0x0a000000) 8)"
proof -
  have t: "[0..<dadAttempts] = 0 # [1..<dadAttempts]" by (simp add: dadAttempts_def upt_conv_Cons)
  have "randomHost (\<lambda>_. 7) (replicate 16 0) (Prefix (Addr4 0x0a000000) 8) = Some (Addr4 0x0a000007)" by code_simp
  moreover have "fst (dadProbe False [] (Addr4 0x0a000007) ex_state)"
    by (simp add: dadProbe_free addrInUse_def ex_state_def)
  ultimately have "\<exists>ns'. dadPick (\<lambda>_. ex_try) (Prefix (Addr4 0x0a000000) 8) ex_state = Some (Some (Addr4 0x0a000007), ns')"
    by (auto simp: dadPick_def t ex_try_def IsValid_def split: prod.splits)
  then obtain ns' where "dadPick (\<lambda>_. ex_try) (Prefix (Addr4 0x0a000000) 8) ex_state = Some (Some (Addr4 0x0a000007), ns')" by blast
  from dad_address_good [OF _ _ _ this] show ?thesis by simp
qed

lemma decode_encode_addr: "IsValid a \<Longrightarrow> decodeAddr (encodeAddr a @ r) = Some (WithoutZone (Unmap a))"
  by (cases a) (auto simp: IsValid_def encodeAddr_def decodeAddr_def AddrFrom4_def AddrFrom16_def as16_def slice_Cons Let_def
      get32_put32 slice_def)

text \<open>Two nodes do not end up with one address that one of them uses or knows: when a peer holds
  the candidate (as its own, in its routes or in its registry), it answers the query of the probe,
  and if that answer arrives in time the probe fails.\<close>
theorem defended_address_not_taken:
  assumes "IsValid a" "Unmap a = a" "\<not> has_zone a" "addrInUse peer a"
  shows "\<exists>reply. onDADQuery peer (encodeAddr a) = Some (ctrlDADDefend # reply) \<and>
    (reply \<in> set ds \<longrightarrow> \<not> fst (dadProbe stopped ds a ns))"
proof -
  have "WithoutZone a = a" using assms(3) by (cases a) auto
  then have "decodeAddr (encodeAddr a) = Some a" using decode_encode_addr [OF assms(1), of "[]"] assms(2) by simp
  then show ?thesis using assms(4) by (auto simp: onDADQuery_def dadProbe_free)
qed

lemma defended_address_not_taken_witness:
  "\<not> fst (dadProbe False [encodeAddr (Addr4 9)] (Addr4 9) ex_state)"
proof -
  have "addrInUse (ex_state\<lparr>self4 := Addr4 9\<rparr>) (Addr4 9)" by (simp add: addrInUse_def)
  from defended_address_not_taken [OF _ _ _ this, of "[encodeAddr (Addr4 9)]" False ex_state]
  obtain reply where "onDADQuery (ex_state\<lparr>self4 := Addr4 9\<rparr>) (encodeAddr (Addr4 9)) = Some (ctrlDADDefend # reply)"
    "reply \<in> set [encodeAddr (Addr4 9)] \<longrightarrow> \<not> fst (dadProbe False [encodeAddr (Addr4 9)] (Addr4 9) ex_state)"
    by (auto simp: IsValid_def)
  moreover have "onDADQuery (ex_state\<lparr>self4 := Addr4 9\<rparr>) (encodeAddr (Addr4 9)) = Some (ctrlDADDefend # encodeAddr (Addr4 9))"
    by (simp add: onDADQuery_def decode_encode_addr [of "Addr4 9" "[]", simplified] IsValid_def addrInUse_def)
  ultimately show ?thesis by simp
qed

text \<open>C20: A peer can crash a node that joined without a subnet: if the payload of a handshake
  advertises an IPv4 subnet of length 0, the node adopts it from the decoded payload, starts
  detection, and detection divides by zero.\<close>
theorem advertised_zero_subnet_crashes:
  assumes "length (hs_Ephemeral p) = 32" "hs_Subnet4 p = Prefix (Addr4 w) 0" "prefix_wf (hs_Subnet6 p)"
    "decodeHSPayload (encodeHSPayload p) = Some q"
    "\<not> prefix_valid (subnet4 ns)" "\<not> IsValid (self4 ns)" "\<not> assigning ns" "absorbIdentity q ns = (changed, ns1)"
    "maybeAssignAddress ns1 = (start, ns2)"
  shows "start \<and> runDAD tries4 err4 tries6 err6 ns2 = None"
proof -
  have "q = hs_seen p" using hs_payload_seen [OF assms(1) _ assms(3), of "[]"] assms(2,4) by simp
  then have q: "hs_Subnet4 q = Masked (Prefix (Addr4 w) 0)" using assms(2) by (simp add: hs_seen_def wire_prefix_def)
  have s: "\<exists>v. subnet4 ns1 = Prefix (Addr4 v) 0" "self4 ns1 = self4 ns" "assigning ns1 = assigning ns"
    using assms(5,8) q by (auto simp: absorbIdentity_def Let_def split: if_splits)
  then have n: "need4 ns1" using assms(6) by (auto simp: need4_def)
  then have m: "start" "ns2 = ns1\<lparr>assigning := True\<rparr>" using assms(7,9) s by (auto simp: maybeAssignAddress_def split: if_splits)
  obtain v where v: "subnet4 ns2 = Prefix (Addr4 v) 0" using s m by auto
  have "need4 ns2" using n m by (simp add: need4_def)
  then show ?thesis using m(1) v dad_panics [of tries4 v ns2] by (simp add: runDAD_def Let_def)
qed

lemma advertised_zero_subnet_crashes_witness:
  "runDAD (\<lambda>_. ex_try) False (\<lambda>_. ex_try) False
     (snd (maybeAssignAddress (snd (absorbIdentity
       (the (decodeHSPayload (encodeHSPayload (ex_payload\<lparr>hs_Subnet4 := Prefix (Addr4 0x0a000000) 0\<rparr>)))) ex_state)))) = None"
proof -
  let ?p = "ex_payload\<lparr>hs_Subnet4 := Prefix (Addr4 0x0a000000) 0\<rparr>"
  have e: "length (hs_Ephemeral ?p) = 32" "prefix_wf (hs_Subnet4 ?p)" "prefix_wf (hs_Subnet6 ?p)"
    by (simp_all add: ex_payload_def zeroHS_def)
  have d: "decodeHSPayload (encodeHSPayload ?p) = Some (hs_seen ?p)" using hs_payload_seen [OF e, of "[]"] by simp
  show ?thesis
    using advertised_zero_subnet_crashes [OF e(1) _ e(3) d, of _ ex_state "fst (absorbIdentity (hs_seen ?p) ex_state)"
        "snd (absorbIdentity (hs_seen ?p) ex_state)" "fst (maybeAssignAddress (snd (absorbIdentity (hs_seen ?p) ex_state)))"
        "snd (maybeAssignAddress (snd (absorbIdentity (hs_seen ?p) ex_state)))"]
    by (simp add: d ex_state_def IsValid_def)
qed

section \<open>Routes follow announcements\<close>

definition routes_ok :: "addr_state \<Rightarrow> bool" where
  "routes_ok ns \<longleftrightarrow>
     (\<forall>a s. routes4 ns a = Some s \<longrightarrow> IsValid a \<and> ps_overlay4 (sessions ns s) = a) \<and>
     (\<forall>a s. routes6 ns a = Some s \<longrightarrow> IsValid a \<and> ps_overlay6 (sessions ns s) = a)"

text \<open>C21: No route to an overlay address outlives it: when every route is to a valid
  address and leads to the session whose address it is, it still does after a peer announces new addresses, whatever the bytes of the
  announcement; an announced address is then routed to its peer, and an address the peer had
  before and did not announce again is routed to nobody, and what leads to another session at any
  other address stays.\<close>
theorem announcement_keeps_routes:
  assumes "routes_ok ns" "optAddr body = (v4, r)" "optAddr r = (v6, r')"
  shows "routes_ok (onAddrNotify ps body ns) \<and>
    (IsValid v4 \<longrightarrow> routes4 (onAddrNotify ps body ns) v4 = Some ps) \<and>
    (IsValid v6 \<longrightarrow> routes6 (onAddrNotify ps body ns) v6 = Some ps) \<and>
    (\<forall>a. IsValid a \<and> a \<noteq> v4 \<longrightarrow> routes4 (onAddrNotify ps body ns) a \<noteq> Some ps) \<and>
    (\<forall>a. IsValid a \<and> a \<noteq> v6 \<longrightarrow> routes6 (onAddrNotify ps body ns) a \<noteq> Some ps) \<and>
    (\<forall>a s. s \<noteq> ps \<and> a \<noteq> v4 \<and> routes4 ns a = Some s \<longrightarrow> routes4 (onAddrNotify ps body ns) a = Some s) \<and>
    (\<forall>a s. s \<noteq> ps \<and> a \<noteq> v6 \<and> routes6 ns a = Some s \<longrightarrow> routes6 (onAddrNotify ps body ns) a = Some s)"
proof -
  define ns' where "ns' = onAddrNotify ps body ns"
  have r: "routes4 ns' = (if IsValid v4 then (drop_route (ps_overlay4 (sessions ns ps)) ps (routes4 ns))(v4 \<mapsto> ps)
        else drop_route (ps_overlay4 (sessions ns ps)) ps (routes4 ns))"
      "routes6 ns' = (if IsValid v6 then (drop_route (ps_overlay6 (sessions ns ps)) ps (routes6 ns))(v6 \<mapsto> ps)
        else drop_route (ps_overlay6 (sessions ns ps)) ps (routes6 ns))"
      "ps_overlay4 (sessions ns' s) = (if IsValid v4 \<and> s = ps then v4 else ps_overlay4 (sessions ns s))"
      "ps_overlay6 (sessions ns' s) = (if IsValid v6 \<and> s = ps then v6 else ps_overlay6 (sessions ns s))" for s
    using assms(2,3) by (auto simp: ns'_def onAddrNotify_def Let_def split: option.splits)
  have o: "routes4 ns a = Some s \<Longrightarrow> IsValid a \<and> ps_overlay4 (sessions ns s) = a"
      "routes6 ns a = Some s \<Longrightarrow> IsValid a \<and> ps_overlay6 (sessions ns s) = a" for a s
    using assms(1) by (auto simp: routes_ok_def)
  have d: "drop_route (ps_overlay4 (sessions ns ps)) ps (routes4 ns) a = Some s \<Longrightarrow> routes4 ns a = Some s \<and> (s = ps \<longrightarrow> \<not> IsValid a)"
      "drop_route (ps_overlay6 (sessions ns ps)) ps (routes6 ns) a = Some s \<Longrightarrow> routes6 ns a = Some s \<and> (s = ps \<longrightarrow> \<not> IsValid a)" for a s
    by (auto simp: drop_route_def dest: o split: if_splits)
  have other: "\<forall>a s. s \<noteq> ps \<and> a \<noteq> v4 \<and> routes4 ns a = Some s \<longrightarrow> routes4 ns' a = Some s"
      "\<forall>a s. s \<noteq> ps \<and> a \<noteq> v6 \<and> routes6 ns a = Some s \<longrightarrow> routes6 ns' a = Some s"
    by (auto simp: r drop_route_def)
  have "routes_ok ns' \<and> (IsValid v4 \<longrightarrow> routes4 ns' v4 = Some ps) \<and> (IsValid v6 \<longrightarrow> routes6 ns' v6 = Some ps) \<and>
    (\<forall>a. IsValid a \<and> a \<noteq> v4 \<longrightarrow> routes4 ns' a \<noteq> Some ps) \<and> (\<forall>a. IsValid a \<and> a \<noteq> v6 \<longrightarrow> routes6 ns' a \<noteq> Some ps)"
    unfolding routes_ok_def by (auto simp: r split: if_splits dest!: d dest: o)
  then show ?thesis unfolding ns'_def [symmetric] using other by blast
qed

lemma announcement_keeps_routes_witness:
  "routes4 (onAddrNotify 3 ([4, 10, 0, 0, 9] @ [0]) ex_state) (Addr4 0x0a000009) = Some 3"
proof -
  have "routes_ok ex_state" by (simp add: routes_ok_def ex_state_def)
  moreover have "optAddr ([4, 10, 0, 0, 9] @ [0]) = (Addr4 0x0a000009, [0])" "optAddr [0] = (NoAddr, [])" by code_simp+
  ultimately show ?thesis using announcement_keeps_routes by (simp add: IsValid_def)
qed

end
