(* ===== verification/Nat_Engine.thy ===== *)
theory Nat_Engine
  imports Ip_Packet
begin

text \<open>
  The overlay NAT of internal/mesh/nat.go: rules, connection table, \<open>translateOut\<close>,
  \<open>translateIn\<close>, the port allocator and the idle sweep. The four maps of the code share
  connection objects, whose \<open>lastSeen\<close> is updated through either map: the maps hold
  connection numbers and \<open>conns\<close> is the store. The search for a free source port does not
  end when every port clashes, so it is a partial function, and a translation is an option.
  The table's methods run under its mutex; the clock is an argument. A nil table translates nothing.
\<close>

section \<open>State\<close>

datatype natAction = snatAction | dnatAction

record natRule =
  action :: natAction
  r_is6 :: bool
  r_src :: prefix
  r_dst :: prefix
  srcNeg :: bool
  dstNeg :: bool
  r_proto :: byte
  r_to :: addr
  dportLo :: "16 word"
  dportHi :: "16 word"
  toPort :: "16 word"

record natKey =
  k_proto :: byte
  k_sip :: addr
  k_dip :: addr
  k_sport :: "16 word"
  k_dport :: "16 word"

record natConn =
  oSrc :: addr
  oDst :: addr
  oSport :: "16 word"
  oDport :: "16 word"
  tSrc :: addr
  tDst :: addr
  tSport :: "16 word"
  tDport :: "16 word"
  c_proto :: byte
  lastSeen :: int

record natTable =
  snat :: "natRule list"
  dnat :: "natRule list"
  snatFwd :: "natKey \<Rightarrow> nat option"
  snatRev :: "natKey \<Rightarrow> nat option"
  dnatFwd :: "natKey \<Rightarrow> nat option"
  dnatRev :: "natKey \<Rightarrow> nat option"
  conns :: "nat \<Rightarrow> natConn"
  next_conn :: nat
  nextPort :: "16 word"
  ttl :: int

definition natConnTTL :: int where "natConnTTL = 120 * 1000000000"

definition nk :: "byte \<Rightarrow> addr \<Rightarrow> addr \<Rightarrow> 16 word \<Rightarrow> 16 word \<Rightarrow> natKey" where
  "nk p s d sp dp = \<lparr>k_proto = p, k_sip = s, k_dip = d, k_sport = sp, k_dport = dp\<rparr>"

definition zero_conn :: natConn where
  "zero_conn = \<lparr>oSrc = NoAddr, oDst = NoAddr, oSport = 0, oDport = 0, tSrc = NoAddr, tDst = NoAddr,
     tSport = 0, tDport = 0, c_proto = 0, lastSeen = 0\<rparr>"

definition newNATTable :: "natRule list \<Rightarrow> int \<Rightarrow> natTable" where
  "newNATTable rules life =
     \<lparr>snat = filter (\<lambda>r. action r = snatAction) rules, dnat = filter (\<lambda>r. action r \<noteq> snatAction) rules,
      snatFwd = Map.empty, snatRev = Map.empty, dnatFwd = Map.empty, dnatRev = Map.empty,
      conns = (\<lambda>_. zero_conn), next_conn = 0, nextPort = 20000,
      ttl = (if life \<le> 0 then natConnTTL else life)\<rparr>"

section \<open>Matching and port allocation\<close>

definition prefixMatch :: "prefix \<Rightarrow> addr \<Rightarrow> bool" where
  "prefixMatch p a \<longleftrightarrow> \<not> prefix_valid p \<or> Contains p a"

definition prefixMatchNeg :: "prefix \<Rightarrow> addr \<Rightarrow> bool \<Rightarrow> bool" where
  "prefixMatchNeg p a neg = (if \<not> prefix_valid p then True else Contains p a \<noteq> neg)"

text \<open>The conditions of the two rule loops; the loops stop at the first rule that passes them.\<close>

definition snat_matches :: "ipHdr \<Rightarrow> natRule \<Rightarrow> bool" where
  "snat_matches h r \<longleftrightarrow> r_is6 r = h_is6 h \<and> \<not> (r_proto r \<noteq> 0 \<and> r_proto r \<noteq> h_proto h) \<and>
     \<not> (\<not> prefixMatchNeg (r_src r) (h_src h) (srcNeg r) \<or> \<not> prefixMatchNeg (r_dst r) (h_dst h) (dstNeg r))"

definition dnat_matches :: "ipHdr \<Rightarrow> natRule \<Rightarrow> bool" where
  "dnat_matches h r \<longleftrightarrow> snat_matches h r \<and>
     \<not> (dportLo r \<noteq> 0 \<and> (h_dport h < dportLo r \<or> h_dport h > dportHi r))"

definition allocPort :: "16 word \<Rightarrow> 16 word \<times> 16 word" where
  "allocPort np =
     (let n = (if np < 20000 then 20000 else np); n' = n + 1
      in (n, if n' = 0 then 20000 else n'))"

text \<open>The loop over clashing source ports: the port chosen and the new \<open>nextPort\<close>.\<close>

partial_function (option) pick_port :: "(16 word \<Rightarrow> bool) \<Rightarrow> 16 word \<Rightarrow> 16 word \<Rightarrow> (16 word \<times> 16 word) option" where
  "pick_port clash tport np =
     (if clash tport then (case allocPort np of (p, np') \<Rightarrow> pick_port clash p np')
      else Some (tport, np))"

declare pick_port.simps [code]

section \<open>Translation\<close>

definition touch :: "int \<Rightarrow> nat \<Rightarrow> natTable \<Rightarrow> natTable" where
  "touch now i t = t\<lparr>conns := (conns t)(i := (conns t i)\<lparr>lastSeen := now\<rparr>)\<rparr>"

definition fwd_key :: "ipHdr \<Rightarrow> natKey" where
  "fwd_key h = nk (h_proto h) (h_src h) (h_dst h) (h_sport h) (h_dport h)"

text \<open>The SNAT connection of a packet under rule \<open>r\<close>, found or created.\<close>

definition snat_conn :: "natTable \<Rightarrow> ipHdr \<Rightarrow> natRule \<Rightarrow> (natTable \<times> nat) option" where
  "snat_conn t h r =
     (case snatFwd t (fwd_key h) of
        Some i \<Rightarrow> Some (t, i)
      | None \<Rightarrow>
          let rev = (\<lambda>tp. nk (h_proto h) (h_dst h) (r_to r) (h_dport h) tp) in
          (case (if h_proto h = 6 \<or> h_proto h = 17
                 then pick_port (\<lambda>tp. snatRev t (rev tp) \<noteq> None) (h_sport h) (nextPort t)
                 else Some (h_sport h, nextPort t)) of
             None \<Rightarrow> None
           | Some (tport, np) \<Rightarrow>
               let i = next_conn t;
                   c = \<lparr>oSrc = h_src h, oDst = h_dst h, oSport = h_sport h, oDport = h_dport h,
                        tSrc = r_to r, tDst = h_dst h, tSport = tport, tDport = h_dport h,
                        c_proto = h_proto h, lastSeen = 0\<rparr>
               in Some (t\<lparr>nextPort := np, conns := (conns t)(i := c), next_conn := i + 1,
                          snatFwd := (snatFwd t)(fwd_key h \<mapsto> i), snatRev := (snatRev t)(rev tport \<mapsto> i)\<rparr>, i)))"

definition nat_out :: "int \<Rightarrow> natTable \<Rightarrow> bytes \<Rightarrow> (natTable \<times> bytes) option" where
  "nat_out now t pkt =
     (case ipFields pkt of
        None \<Rightarrow> Some (t, pkt)
      | Some h \<Rightarrow>
          (case dnatRev t (fwd_key h) of
             Some i \<Rightarrow> let c = conns t i in
               Some (touch now i t, fixChecksums (setSrc pkt h (oDst c) (oDport c)) h)
           | None \<Rightarrow>
               (case find (snat_matches h) (snat t) of
                  None \<Rightarrow> Some (t, pkt)
                | Some r \<Rightarrow>
                    (case snat_conn t h r of
                       None \<Rightarrow> None
                     | Some (t1, i) \<Rightarrow>
                         let c = conns t1 i in
                         Some (touch now i t1, fixChecksums (setSrc pkt h (tSrc c) (tSport c)) h)))))"

definition dnat_conn :: "natTable \<Rightarrow> ipHdr \<Rightarrow> natRule \<Rightarrow> natTable \<times> nat" where
  "dnat_conn t h r =
     (let tport = (if toPort r \<noteq> 0 then toPort r else h_dport h) in
      case dnatFwd t (fwd_key h) of
        Some i \<Rightarrow> (t, i)
      | None \<Rightarrow>
          let i = next_conn t;
              c = \<lparr>oSrc = h_src h, oDst = h_dst h, oSport = h_sport h, oDport = h_dport h,
                   tSrc = h_src h, tDst = r_to r, tSport = h_sport h, tDport = tport,
                   c_proto = h_proto h, lastSeen = 0\<rparr>
          in (t\<lparr>conns := (conns t)(i := c), next_conn := i + 1,
                dnatFwd := (dnatFwd t)(fwd_key h \<mapsto> i),
                dnatRev := (dnatRev t)(nk (h_proto h) (r_to r) (h_src h) tport (h_sport h) \<mapsto> i)\<rparr>, i))"

definition nat_in :: "int \<Rightarrow> natTable \<Rightarrow> bytes \<Rightarrow> natTable \<times> bytes" where
  "nat_in now t pkt =
     (case ipFields pkt of
        None \<Rightarrow> (t, pkt)
      | Some h \<Rightarrow>
          (case snatRev t (fwd_key h) of
             Some i \<Rightarrow> let c = conns t i in
               (touch now i t, fixChecksums (setDst pkt h (oSrc c) (oSport c)) h)
           | None \<Rightarrow>
               (case find (dnat_matches h) (dnat t) of
                  None \<Rightarrow> (t, pkt)
                | Some r \<Rightarrow>
                    (case dnat_conn t h r of
                       (t1, i) \<Rightarrow>
                         let c = conns t1 i in
                         (touch now i t1, fixChecksums (setDst pkt h (tDst c) (tDport c)) h)))))"

text \<open>The entry points: a nil table does nothing.\<close>

definition translateOut :: "int \<Rightarrow> natTable option \<Rightarrow> bytes \<Rightarrow> (natTable option \<times> bytes) option" where
  "translateOut now to pkt =
     (case to of None \<Rightarrow> Some (None, pkt)
      | Some t \<Rightarrow> map_option (\<lambda>(t', p). (Some t', p)) (nat_out now t pkt))"

definition translateIn :: "int \<Rightarrow> natTable option \<Rightarrow> bytes \<Rightarrow> natTable option \<times> bytes" where
  "translateIn now to pkt =
     (case to of None \<Rightarrow> (None, pkt) | Some t \<Rightarrow> (case nat_in now t pkt of (t', p) \<Rightarrow> (Some t', p)))"

definition expire :: "int \<Rightarrow> natTable \<Rightarrow> (natKey \<Rightarrow> nat option) \<Rightarrow> natKey \<Rightarrow> nat option" where
  "expire now t m = (\<lambda>k. case m k of None \<Rightarrow> None
     | Some i \<Rightarrow> if now - lastSeen (conns t i) > ttl t then None else Some i)"

definition nat_sweep :: "int \<Rightarrow> natTable \<Rightarrow> natTable" where
  "nat_sweep now t =
     t\<lparr>snatFwd := expire now t (snatFwd t), snatRev := expire now t (snatRev t),
       dnatFwd := expire now t (dnatFwd t), dnatRev := expire now t (dnatRev t)\<rparr>"

section \<open>The port search\<close>

lemma pick_port_done: "\<not> clash tp \<Longrightarrow> pick_port clash tp np = Some (tp, np)"
  by (subst pick_port.simps) simp

lemma pick_port_next: "clash tp \<Longrightarrow> pick_port clash tp np = pick_port clash (fst (allocPort np)) (snd (allocPort np))"
  by (subst pick_port.simps) (simp add: split_beta)

text \<open>When every port of the pool clashes the search does not end: a result would be free.\<close>

lemma allocPort_range: "20000 \<le> fst (allocPort np)" "20000 \<le> snd (allocPort np)"
proof -
  show "20000 \<le> fst (allocPort np)" by (auto simp: allocPort_def Let_def)
  have "20000 \<le> n + 1 \<or> n + 1 = 0" if "20000 \<le> n" for n :: "16 word"
  proof (cases "unat n = 65535")
    case True
    then have "n = of_nat 65535" by (simp add: word_unat_eq_iff)
    then show ?thesis by simp
  next
    case False
    then have "unat n + 1 < 2 ^ 16" using unat_less_2p [of n] by simp
    then have "unat (n + 1) = unat n + 1" by (simp add: unat_plus_small)
    then show ?thesis using that by (simp add: word_le_nat_alt)
  qed
  then show "20000 \<le> snd (allocPort np)" by (auto simp: allocPort_def Let_def not_less)
qed

lemma pick_port_facts:
  "pick_port clash tp np = Some r \<Longrightarrow> \<not> clash (fst r) \<and> (fst r = tp \<or> 20000 \<le> fst r)"
proof (rule pick_port.raw_induct [of "\<lambda>clash tp np r. \<not> clash (fst r) \<and> (fst r = tp \<or> 20000 \<le> fst r)"])
  fix pp clash tport np r
  assume ih: "\<And>clash tport np r. pp clash tport np = Some r \<Longrightarrow> \<not> clash (fst r) \<and> (fst r = tport \<or> 20000 \<le> fst r)"
    and eq: "(if clash tport then case allocPort np of (p, np') \<Rightarrow> pp clash p np' else Some (tport, np)) = Some r"
  show "\<not> clash (fst r) \<and> (fst r = tport \<or> 20000 \<le> fst r)"
  proof (cases "clash tport")
    case True
    then have "pp clash (fst (allocPort np)) (snd (allocPort np)) = Some r" using eq by (simp add: split_beta)
    then show ?thesis using ih allocPort_range(1) [of np] by metis
  next
    case False
    then show ?thesis using eq by auto
  qed
qed

text \<open>The allocator goes round the pool 20000..65535: \<open>port_dist\<close> is how many allocations
  away a port is.\<close>

definition port_dist :: "16 word \<Rightarrow> 16 word \<Rightarrow> nat" where
  "port_dist n p = (if n \<le> p then unat p - unat n else unat p + 45536 - unat n)"

lemma port_dist_step:
  assumes "20000 \<le> np" "20000 \<le> p" "np \<noteq> p"
  shows "port_dist (snd (allocPort np)) p < port_dist np p"
proof -
  have le: "20000 \<le> unat np" "20000 \<le> unat p" "unat p < 65536" "unat np < 65536"
    using assms unat_less_2p [of p] unat_less_2p [of np] by (simp_all add: word_le_nat_alt)
  have ne: "unat np \<noteq> unat p" using assms(3) by (simp add: word_unat_eq_iff)
  have a: "snd (allocPort np) = (if np + 1 = 0 then 20000 else np + 1)"
    using assms(1) by (simp add: allocPort_def Let_def not_less [symmetric])
  show ?thesis
  proof (cases "unat np = 65535")
    case True
    then have "np = of_nat 65535" by (simp add: word_unat_eq_iff)
    then have "np + 1 = 0" by simp
    then show ?thesis using a le ne True by (auto simp: port_dist_def word_le_nat_alt)
  next
    case False
    then have u: "unat (np + 1) = unat np + 1" using le by (simp add: unat_plus_small)
    then have "np + 1 \<noteq> 0" by (metis unat_0 add_is_0 one_neq_zero)
    then show ?thesis using a le ne u by (auto simp: port_dist_def word_le_nat_alt)
  qed
qed

lemma pick_port_ends:
  assumes "20000 \<le> p" "\<not> clash p"
  shows "\<exists>r. pick_port clash tp np = Some r"
proof -
  have main: "\<exists>r. pick_port clash (fst (allocPort np)) (snd (allocPort np)) = Some r" if "20000 \<le> np" for np
    using that
  proof (induction "port_dist np p" arbitrary: np rule: less_induct)
    case less
    have f: "fst (allocPort np) = np" using less(2) by (simp add: allocPort_def Let_def not_less [symmetric])
    show ?case
    proof (cases "clash np")
      case False
      then show ?thesis by (simp add: f pick_port_done)
    next
      case True
      then have "np \<noteq> p" using assms(2) by auto
      then have "\<exists>r. pick_port clash (fst (allocPort (snd (allocPort np)))) (snd (allocPort (snd (allocPort np)))) = Some r"
        using less(1) [OF port_dist_step [OF less(2) assms(1)]] allocPort_range by simp
      then show ?thesis using pick_port_next [of clash np "snd (allocPort np)"] True by (simp add: f)
    qed
  qed
  show ?thesis
  proof (cases "clash tp")
    case False
    then show ?thesis using pick_port_done by blast
  next
    case True
    show ?thesis
    proof (cases "20000 \<le> np")
      case le: True
      then show ?thesis using main [OF le] pick_port_next [of clash tp np] True by simp
    next
      case False
      then have "allocPort np = allocPort 20000" by (simp add: allocPort_def Let_def not_le)
      then show ?thesis using main [of 20000] pick_port_next [of clash tp np] True by simp
    qed
  qed
qed

section \<open>The table's invariant\<close>

definition conn_key :: "natConn \<Rightarrow> natKey" where
  "conn_key c = nk (c_proto c) (oSrc c) (oDst c) (oSport c) (oDport c)"

definition snat_rev_key :: "natConn \<Rightarrow> natKey" where
  "snat_rev_key c = nk (c_proto c) (oDst c) (tSrc c) (oDport c) (tSport c)"

definition dnat_rev_key :: "natConn \<Rightarrow> natKey" where
  "dnat_rev_key c = nk (c_proto c) (tDst c) (oSrc c) (tDport c) (oSport c)"

lemma keys_touch [simp]:
  "conn_key (c\<lparr>lastSeen := n\<rparr>) = conn_key c" "snat_rev_key (c\<lparr>lastSeen := n\<rparr>) = snat_rev_key c"
  "dnat_rev_key (c\<lparr>lastSeen := n\<rparr>) = dnat_rev_key c"
  by (simp_all add: conn_key_def snat_rev_key_def dnat_rev_key_def)

lemma nk_eq [simp]: "nk p s d sp dp = nk p' s' d' sp' dp' \<longleftrightarrow> p = p' \<and> s = s' \<and> d = d' \<and> sp = sp' \<and> dp = dp'"
  by (auto simp: nk_def)

text \<open>Addresses of one family, without a zone.\<close>

definition fam :: "bool \<Rightarrow> addr \<Rightarrow> bool" where
  "fam is6 a \<longleftrightarrow> (if is6 then (\<exists>w. a = Addr6 w []) else (\<exists>w. a = Addr4 w))"

lemma fits_fam: "fits h a \<longleftrightarrow> fam (h_is6 h) a"
  by (simp add: fits_def fam_def)

lemma fam_unique: "fam b a \<Longrightarrow> fam b' a \<Longrightarrow> b = b'"
  by (auto simp: fam_def split: if_splits)

definition conn_fam :: "natConn \<Rightarrow> bool" where
  "conn_fam c \<longleftrightarrow> (\<exists>b. fam b (oSrc c) \<and> fam b (oDst c) \<and> fam b (tSrc c) \<and> fam b (tDst c))"

lemma conn_fam_touch [simp]: "conn_fam (c\<lparr>lastSeen := n\<rparr>) = conn_fam c"
  by (simp add: conn_fam_def)

definition rule_wf :: "natRule \<Rightarrow> bool" where
  "rule_wf r \<longleftrightarrow> fam (r_is6 r) (r_to r)"

definition tracked :: "(natConn \<Rightarrow> natKey) \<Rightarrow> natTable \<Rightarrow> (natKey \<Rightarrow> nat option) \<Rightarrow> bool" where
  "tracked kf t m \<longleftrightarrow> (\<forall>k i. m k = Some i \<longrightarrow> i < next_conn t \<and> kf (conns t i) = k \<and> conn_fam (conns t i))"

definition l4_ports :: "byte \<Rightarrow> bool" where
  "l4_ports p \<longleftrightarrow> p = 6 \<or> p = 17"

definition nat_wf :: "natTable \<Rightarrow> bool" where
  "nat_wf t \<longleftrightarrow>
     (\<forall>r \<in> set (snat t) \<union> set (dnat t). rule_wf r) \<and>
     tracked conn_key t (snatFwd t) \<and> tracked snat_rev_key t (snatRev t) \<and>
     tracked conn_key t (dnatFwd t) \<and> tracked dnat_rev_key t (dnatRev t) \<and>
     (\<forall>k i. snatFwd t k = Some i \<longrightarrow> l4_ports (k_proto k) \<longrightarrow>
        snatRev t (snat_rev_key (conns t i)) = Some i \<and> (k_sport k \<noteq> 0 \<longrightarrow> tSport (conns t i) \<noteq> 0))"

lemma nat_wfD:
  assumes "nat_wf t"
  shows "r \<in> set (snat t) \<or> r \<in> set (dnat t) \<Longrightarrow> rule_wf r"
    and "tracked conn_key t (snatFwd t)" "tracked snat_rev_key t (snatRev t)"
    and "tracked conn_key t (dnatFwd t)" "tracked dnat_rev_key t (dnatRev t)"
    and "snatFwd t k = Some i \<Longrightarrow> l4_ports (k_proto k) \<Longrightarrow>
      snatRev t (snat_rev_key (conns t i)) = Some i \<and> (k_sport k \<noteq> 0 \<longrightarrow> tSport (conns t i) \<noteq> 0)"
  using assms unfolding nat_wf_def by blast+

lemma trackedD: "tracked kf t m \<Longrightarrow> m k = Some i \<Longrightarrow> i < next_conn t \<and> kf (conns t i) = k \<and> conn_fam (conns t i)"
  by (simp add: tracked_def)

lemma tracked_touch:
  "(\<And>c n. kf (c\<lparr>lastSeen := n\<rparr>) = kf c) \<Longrightarrow> tracked kf (touch now i t) m = tracked kf t m"
  unfolding tracked_def touch_def by (auto split: if_splits)

lemma touch_fields [simp]:
  "snat (touch now i t) = snat t" "dnat (touch now i t) = dnat t" "snatFwd (touch now i t) = snatFwd t"
  "snatRev (touch now i t) = snatRev t" "dnatFwd (touch now i t) = dnatFwd t" "dnatRev (touch now i t) = dnatRev t"
  "next_conn (touch now i t) = next_conn t" "nextPort (touch now i t) = nextPort t" "ttl (touch now i t) = ttl t"
  by (simp_all add: touch_def)

lemma conns_touch: "conns (touch now i t) j = (if j = i then (conns t i)\<lparr>lastSeen := now\<rparr> else conns t j)"
  by (simp add: touch_def)

lemma nat_wf_touch: "nat_wf t \<Longrightarrow> nat_wf (touch now i t)"
  by (simp add: nat_wf_def tracked_touch conns_touch)

text \<open>A new connection: what the maps may gain.\<close>

lemma tracked_new:
  assumes "tracked kf t m" "kf c = k" "conn_fam c"
    and t': "next_conn t' = next_conn t + 1" "conns t' = (conns t)(next_conn t := c)"
  shows "tracked kf t' (m(k \<mapsto> next_conn t))" "tracked kf t' m"
  using assms by (auto simp: tracked_def less_Suc_eq)

lemma snat_conn_spec:
  assumes wf: "nat_wf t" and h: "fam (h_is6 h) (h_src h)" "fam (h_is6 h) (h_dst h)"
    and r: "r \<in> set (snat t)" "r_is6 r = h_is6 h" and sc: "snat_conn t h r = Some (t', i)"
  shows "nat_wf t' \<and> snatFwd t' (fwd_key h) = Some i \<and> conn_key (conns t' i) = fwd_key h \<and>
    conn_fam (conns t' i) \<and> (\<forall>j < next_conn t. conns t' j = conns t j) \<and> next_conn t \<le> next_conn t' \<and>
    ttl t' = ttl t"
proof (cases "snatFwd t (fwd_key h)")
  case (Some j)
  then have "t' = t" "i = j" using sc by (auto simp: snat_conn_def)
  then show ?thesis
    using Some wf trackedD [OF nat_wfD(2) [OF wf] Some] by simp
next
  case None
  let ?rev = "\<lambda>tp. nk (h_proto h) (h_dst h) (r_to r) (h_dport h) tp"
  obtain tport np where pp: "(if h_proto h = 6 \<or> h_proto h = 17
      then pick_port (\<lambda>tp. snatRev t (?rev tp) \<noteq> None) (h_sport h) (nextPort t) else Some (h_sport h, nextPort t)) = Some (tport, np)"
    using sc None by (auto simp: snat_conn_def Let_def split: option.splits prod.splits)
  define c where "c = \<lparr>oSrc = h_src h, oDst = h_dst h, oSport = h_sport h, oDport = h_dport h,
      tSrc = r_to r, tDst = h_dst h, tSport = tport, tDport = h_dport h, c_proto = h_proto h, lastSeen = 0\<rparr>"
  have i: "i = next_conn t" and t': "t' = t\<lparr>nextPort := np, conns := (conns t)(i := c), next_conn := i + 1,
      snatFwd := (snatFwd t)(fwd_key h \<mapsto> i), snatRev := (snatRev t)(?rev tport \<mapsto> i)\<rparr>"
    using sc None pp by (auto simp: snat_conn_def Let_def c_def)
  have "fam (h_is6 h) (r_to r)" using nat_wfD(1) [OF wf, of r] r by (simp add: rule_wf_def)
  then have cf: "conn_fam c" using h unfolding conn_fam_def c_def by (intro exI [of _ "h_is6 h"]) simp
  have keys: "conn_key c = fwd_key h" "snat_rev_key c = ?rev tport"
    by (simp_all add: c_def conn_key_def fwd_key_def snat_rev_key_def)
  have free: "snatRev t (?rev tport) = None" if "l4_ports (h_proto h)"
    using that pp pick_port_facts [of "\<lambda>tp. snatRev t (?rev tp) \<noteq> None" "h_sport h" "nextPort t" "(tport, np)"]
    by (simp add: l4_ports_def)
  have tport0: "h_sport h \<noteq> 0 \<Longrightarrow> tport \<noteq> 0" if "l4_ports (h_proto h)"
    using that pp pick_port_facts [of "\<lambda>tp. snatRev t (?rev tp) \<noteq> None" "h_sport h" "nextPort t" "(tport, np)"]
    by (auto simp: l4_ports_def)
  have old: "snatRev t' (snat_rev_key (conns t' j)) = Some j \<and> (k_sport k \<noteq> 0 \<longrightarrow> tSport (conns t' j) \<noteq> 0)"
    if "snatFwd t k = Some j" "l4_ports (k_proto k)" for k j
  proof -
    have tj: "j < next_conn t" "conn_key (conns t j) = k" using trackedD [OF nat_wfD(2) [OF wf] that(1)] by auto
    have rj: "snatRev t (snat_rev_key (conns t j)) = Some j \<and> (k_sport k \<noteq> 0 \<longrightarrow> tSport (conns t j) \<noteq> 0)"
      using nat_wfD(6) [OF wf that] .
    have "snat_rev_key (conns t j) \<noteq> ?rev tport"
    proof
      assume e: "snat_rev_key (conns t j) = ?rev tport"
      then have "c_proto (conns t j) = h_proto h" by (simp add: snat_rev_key_def)
      moreover have "c_proto (conns t j) = k_proto k" using tj(2) by (auto simp: conn_key_def nk_def)
      ultimately show False using free that(2) rj e by simp
    qed
    then show ?thesis using rj tj by (simp add: t' i)
  qed
  have "nat_wf t'"
    unfolding nat_wf_def
  proof (intro conjI allI impI)
    show "\<forall>r \<in> set (snat t') \<union> set (dnat t'). rule_wf r" using nat_wfD(1) [OF wf] by (auto simp: t')
    show "tracked conn_key t' (snatFwd t')" "tracked snat_rev_key t' (snatRev t')"
      using tracked_new(1) [OF nat_wfD(2) [OF wf] keys(1) cf, of t'] tracked_new(1) [OF nat_wfD(3) [OF wf] keys(2) cf, of t']
      by (simp_all add: t' i)
    show "tracked conn_key t' (dnatFwd t')" "tracked dnat_rev_key t' (dnatRev t')"
      using tracked_new(2) [OF nat_wfD(4) [OF wf] refl cf, of t'] tracked_new(2) [OF nat_wfD(5) [OF wf] refl cf, of t']
      by (simp_all add: t' i)
    have both: "snatRev t' (snat_rev_key (conns t' j)) = Some j \<and> (k_sport k \<noteq> 0 \<longrightarrow> tSport (conns t' j) \<noteq> 0)"
      if a: "snatFwd t' k = Some j" "l4_ports (k_proto k)" for k j
    proof (cases "k = fwd_key h")
      case True
      then have j: "j = i" "conns t' j = c" using a(1) by (simp_all add: t')
      have "l4_ports (h_proto h)" "k_sport k = h_sport h" using a(2) True by (simp_all add: fwd_key_def nk_def)
      moreover have "tSport c = tport" by (simp add: c_def)
      moreover have "snatRev t' (?rev tport) = Some i" by (simp add: t')
      ultimately show ?thesis using tport0 keys(2) j by simp
    next
      case False
      then have "snatFwd t k = Some j" using a(1) by (simp add: t')
      then show ?thesis using old a(2) by blast
    qed
    show "snatRev t' (snat_rev_key (conns t' j)) = Some j"
      if "snatFwd t' k = Some j" "l4_ports (k_proto k)" for k j
      using both [OF that] by blast
    show "tSport (conns t' j) \<noteq> 0"
      if "snatFwd t' k = Some j" "l4_ports (k_proto k)" "k_sport k \<noteq> 0" for k j
      using both [OF that(1,2)] that(3) by blast
  qed
  then show ?thesis using keys cf by (simp add: t' i)
qed

lemma dnat_conn_spec:
  assumes wf: "nat_wf t" and h: "fam (h_is6 h) (h_src h)" "fam (h_is6 h) (h_dst h)"
    and r: "r \<in> set (dnat t)" "r_is6 r = h_is6 h" and dc: "dnat_conn t h r = (t', i)"
  shows "nat_wf t' \<and> dnatFwd t' (fwd_key h) = Some i \<and> conn_key (conns t' i) = fwd_key h \<and>
    conn_fam (conns t' i) \<and> (\<forall>j < next_conn t. conns t' j = conns t j) \<and> next_conn t \<le> next_conn t' \<and>
    snatFwd t' = snatFwd t \<and> ttl t' = ttl t"
proof (cases "dnatFwd t (fwd_key h)")
  case (Some j)
  then have "t' = t" "i = j" using dc by (auto simp: dnat_conn_def Let_def)
  then show ?thesis using Some wf trackedD [OF nat_wfD(4) [OF wf] Some] by simp
next
  case None
  define tp where "tp = (if toPort r \<noteq> 0 then toPort r else h_dport h)"
  define c where "c = \<lparr>oSrc = h_src h, oDst = h_dst h, oSport = h_sport h, oDport = h_dport h,
      tSrc = h_src h, tDst = r_to r, tSport = h_sport h, tDport = tp, c_proto = h_proto h, lastSeen = 0\<rparr>"
  let ?rev = "nk (h_proto h) (r_to r) (h_src h) tp (h_sport h)"
  have i: "i = next_conn t" and t': "t' = t\<lparr>conns := (conns t)(i := c), next_conn := i + 1,
      dnatFwd := (dnatFwd t)(fwd_key h \<mapsto> i), dnatRev := (dnatRev t)(?rev \<mapsto> i)\<rparr>"
    using dc None by (auto simp: dnat_conn_def Let_def c_def tp_def)
  have "fam (h_is6 h) (r_to r)" using nat_wfD(1) [OF wf, of r] r by (simp add: rule_wf_def)
  then have cf: "conn_fam c" using h unfolding conn_fam_def c_def by (intro exI [of _ "h_is6 h"]) simp
  have keys: "conn_key c = fwd_key h" "dnat_rev_key c = ?rev"
    by (simp_all add: c_def conn_key_def fwd_key_def dnat_rev_key_def)
  have "nat_wf t'"
    unfolding nat_wf_def
  proof (intro conjI allI impI)
    show "\<forall>r \<in> set (snat t') \<union> set (dnat t'). rule_wf r" using nat_wfD(1) [OF wf] by (auto simp: t')
    show "tracked conn_key t' (dnatFwd t')" "tracked dnat_rev_key t' (dnatRev t')"
      using tracked_new(1) [OF nat_wfD(4) [OF wf] keys(1) cf, of t'] tracked_new(1) [OF nat_wfD(5) [OF wf] keys(2) cf, of t']
      by (simp_all add: t' i)
    show "tracked conn_key t' (snatFwd t')" "tracked snat_rev_key t' (snatRev t')"
      using tracked_new(2) [OF nat_wfD(2) [OF wf] refl cf, of t'] tracked_new(2) [OF nat_wfD(3) [OF wf] refl cf, of t']
      by (simp_all add: t' i)
    have f: "j < next_conn t \<and> snatRev t (snat_rev_key (conns t j)) = Some j \<and> (k_sport k \<noteq> 0 \<longrightarrow> tSport (conns t j) \<noteq> 0)"
      if "snatFwd t' k = Some j" "l4_ports (k_proto k)" for k j
      using that trackedD [OF nat_wfD(2) [OF wf], of k j] nat_wfD(6) [OF wf, of k j] by (simp add: t')
    show "snatRev t' (snat_rev_key (conns t' j)) = Some j" if "snatFwd t' k = Some j" "l4_ports (k_proto k)" for k j
      using f [OF that] by (simp add: t' i)
    show "tSport (conns t' j) \<noteq> 0" if "snatFwd t' k = Some j" "l4_ports (k_proto k)" "k_sport k \<noteq> 0" for k j
      using f [OF that(1,2)] that(3) by (simp add: t' i)
  qed
  then show ?thesis using keys cf by (simp add: t' i)
qed

section \<open>Steps of the engine\<close>

text \<open>The table evolves by egress packets, ingress packets and sweeps, in any order.\<close>

inductive nat_step :: "natTable \<Rightarrow> natTable \<Rightarrow> bool" where
  step_out: "nat_out now t p = Some (t', q) \<Longrightarrow> nat_step t t'"
| step_in: "nat_in now t p = (t', q) \<Longrightarrow> nat_step t t'"
| step_sweep: "nat_step t (nat_sweep now t)"

inductive_cases nat_stepE: "nat_step t t'"

text \<open>A connection, once numbered, changes only in its \<open>lastSeen\<close>.\<close>

definition conns_kept :: "natTable \<Rightarrow> natTable \<Rightarrow> bool" where
  "conns_kept t t' \<longleftrightarrow> next_conn t \<le> next_conn t' \<and> (\<forall>j < next_conn t. \<exists>n. conns t' j = (conns t j)\<lparr>lastSeen := n\<rparr>)"

lemma conn_same: "\<exists>n. c = c\<lparr>lastSeen := n\<rparr>"
  by (rule exI [of _ "lastSeen c"]) simp

lemma conns_kept_refl [simp]: "conns_kept t t"
  unfolding conns_kept_def using conn_same by auto

lemma conns_kept_same: "next_conn t \<le> next_conn t' \<Longrightarrow> \<forall>j < next_conn t. conns t' j = conns t j \<Longrightarrow> conns_kept t t'"
  unfolding conns_kept_def using conn_same by auto

lemma conns_kept_trans:
  assumes "conns_kept t u" "conns_kept u v"
  shows "conns_kept t v"
  unfolding conns_kept_def
proof (intro conjI allI impI)
  show "next_conn t \<le> next_conn v" using assms by (simp add: conns_kept_def)
  fix j assume j: "j < next_conn t"
  then obtain n where n: "conns u j = (conns t j)\<lparr>lastSeen := n\<rparr>" using assms(1) by (auto simp: conns_kept_def)
  have "j < next_conn u" using j assms(1) by (simp add: conns_kept_def)
  then obtain m where "conns v j = (conns u j)\<lparr>lastSeen := m\<rparr>" using assms(2) by (auto simp: conns_kept_def)
  then have "conns v j = (conns t j)\<lparr>lastSeen := m\<rparr>" by (simp add: n)
  then show "\<exists>n. conns v j = (conns t j)\<lparr>lastSeen := n\<rparr>" ..
qed

lemma conns_kept_touch: "conns_kept t (touch now i t)"
  unfolding conns_kept_def conns_touch using conn_same by auto

lemma sweep_wf: "nat_wf t \<Longrightarrow> nat_wf (nat_sweep now t)"
proof -
  assume wf: "nat_wf t"
  let ?t = "nat_sweep now t"
  have sub: "expire now t m k = Some i \<Longrightarrow> m k = Some i \<and> now - lastSeen (conns t i) \<le> ttl t" for m k i
    by (auto simp: expire_def split: option.splits if_splits)
  have tr: "tracked kf t m \<Longrightarrow> tracked kf ?t (expire now t m)" for kf m
    using sub by (fastforce simp: tracked_def nat_sweep_def)
  show ?thesis
    unfolding nat_wf_def
  proof (intro conjI allI impI)
    show "\<forall>r \<in> set (snat ?t) \<union> set (dnat ?t). rule_wf r" using nat_wfD(1) [OF wf] by (auto simp: nat_sweep_def)
    show "tracked conn_key ?t (snatFwd ?t)" "tracked snat_rev_key ?t (snatRev ?t)"
      "tracked conn_key ?t (dnatFwd ?t)" "tracked dnat_rev_key ?t (dnatRev ?t)"
      using tr [OF nat_wfD(2) [OF wf]] tr [OF nat_wfD(3) [OF wf]] tr [OF nat_wfD(4) [OF wf]] tr [OF nat_wfD(5) [OF wf]]
      by (simp_all add: nat_sweep_def)
    show "snatRev ?t (snat_rev_key (conns ?t i)) = Some i" if "snatFwd ?t k = Some i" "l4_ports (k_proto k)" for k i
      using that sub [of "snatFwd t" k i] nat_wfD(6) [OF wf, of k i] by (simp add: nat_sweep_def expire_def)
    show "tSport (conns ?t i) \<noteq> 0" if "snatFwd ?t k = Some i" "l4_ports (k_proto k)" "k_sport k \<noteq> 0" for k i
      using that sub [of "snatFwd t" k i] nat_wfD(6) [OF wf, of k i] by (simp add: nat_sweep_def)
  qed
qed

lemma nat_out_wf: "nat_wf t \<Longrightarrow> nat_out now t p = Some (t', q) \<Longrightarrow> nat_wf t' \<and> conns_kept t t'"
proof -
  assume wf: "nat_wf t" and out: "nat_out now t p = Some (t', q)"
  show ?thesis
  proof (cases "ipFields p")
    case None
    then show ?thesis using wf out by (simp add: nat_out_def)
  next
    case (Some h)
    note h = fits_parsed [OF Some, unfolded fits_fam]
    show ?thesis
    proof (cases "dnatRev t (fwd_key h)")
      case (Some i)
      then show ?thesis using wf out \<open>ipFields p = Some h\<close> by (auto simp: nat_out_def Let_def nat_wf_touch conns_kept_touch)
    next
      case None
      show ?thesis
      proof (cases "find (snat_matches h) (snat t)")
        case None
        then show ?thesis using wf out Some \<open>dnatRev t (fwd_key h) = None\<close> by (auto simp: nat_out_def)
      next
        case (Some r)
        then have r: "r \<in> set (snat t)" "snat_matches h r" by (auto simp: find_Some_iff)
        then have r6: "r_is6 r = h_is6 h" by (simp add: snat_matches_def)
        from out Some \<open>ipFields p = Some h\<close> None obtain t1 i where
          sc: "snat_conn t h r = Some (t1, i)" and t': "t' = touch now i t1"
          by (auto simp: nat_out_def Let_def split: option.splits)
        have sp: "nat_wf t1" "next_conn t \<le> next_conn t1" "\<forall>j < next_conn t. conns t1 j = conns t j"
          using snat_conn_spec [OF wf _ _ r(1) r6 sc] h by blast+
        show ?thesis
          using sp t' nat_wf_touch conns_kept_trans [OF conns_kept_same [OF sp(2,3)] conns_kept_touch] by simp
      qed
    qed
  qed
qed

lemma nat_in_wf: "nat_wf t \<Longrightarrow> nat_in now t p = (t', q) \<Longrightarrow> nat_wf t' \<and> conns_kept t t'"
proof -
  assume wf: "nat_wf t" and inp: "nat_in now t p = (t', q)"
  show ?thesis
  proof (cases "ipFields p")
    case None
    then show ?thesis using wf inp by (simp add: nat_in_def)
  next
    case (Some h)
    note h = fits_parsed [OF Some, unfolded fits_fam]
    show ?thesis
    proof (cases "snatRev t (fwd_key h)")
      case (Some i)
      then show ?thesis using wf inp \<open>ipFields p = Some h\<close> by (auto simp: nat_in_def Let_def nat_wf_touch conns_kept_touch)
    next
      case None
      show ?thesis
      proof (cases "find (dnat_matches h) (dnat t)")
        case None
        then show ?thesis using wf inp Some \<open>snatRev t (fwd_key h) = None\<close> by (auto simp: nat_in_def)
      next
        case (Some r)
        then have r: "r \<in> set (dnat t)" "dnat_matches h r" by (auto simp: find_Some_iff)
        then have r6: "r_is6 r = h_is6 h" by (simp add: dnat_matches_def snat_matches_def)
        obtain t1 i where dc: "dnat_conn t h r = (t1, i)" by force
        then have t': "t' = touch now i t1"
          using inp Some \<open>ipFields p = Some h\<close> None by (auto simp: nat_in_def Let_def)
        have sp: "nat_wf t1" "next_conn t \<le> next_conn t1" "\<forall>j < next_conn t. conns t1 j = conns t j"
          using dnat_conn_spec [OF wf _ _ r(1) r6 dc] h by blast+
        show ?thesis
          using sp t' nat_wf_touch conns_kept_trans [OF conns_kept_same [OF sp(2,3)] conns_kept_touch] by simp
      qed
    qed
  qed
qed

lemma nat_step_wf: "nat_step t t' \<Longrightarrow> nat_wf t \<Longrightarrow> nat_wf t' \<and> conns_kept t t'"
proof (elim nat_stepE)
  assume "nat_wf t"
  then show "nat_wf t' \<and> conns_kept t t'" if "t' = nat_sweep now t" for now
    using that sweep_wf by (auto simp: nat_sweep_def intro!: conns_kept_same)
qed (use nat_out_wf nat_in_wf in blast)+

lemma nat_steps_wf: "nat_step\<^sup>*\<^sup>* t t' \<Longrightarrow> nat_wf t \<Longrightarrow> nat_wf t' \<and> conns_kept t t'"
  by (induction rule: rtranclp_induct) (auto dest: nat_step_wf conns_kept_trans)

end
