(* ===== verification/Nat_Flows.thy ===== *)
theory Nat_Flows
  imports Nat_Engine
begin

text \<open>
  What the overlay NAT promises its flows: replies are translated back, live flows never share a
  reply key, the port search ends exactly when a port is left, and a rewritten packet parses to
  the intended header and carries valid checksums. The last section holds the inputs on which
  the code does not do what it means to.
\<close>

section \<open>The rewritten packet\<close>

lemma conn_famD:
  assumes "conn_fam c" "fits h a" "a \<in> {oSrc c, oDst c, tSrc c, tDst c}"
  shows "fits h (oSrc c) \<and> fits h (oDst c) \<and> fits h (tSrc c) \<and> fits h (tDst c)"
proof -
  obtain b where b: "fam b (oSrc c) \<and> fam b (oDst c) \<and> fam b (tSrc c) \<and> fam b (tDst c)"
    using assms(1) by (auto simp: conn_fam_def)
  then have "fam b a" using assms(3) by auto
  then have "b = h_is6 h" using assms(2) fam_unique by (simp add: fits_fam)
  then show ?thesis using b by (simp add: fits_fam)
qed

lemma nat_out_cases:
  assumes wf: "nat_wf t" and out: "nat_out now t p = Some (t', q)" and h: "ipFields p = Some h"
  obtains (same) "t' = t" "q = p" "dnatRev t (fwd_key h) = None" "find (snat_matches h) (snat t) = None"
  | (reply) i where "dnatRev t (fwd_key h) = Some i" "t' = touch now i t"
      "q = fixChecksums (setSrc p h (oDst (conns t i)) (oDport (conns t i))) h" "fits h (oDst (conns t i))"
  | (snat) r i where "dnatRev t (fwd_key h) = None" "find (snat_matches h) (snat t) = Some r"
      "snatFwd t' (fwd_key h) = Some i" "conn_key (conns t' i) = fwd_key h" "nat_wf t'" "fits h (tSrc (conns t' i))"
      "q = fixChecksums (setSrc p h (tSrc (conns t' i)) (tSport (conns t' i))) h"
proof (cases "dnatRev t (fwd_key h)")
  case (Some i)
  have td: "dnat_rev_key (conns t i) = fwd_key h" "conn_fam (conns t i)"
    using trackedD [OF nat_wfD(5) [OF wf] Some] by simp_all
  have "h_src h = tDst (conns t i)" using td(1) by (simp add: dnat_rev_key_def fwd_key_def)
  then have "fits h (oDst (conns t i))" using conn_famD [OF td(2), of h "h_src h"] fits_parsed [OF h] by simp
  then show thesis using that(2) [OF Some] out h Some by (simp add: nat_out_def Let_def)
next
  case None
  show thesis
  proof (cases "find (snat_matches h) (snat t)")
    case None': None
    then show thesis using that(1) None out h by (simp add: nat_out_def)
  next
    case (Some r)
    then have r: "r \<in> set (snat t)" "snat_matches h r" by (auto simp: find_Some_iff)
    then have r6: "r_is6 r = h_is6 h" by (simp add: snat_matches_def)
    note fh = fits_parsed [OF h, unfolded fits_fam]
    obtain t1 i where sc: "snat_conn t h r = Some (t1, i)"
      and t': "t' = touch now i t1" and q: "q = fixChecksums (setSrc p h (tSrc (conns t1 i)) (tSport (conns t1 i))) h"
      using out h None Some by (auto simp: nat_out_def Let_def split: option.splits)
    have sp: "nat_wf t1" "snatFwd t1 (fwd_key h) = Some i" "conn_key (conns t1 i) = fwd_key h" "conn_fam (conns t1 i)"
      using snat_conn_spec [OF wf _ _ r(1) r6 sc] fh by blast+
    have "oSrc (conns t1 i) = h_src h" using sp(3) by (simp add: conn_key_def fwd_key_def)
    then have "fits h (tSrc (conns t1 i))" using conn_famD [OF sp(4), of h "h_src h"] fits_parsed [OF h] by simp
    then show thesis
      using that(3) [OF None Some, of i] sp q by (simp add: t' conns_touch nat_wf_touch)
  qed
qed

lemma nat_in_cases:
  assumes wf: "nat_wf t" and inp: "nat_in now t p = (t', q)" and h: "ipFields p = Some h"
  obtains (same) "t' = t" "q = p" "snatRev t (fwd_key h) = None" "find (dnat_matches h) (dnat t) = None"
  | (reply) i where "snatRev t (fwd_key h) = Some i" "t' = touch now i t"
      "q = fixChecksums (setDst p h (oSrc (conns t i)) (oSport (conns t i))) h" "fits h (oSrc (conns t i))"
  | (dnat) r i where "snatRev t (fwd_key h) = None" "find (dnat_matches h) (dnat t) = Some r"
      "dnatFwd t' (fwd_key h) = Some i" "conn_key (conns t' i) = fwd_key h" "nat_wf t'" "fits h (tDst (conns t' i))"
      "q = fixChecksums (setDst p h (tDst (conns t' i)) (tDport (conns t' i))) h"
proof (cases "snatRev t (fwd_key h)")
  case (Some i)
  have td: "snat_rev_key (conns t i) = fwd_key h" "conn_fam (conns t i)"
    using trackedD [OF nat_wfD(3) [OF wf] Some] by simp_all
  have "h_dst h = tSrc (conns t i)" using td(1) by (simp add: snat_rev_key_def fwd_key_def)
  then have "fits h (oSrc (conns t i))" using conn_famD [OF td(2), of h "h_dst h"] fits_parsed [OF h] by simp
  then show thesis using that(2) [OF Some] inp h Some by (simp add: nat_in_def Let_def)
next
  case None
  show thesis
  proof (cases "find (dnat_matches h) (dnat t)")
    case None': None
    then show thesis using that(1) None inp h by (simp add: nat_in_def)
  next
    case (Some r)
    then have r: "r \<in> set (dnat t)" "dnat_matches h r" by (auto simp: find_Some_iff)
    then have r6: "r_is6 r = h_is6 h" by (simp add: dnat_matches_def snat_matches_def)
    note fh = fits_parsed [OF h, unfolded fits_fam]
    obtain t1 i where dc: "dnat_conn t h r = (t1, i)" by force
    then have t': "t' = touch now i t1" and q: "q = fixChecksums (setDst p h (tDst (conns t1 i)) (tDport (conns t1 i))) h"
      using inp h None Some by (auto simp: nat_in_def Let_def)
    have sp: "nat_wf t1" "dnatFwd t1 (fwd_key h) = Some i" "conn_key (conns t1 i) = fwd_key h" "conn_fam (conns t1 i)"
      using dnat_conn_spec [OF wf _ _ r(1) r6 dc] fh by blast+
    have "oSrc (conns t1 i) = h_src h" using sp(3) by (simp add: conn_key_def fwd_key_def)
    then have "fits h (tDst (conns t1 i))" using conn_famD [OF sp(4), of h "h_src h"] fits_parsed [OF h] by simp
    then show thesis
      using that(3) [OF None Some, of i] sp q by (simp add: t' conns_touch nat_wf_touch)
  qed
qed

lemma length_setSrc: "ipFields p = Some h \<Longrightarrow> fits h a \<Longrightarrow> length (setSrc p h a port) = length p"
  using setSrc_bytes(1) by blast

lemma length_setDst: "ipFields p = Some h \<Longrightarrow> fits h a \<Longrightarrow> length (setDst p h a port) = length p"
  using setDst_bytes(1) by blast

lemma checksums_valid_hdr:
  "h_is6 g = h_is6 h \<Longrightarrow> l4off g = l4off h \<Longrightarrow> h_proto g = h_proto h \<Longrightarrow> checksums_valid p g = checksums_valid p h"
  by (simp add: checksums_valid_def has_csum_def csum_off_def pseudoSum_def)

lemma rewrite_src_valid:
  assumes h: "ipFields p = Some h" and a: "fits h a" and len: "length p \<le> 65535"
  shows "checksums_valid (fixChecksums (setSrc p h a port) h) h \<and> length (fixChecksums (setSrc p h a port) h) = length p"
proof -
  let ?g = "h\<lparr>h_src := a, h_sport := new_port p h port (h_sport h)\<rparr>"
  note g = ipFields_setSrc [OF h a, of port]
  have f: "fixChecksums (setSrc p h a port) ?g = fixChecksums (setSrc p h a port) h" by (rule fixChecksums_hdr) simp_all
  show ?thesis
    using fixChecksums_valid [OF g] length_fixChecksums [OF g] checksums_valid_hdr [of ?g h] len
    by (simp add: f length_setSrc [OF h a])
qed

lemma rewrite_dst_valid:
  assumes h: "ipFields p = Some h" and a: "fits h a" and len: "length p \<le> 65535"
  shows "checksums_valid (fixChecksums (setDst p h a port) h) h \<and> length (fixChecksums (setDst p h a port) h) = length p"
proof -
  let ?g = "h\<lparr>h_dst := a, h_dport := new_port p h port (h_dport h)\<rparr>"
  note g = ipFields_setDst [OF h a, of port]
  have f: "fixChecksums (setDst p h a port) ?g = fixChecksums (setDst p h a port) h" by (rule fixChecksums_hdr) simp_all
  show ?thesis
    using fixChecksums_valid [OF g] length_fixChecksums [OF g] checksums_valid_hdr [of ?g h] len
    by (simp add: f length_setDst [OF h a])
qed

text \<open>The bytes a rewriting may touch: the address of the side, the header checksum of IPv4, and in the transport
  header the port of the side (TCP and UDP) and the checksum. \<open>side\<close> is where the port stands.\<close>

definition transport_bytes :: "ipHdr \<Rightarrow> nat \<Rightarrow> nat set" where
  "transport_bytes h side =
     (if h_proto h = protoTCP then {l4off h + side, l4off h + side + 1, l4off h + 16, l4off h + 17}
      else if h_proto h = protoUDP then {l4off h + side, l4off h + side + 1, l4off h + 6, l4off h + 7}
      else if h_proto h = protoICMPv6 \<and> h_is6 h then {l4off h + 2, l4off h + 3}
      else {})"

definition src_bytes :: "ipHdr \<Rightarrow> nat set" where
  "src_bytes h = (if h_is6 h then {8..<24} else {10..<12} \<union> {12..<16}) \<union> transport_bytes h 0"

definition dst_bytes :: "ipHdr \<Rightarrow> nat set" where
  "dst_bytes h = (if h_is6 h then {24..<40} else {10..<12} \<union> {16..<20}) \<union> transport_bytes h 2"

definition same_but :: "nat set \<Rightarrow> bytes \<Rightarrow> bytes \<Rightarrow> bool" where
  "same_but B p q \<longleftrightarrow> length q = length p \<and> (\<forall>i < length p. i \<notin> B \<longrightarrow> q ! i = p ! i)"

lemma fixChecksums_frame:
  assumes g: "ipFields q = Some g" "i < length q" "h_is6 g \<or> i \<notin> {10..<12}" and t: "i \<notin> transport_bytes g side"
  shows "fixChecksums q g ! i = q ! i"
proof -
  have ip: "fix_ip q g ! i = q ! i" using g(2,3) nth_fix_ip [of i q g] by (cases "h_is6 g") (auto simp: fix_ip_def)
  show ?thesis
  proof (cases "has_csum q g")
    case True
    then have "i < l4off g + csum_off g \<or> l4off g + csum_off g + 2 \<le> i"
      using t by (auto simp: has_csum_def csum_off_def transport_bytes_def protoTCP_def protoUDP_def protoICMPv6_def split: if_splits)
    then show ?thesis
      using nth_fix_l4 [of i "fix_ip q g" g] ip ipFields_bounds(2) [OF g(1)] g(2) by (simp add: fixChecksums_split)
  next
    case False
    have "has_csum (fix_ip q g) g = has_csum q g" by (simp add: has_csum_def)
    then have "fixChecksums q g = fix_ip q g" using False ipFields_bounds(2) [OF g(1)] by (simp add: fixChecksums_split fix_l4_def)
    then show ?thesis using ip by simp
  qed
qed

lemma setSrc_portless: "h_proto h \<noteq> protoTCP \<Longrightarrow> h_proto h \<noteq> protoUDP \<Longrightarrow> setSrc p h a port =
    (if h_is6 h then write_at 8 (addr_bytes a) p else write_at 12 (addr_bytes a) p)"
  by (simp add: setSrc_def Let_def)

lemma setDst_portless: "h_proto h \<noteq> protoTCP \<Longrightarrow> h_proto h \<noteq> protoUDP \<Longrightarrow> setDst p h a port =
    (if h_is6 h then write_at 24 (addr_bytes a) p else write_at 16 (addr_bytes a) p)"
  by (simp add: setDst_def Let_def)

lemma rewrite_src_frame:
  assumes h: "ipFields p = Some h" and a: "fits h a"
  shows "same_but (src_bytes h) p (fixChecksums (setSrc p h a port) h)"
  unfolding same_but_def
proof (intro conjI allI impI)
  note sb = setSrc_bytes [OF h a] and g = ipFields_setSrc [OF h a, of port] and room = parsed_room [OF h]
  let ?g = "h\<lparr>h_src := a, h_sport := new_port p h port (h_sport h)\<rparr>"
  have f: "fixChecksums (setSrc p h a port) ?g = fixChecksums (setSrc p h a port) h" by (rule fixChecksums_hdr) simp_all
  show "length (fixChecksums (setSrc p h a port) h) = length p" using length_fixChecksums [OF g] sb(1) by (simp add: f)
  fix i assume i: "i < length p" "i \<notin> src_bytes h"
  have t: "i \<notin> transport_bytes ?g 0" "h_is6 ?g \<or> i \<notin> {10..<12}" using i by (auto simp: src_bytes_def transport_bytes_def split: if_splits)
  have addr: "\<not> (if h_is6 h then 8 \<le> i \<and> i < 24 else 12 \<le> i \<and> i < 16)" using i(2) by (auto simp: src_bytes_def split: if_splits)
  have "setSrc p h a port ! i = p ! i"
  proof (cases "h_proto h = protoTCP \<or> h_proto h = protoUDP")
    case True
    then have "i < l4off h \<or> l4off h + 2 \<le> i" using i(2) by (auto simp: src_bytes_def transport_bytes_def split: if_splits)
    then show ?thesis using sb(2) i(1) addr by blast
  next
    case False
    then show ?thesis using fits_bytes [OF a] room i(1) addr by (auto simp: setSrc_portless nth_write_at split: if_splits)
  qed
  then show "fixChecksums (setSrc p h a port) h ! i = p ! i"
    using fixChecksums_frame [OF g _ t(2,1)] i(1) sb(1) by (simp add: f)
qed

lemma rewrite_dst_frame:
  assumes h: "ipFields p = Some h" and a: "fits h a"
  shows "same_but (dst_bytes h) p (fixChecksums (setDst p h a port) h)"
  unfolding same_but_def
proof (intro conjI allI impI)
  note sb = setDst_bytes [OF h a] and g = ipFields_setDst [OF h a, of port] and room = parsed_room [OF h]
  let ?g = "h\<lparr>h_dst := a, h_dport := new_port p h port (h_dport h)\<rparr>"
  have f: "fixChecksums (setDst p h a port) ?g = fixChecksums (setDst p h a port) h" by (rule fixChecksums_hdr) simp_all
  show "length (fixChecksums (setDst p h a port) h) = length p" using length_fixChecksums [OF g] sb(1) by (simp add: f)
  fix i assume i: "i < length p" "i \<notin> dst_bytes h"
  have t: "i \<notin> transport_bytes ?g 2" "h_is6 ?g \<or> i \<notin> {10..<12}" using i by (auto simp: dst_bytes_def transport_bytes_def split: if_splits)
  have addr: "\<not> (if h_is6 h then 24 \<le> i \<and> i < 40 else 16 \<le> i \<and> i < 20)" using i(2) by (auto simp: dst_bytes_def split: if_splits)
  have "setDst p h a port ! i = p ! i"
  proof (cases "h_proto h = protoTCP \<or> h_proto h = protoUDP")
    case True
    then have "i < l4off h + 2 \<or> l4off h + 4 \<le> i" using i(2) by (auto simp: dst_bytes_def transport_bytes_def split: if_splits)
    then show ?thesis using sb(2) i(1) addr by blast
  next
    case False
    then show ?thesis using fits_bytes [OF a] room i(1) addr by (auto simp: setDst_portless nth_write_at split: if_splits)
  qed
  then show "fixChecksums (setDst p h a port) h ! i = p ! i"
    using fixChecksums_frame [OF g _ t(2,1)] i(1) sb(1) by (simp add: f)
qed

section \<open>Reachable tables\<close>

lemma newNATTable_wf: "\<forall>r \<in> set rules. rule_wf r \<Longrightarrow> nat_wf (newNATTable rules life)"
  by (auto simp: nat_wf_def newNATTable_def tracked_def)

definition nat_reach :: "natRule list \<Rightarrow> int \<Rightarrow> natTable \<Rightarrow> bool" where
  "nat_reach rules life t \<longleftrightarrow> (\<forall>r \<in> set rules. rule_wf r) \<and> nat_step\<^sup>*\<^sup>* (newNATTable rules life) t"

lemma nat_reach_wf: "nat_reach rules life t \<Longrightarrow> nat_wf t"
  unfolding nat_reach_def using nat_steps_wf newNATTable_wf by blast

text \<open>An example used by the witnesses: hosts of 10/8 are masqueraded behind 100.64.0.1, and
  UDP port 80 of any address is forwarded to 10.0.0.9.\<close>

definition ex_rules :: "natRule list" where
  "ex_rules =
     [\<lparr>action = snatAction, r_is6 = False, r_src = Prefix (Addr4 0x0a000000) 8, r_dst = NoPrefix, srcNeg = False,
       dstNeg = False, r_proto = 0, r_to = Addr4 0x64400001, dportLo = 0, dportHi = 0, toPort = 0\<rparr>,
      \<lparr>action = dnatAction, r_is6 = False, r_src = NoPrefix, r_dst = NoPrefix, srcNeg = False,
       dstNeg = False, r_proto = 17, r_to = Addr4 0x0a000009, dportLo = 80, dportHi = 80, toPort = 8080\<rparr>]"

definition ex_udp :: "byte list \<Rightarrow> byte list \<Rightarrow> 16 word \<Rightarrow> 16 word \<Rightarrow> bytes" where
  "ex_udp s d sp dp = [0x45,0,0,30,0,0,0,0,64,17,0,0] @ s @ d @ put16 sp @ put16 dp @ [0,10,0,0,104,105]"

definition ex_hdr :: "32 word \<Rightarrow> 32 word \<Rightarrow> 16 word \<Rightarrow> 16 word \<Rightarrow> ipHdr" where
  "ex_hdr s d sp dp = \<lparr>h_is6 = False, l4off = 20, h_proto = 17, h_src = Addr4 s, h_dst = Addr4 d, h_sport = sp, h_dport = dp\<rparr>"

lemma ex_reach: "nat_reach ex_rules 0 (newNATTable ex_rules 0)"
  by (simp add: nat_reach_def ex_rules_def rule_wf_def fam_def)

text \<open>C10: Translation of any packet of at most 65535 bytes by a table reached from a fresh one
  either leaves the packet alone or replaces one side of its addressing: the result parses to the original
  header with only that address (and that port, when the packet carries ports) changed, the IPv4 header
  checksum and the transport checksum verify, and it is the packet byte for byte but for that address and
  port and the checksums. (For a fragment after the first, the bytes where the port and the checksum would
  stand are payload; the code writes there too.)\<close>
theorem nat_rewrites_are_valid:
  assumes "nat_reach rules life t" "ipFields p = Some h" "length p \<le> 65535"
  shows "(nat_out now t p = Some (t1, q) \<longrightarrow> q = p \<or>
            (\<exists>a port. ipFields q = Some (h\<lparr>h_src := a, h_sport := new_port p h port (h_sport h)\<rparr>) \<and>
              checksums_valid q h \<and> same_but (src_bytes h) p q)) \<and>
         (nat_in now t p = (t1, q) \<longrightarrow> q = p \<or>
            (\<exists>a port. ipFields q = Some (h\<lparr>h_dst := a, h_dport := new_port p h port (h_dport h)\<rparr>) \<and>
              checksums_valid q h \<and> same_but (dst_bytes h) p q))"
proof (intro conjI impI)
  note wf = nat_reach_wf [OF assms(1)]
  note h = assms(2,3)
  assume o: "nat_out now t p = Some (t1, q)"
  show "q = p \<or> (\<exists>a port. ipFields q = Some (h\<lparr>h_src := a, h_sport := new_port p h port (h_sport h)\<rparr>) \<and>
              checksums_valid q h \<and> same_but (src_bytes h) p q)"
    by (rule nat_out_cases [OF wf o h(1)]) (use rewrite_src [OF h(1)] rewrite_src_valid [OF h(1) _ h(2)] rewrite_src_frame [OF h(1)] in blast)+
next
  note wf = nat_reach_wf [OF assms(1)]
  note h = assms(2,3)
  assume i: "nat_in now t p = (t1, q)"
  show "q = p \<or> (\<exists>a port. ipFields q = Some (h\<lparr>h_dst := a, h_dport := new_port p h port (h_dport h)\<rparr>) \<and>
              checksums_valid q h \<and> same_but (dst_bytes h) p q)"
    by (rule nat_in_cases [OF wf i h(1)]) (use rewrite_dst [OF h(1)] rewrite_dst_valid [OF h(1) _ h(2)] rewrite_dst_frame [OF h(1)] in blast)+
qed

lemma nat_rewrites_are_valid_witness:
  "\<exists>t1 q. nat_out 5 (newNATTable ex_rules 0) (ex_udp [10,0,0,5] [8,8,8,8] 1000 53) = Some (t1, q) \<and>
     checksums_valid q (ex_hdr 0x0a000005 0x08080808 1000 53)"
proof -
  let ?p = "ex_udp [10,0,0,5] [8,8,8,8] 1000 53"
  have "map_option snd (nat_out 5 (newNATTable ex_rules 0) ?p) \<noteq> None \<and>
      map_option snd (nat_out 5 (newNATTable ex_rules 0) ?p) \<noteq> Some ?p" by code_simp
  then obtain t1 q where o: "nat_out 5 (newNATTable ex_rules 0) ?p = Some (t1, q)" and ne: "q \<noteq> ?p" by force
  have h: "ipFields ?p = Some (ex_hdr 0x0a000005 0x08080808 1000 53)" by code_simp
  have len: "length ?p \<le> 65535" by (simp add: ex_udp_def)
  have "checksums_valid q (ex_hdr 0x0a000005 0x08080808 1000 53)"
    using nat_rewrites_are_valid [OF ex_reach h len, THEN conjunct1, rule_format, OF o] ne by blast
  then show ?thesis using o by blast
qed

section \<open>Replies are translated back\<close>

text \<open>\<open>g\<close> is the header of a reply to a packet with header \<open>h\<close>.\<close>

definition replies_to :: "ipHdr \<Rightarrow> ipHdr \<Rightarrow> bool" where
  "replies_to g h \<longleftrightarrow> h_proto g = h_proto h \<and> h_src g = h_dst h \<and> h_dst g = h_src h \<and>
     h_sport g = h_dport h \<and> h_dport g = h_sport h"

lemma replies_is6: "ipFields q = Some g \<Longrightarrow> ipFields p = Some h \<Longrightarrow> replies_to g h \<Longrightarrow> h_is6 g = h_is6 h"
  using fits_parsed [of q g] fits_parsed [of p h] fam_unique unfolding fits_fam replies_to_def by metis

lemma conns_keptD: "conns_kept t t' \<Longrightarrow> i < next_conn t \<Longrightarrow> \<exists>n. conns t' i = (conns t i)\<lparr>lastSeen := n\<rparr>"
  by (simp add: conns_kept_def)

lemma snat_header:
  assumes reach: "nat_reach rules life t"
    and p: "ipFields p = Some h" "has_ports p h" "h_sport h \<noteq> 0"
    and no_dnat: "dnatRev t (fwd_key h) = None" and rule: "find (snat_matches h) (snat t) = Some r"
    and out: "nat_out now t p = Some (t1, p1)" and h1: "ipFields p1 = Some h1"
  shows "\<exists>a port. h1 = h\<lparr>h_src := a, h_sport := port\<rparr>"
proof -
  obtain i where "fits h (tSrc (conns t1 i))" "p1 = fixChecksums (setSrc p h (tSrc (conns t1 i)) (tSport (conns t1 i))) h"
    using nat_out_cases [OF nat_reach_wf [OF reach] out p(1)] no_dnat rule by (metis option.distinct(1))
  then show ?thesis using rewrite_src [OF p(1)] h1 by auto
qed

lemma snat_reply_in:
  assumes reach: "nat_reach rules life t"
    and p: "ipFields p = Some h" "has_ports p h" "h_sport h \<noteq> 0"
    and no_dnat: "dnatRev t (fwd_key h) = None" and rule: "find (snat_matches h) (snat t) = Some r"
    and out: "nat_out now t p = Some (t1, p1)" and h1: "ipFields p1 = Some h1"
    and later: "nat_step\<^sup>*\<^sup>* t1 t2" and live: "snatFwd t2 (fwd_key h) = snatFwd t1 (fwd_key h)"
    and q: "ipFields q = Some g" "has_ports q g" "length q \<le> 65535" and reply: "replies_to g h1"
  shows "\<exists>t3 q'. nat_in now' t2 q = (t3, q') \<and>
    ipFields q' = Some (g\<lparr>h_dst := h_src h, h_dport := h_sport h\<rparr>) \<and> checksums_valid q' g"
proof -
  note wf = nat_reach_wf [OF reach]
  obtain i where i: "snatFwd t1 (fwd_key h) = Some i" "conn_key (conns t1 i) = fwd_key h" "nat_wf t1"
      "fits h (tSrc (conns t1 i))" and p1: "p1 = fixChecksums (setSrc p h (tSrc (conns t1 i)) (tSport (conns t1 i))) h"
    using nat_out_cases [OF wf out p(1)] no_dnat rule by (metis option.distinct(1))
  let ?c = "conns t1 i"
  have l4: "l4_ports (h_proto h)" using p(2) by (simp add: has_ports_def l4_ports_def protoTCP_def protoUDP_def)
  have rev: "snatRev t1 (snat_rev_key ?c) = Some i" "tSport ?c \<noteq> 0"
    using nat_wfD(6) [OF i(3,1)] l4 p(3) by (simp_all add: fwd_key_def nk_def)
  have h1': "h1 = h\<lparr>h_src := tSrc ?c, h_sport := tSport ?c\<rparr>"
    using rewrite_src [OF p(1) i(4), of "tSport ?c"] h1 p(2) rev(2) by (simp add: p1 new_port_def)
  have st: "nat_wf t2" "conns_kept t1 t2" using nat_steps_wf [OF later i(3)] by simp_all
  obtain n where n: "conns t2 i = ?c\<lparr>lastSeen := n\<rparr>"
    using conns_keptD [OF st(2)] trackedD [OF nat_wfD(2) [OF i(3)] i(1)] by blast
  have "snatRev t2 (snat_rev_key ?c) = Some i"
    using nat_wfD(6) [OF st(1), of "fwd_key h" i] live i(1) l4 n by (simp add: fwd_key_def nk_def)
  moreover have "snat_rev_key ?c = fwd_key g"
    using reply i(2) by (simp add: snat_rev_key_def fwd_key_def conn_key_def replies_to_def h1')
  ultimately have hit: "snatRev t2 (fwd_key g) = Some i" by simp
  have o: "oSrc ?c = h_src h" "oSport ?c = h_sport h" using i(2) by (simp_all add: conn_key_def fwd_key_def)
  have f: "fits g (h_src h)"
    using replies_is6 [OF q(1) h1 reply] fits_parsed [OF p(1)] by (simp add: h1' fits_def)
  have "nat_in now' t2 q = (touch now' i t2, fixChecksums (setDst q g (h_src h) (h_sport h)) g)"
    using q(1) hit by (simp add: nat_in_def Let_def n o)
  moreover have "ipFields (fixChecksums (setDst q g (h_src h) (h_sport h)) g) =
      Some (g\<lparr>h_dst := h_src h, h_dport := h_sport h\<rparr>)"
    using rewrite_dst [OF q(1) f, of "h_sport h"] q(2) p(3) by (simp add: new_port_def)
  ultimately show ?thesis using rewrite_dst_valid [OF q(1) f q(3)] by blast
qed

text \<open>Masquerading is transparent to a flow. A TCP or UDP packet leaves with its source
  rewritten by a SNAT rule; after any number of other packets in either direction and idle sweeps,
  as long as the flow's entry has not expired, every reply to what was sent (addresses and ports
  exchanged) is handed to the host with exactly the flow's original address and port as its
  destination, with nothing else in its header changed and with valid checksums.\<close>
theorem snat_replies_restored:
  assumes reach: "nat_reach rules life t"
    and p: "ipFields p = Some h" "has_ports p h" "h_sport h \<noteq> 0"
    and no_dnat: "dnatRev t (fwd_key h) = None" and rule: "find (snat_matches h) (snat t) = Some r"
    and out: "nat_out now t p = Some (t1, p1)" and h1: "ipFields p1 = Some h1"
    and later: "nat_step\<^sup>*\<^sup>* t1 t2" and live: "snatFwd t2 (fwd_key h) = snatFwd t1 (fwd_key h)"
    and q: "ipFields q = Some g" "has_ports q g" "length q \<le> 65535" and reply: "replies_to g h1"
  shows "\<exists>t3 q'. nat_in now' t2 q = (t3, q') \<and>
    ipFields q' = Some (g\<lparr>h_dst := h_src h, h_dport := h_sport h\<rparr>) \<and> checksums_valid q' g"
  by (rule snat_reply_in [OF assms])

lemma snat_replies_restored_witness:
  "\<exists>t1 p1 t3 q'. nat_out 5 (newNATTable ex_rules 0) (ex_udp [10,0,0,5] [8,8,8,8] 1000 53) = Some (t1, p1) \<and>
     nat_in 6 t1 (ex_udp [8,8,8,8] [0x64,0x40,0,1] 53 1000) = (t3, q') \<and>
     ipFields q' = Some (ex_hdr 0x08080808 0x0a000005 53 1000)"
proof -
  let ?t = "newNATTable ex_rules 0"
  let ?p = "ex_udp [10,0,0,5] [8,8,8,8] 1000 53"
  let ?q = "ex_udp [8,8,8,8] [0x64,0x40,0,1] 53 1000"
  let ?h = "ex_hdr 0x0a000005 0x08080808 1000 53"
  let ?g = "ex_hdr 0x08080808 0x64400001 53 1000"
  have "Option.bind (map_option snd (nat_out 5 ?t ?p)) ipFields = Some (ex_hdr 0x64400001 0x08080808 1000 53)" by code_simp
  then obtain t1 p1 where o: "nat_out 5 ?t ?p = Some (t1, p1)" "ipFields p1 = Some (ex_hdr 0x64400001 0x08080808 1000 53)"
    by (auto simp: bind_eq_Some_conv)
  have h: "ipFields ?p = Some ?h" "ipFields ?q = Some ?g" "has_ports ?p ?h" "has_ports ?q ?g" by code_simp+
  have r: "dnatRev ?t (fwd_key ?h) = None" "find (snat_matches ?h) (snat ?t) = Some (ex_rules ! 0)" by code_simp+
  have len: "length ?q \<le> 65535" by (simp add: ex_udp_def)
  have rep: "replies_to ?g (ex_hdr 0x64400001 0x08080808 1000 53)" "h_sport ?h \<noteq> 0" by (simp_all add: replies_to_def ex_hdr_def)
  obtain t3 q' where "nat_in 6 t1 ?q = (t3, q')" "ipFields q' = Some (?g\<lparr>h_dst := h_src ?h, h_dport := h_sport ?h\<rparr>)"
    using snat_replies_restored [OF ex_reach h(1,3) rep(2) r o rtranclp.rtrancl_refl refl h(2,4) len rep(1), of 6] by blast
  then show ?thesis using o(1) by (simp add: ex_hdr_def)
qed

text \<open>Port forwarding is transparent too. An inbound TCP or UDP packet is redirected by a
  DNAT rule, on a connection first seen now; as long as neither expiry nor a later connection has
  touched the reply entry, every reply of the internal host (to the packet as it was delivered)
  leaves with the address and port the client originally sent to as its source, nothing else in
  its header changed and with valid checksums.\<close>
theorem dnat_replies_restored:
  assumes reach: "nat_reach rules life t"
    and p: "ipFields p = Some h" "has_ports p h" "h_dport h \<noteq> 0"
    and no_snat: "snatRev t (fwd_key h) = None" and rule: "find (dnat_matches h) (dnat t) = Some r"
    and fresh: "dnatFwd t (fwd_key h) = None"
    and inp: "nat_in now t p = (t1, p1)" and h1: "ipFields p1 = Some h1"
    and later: "nat_step\<^sup>*\<^sup>* t1 t2"
    and q: "ipFields q = Some g" "has_ports q g" "length q \<le> 65535" and reply: "replies_to g h1"
    and live: "dnatRev t2 (fwd_key g) = dnatRev t1 (fwd_key g)"
  shows "\<exists>t3 q'. nat_out now' t2 q = Some (t3, q') \<and>
    ipFields q' = Some (g\<lparr>h_src := h_dst h, h_sport := h_dport h\<rparr>) \<and> checksums_valid q' g"
proof -
  note wf = nat_reach_wf [OF reach]
  define i where "i = next_conn t"
  define tp where "tp = (if toPort r \<noteq> 0 then toPort r else h_dport h)"
  define c where "c = \<lparr>oSrc = h_src h, oDst = h_dst h, oSport = h_sport h, oDport = h_dport h,
      tSrc = h_src h, tDst = r_to r, tSport = h_sport h, tDport = tp, c_proto = h_proto h, lastSeen = 0\<rparr>"
  let ?key = "nk (h_proto h) (r_to r) (h_src h) tp (h_sport h)"
  have dc: "dnat_conn t h r = (t\<lparr>conns := (conns t)(i := c), next_conn := i + 1,
      dnatFwd := (dnatFwd t)(fwd_key h \<mapsto> i), dnatRev := (dnatRev t)(?key \<mapsto> i)\<rparr>, i)"
    using fresh by (simp add: dnat_conn_def Let_def c_def tp_def i_def)
  have t1: "dnatRev t1 ?key = Some i" "conns t1 i = c\<lparr>lastSeen := now\<rparr>" "next_conn t1 = i + 1"
    and p1: "p1 = fixChecksums (setDst p h (r_to r) tp) h"
    using inp no_snat rule p(1) dc by (auto simp: nat_in_def Let_def conns_touch c_def)
  have r: "r \<in> set (dnat t)" "dnat_matches h r" using rule by (auto simp: find_Some_iff)
  then have f: "fits h (r_to r)"
    using nat_wfD(1) [OF wf, of r] by (simp add: rule_wf_def fits_fam dnat_matches_def snat_matches_def)
  have tp0: "tp \<noteq> 0" using p(3) by (simp add: tp_def)
  have h1': "h1 = h\<lparr>h_dst := r_to r, h_dport := tp\<rparr>"
    using rewrite_dst [OF p(1) f, of tp] h1 p(2) tp0 by (simp add: p1 new_port_def)
  have key: "fwd_key g = ?key" using reply by (simp add: replies_to_def h1' fwd_key_def)
  obtain n where n: "conns t2 i = c\<lparr>lastSeen := n\<rparr>"
    using conns_keptD [of t1 t2 i] nat_steps_wf [OF later] nat_in_wf [OF wf inp] t1 by auto
  have hit: "dnatRev t2 (fwd_key g) = Some i" using live t1(1) by (simp add: key)
  have fg: "fits g (h_dst h)"
    using replies_is6 [OF q(1) h1 reply] fits_parsed [OF p(1)] by (simp add: h1' fits_def)
  have "nat_out now' t2 q = Some (touch now' i t2, fixChecksums (setSrc q g (h_dst h) (h_dport h)) g)"
    using q(1) hit by (simp add: nat_out_def Let_def n c_def)
  moreover have "ipFields (fixChecksums (setSrc q g (h_dst h) (h_dport h)) g) =
      Some (g\<lparr>h_src := h_dst h, h_sport := h_dport h\<rparr>)"
    using rewrite_src [OF q(1) fg, of "h_dport h"] q(2) p(3) by (simp add: new_port_def)
  ultimately show ?thesis using rewrite_src_valid [OF q(1) fg q(3)] by blast
qed

lemma dnat_replies_restored_witness:
  "\<exists>t1 p1 t3 q'. nat_in 5 (newNATTable ex_rules 0) (ex_udp [9,9,9,9] [10,0,0,1] 4000 80) = (t1, p1) \<and>
     nat_out 6 t1 (ex_udp [10,0,0,9] [9,9,9,9] 8080 4000) = Some (t3, q') \<and>
     ipFields q' = Some (ex_hdr 0x0a000001 0x09090909 80 4000)"
proof -
  let ?t = "newNATTable ex_rules 0"
  let ?p = "ex_udp [9,9,9,9] [10,0,0,1] 4000 80"
  let ?q = "ex_udp [10,0,0,9] [9,9,9,9] 8080 4000"
  let ?h = "ex_hdr 0x09090909 0x0a000001 4000 80"
  let ?g = "ex_hdr 0x0a000009 0x09090909 8080 4000"
  obtain t1 p1 where o: "nat_in 5 ?t ?p = (t1, p1)" by force
  have "ipFields (snd (nat_in 5 ?t ?p)) = Some (ex_hdr 0x09090909 0x0a000009 4000 8080)" by code_simp
  then have o': "ipFields p1 = Some (ex_hdr 0x09090909 0x0a000009 4000 8080)" by (simp add: o)
  have h: "ipFields ?p = Some ?h" "ipFields ?q = Some ?g" "has_ports ?p ?h" "has_ports ?q ?g" by code_simp+
  have r: "snatRev ?t (fwd_key ?h) = None" "find (dnat_matches ?h) (dnat ?t) = Some (ex_rules ! 1)"
    "dnatFwd ?t (fwd_key ?h) = None" by code_simp+
  have len: "length ?q \<le> 65535" by (simp add: ex_udp_def)
  have rep: "replies_to ?g (ex_hdr 0x09090909 0x0a000009 4000 8080)" "h_dport ?h \<noteq> 0" by (simp_all add: replies_to_def ex_hdr_def)
  obtain t3 q' where "nat_out 6 t1 ?q = Some (t3, q')" "ipFields q' = Some (?g\<lparr>h_src := h_dst ?h, h_sport := h_dport ?h\<rparr>)"
    using dnat_replies_restored [OF ex_reach h(1,3) rep(2) r o o' rtranclp.rtrancl_refl h(2,4) len rep(1) refl, of 6] by blast
  then show ?thesis using o(1) by (simp add: ex_hdr_def)
qed

text \<open>C11: In every reachable table two different live masqueraded flows that carry ports (TCP or UDP) are never
  given the same reply key: a reply identifies its flow. (Flows without ports, ICMP for one, can share
  a key.)\<close>
theorem snat_flows_distinct:
  assumes "nat_reach rules life t" "snatFwd t k = Some i" "snatFwd t k' = Some j"
    "l4_ports (k_proto k)" "l4_ports (k_proto k')"
    "snat_rev_key (conns t i) = snat_rev_key (conns t j)"
  shows "k = k'"
proof -
  note wf = nat_reach_wf [OF assms(1)]
  have "snatRev t (snat_rev_key (conns t i)) = Some i" "snatRev t (snat_rev_key (conns t j)) = Some j"
    using nat_wfD(6) [OF wf assms(2,4)] nat_wfD(6) [OF wf assms(3,5)] by blast+
  then have "i = j" using assms(6) by (metis option.inject)
  then show ?thesis using trackedD [OF nat_wfD(2) [OF wf] assms(2)] trackedD [OF nat_wfD(2) [OF wf] assms(3)] by simp
qed

lemma snat_flows_distinct_witness:
  "\<exists>t k i. nat_reach ex_rules 0 t \<and> snatFwd t k = Some i \<and>
     (\<forall>k' j. snatFwd t k' = Some j \<and> l4_ports (k_proto k') \<and> snat_rev_key (conns t i) = snat_rev_key (conns t j) \<longrightarrow> k = k')"
proof -
  let ?t = "newNATTable ex_rules 0"
  let ?p = "ex_udp [10,0,0,5] [8,8,8,8] 1000 53"
  let ?k = "nk 17 (Addr4 0x0a000005) (Addr4 0x08080808) 1000 53"
  have "map_option (\<lambda>(t1, p1). snatFwd t1 ?k) (nat_out 5 ?t ?p) = Some (Some 0)" by code_simp
  then obtain t1 p1 where o: "nat_out 5 ?t ?p = Some (t1, p1)" "snatFwd t1 ?k = Some 0" by auto
  have reach: "nat_reach ex_rules 0 t1"
    using ex_reach nat_step.step_out [OF o(1)] by (auto simp: nat_reach_def)
  have l4: "l4_ports (k_proto ?k)" by (simp add: l4_ports_def nk_def)
  show ?thesis using snat_flows_distinct [OF reach o(2) _ l4] reach o(2) by metis
qed

section \<open>When translation returns\<close>

lemma pick_port_None: "pick_port clash tp np = None \<longleftrightarrow> clash tp \<and> (\<forall>p \<ge> 20000. clash p)"
proof
  assume n: "pick_port clash tp np = None"
  then have "clash tp" using pick_port_done [of clash tp np] by (metis option.distinct(1))
  moreover have "clash p" if "20000 \<le> p" for p
    using pick_port_ends [OF that, of clash tp np] n by (metis option.distinct(1))
  ultimately show "clash tp \<and> (\<forall>p \<ge> 20000. clash p)" by blast
next
  assume c: "clash tp \<and> (\<forall>p \<ge> 20000. clash p)"
  show "pick_port clash tp np = None"
  proof (cases "pick_port clash tp np")
    case (Some r)
    then show ?thesis using pick_port_facts [OF Some] c by auto
  qed
qed

text \<open>C12: Egress translation returns except in exactly one situation: the packet opens a new
  masqueraded TCP or UDP flow while its own source port and all 45536 ports of the pool
  20000..65535 are taken towards the same remote address and port. There the port loop, which
  runs while holding the table's lock, never ends.\<close>
theorem nat_out_returns_iff:
  "nat_out now t p = None \<longleftrightarrow>
    (\<exists>h r. ipFields p = Some h \<and> dnatRev t (fwd_key h) = None \<and> find (snat_matches h) (snat t) = Some r \<and>
      snatFwd t (fwd_key h) = None \<and> l4_ports (h_proto h) \<and>
      (\<forall>tp. tp = h_sport h \<or> 20000 \<le> tp \<longrightarrow>
         snatRev t (nk (h_proto h) (h_dst h) (r_to r) (h_dport h) tp) \<noteq> None))"
proof -
  have sc: "snat_conn t h r = None \<longleftrightarrow> snatFwd t (fwd_key h) = None \<and> l4_ports (h_proto h) \<and>
      (\<forall>tp. tp = h_sport h \<or> 20000 \<le> tp \<longrightarrow> snatRev t (nk (h_proto h) (h_dst h) (r_to r) (h_dport h) tp) \<noteq> None)" for h r
  proof -
    have "snat_conn t h r = None \<longleftrightarrow> snatFwd t (fwd_key h) = None \<and> l4_ports (h_proto h) \<and>
        pick_port (\<lambda>tp. snatRev t (nk (h_proto h) (h_dst h) (r_to r) (h_dport h) tp) \<noteq> None) (h_sport h) (nextPort t) = None"
      by (auto simp: snat_conn_def l4_ports_def Let_def split: option.splits)
    then show ?thesis unfolding pick_port_None by blast
  qed
  have "nat_out now t p = None \<longleftrightarrow> (\<exists>h r. ipFields p = Some h \<and> dnatRev t (fwd_key h) = None \<and>
      find (snat_matches h) (snat t) = Some r \<and> snat_conn t h r = None)"
    by (simp add: nat_out_def Let_def split: option.splits prod.splits)
  then show ?thesis unfolding sc by blast
qed

lemma nat_out_returns_iff_witness:
  "nat_out 5 (newNATTable ex_rules 0) (ex_udp [10,0,0,5] [8,8,8,8] 1000 53) \<noteq> None \<and>
   nat_out 5 (newNATTable ex_rules 0\<lparr>snatRev := (\<lambda>_. Some 0)\<rparr>) (ex_udp [10,0,0,5] [8,8,8,8] 1000 53) = None"
proof -
  let ?t = "newNATTable ex_rules 0"
  let ?full = "?t\<lparr>snatRev := (\<lambda>_. Some 0)\<rparr>"
  let ?p = "ex_udp [10,0,0,5] [8,8,8,8] 1000 53"
  let ?h = "ex_hdr 0x0a000005 0x08080808 1000 53"
  have h: "ipFields ?p = Some ?h" by code_simp
  have l4: "l4_ports (h_proto ?h)" by code_simp
  have f: "dnatRev ?full (fwd_key ?h) = None" "find (snat_matches ?h) (snat ?full) = Some (ex_rules ! 0)"
      "snatFwd ?full (fwd_key ?h) = None" by code_simp+
  have empty: "snatRev ?t k = None" for k by (simp add: newNATTable_def)
  have "nat_out 5 ?t ?p \<noteq> None" unfolding nat_out_returns_iff empty by blast
  moreover have "nat_out 5 ?full ?p = None"
    unfolding nat_out_returns_iff using h l4 f by (intro exI [of _ ?h] exI [of _ "ex_rules ! 0"]) simp
  ultimately show ?thesis ..
qed

section \<open>Inputs the code gets wrong\<close>

text \<open>A later fragment carries no transport header, but \<open>fixChecksums\<close> writes a checksum
  into it all the same: masquerading this second fragment of a UDP datagram overwrites two bytes
  of the datagram's payload (7 and 8 become other values).\<close>
theorem later_fragment_corrupted:
  "map_option (\<lambda>r. drop 20 (snd r)) (nat_out 5 (newNATTable ex_rules 0)
     [0x45,0,0,28, 0,0,0,1, 64,17,0,0, 10,0,0,1, 8,8,8,8, 1,2,3,4,5,6,7,8]) =
   Some [1,2,3,4,5,6,130,137]"
  by code_simp

text \<open>Two connections of one client port to two forwarded addresses share their reply key: after
  the second is set up, a reply to the first leaves with the second's address as its source.\<close>

lemma dnat_reply_taken:
  "(let t1 = fst (nat_in 5 (newNATTable ex_rules 0) (ex_udp [9,9,9,9] [10,0,0,1] 4000 80));
        t2 = fst (nat_in 6 t1 (ex_udp [9,9,9,9] [10,0,0,2] 4000 80))
    in map_option (\<lambda>r. map_option h_src (ipFields (snd r)))
         (nat_out 7 t2 (ex_udp [10,0,0,9] [9,9,9,9] 8080 4000))) = Some (Some (Addr4 0x0a000002))"
  by code_simp

end
