(* ===== verification/Route_Table.thy ===== *)
theory Route_Table
  imports Addressing Ip_L4 Net_Parse "HOL-Library.Product_Lexorder"
begin

text \<open>
  Redistributed routes (internal/mesh/routes.go): the route messages, the table of learned routes,
  the choice of an exit for a packet, and the handlers that learn, withdraw and age routes and keep
  the host's routing table in step. Sessions are handles into a store that holds what the
  overlay probes (familyprobe.go) measured. Times are nanoseconds; a route without a time stamp
  (the zero \<open>time.Time\<close>) has \<open>None\<close>. Floods, host-route operations and the calls into the
  full-tunnel machinery are recorded in order; whether the device installs a route is an argument.
\<close>

record rt_session =
  probeSent4 :: int
  good4 :: int
  probeSent6 :: int
  good6 :: int
  rt_node :: string
  rt_overlay4 :: addr
  rt_overlay6 :: addr
  rt_endpoint :: addrport
  rt_hostname :: string

definition familyDeadAfter :: int where "familyDeadAfter = 3 * 15000000000"

definition familyLive :: "int \<Rightarrow> int \<Rightarrow> int \<Rightarrow> bool" where
  "familyLive probeSent good now =
     (if good \<noteq> 0 \<and> now - good < familyDeadAfter then True
      else if probeSent = 0 \<or> now - probeSent < familyDeadAfter then True
      else False)"

definition familyLive4 :: "rt_session \<Rightarrow> int \<Rightarrow> bool" where "familyLive4 ps now = familyLive (probeSent4 ps) (good4 ps) now"
definition familyLive6 :: "rt_session \<Rightarrow> int \<Rightarrow> bool" where "familyLive6 ps now = familyLive (probeSent6 ps) (good6 ps) now"

record routeEntry =
  re_origin :: string
  re_prefix :: prefix
  re_metric :: int
  re_lastSeen :: "int option"

record RejectRule =
  rj_Prefix :: prefix
  rj_Inclusive :: bool

record fwdSnap =
  sn_routes4 :: "addr \<Rightarrow> nat option"
  sn_routes6 :: "addr \<Rightarrow> nat option"
  sn_byNode :: "string \<Rightarrow> nat option"
  sn_redist :: "routeEntry list"
  sn_osRoutes :: "(prefix \<times> addr) list"

record route_state =
  rs_nodeID :: string
  rs_routes4 :: "addr \<Rightarrow> nat option"
  rs_routes6 :: "addr \<Rightarrow> nat option"
  rs_osRoutes :: "(prefix \<times> addr) list"
  rs_byNode :: "string \<Rightarrow> nat option"
  rs_sess :: "nat \<Rightarrow> rt_session"
  fwd :: "fwdSnap option"
  redist :: "routeEntry list"
  knownRoute :: "string \<Rightarrow> bool"
  advRoutes :: "prefix list option"
  advReject :: "RejectRule list option"
  advMetric :: "(prefix \<Rightarrow> int option) option"
  advPrefer :: "(prefix \<Rightarrow> string list option) option"
  bgpRoutes :: "(prefix list \<times> int) option"
  hasDev :: bool
  gatewaySupported :: bool
  osMetric :: "prefix \<Rightarrow> int option"
  fullTunnel :: bool
  lastRouteAdv :: int

datatype route_act =
    Flood bytes "nat option"
  | OsAdd prefix int bool
  | OsDel prefix int
  | ResyncBypass
  | SeedBypass
  | DemoteDefault prefix
  | RestoreDefault prefix

definition publishFwd :: "route_state \<Rightarrow> route_state" where
  "publishFwd ns = ns\<lparr>fwd := Some \<lparr>sn_routes4 = rs_routes4 ns, sn_routes6 = rs_routes6 ns, sn_byNode = rs_byNode ns,
     sn_redist = redist ns, sn_osRoutes = rs_osRoutes ns\<rparr>\<rparr>"

section \<open>Messages\<close>

definition ctrlRouteAdd :: byte where "ctrlRouteAdd = 0x09"
definition ctrlRouteDel :: byte where "ctrlRouteDel = 0x0a"

definition encodeRouteAdd :: "string \<Rightarrow> prefix \<Rightarrow> int \<Rightarrow> bytes" where
  "encodeRouteAdd origin p metric =
     appendLenStr [ctrlRouteAdd] origin @ encodeAddr (prefix_addr p) @ [of_int (prefix_bits p)] @ [of_int metric]"

definition encodeRouteDel :: "string \<Rightarrow> prefix \<Rightarrow> bytes" where
  "encodeRouteDel origin p =
     appendLenStr [ctrlRouteDel] origin @ encodeAddr (prefix_addr p) @ [of_int (prefix_bits p)]"

definition r_addr :: "reader \<Rightarrow> (addr \<times> reader) option" where
  "r_addr r = do {
     (fam, r) \<leftarrow> r_byte r;
     if fam = 4 then do { (v, r) \<leftarrow> r_take 4 r; Some (AddrFrom4 v, r) }
     else if fam = 6 then do { (v, r) \<leftarrow> r_take 16 r; Some (AddrFrom16 v, r) }
     else None }"

definition decodeRouteAdd :: "bytes \<Rightarrow> (string \<times> prefix \<times> int) option" where
  "decodeRouteAdd b = do {
     (origin, r) \<leftarrow> r_lenStr b;
     (a, r) \<leftarrow> r_addr r;
     (bits, r) \<leftarrow> r_byte r;
     (m, r) \<leftarrow> r_byte r;
     pfx \<leftarrow> AddrPrefix a (unat bits);
     Some (origin, pfx, int (unat m)) }"

definition decodeRouteDel :: "bytes \<Rightarrow> (string \<times> prefix) option" where
  "decodeRouteDel b = do {
     (origin, r) \<leftarrow> r_lenStr b;
     (a, r) \<leftarrow> r_addr r;
     (bits, r) \<leftarrow> r_byte r;
     pfx \<leftarrow> AddrPrefix a (unat bits);
     Some (origin, pfx) }"

section \<open>Preference and rejection\<close>

definition preferRankUnlisted :: int where "preferRankUnlisted = 1073741824"

fun rank_in :: "int \<Rightarrow> string list \<Rightarrow> string \<Rightarrow> int" where
  "rank_in i [] origin = preferRankUnlisted"
| "rank_in i (x # xs) origin = (if x = origin then i else rank_in (i + 1) xs origin)"

definition preferRank :: "route_state \<Rightarrow> prefix \<Rightarrow> string \<Rightarrow> int" where
  "preferRank ns p origin =
     (case advPrefer ns of None \<Rightarrow> preferRankUnlisted
      | Some pm \<Rightarrow> (case pm p of None \<Rightarrow> preferRankUnlisted | Some origins \<Rightarrow> rank_in 0 origins origin))"

definition rejected :: "route_state \<Rightarrow> prefix \<Rightarrow> bool" where
  "rejected ns p =
     (case advReject ns of None \<Rightarrow> False
      | Some rej \<Rightarrow>
          list_ex (\<lambda>r. if rj_Inclusive r
            then prefix_bits (rj_Prefix r) \<le> prefix_bits p \<and> Contains (rj_Prefix r) (prefix_addr p)
            else Masked (rj_Prefix r) = Masked p) rej)"

definition metricFor :: "route_state \<Rightarrow> prefix \<Rightarrow> int" where
  "metricFor ns p = (case advMetric ns of None \<Rightarrow> 0 | Some mp \<Rightarrow> (case mp p of None \<Rightarrow> 0 | Some m \<Rightarrow> m))"

section \<open>The exit of a packet\<close>

definition session_live :: "route_state \<Rightarrow> int \<Rightarrow> bool \<Rightarrow> nat \<Rightarrow> bool" where
  "session_live ns now v4 ps = (if v4 then familyLive4 (rs_sess ns ps) now else familyLive6 (rs_sess ns ps) now)"

definition best_step :: "route_state \<Rightarrow> fwdSnap \<Rightarrow> int \<Rightarrow> addr \<Rightarrow> int \<times> int \<times> int \<times> string list \<Rightarrow> routeEntry \<Rightarrow>
    int \<times> int \<times> int \<times> string list" where
  "best_step ns snap now dst st re =
     (case st of (bestBits, bestMetric, bestRank, origins) \<Rightarrow>
        if \<not> Contains (re_prefix re) dst then st
        else case sn_byNode snap (re_origin re) of None \<Rightarrow> st
        | Some ps \<Rightarrow>
            if \<not> session_live ns now (Is4 dst) ps then st
            else
              let bits = prefix_bits (re_prefix re);
                  rank = preferRank ns (re_prefix re) (re_origin re)
              in if bits > bestBits then (bits, re_metric re, rank, [re_origin re])
                 else if bits < bestBits then st
                 else if rank < bestRank then (bestBits, re_metric re, rank, [re_origin re])
                 else if rank > bestRank then st
                 else if re_metric re < bestMetric then (bestBits, re_metric re, bestRank, [re_origin re])
                 else if re_metric re = bestMetric then (bestBits, bestMetric, bestRank, origins @ [re_origin re])
                 else st)"

definition bestRedistOrigins :: "int \<Rightarrow> addr \<Rightarrow> route_state \<Rightarrow> string list" where
  "bestRedistOrigins now dst ns =
     (case fwd ns of None \<Rightarrow> []
      | Some snap \<Rightarrow>
          (case foldl (best_step ns snap now dst) (-1, 0, preferRankUnlisted, []) (sn_redist snap) of
             (_, _, _, origins) \<Rightarrow> origins))"

definition fnv_mix :: "64 word \<Rightarrow> byte \<Rightarrow> 64 word" where
  "fnv_mix h b = (h XOR ucast b) * 1099511628211"

definition parseSrc :: "bytes \<Rightarrow> addr option" where
  "parseSrc p =
     (if length p < 1 then None
      else if drop_bit 4 (p ! 0) = 4 then (if length p < 20 then None else Some (AddrFrom4 (slice 12 16 p)))
      else if drop_bit 4 (p ! 0) = 6 then (if length p < 40 then None else Some (AddrFrom16 (slice 8 24 p)))
      else None)"

definition parseDst :: "bytes \<Rightarrow> addr option" where
  "parseDst p =
     (if length p < 1 then None
      else if drop_bit 4 (p ! 0) = 4 then (if length p < 20 then None else Some (AddrFrom4 (slice 16 20 p)))
      else if drop_bit 4 (p ! 0) = 6 then (if length p < 40 then None else Some (AddrFrom16 (slice 24 40 p)))
      else None)"

definition flowIndex :: "bytes \<Rightarrow> nat \<Rightarrow> nat" where
  "flowIndex pkt n =
     (let h0 = 1469598103934665603;
          h1 = (case parseSrc pkt of None \<Rightarrow> h0 | Some a \<Rightarrow> foldl fnv_mix h0 (addr_bytes a));
          h2 = (case parseDst pkt of None \<Rightarrow> h1 | Some a \<Rightarrow> foldl fnv_mix h1 (addr_bytes a));
          h3 = (case parseL4 pkt of None \<Rightarrow> h2
                | Some (proto, sp, dp, _) \<Rightarrow> foldl fnv_mix h2 ([proto] @ put16 sp @ put16 dp))
      in unat (h3 mod of_nat n))"

definition snap_session :: "route_state \<Rightarrow> string \<Rightarrow> nat option" where
  "snap_session ns origin = (case fwd ns of None \<Rightarrow> None | Some snap \<Rightarrow> sn_byNode snap origin)"

definition redistRoute :: "int \<Rightarrow> addr \<Rightarrow> route_state \<Rightarrow> nat option" where
  "redistRoute now dst ns =
     (case bestRedistOrigins now dst ns of [] \<Rightarrow> None | origin # _ \<Rightarrow> snap_session ns origin)"

definition redistRouteFlow :: "int \<Rightarrow> addr \<Rightarrow> bytes \<Rightarrow> route_state \<Rightarrow> nat option" where
  "redistRouteFlow now dst pkt ns =
     (let origins = bestRedistOrigins now dst ns
      in case length origins of 0 \<Rightarrow> None
         | Suc 0 \<Rightarrow> snap_session ns (origins ! 0)
         | n \<Rightarrow> snap_session ns (origins ! flowIndex pkt n))"

definition routedByOrigin :: "route_state \<Rightarrow> addr \<Rightarrow> string \<Rightarrow> bool" where
  "routedByOrigin ns a node =
     (if \<not> IsValid a \<or> node = [] then False
      else list_ex (\<lambda>r. re_origin r = node \<and> Contains (re_prefix r) (Unmap a)) (redist ns))"

record RouteInfo =
  ri_CIDR :: string
  ri_Via :: string
  ri_Metric :: int

definition Routes :: "route_state option \<Rightarrow> RouteInfo list" where
  "Routes nso = (case nso of None \<Rightarrow> []
     | Some ns \<Rightarrow> map (\<lambda>re. \<lparr>ri_CIDR = prefix_String (re_prefix re), ri_Via = re_origin re, ri_Metric = re_metric re\<rparr>) (redist ns))"

section \<open>Messages are read back\<close>

lemma r_addr_put: "IsValid a \<Longrightarrow> \<not> has_zone a \<Longrightarrow> \<not> Is4In6 a \<Longrightarrow> r_addr (encodeAddr a @ r) = Some (a, r)"
  by (cases a) (simp_all add: IsValid_def encodeAddr_def r_addr_def Let_def AddrFrom4_def AddrFrom16_def as16_def wire_simps)

lemma unat_byte_of_nat: "n \<le> 128 \<Longrightarrow> unat (of_nat n :: byte) = n"
  by (simp add: unat_of_nat)

lemma prefix_cases_wf:
  assumes "prefix_wf p" "prefix_valid p"
  obtains w b where "p = Prefix (Addr4 w) b" "b \<le> 32" | w b where "p = Prefix (Addr6 w []) b" "b \<le> 128"
  using assms by (cases p rule: prefix_wf.cases) auto

lemma int_unat_of_int: "int (unat (of_int m :: byte)) = m mod 256"
  by (simp add: unsigned_of_int take_bit_eq_mod)

lemma r_addr_prefix:
  "prefix_wf p \<Longrightarrow> prefix_valid p \<Longrightarrow> \<not> Is4In6 (prefix_addr p) \<Longrightarrow>
    r_addr (encodeAddr (prefix_addr p) @ r) = Some (prefix_addr p, r)"
  by (cases p rule: prefix_wf.cases) (auto intro!: r_addr_put simp: IsValid_def)

lemma AddrPrefix_bits:
  "prefix_wf p \<Longrightarrow> prefix_valid p \<Longrightarrow> AddrPrefix (prefix_addr p) (unat (of_int (prefix_bits p) :: byte)) = Some (Masked p)"
  by (cases p rule: prefix_wf.cases) (simp_all add: AddrPrefix_def unat_byte_of_nat)

lemma route_add_body:
  assumes "prefix_wf p" "prefix_valid p" "\<not> Is4In6 (prefix_addr p)"
  shows "\<exists>body. encodeRouteAdd origin p metric = ctrlRouteAdd # body \<and>
      decodeRouteAdd (body @ r) = Some (clip255 origin, Masked p, metric mod 256)"
  by (simp add: encodeRouteAdd_def decodeRouteAdd_def appendLenStr_eq r_addr_prefix [OF assms] AddrPrefix_bits [OF assms(1,2)]
      int_unat_of_int wire_simps uint_word_of_int_eq take_bit_eq_mod del: length_clip255)

lemma route_del_body:
  assumes "prefix_wf p" "prefix_valid p" "\<not> Is4In6 (prefix_addr p)"
  shows "\<exists>body. encodeRouteDel origin p = ctrlRouteDel # body \<and>
      decodeRouteDel (body @ r) = Some (clip255 origin, Masked p)"
  by (simp add: encodeRouteDel_def decodeRouteDel_def appendLenStr_eq r_addr_prefix [OF assms] AddrPrefix_bits [OF assms(1,2)]
      wire_simps del: length_clip255)

text \<open>A route advertisement or withdrawal is read back as it was written, whatever follows: the
  origin (its first 255 bytes), the masked prefix of either family (an IPv4-mapped one
  excepted), and the metric modulo 256, behind the type byte of the message.\<close>
theorem route_message_roundtrip:
  assumes "prefix_wf p" "prefix_valid p" "\<not> Is4In6 (prefix_addr p)"
  shows "(\<exists>body. encodeRouteAdd origin p metric = ctrlRouteAdd # body \<and>
      decodeRouteAdd (body @ r) = Some (clip255 origin, Masked p, metric mod 256)) \<and>
    (\<exists>body. encodeRouteDel origin p = ctrlRouteDel # body \<and>
      decodeRouteDel (body @ r) = Some (clip255 origin, Masked p))"
  using route_add_body [OF assms] route_del_body [OF assms] by blast

section \<open>The exit is the best usable route\<close>

text \<open>The reference: of the routes that contain the destination and whose origin has a session with
  the family alive, the ones with the least key; the key orders by length (longest first), then by
  the rank the operator gave the origin, then by metric.\<close>

definition usable :: "route_state \<Rightarrow> fwdSnap \<Rightarrow> int \<Rightarrow> addr \<Rightarrow> routeEntry \<Rightarrow> bool" where
  "usable ns snap now dst re \<longleftrightarrow> Contains (re_prefix re) dst \<and>
     (case sn_byNode snap (re_origin re) of None \<Rightarrow> False | Some ps \<Rightarrow> session_live ns now (Is4 dst) ps)"

definition route_key :: "route_state \<Rightarrow> routeEntry \<Rightarrow> int \<times> int \<times> int" where
  "route_key ns re = (- prefix_bits (re_prefix re), preferRank ns (re_prefix re) (re_origin re), re_metric re)"

definition best_entries :: "route_state \<Rightarrow> fwdSnap \<Rightarrow> int \<Rightarrow> addr \<Rightarrow> routeEntry list" where
  "best_entries ns snap now dst =
     (let us = filter (usable ns snap now dst) (sn_redist snap)
      in filter (\<lambda>re. list_all (\<lambda>re'. route_key ns re \<le> route_key ns re') us) us)"

lemma Contains_bits: "Contains p a \<Longrightarrow> prefix_bits p \<ge> 0"
  by (cases p) auto

lemma best_step_unusable: "\<not> usable ns snap now dst re \<Longrightarrow> best_step ns snap now dst st re = st"
  by (cases st) (auto simp: best_step_def usable_def split: option.splits)

lemma best_step_first:
  "usable ns snap now dst re \<Longrightarrow> best_step ns snap now dst (-1, m, r, os) re =
     (prefix_bits (re_prefix re), re_metric re, preferRank ns (re_prefix re) (re_origin re), [re_origin re])"
  using Contains_bits [of "re_prefix re" dst] by (auto simp: best_step_def usable_def Let_def split: option.splits)

lemma best_step_usable:
  "usable ns snap now dst re \<Longrightarrow> best_step ns snap now dst
       (prefix_bits (re_prefix b), re_metric b, preferRank ns (re_prefix b) (re_origin b), os) re =
     (if route_key ns re < route_key ns b
      then (prefix_bits (re_prefix re), re_metric re, preferRank ns (re_prefix re) (re_origin re), [re_origin re])
      else (prefix_bits (re_prefix b), re_metric b, preferRank ns (re_prefix b) (re_origin b),
        if route_key ns re = route_key ns b then os @ [re_origin re] else os))"
  by (auto simp: best_step_def usable_def route_key_def Let_def split: option.splits)

definition best_state :: "route_state \<Rightarrow> routeEntry list \<Rightarrow> int \<times> int \<times> int \<times> string list \<Rightarrow> bool" where
  "best_state ns us st \<longleftrightarrow>
     (us = [] \<and> st = (-1, 0, preferRankUnlisted, [])) \<or>
     (\<exists>b \<in> set us. (\<forall>u \<in> set us. route_key ns b \<le> route_key ns u) \<and>
        st = (prefix_bits (re_prefix b), re_metric b, preferRank ns (re_prefix b) (re_origin b),
              map re_origin (filter (\<lambda>u. route_key ns u = route_key ns b) us)))"

lemma best_state_snoc:
  assumes "best_state ns us st" "usable ns snap now dst x"
  shows "best_state ns (us @ [x]) (best_step ns snap now dst st x)"
proof (cases "us = []")
  case True
  then show ?thesis using assms by (auto simp: best_state_def best_step_first)
next
  case False
  then obtain b where b: "b \<in> set us" "\<forall>u \<in> set us. route_key ns b \<le> route_key ns u"
    and st: "st = (prefix_bits (re_prefix b), re_metric b, preferRank ns (re_prefix b) (re_origin b),
              map re_origin (filter (\<lambda>u. route_key ns u = route_key ns b) us))"
    using assms(1) by (auto simp: best_state_def)
  show ?thesis
  proof (cases "route_key ns x < route_key ns b")
    case True
    then have lt: "\<forall>u \<in> set us. route_key ns x < route_key ns u" using b(2) by (blast intro: less_le_trans)
    then have "filter (\<lambda>u. route_key ns u = route_key ns x) us = []" by (auto simp: filter_empty_conv)
    then show ?thesis using True lt assms(2) unfolding best_state_def st
      by (intro disjI2 bexI [of _ x]) (auto simp: best_step_usable less_imp_le)
  next
    case F: False
    then show ?thesis using b assms(2) unfolding best_state_def st
      by (intro disjI2 bexI [of _ b]) (auto simp: best_step_usable)
  qed
qed

lemma best_fold:
  "best_state ns (filter (usable ns snap now dst) xs) (foldl (best_step ns snap now dst) (-1, 0, preferRankUnlisted, []) xs)"
proof (induction xs rule: rev_induct)
  case (snoc x xs)
  then show ?case
    by (cases "usable ns snap now dst x") (simp_all add: best_state_snoc best_step_unusable)
qed (simp add: best_state_def)

lemma bestRedistOrigins_eq:
  assumes "fwd ns = Some snap"
  shows "bestRedistOrigins now dst ns = map re_origin (best_entries ns snap now dst)"
proof -
  define us where "us = filter (usable ns snap now dst) (sn_redist snap)"
  have "best_state ns us (foldl (best_step ns snap now dst) (-1, 0, preferRankUnlisted, []) (sn_redist snap))"
    unfolding us_def by (rule best_fold)
  then show ?thesis unfolding best_state_def
  proof (elim disjE bexE conjE)
    fix b assume b: "b \<in> set us" "\<forall>u \<in> set us. route_key ns b \<le> route_key ns u"
      and st: "foldl (best_step ns snap now dst) (-1, 0, preferRankUnlisted, []) (sn_redist snap) =
        (prefix_bits (re_prefix b), re_metric b, preferRank ns (re_prefix b) (re_origin b),
         map re_origin (filter (\<lambda>u. route_key ns u = route_key ns b) us))"
    have "list_all (\<lambda>v. route_key ns u \<le> route_key ns v) us \<longleftrightarrow> route_key ns u = route_key ns b" if "u \<in> set us" for u
      using b that by (auto simp: list_all_iff intro: antisym)
    then have "filter (\<lambda>u. list_all (\<lambda>v. route_key ns u \<le> route_key ns v) us) us = filter (\<lambda>u. route_key ns u = route_key ns b) us"
      by (intro filter_cong) auto
    then show ?thesis using assms st by (simp add: bestRedistOrigins_def best_entries_def us_def Let_def)
  qed (use assms us_def in \<open>simp add: bestRedistOrigins_def best_entries_def Let_def\<close>)
qed

text \<open>C22: The origins a destination is routed to are exactly those of the best usable routes, in the
  order of the table: an origin without a session, or whose address family has gone dark, is never
  chosen; the longest prefix wins over the operator's preference, the preference over the metric,
  and routes that tie share the traffic.\<close>
theorem exits_are_best_routes:
  "bestRedistOrigins now dst ns = (case fwd ns of None \<Rightarrow> [] | Some snap \<Rightarrow> map re_origin (best_entries ns snap now dst))"
  by (cases "fwd ns") (simp_all add: bestRedistOrigins_eq, simp add: bestRedistOrigins_def)

lemma flowIndex_less: "0 < n \<Longrightarrow> n < 2 ^ 64 \<Longrightarrow> flowIndex pkt n < n"
proof -
  assume n: "0 < n" "n < 2 ^ 64"
  have "unat (h mod of_nat n :: 64 word) < n" for h :: "64 word"
    using n by (simp add: unat_mod unat_of_nat)
  then show ?thesis by (simp add: flowIndex_def Let_def)
qed

lemma best_entries_empty: "best_entries ns snap now dst = [] \<longleftrightarrow> \<not> list_ex (usable ns snap now dst) (sn_redist snap)"
proof -
  define us where "us = filter (usable ns snap now dst) (sn_redist snap)"
  have "\<exists>b \<in> set us. \<forall>u \<in> set us. route_key ns b \<le> route_key ns u" if "us \<noteq> []"
    using that ex_min_if_finite [of "route_key ns ` set us"] by (auto simp: not_less)
  then have "filter (\<lambda>re. list_all (\<lambda>re'. route_key ns re \<le> route_key ns re') us) us = [] \<longleftrightarrow> us = []"
    by (auto simp: filter_empty_conv list_all_iff)
  then show ?thesis by (simp add: best_entries_def us_def [symmetric]) (auto simp: us_def filter_empty_conv list_ex_iff)
qed

lemma best_entries_usable: "re \<in> set (best_entries ns snap now dst) \<Longrightarrow> re \<in> set (sn_redist snap) \<and> usable ns snap now dst re"
  by (auto simp: best_entries_def Let_def)

lemma length_best_entries: "length (best_entries ns snap now dst) \<le> length (sn_redist snap)"
  by (auto simp: best_entries_def Let_def intro: le_trans [OF length_filter_le])

lemma flow_exit_eq:
  assumes "fwd ns = Some snap" "length (sn_redist snap) < 2 ^ 64"
  shows "redistRouteFlow now dst pkt ns =
    (if best_entries ns snap now dst = [] then None
     else sn_byNode snap (re_origin (best_entries ns snap now dst !
       (if length (best_entries ns snap now dst) = 1 then 0 else flowIndex pkt (length (best_entries ns snap now dst))))))"
proof -
  let ?bs = "best_entries ns snap now dst"
  have "length ?bs < 2 ^ 64" using length_best_entries assms(2) by (rule le_less_trans)
  then have "?bs \<noteq> [] \<Longrightarrow> flowIndex pkt (length ?bs) < length ?bs" by (intro flowIndex_less) auto
  then have "?bs \<noteq> [] \<Longrightarrow> map re_origin ?bs ! flowIndex pkt (length ?bs) = re_origin (?bs ! flowIndex pkt (length ?bs))" by simp
  then show ?thesis
    by (cases "length ?bs") (auto simp: redistRouteFlow_def bestRedistOrigins_eq [OF assms(1)] snap_session_def assms(1) Let_def
        split: nat.split)
qed

definition five_tuple :: "bytes \<Rightarrow> addr option \<times> addr option \<times> (byte \<times> 16 word \<times> 16 word) option" where
  "five_tuple pkt = (parseSrc pkt, parseDst pkt,
     (case parseL4 pkt of None \<Rightarrow> None | Some (proto, sp, dp, _) \<Rightarrow> Some (proto, sp, dp)))"

lemma flowIndex_five_tuple: "five_tuple pkt = five_tuple pkt' \<Longrightarrow> flowIndex pkt n = flowIndex pkt' n"
  by (auto simp: five_tuple_def flowIndex_def Let_def split: option.splits)

text \<open>C23: A packet leaves through the session of a best usable route, a live one; it finds no exit
  only when there is no usable route; and the packets of one connection (same addresses, protocol
  and ports) all leave through the same session while the table stays.\<close>
theorem flow_exit_is_best:
  assumes "fwd ns = Some snap" "length (sn_redist snap) < 2 ^ 64"
  shows "(redistRouteFlow now dst pkt ns = None \<longleftrightarrow> \<not> list_ex (usable ns snap now dst) (sn_redist snap)) \<and>
    (\<forall>ps. redistRouteFlow now dst pkt ns = Some ps \<longrightarrow> session_live ns now (Is4 dst) ps \<and>
      (\<exists>re \<in> set (best_entries ns snap now dst). sn_byNode snap (re_origin re) = Some ps)) \<and>
    (five_tuple pkt' = five_tuple pkt \<longrightarrow> redistRouteFlow now dst pkt' ns = redistRouteFlow now dst pkt ns)"
proof -
  let ?bs = "best_entries ns snap now dst"
  define re where "re = ?bs ! (if length ?bs = 1 then 0 else flowIndex pkt (length ?bs))"
  have "length ?bs < 2 ^ 64" using length_best_entries assms(2) by (rule le_less_trans)
  then have mem: "?bs \<noteq> [] \<Longrightarrow> re \<in> set ?bs" unfolding re_def by (auto intro!: nth_mem flowIndex_less)
  have eq: "redistRouteFlow now dst pkt ns = (if ?bs = [] then None else sn_byNode snap (re_origin re))"
    unfolding re_def by (rule flow_exit_eq [OF assms])
  have u: "?bs \<noteq> [] \<Longrightarrow> \<exists>ps. sn_byNode snap (re_origin re) = Some ps \<and> session_live ns now (Is4 dst) ps"
    using best_entries_usable [OF mem] by (auto simp: usable_def split: option.splits)
  have "five_tuple pkt' = five_tuple pkt \<Longrightarrow> redistRouteFlow now dst pkt' ns = redistRouteFlow now dst pkt ns"
    using flowIndex_five_tuple [of pkt' pkt "length ?bs"] by (simp add: flow_exit_eq [OF assms])
  then show ?thesis using eq mem u best_entries_empty [of ns snap now dst] by (auto split: if_splits)
qed

definition ex_routes :: route_state where
  "ex_routes = publishFwd \<lparr>rs_nodeID = ''me'', rs_routes4 = Map.empty, rs_routes6 = Map.empty, rs_osRoutes = [], rs_byNode = [''a'' \<mapsto> 1, ''b'' \<mapsto> 2],
     rs_sess = (\<lambda>_. \<lparr>probeSent4 = 0, good4 = 0, probeSent6 = 0, good6 = 0, rt_node = [], rt_overlay4 = NoAddr, rt_overlay6 = NoAddr, rt_endpoint = (NoAddr, 0), rt_hostname = []\<rparr>), fwd = None,
     redist = [\<lparr>re_origin = ''a'', re_prefix = Prefix (Addr4 0) 0, re_metric = 5, re_lastSeen = Some 0\<rparr>,
               \<lparr>re_origin = ''b'', re_prefix = Prefix (Addr4 0x0a000000) 8, re_metric = 7, re_lastSeen = Some 0\<rparr>],
     knownRoute = (\<lambda>_. False), advRoutes = None, advReject = None, advMetric = None, advPrefer = None, bgpRoutes = None,
     hasDev = True, gatewaySupported = True, osMetric = Map.empty, fullTunnel = False, lastRouteAdv = 0\<rparr>"

lemma flow_exit_is_best_witness:
  "\<exists>ps. redistRouteFlow 0 (Addr4 0x0a000001) [] ex_routes = Some ps \<and> session_live ex_routes 0 True ps"
proof -
  define snap where "snap = the (fwd ex_routes)"
  have f: "fwd ex_routes = Some snap" "length (sn_redist snap) < 2 ^ 64"
    by (simp_all add: snap_def ex_routes_def publishFwd_def)
  have "usable ex_routes snap 0 (Addr4 0x0a000001) (redist ex_routes ! 1)"
    unfolding usable_def snap_def ex_routes_def publishFwd_def by code_simp
  then have "list_ex (usable ex_routes snap 0 (Addr4 0x0a000001)) (sn_redist snap)"
    by (simp add: snap_def ex_routes_def publishFwd_def)
  then show ?thesis using flow_exit_is_best [OF f, of 0 "Addr4 0x0a000001" "[]" "[]"]
    by (cases "redistRouteFlow 0 (Addr4 0x0a000001) [] ex_routes") auto
qed

lemma route_message_roundtrip_witness:
  "\<exists>body. encodeRouteAdd ''a'' (Prefix (Addr4 0x0a000000) 8) 300 = ctrlRouteAdd # body \<and>
     decodeRouteAdd body = Some (''a'', Prefix (Addr4 0x0a000000) 8, 44)"
proof -
  have "Masked (Prefix (Addr4 0x0a000000) 8) = Prefix (Addr4 0x0a000000) 8" by simp
  then show ?thesis using route_message_roundtrip [of "Prefix (Addr4 0x0a000000) 8" "''a''" 300 "[]"] by simp
qed

end
