(* ===== verification/Route_Sync.thy ===== *)
theory Route_Sync
  imports Route_Table
begin

text \<open>
  The handlers of internal/mesh/routes.go: what they do to the table of learned routes, to the
  routes the node programmed into the host, and which floods they send. A handler answers with the
  actions in the order the code takes them and the new state; \<open>add_ok\<close> says whether the device
  accepts a route. Removing a route may fail, which is only logged. The log throttle of rejected
  routes (a log line, nothing else) is left out; the published snapshot is a copy in the code, so
  rewriting the table in place never shows through it.
\<close>

section \<open>The metric of a prefix\<close>

definition metric_step :: "route_state \<Rightarrow> prefix \<Rightarrow> (int \<times> int) option \<Rightarrow> routeEntry \<Rightarrow> (int \<times> int) option" where
  "metric_step ns p st re =
     (if re_prefix re \<noteq> p then st
      else let rank = preferRank ns p (re_origin re)
           in case st of None \<Rightarrow> Some (re_metric re, rank)
              | Some (best, bestRank) \<Rightarrow>
                  if rank < bestRank then Some (re_metric re, rank)
                  else if rank > bestRank then st
                  else if re_metric re < best then Some (re_metric re, bestRank)
                  else st)"

definition own_bgp :: "route_state \<Rightarrow> prefix \<Rightarrow> bool" where
  "own_bgp ns p = (case bgpRoutes ns of None \<Rightarrow> False | Some (routes, _) \<Rightarrow> p \<in> set routes)"

definition bestRedistMetric :: "route_state \<Rightarrow> prefix \<Rightarrow> int option" where
  "bestRedistMetric ns p =
     (if own_bgp ns p then None else map_option fst (foldl (metric_step ns p) None (redist ns)))"

section \<open>The host's routing table\<close>

definition MeshRouteMetricFloor :: int where "MeshRouteMetricFloor = 9000"

definition isDefaultRoute :: "prefix \<Rightarrow> bool" where "isDefaultRoute p = (prefix_bits p = 0)"

definition syncFullTunnelRoute :: "(prefix \<Rightarrow> int \<Rightarrow> bool) \<Rightarrow> prefix \<Rightarrow> route_state \<Rightarrow> route_act list \<times> route_state" where
  "syncFullTunnelRoute add_ok p ns =
     (case bestRedistMetric ns p of
        None \<Rightarrow>
          (case osMetric ns p of None \<Rightarrow> ([], ns)
           | Some old \<Rightarrow> ([OsDel p old, RestoreDefault p, ResyncBypass],
                          ns\<lparr>osMetric := (osMetric ns)(p := None), fullTunnel := False\<rparr>))
      | Some metric \<Rightarrow>
          if osMetric ns p = None \<and> \<not> gatewaySupported ns then ([], ns)
          else if osMetric ns p = Some metric then ([], ns)
          else
            let ns1 = ns\<lparr>fullTunnel := True\<rparr>;
                acts = [ResyncBypass, SeedBypass] @
                       (case osMetric ns p of Some old \<Rightarrow> [OsDel p old] | None \<Rightarrow> [DemoteDefault p]) @
                       [OsAdd p metric (add_ok p metric)]
            in if add_ok p metric then (acts, ns1\<lparr>osMetric := (osMetric ns)(p \<mapsto> metric)\<rparr>) else (acts, ns1))"

definition syncRoute :: "(prefix \<Rightarrow> int \<Rightarrow> bool) \<Rightarrow> prefix \<Rightarrow> route_state \<Rightarrow> route_act list \<times> route_state" where
  "syncRoute add_ok p ns =
     (if \<not> hasDev ns then ([], ns)
      else if isDefaultRoute p then syncFullTunnelRoute add_ok p ns
      else case bestRedistMetric ns p of
        None \<Rightarrow>
          (case osMetric ns p of None \<Rightarrow> ([], ns)
           | Some old \<Rightarrow> ([OsDel p old, ResyncBypass, SeedBypass], ns\<lparr>osMetric := (osMetric ns)(p := None)\<rparr>))
      | Some m \<Rightarrow>
          let metric = m + MeshRouteMetricFloor
          in if osMetric ns p = Some metric then ([], ns)
             else
               let acts = (case osMetric ns p of Some old \<Rightarrow> [OsDel p old] | None \<Rightarrow> []) @ [OsAdd p metric (add_ok p metric)]
               in if add_ok p metric
                  then (acts @ (if osMetric ns p = None then [ResyncBypass, SeedBypass] else []),
                        ns\<lparr>osMetric := (osMetric ns)(p \<mapsto> metric)\<rparr>)
                  else (acts, ns))"

fun sync_all :: "(prefix \<Rightarrow> int \<Rightarrow> bool) \<Rightarrow> prefix list \<Rightarrow> route_state \<Rightarrow> route_act list \<times> route_state" where
  "sync_all add_ok [] ns = ([], ns)"
| "sync_all add_ok (p # ps) ns =
     (case syncRoute add_ok p ns of (a, ns1) \<Rightarrow> (case sync_all add_ok ps ns1 of (b, ns2) \<Rightarrow> (a @ b, ns2)))"

section \<open>Learning and withdrawing\<close>

definition routeKey :: "string \<Rightarrow> prefix \<Rightarrow> string" where
  "routeKey origin p = origin @ ''|'' @ prefix_String p"

fun refresh_entry :: "string \<Rightarrow> prefix \<Rightarrow> int \<Rightarrow> int \<Rightarrow> routeEntry list \<Rightarrow> routeEntry list \<times> bool" where
  "refresh_entry origin p metric now [] = ([], False)"
| "refresh_entry origin p metric now (re # res) =
     (if re_origin re = origin \<and> re_prefix re = p
      then (re\<lparr>re_lastSeen := Some now, re_metric := metric\<rparr> # res, re_metric re \<noteq> metric)
      else case refresh_entry origin p metric now res of (res', c) \<Rightarrow> (re # res', c))"

definition prefix_live :: "route_state \<Rightarrow> int \<Rightarrow> prefix \<Rightarrow> nat \<Rightarrow> bool" where
  "prefix_live ns now p ps =
     (if Is6 (prefix_addr p) then familyLive6 (rs_sess ns ps) now else familyLive4 (rs_sess ns ps) now)"

definition onRouteAdd :: "int \<Rightarrow> (prefix \<Rightarrow> int \<Rightarrow> bool) \<Rightarrow> nat \<Rightarrow> bytes \<Rightarrow> route_state \<Rightarrow> route_act list \<times> route_state" where
  "onRouteAdd now add_ok ps body ns =
     (case decodeRouteAdd body of None \<Rightarrow> ([], ns)
      | Some (origin, p, metric) \<Rightarrow>
          if origin = rs_nodeID ns then ([], ns)
          else if rejected ns p then ([], ns)
          else case rs_byNode ns origin of None \<Rightarrow> ([], ns)
          | Some originPS \<Rightarrow>
              if \<not> prefix_live ns now p originPS then ([], ns)
              else
                let flood = Flood (encodeRouteAdd origin p metric) (Some ps)
                in if knownRoute ns (routeKey origin p) then
                     (case refresh_entry origin p metric now (redist ns) of (rs', metricChanged) \<Rightarrow>
                        let ns1 = ns\<lparr>redist := rs'\<rparr>
                        in if metricChanged
                           then (case syncRoute add_ok p (publishFwd ns1) of (acts, ns2) \<Rightarrow> (acts @ [flood], ns2))
                           else ([], ns1))
                   else
                     let ns1 = ns\<lparr>knownRoute := (knownRoute ns)(routeKey origin p := True),
                                  redist := redist ns @ [\<lparr>re_origin = origin, re_prefix = p, re_metric = metric, re_lastSeen = Some now\<rparr>]\<rparr>
                     in (case syncRoute add_ok p (publishFwd ns1) of (acts, ns2) \<Rightarrow> (acts @ [flood], ns2)))"

definition onRouteDel :: "(prefix \<Rightarrow> int \<Rightarrow> bool) \<Rightarrow> nat \<Rightarrow> bytes \<Rightarrow> route_state \<Rightarrow> route_act list \<times> route_state" where
  "onRouteDel add_ok ps body ns =
     (case decodeRouteDel body of None \<Rightarrow> ([], ns)
      | Some (origin, p) \<Rightarrow>
          if origin = rs_nodeID ns then ([], ns)
          else if \<not> knownRoute ns (routeKey origin p) then ([], ns)
          else
            let ns1 = ns\<lparr>knownRoute := (knownRoute ns)(routeKey origin p := False),
                         redist := filter (\<lambda>re. \<not> (re_origin re = origin \<and> re_prefix re = p)) (redist ns)\<rparr>
            in (case syncRoute add_ok p (publishFwd ns1) of (acts, ns2) \<Rightarrow>
                  (acts @ [Flood (encodeRouteDel origin p) (Some ps)], ns2)))"

section \<open>Routes that go away\<close>

text \<open>The loops that drop some entries: their keys are forgotten, the rest is published.\<close>

definition entry_key :: "routeEntry \<Rightarrow> string" where
  "entry_key re = routeKey (re_origin re) (re_prefix re)"

definition drop_entries :: "(routeEntry \<Rightarrow> bool) \<Rightarrow> route_state \<Rightarrow> route_state" where
  "drop_entries gone ns = publishFwd (ns\<lparr>
     redist := filter (\<lambda>re. \<not> gone re) (redist ns),
     knownRoute := (\<lambda>k. knownRoute ns k \<and> k \<notin> entry_key ` set (filter gone (redist ns)))\<rparr>)"

definition drop_and_sync :: "(prefix \<Rightarrow> int \<Rightarrow> bool) \<Rightarrow> (routeEntry \<Rightarrow> bool) \<Rightarrow> route_state \<Rightarrow> route_act list \<times> route_state" where
  "drop_and_sync add_ok gone ns =
     (if redist ns = [] then ([], ns)
      else sync_all add_ok (map re_prefix (filter gone (redist ns))) (drop_entries gone ns))"

definition dropNodeRoutes :: "(prefix \<Rightarrow> int \<Rightarrow> bool) \<Rightarrow> string \<Rightarrow> route_state \<Rightarrow> route_act list \<times> route_state" where
  "dropNodeRoutes add_ok nodeID ns = drop_and_sync add_ok (\<lambda>re. re_origin re = nodeID) ns"

definition minRouteHold :: int where "minRouteHold = 15000000000"

definition routeTTL :: "int \<Rightarrow> int" where
  "routeTTL interval = (let ttl = 2 * interval in if ttl < minRouteHold then minRouteHold else ttl)"

definition sweepStaleRoutes :: "(prefix \<Rightarrow> int \<Rightarrow> bool) \<Rightarrow> int \<Rightarrow> int \<Rightarrow> route_state \<Rightarrow> route_act list \<times> route_state" where
  "sweepStaleRoutes add_ok interval now ns =
     drop_and_sync add_ok (\<lambda>re. case re_lastSeen re of None \<Rightarrow> False | Some t \<Rightarrow> now - t > routeTTL interval) ns"

definition sweepDeadFamilyRoutes :: "(prefix \<Rightarrow> int \<Rightarrow> bool) \<Rightarrow> int \<Rightarrow> route_state \<Rightarrow> route_act list \<times> route_state" where
  "sweepDeadFamilyRoutes add_ok now ns =
     drop_and_sync add_ok (\<lambda>re. case rs_byNode ns (re_origin re) of None \<Rightarrow> False
       | Some ps \<Rightarrow> \<not> prefix_live ns now (re_prefix re) ps) ns"

section \<open>This node's own routes\<close>

definition opt_list :: "'a list option \<Rightarrow> 'a list" where
  "opt_list x = (case x of None \<Rightarrow> [] | Some xs \<Rightarrow> xs)"

definition advertiseRoutes :: "route_state \<Rightarrow> route_act list" where
  "advertiseRoutes ns =
     map (\<lambda>p. Flood (encodeRouteAdd (rs_nodeID ns) p (metricFor ns p)) None) (opt_list (advRoutes ns)) @
     (case bgpRoutes ns of None \<Rightarrow> []
      | Some (routes, metric) \<Rightarrow> map (\<lambda>p. Flood (encodeRouteAdd (rs_nodeID ns) p metric) None) routes)"

definition withdrawRoutes :: "route_state \<Rightarrow> prefix list \<Rightarrow> route_act list" where
  "withdrawRoutes ns ps = map (\<lambda>p. Flood (encodeRouteDel (rs_nodeID ns) p) None) ps"

definition map_metric :: "(prefix \<Rightarrow> int option) \<Rightarrow> prefix \<Rightarrow> int" where
  "map_metric m p = (case m p of None \<Rightarrow> 0 | Some x \<Rightarrow> x)"

definition reloadRoutes :: "(prefix \<Rightarrow> int \<Rightarrow> bool) \<Rightarrow> prefix list \<Rightarrow> RejectRule list \<Rightarrow> (prefix \<Rightarrow> int option) \<Rightarrow>
    (prefix \<Rightarrow> string list option) \<Rightarrow> route_state \<Rightarrow> route_act list \<times> route_state" where
  "reloadRoutes add_ok newRoutes newReject newMetric newPrefer ns =
     (let old = opt_list (advRoutes ns);
          oldMetric = (case advMetric ns of None \<Rightarrow> (\<lambda>_. None) | Some m \<Rightarrow> m);
          ns1 = ns\<lparr>advRoutes := Some newRoutes, advReject := Some newReject, advMetric := Some newMetric,
                   advPrefer := Some newPrefer\<rparr>;
          purged = map re_prefix (filter (\<lambda>re. rejected ns1 (re_prefix re)) (redist ns1))
      in case sync_all add_ok purged (drop_entries (\<lambda>re. rejected ns1 (re_prefix re)) ns1) of (acts, ns2) \<Rightarrow>
           (acts @
            map (\<lambda>p. Flood (encodeRouteAdd (rs_nodeID ns) p (metricFor ns2 p)) None) (filter (\<lambda>p. p \<notin> set old) newRoutes) @
            map (\<lambda>p. Flood (encodeRouteAdd (rs_nodeID ns) p (map_metric newMetric p)) None)
              (filter (\<lambda>p. p \<in> set old \<and> map_metric oldMetric p \<noteq> map_metric newMetric p) newRoutes) @
            withdrawRoutes ns (filter (\<lambda>p. p \<notin> set newRoutes) old), ns2))"

fun advertise_bgp :: "(prefix \<Rightarrow> int \<Rightarrow> bool) \<Rightarrow> int \<Rightarrow> prefix list \<Rightarrow> route_state \<Rightarrow> route_act list \<times> route_state" where
  "advertise_bgp add_ok metric [] ns = ([], ns)"
| "advertise_bgp add_ok metric (p # ps) ns =
     (case syncRoute add_ok p ns of (a, ns1) \<Rightarrow>
        (case advertise_bgp add_ok metric ps ns1 of (b, ns2) \<Rightarrow>
           (Flood (encodeRouteAdd (rs_nodeID ns) p metric) None # a @ b, ns2)))"

definition reloadBGPRoutes :: "(prefix \<Rightarrow> int \<Rightarrow> bool) \<Rightarrow> prefix list \<Rightarrow> int \<Rightarrow> route_state \<Rightarrow> route_act list \<times> route_state" where
  "reloadBGPRoutes add_ok newRoutes metric ns =
     (let old = (case bgpRoutes ns of None \<Rightarrow> [] | Some (r, _) \<Rightarrow> r);
          oldMetric = (case bgpRoutes ns of None \<Rightarrow> 0 | Some (_, m) \<Rightarrow> m);
          ns1 = ns\<lparr>bgpRoutes := Some (newRoutes, metric)\<rparr>;
          removed = filter (\<lambda>p. p \<notin> set newRoutes) old
      in case advertise_bgp add_ok metric (filter (\<lambda>p. p \<notin> set old) newRoutes) ns1 of (a, ns2) \<Rightarrow>
           case sync_all add_ok removed ns2 of (b, ns3) \<Rightarrow>
             (a @ (if oldMetric \<noteq> metric
                   then map (\<lambda>p. Flood (encodeRouteAdd (rs_nodeID ns) p metric) None) (filter (\<lambda>p. p \<in> set old) newRoutes)
                   else []) @ withdrawRoutes ns removed @ b, ns3))"

definition shouldReadvertise :: "int \<Rightarrow> int \<Rightarrow> route_state \<Rightarrow> bool \<times> route_state" where
  "shouldReadvertise now interval ns =
     (let haveAdv = (opt_list (advRoutes ns) \<noteq> []);
          haveBGP = (case bgpRoutes ns of None \<Rightarrow> False | Some (r, _) \<Rightarrow> r \<noteq> [])
      in if \<not> haveAdv \<and> \<not> haveBGP then (False, ns)
         else if now - lastRouteAdv ns < interval then (False, ns)
         else (True, ns\<lparr>lastRouteAdv := now\<rparr>))"

section \<open>The host's table follows the learned routes\<close>

text \<open>What the host should have for a prefix: the metric of the best advertisement, above the floor
  unless it is a default route.\<close>

definition os_want :: "route_state \<Rightarrow> prefix \<Rightarrow> int option" where
  "os_want ns p = map_option (\<lambda>m. if isDefaultRoute p then m else m + MeshRouteMetricFloor) (bestRedistMetric ns p)"

text \<open>The host's table under the actions: a refused route is not there.\<close>

fun os_apply :: "(prefix \<times> int) set \<Rightarrow> route_act \<Rightarrow> (prefix \<times> int) set" where
  "os_apply K (OsAdd p m accepted) = (if accepted then insert (p, m) K else K)"
| "os_apply K (OsDel p m) = K - {(p, m)}"
| "os_apply K _ = K"

definition host_tracked :: "(prefix \<times> int) set \<Rightarrow> route_state \<Rightarrow> bool" where
  "host_tracked K ns \<longleftrightarrow> K = {(p, m). osMetric ns p = Some m}"

text \<open>The fields a synchronisation of the host does not touch.\<close>

definition same_table :: "route_state \<Rightarrow> route_state \<Rightarrow> bool" where
  "same_table ns ns' \<longleftrightarrow> redist ns' = redist ns \<and> bgpRoutes ns' = bgpRoutes ns \<and> advPrefer ns' = advPrefer ns \<and>
     hasDev ns' = hasDev ns \<and> gatewaySupported ns' = gatewaySupported ns \<and> rs_nodeID ns' = rs_nodeID ns \<and>
     knownRoute ns' = knownRoute ns \<and> rs_byNode ns' = rs_byNode ns \<and> rs_sess ns' = rs_sess ns \<and> fwd ns' = fwd ns \<and>
     advReject ns' = advReject ns"

lemma same_table_refl [simp]: "same_table ns ns"
  by (simp add: same_table_def)

lemma same_table_trans: "same_table a b \<Longrightarrow> same_table b c \<Longrightarrow> same_table a c"
  by (simp add: same_table_def)

lemma metric_step_same: "advPrefer ns' = advPrefer ns \<Longrightarrow> metric_step ns' p = metric_step ns p"
  by (intro ext) (simp add: metric_step_def preferRank_def)

lemma bestRedistMetric_same:
  "redist ns' = redist ns \<Longrightarrow> bgpRoutes ns' = bgpRoutes ns \<Longrightarrow> advPrefer ns' = advPrefer ns \<Longrightarrow>
    bestRedistMetric ns' p = bestRedistMetric ns p"
  by (simp add: bestRedistMetric_def own_bgp_def metric_step_same [of ns' ns])

lemma os_want_same: "same_table ns ns' \<Longrightarrow> os_want ns' = os_want ns"
  by (intro ext) (simp add: os_want_def same_table_def bestRedistMetric_same [of ns' ns])

lemma syncRoute_same: "syncRoute add_ok p ns = (acts, ns') \<Longrightarrow> same_table ns ns'"
  by (auto simp: syncRoute_def syncFullTunnelRoute_def Let_def same_table_def split: option.splits if_splits)

lemma syncRoute_metric:
  assumes "hasDev ns" "gatewaySupported ns" "\<And>p m. add_ok p m" "syncRoute add_ok p ns = (acts, ns')"
  shows "osMetric ns' = (osMetric ns)(p := os_want ns p)"
  using assms by (auto simp: syncRoute_def syncFullTunnelRoute_def os_want_def Let_def split: option.splits if_splits)

lemma syncRoute_host_tracked:
  assumes "hasDev ns" "gatewaySupported ns" "\<And>p m. add_ok p m" "syncRoute add_ok p ns = (acts, ns')" "host_tracked K ns"
  shows "host_tracked (foldl os_apply K acts) ns'"
  using assms by (auto simp: syncRoute_def syncFullTunnelRoute_def host_tracked_def Let_def split: option.splits if_splits)

lemma sync_all_same: "sync_all add_ok ps ns = (acts, ns') \<Longrightarrow> same_table ns ns'"
  by (induction ps arbitrary: ns acts ns') (auto split: prod.splits dest!: syncRoute_same intro: same_table_trans)

text \<open>Synchronising some prefixes brings the host in step with the table for them and changes
  nothing else; what the node tracks stays what the host has.\<close>

lemma sync_all_metric:
  assumes "hasDev ns" "gatewaySupported ns" "\<And>p m. add_ok p m" "sync_all add_ok ps ns = (acts, ns')"
  shows "osMetric ns' = (\<lambda>p. if p \<in> set ps then os_want ns p else osMetric ns p)"
  using assms(1,2,4)
proof (induction ps arbitrary: ns acts)
  case (Cons q qs)
  obtain a ns1 b where s: "syncRoute add_ok q ns = (a, ns1)" "sync_all add_ok qs ns1 = (b, ns')"
    using Cons.prems(3) by (auto split: prod.splits)
  have same: "same_table ns ns1" by (rule syncRoute_same [OF s(1)])
  have m: "osMetric ns1 = (osMetric ns)(q := os_want ns q)" by (rule syncRoute_metric [OF Cons.prems(1,2) assms(3) s(1)])
  have "osMetric ns' = (\<lambda>p. if p \<in> set qs then os_want ns1 p else osMetric ns1 p)"
    by (rule Cons.IH [OF _ _ s(2)]) (use same Cons.prems in \<open>simp_all add: same_table_def\<close>)
  then show ?case by (auto simp: m os_want_same [OF same])
qed simp

lemma sync_all_tracked:
  assumes "hasDev ns" "gatewaySupported ns" "\<And>p m. add_ok p m" "sync_all add_ok ps ns = (acts, ns')" "host_tracked K ns"
  shows "host_tracked (foldl os_apply K acts) ns'"
  using assms(1,2,4,5)
proof (induction ps arbitrary: ns acts K)
  case (Cons q qs)
  obtain a ns1 b where s: "syncRoute add_ok q ns = (a, ns1)" "sync_all add_ok qs ns1 = (b, ns')" "acts = a @ b"
    using Cons.prems(3) by (auto split: prod.splits)
  have same: "same_table ns ns1" by (rule syncRoute_same [OF s(1)])
  have "host_tracked (foldl os_apply K a) ns1" by (rule syncRoute_host_tracked [OF Cons.prems(1,2) assms(3) s(1) Cons.prems(4)])
  then show ?case unfolding s(3) foldl_append
    by (intro Cons.IH [OF _ _ s(2)]) (use same Cons.prems in \<open>simp_all add: same_table_def\<close>)
qed simp

section \<open>Histories\<close>

datatype route_event =
    GotAdd int nat bytes
  | GotDel nat bytes
  | NodeGone string
  | StaleSweep int int
  | FamilySweep int
  | Reload "prefix list" "RejectRule list" "prefix \<Rightarrow> int option" "prefix \<Rightarrow> string list option"
  | ReloadBGP "prefix list" int
  | Sessions "string \<Rightarrow> nat option" "nat \<Rightarrow> rt_session"

fun route_step :: "(prefix \<Rightarrow> int \<Rightarrow> bool) \<Rightarrow> route_event \<Rightarrow> route_state \<Rightarrow> route_act list \<times> route_state" where
  "route_step add_ok (GotAdd now ps body) ns = onRouteAdd now add_ok ps body ns"
| "route_step add_ok (GotDel ps body) ns = onRouteDel add_ok ps body ns"
| "route_step add_ok (NodeGone n) ns = dropNodeRoutes add_ok n ns"
| "route_step add_ok (StaleSweep interval now) ns = sweepStaleRoutes add_ok interval now ns"
| "route_step add_ok (FamilySweep now) ns = sweepDeadFamilyRoutes add_ok now ns"
| "route_step add_ok (Reload rs rej mt pf) ns = reloadRoutes add_ok rs rej mt pf ns"
| "route_step add_ok (ReloadBGP rs m) ns = reloadBGPRoutes add_ok rs m ns"
| "route_step add_ok (Sessions bn ss) ns = ([], publishFwd (ns\<lparr>rs_byNode := bn, rs_sess := ss\<rparr>))"

definition host_step :: "(prefix \<Rightarrow> int \<Rightarrow> bool) \<Rightarrow> (prefix \<times> int) set \<times> route_state \<Rightarrow> route_event \<Rightarrow> (prefix \<times> int) set \<times> route_state" where
  "host_step add_ok st ev =
     (case st of (K, ns) \<Rightarrow> case route_step add_ok ev ns of (acts, ns') \<Rightarrow> (foldl os_apply K acts, ns'))"

text \<open>What the best metric depends on: who advertises the prefix at which metric.\<close>

definition adverts :: "route_state \<Rightarrow> prefix \<Rightarrow> (string \<times> int) list" where
  "adverts ns p = map (\<lambda>re. (re_origin re, re_metric re)) (filter (\<lambda>re. re_prefix re = p) (redist ns))"

lemma metric_step_other: "re_prefix re \<noteq> p \<Longrightarrow> metric_step ns p st re = st"
  by (simp add: metric_step_def)

lemma metric_step_own:
  "re_prefix re = p \<Longrightarrow> metric_step ns p st re =
     metric_step ns p st \<lparr>re_origin = re_origin re, re_prefix = p, re_metric = re_metric re, re_lastSeen = None\<rparr>"
  by (cases st) (auto simp: metric_step_def Let_def)

lemma metric_fold_adverts:
  "foldl (metric_step ns p) st xs =
     foldl (\<lambda>st (og, m). metric_step ns p st \<lparr>re_origin = og, re_prefix = p, re_metric = m, re_lastSeen = None\<rparr>) st
       (map (\<lambda>re. (re_origin re, re_metric re)) (filter (\<lambda>re. re_prefix re = p) xs))"
  by (induction xs arbitrary: st) (auto simp: metric_step_other metric_step_own [symmetric])

lemma os_want_adverts:
  assumes "adverts ns' p = adverts ns p" "own_bgp ns' p = own_bgp ns p" "advPrefer ns' = advPrefer ns"
  shows "os_want ns' p = os_want ns p"
proof -
  have "foldl (metric_step ns' p) None (redist ns') = foldl (metric_step ns p) None (redist ns)"
    using assms(1) unfolding metric_step_same [OF assms(3)] metric_fold_adverts [of ns p] adverts_def by simp
  then show ?thesis by (simp add: os_want_def bestRedistMetric_def assms(2))
qed

lemma refresh_adverts:
  "refresh_entry og p m now xs = (ys, c) \<Longrightarrow> (q \<noteq> p \<or> \<not> c) \<Longrightarrow>
     map (\<lambda>re. (re_origin re, re_metric re)) (filter (\<lambda>re. re_prefix re = q) ys) =
     map (\<lambda>re. (re_origin re, re_metric re)) (filter (\<lambda>re. re_prefix re = q) xs)"
  by (induction xs arbitrary: ys c) (auto split: if_splits prod.splits)

lemma drop_adverts: "q \<notin> re_prefix ` set (filter gone xs) \<Longrightarrow>
    filter (\<lambda>re. re_prefix re = q) (filter (\<lambda>re. \<not> gone re) xs) = filter (\<lambda>re. re_prefix re = q) xs"
  by (induction xs) auto

definition in_sync :: "(prefix \<times> int) set \<Rightarrow> route_state \<Rightarrow> bool" where
  "in_sync K ns \<longleftrightarrow> hasDev ns \<and> gatewaySupported ns \<and> osMetric ns = os_want ns \<and> host_tracked K ns"

lemma foldl_floods: "foldl os_apply K (map (\<lambda>p. Flood (f p) (g p)) ps) = K"
  by (induction ps) simp_all

text \<open>The shape of every handler: the table changes for some prefixes, then these are synchronised.\<close>

lemma change_then_sync:
  assumes "in_sync K ns" "\<And>p m. add_ok p m"
    and "hasDev ns1 = hasDev ns" "gatewaySupported ns1 = gatewaySupported ns" "osMetric ns1 = osMetric ns"
    and "\<And>q. q \<notin> set ps \<Longrightarrow> os_want ns1 q = os_want ns q"
    and "sync_all add_ok ps ns1 = (acts, ns2)"
  shows "in_sync (foldl os_apply K acts) ns2"
proof -
  have d: "hasDev ns1" "gatewaySupported ns1" "osMetric ns1 = os_want ns" "host_tracked K ns1"
    using assms(1,3-5) by (auto simp: in_sync_def host_tracked_def)
  note same = sync_all_same [OF assms(7)]
  have "osMetric ns2 = os_want ns2"
    using assms(6) by (auto simp: sync_all_metric [OF d(1,2) assms(2,7)] os_want_same [OF same] d(3))
  moreover have "host_tracked (foldl os_apply K acts) ns2" by (rule sync_all_tracked [OF d(1,2) assms(2,7) d(4)])
  ultimately show ?thesis using same d by (simp add: in_sync_def same_table_def)
qed

lemma syncRoute_as_all: "syncRoute add_ok p ns = (acts, ns') \<Longrightarrow> sync_all add_ok [p] ns = (acts, ns')"
  by simp

lemma publishFwd_fields [simp]:
  "redist (publishFwd ns) = redist ns" "bgpRoutes (publishFwd ns) = bgpRoutes ns" "advPrefer (publishFwd ns) = advPrefer ns"
  "hasDev (publishFwd ns) = hasDev ns" "gatewaySupported (publishFwd ns) = gatewaySupported ns"
  "osMetric (publishFwd ns) = osMetric ns" "rs_nodeID (publishFwd ns) = rs_nodeID ns"
  by (simp_all add: publishFwd_def)

lemma onRouteAdd_cases:
  assumes "onRouteAdd now add_ok ps body ns = (acts, ns')"
  obtains (ignored) "acts = []" "ns' = ns"
    | (refreshed) og p m rs' where "decodeRouteAdd body = Some (og, p, m)" "knownRoute ns (routeKey og p)"
        "refresh_entry og p m now (redist ns) = (rs', False)" "acts = []" "ns' = ns\<lparr>redist := rs'\<rparr>"
    | (changed) og p m rs' a where "decodeRouteAdd body = Some (og, p, m)" "knownRoute ns (routeKey og p)"
        "refresh_entry og p m now (redist ns) = (rs', True)"
        "syncRoute add_ok p (publishFwd (ns\<lparr>redist := rs'\<rparr>)) = (a, ns')"
        "acts = a @ [Flood (encodeRouteAdd og p m) (Some ps)]"
    | (learned) og p m a where "decodeRouteAdd body = Some (og, p, m)" "\<not> knownRoute ns (routeKey og p)"
        "syncRoute add_ok p (publishFwd (ns\<lparr>knownRoute := (knownRoute ns)(routeKey og p := True),
           redist := redist ns @ [\<lparr>re_origin = og, re_prefix = p, re_metric = m, re_lastSeen = Some now\<rparr>]\<rparr>)) = (a, ns')"
        "acts = a @ [Flood (encodeRouteAdd og p m) (Some ps)]"
proof (cases "decodeRouteAdd body")
  case None
  then show ?thesis using assms ignored by (simp add: onRouteAdd_def)
next
  case (Some t)
  obtain og p m where t: "decodeRouteAdd body = Some (og, p, m)" using Some by (cases t) auto
  obtain rs' c where r: "refresh_entry og p m now (redist ns) = (rs', c)" by fastforce
  show ?thesis
  proof (cases "og = rs_nodeID ns \<or> rejected ns p \<or> (case rs_byNode ns og of None \<Rightarrow> True | Some q \<Rightarrow> \<not> prefix_live ns now p q)")
    case True
    then have "onRouteAdd now add_ok ps body ns = ([], ns)" using t by (auto simp: onRouteAdd_def split: option.splits)
    then show ?thesis using assms by (intro ignored) auto
  next
    case False
    then obtain q where q: "og \<noteq> rs_nodeID ns" "\<not> rejected ns p" "rs_byNode ns og = Some q" "prefix_live ns now p q"
      by (auto split: option.splits)
    note e = assms [unfolded onRouteAdd_def, simplified t q option.case prod.case Let_def r if_False not_True_eq_False]
    show ?thesis
    proof (cases "knownRoute ns (routeKey og p)")
      case k: True
      show ?thesis
      proof (cases c)
        case True
        moreover obtain a n2 where "syncRoute add_ok p (publishFwd (ns\<lparr>redist := rs'\<rparr>)) = (a, n2)" by fastforce
        ultimately show ?thesis using e k r t by (intro changed [of og p m rs' a]) auto
      next
        case False
        then show ?thesis using e k r t by (intro refreshed) auto
      qed
    next
      case False
      moreover obtain a n2 where "syncRoute add_ok p (publishFwd (ns\<lparr>knownRoute := (knownRoute ns)(routeKey og p := True),
           redist := redist ns @ [\<lparr>re_origin = og, re_prefix = p, re_metric = m, re_lastSeen = Some now\<rparr>]\<rparr>)) = (a, n2)" by fastforce
      ultimately show ?thesis using e t by (intro learned [of og p m a]) auto
    qed
  qed
qed

lemma adverts_append:
  "q \<noteq> re_prefix re \<Longrightarrow> redist ns1 = redist ns @ [re] \<Longrightarrow> adverts ns1 q = adverts ns q"
  by (simp add: adverts_def)

lemma add_in_sync:
  assumes "in_sync K ns" "\<And>p m. add_ok p m" "onRouteAdd now add_ok ps body ns = (acts, ns')"
  shows "in_sync (foldl os_apply K acts) ns'"
  using assms(3)
proof (cases rule: onRouteAdd_cases)
  case (refreshed og p m rs')
  have "os_want ns' = os_want ns"
    using refresh_adverts [OF refreshed(3)] by (intro ext os_want_adverts) (auto simp: adverts_def own_bgp_def refreshed)
  then show ?thesis using refreshed assms(1) by (auto simp: in_sync_def host_tracked_def)
next
  case (changed og p m rs' a)
  have "os_want (publishFwd (ns\<lparr>redist := rs'\<rparr>)) q = os_want ns q" if "q \<notin> set [p]" for q
    using that refresh_adverts [OF changed(3), of q] by (intro os_want_adverts) (auto simp: adverts_def own_bgp_def)
  then have "in_sync (foldl os_apply K a) ns'"
    by (intro change_then_sync [OF assms(1,2) _ _ _ _ syncRoute_as_all [OF changed(4)]]) simp_all
  then show ?thesis by (simp add: changed(5))
next
  case (learned og p m a)
  have "in_sync (foldl os_apply K a) ns'"
    by (rule change_then_sync [OF assms(1,2) _ _ _ _ syncRoute_as_all [OF learned(3)]])
      (simp_all, intro os_want_adverts, simp_all add: adverts_def own_bgp_def)
  then show ?thesis by (simp add: learned(4))
qed (use assms(1) in simp)

lemma del_in_sync:
  assumes "in_sync K ns" "\<And>p m. add_ok p m" "onRouteDel add_ok ps body ns = (acts, ns')"
  shows "in_sync (foldl os_apply K acts) ns'"
proof (cases "ns' = ns \<and> acts = []")
  case False
  then obtain og p ns1 a where 1: "syncRoute add_ok p (publishFwd ns1) = (a, ns')"
      "acts = a @ [Flood (encodeRouteDel og p) (Some ps)]"
      "ns1 = ns\<lparr>knownRoute := (knownRoute ns)(routeKey og p := False),
                redist := filter (\<lambda>re. \<not> (re_origin re = og \<and> re_prefix re = p)) (redist ns)\<rparr>"
    using assms(3) by (auto simp: onRouteDel_def Let_def split: option.splits if_splits prod.splits)
  have "os_want (publishFwd ns1) q = os_want ns q" if "q \<notin> set [p]" for q
  proof (rule os_want_adverts)
    have "q \<notin> re_prefix ` set (filter (\<lambda>re. re_origin re = og \<and> re_prefix re = p) (redist ns))" using that by auto
    from drop_adverts [OF this] show "adverts (publishFwd ns1) q = adverts ns q" by (simp add: adverts_def 1(3))
  qed (simp_all add: own_bgp_def 1(3))
  then have "in_sync (foldl os_apply K a) ns'"
    by (intro change_then_sync [OF assms(1,2) _ _ _ _ syncRoute_as_all [OF 1(1)]]) (simp_all add: 1(3))
  then show ?thesis by (simp add: 1(2))
qed (use assms(1) in simp)

lemma drop_in_sync:
  assumes "in_sync K ns" "\<And>p m. add_ok p m" "drop_and_sync add_ok gone ns = (acts, ns')"
  shows "in_sync (foldl os_apply K acts) ns'"
proof (cases "redist ns = []")
  case False
  then have s: "sync_all add_ok (map re_prefix (filter gone (redist ns))) (drop_entries gone ns) = (acts, ns')"
    using assms(3) by (simp add: drop_and_sync_def)
  have "os_want (drop_entries gone ns) q = os_want ns q" if "q \<notin> set (map re_prefix (filter gone (redist ns)))" for q
    using that drop_adverts [of q gone "redist ns"]
    by (intro os_want_adverts) (auto simp: adverts_def own_bgp_def drop_entries_def)
  then show ?thesis by (intro change_then_sync [OF assms(1,2) _ _ _ _ s]) (simp_all add: drop_entries_def)
qed (use assms in \<open>simp add: drop_and_sync_def\<close>)

lemma reload_in_sync:
  assumes "in_sync K ns" "\<And>p m. add_ok p m" "advPrefer ns = Some pf" "reloadRoutes add_ok rs rej mt pf ns = (acts, ns')"
  shows "in_sync (foldl os_apply K acts) ns'"
proof -
  define ns1 where "ns1 = ns\<lparr>advRoutes := Some rs, advReject := Some rej, advMetric := Some mt, advPrefer := Some pf\<rparr>"
  define gone :: "routeEntry \<Rightarrow> bool" where "gone = (\<lambda>re. rejected ns1 (re_prefix re))"
  obtain a fs where s: "sync_all add_ok (map re_prefix (filter gone (redist ns1))) (drop_entries gone ns1) = (a, ns')"
    and acts: "acts = a @ fs" "foldl os_apply K' fs = K'" for K'
    using assms(4) by (auto simp: reloadRoutes_def Let_def ns1_def [symmetric] gone_def foldl_floods withdrawRoutes_def split: prod.splits)
  have "os_want (drop_entries gone ns1) q = os_want ns q" if "q \<notin> set (map re_prefix (filter gone (redist ns1)))" for q
    using that drop_adverts [of q gone "redist ns"] assms(3)
    by (intro os_want_adverts) (auto simp: adverts_def own_bgp_def drop_entries_def ns1_def)
  then have "in_sync (foldl os_apply K a) ns'"
    by (intro change_then_sync [OF assms(1,2) _ _ _ _ s]) (simp_all add: drop_entries_def ns1_def)
  then show ?thesis by (simp add: acts)
qed

lemma advertise_bgp_sync:
  assumes "advertise_bgp add_ok m ps ns = (acts, ns')" "sync_all add_ok ps ns = (acts2, ns2)"
  shows "ns' = ns2 \<and> foldl os_apply K acts = foldl os_apply K acts2"
  using assms by (induction ps arbitrary: ns acts acts2 K) (auto split: prod.splits)

lemma sync_all_append:
  "sync_all add_ok (ps @ qs) ns =
     (case sync_all add_ok ps ns of (a, ns1) \<Rightarrow> case sync_all add_ok qs ns1 of (b, ns2) \<Rightarrow> (a @ b, ns2))"
  by (induction ps arbitrary: ns) (auto split: prod.splits)

lemma bgp_in_sync:
  assumes "in_sync K ns" "\<And>p m. add_ok p m" "reloadBGPRoutes add_ok rs m ns = (acts, ns')"
  shows "in_sync (foldl os_apply K acts) ns'"
proof -
  define old where "old = (case bgpRoutes ns of None \<Rightarrow> [] | Some (r, _) \<Rightarrow> r)"
  define ns1 where "ns1 = ns\<lparr>bgpRoutes := Some (rs, m)\<rparr>"
  let ?added = "filter (\<lambda>p. p \<notin> set old) rs" and ?removed = "filter (\<lambda>p. p \<notin> set rs) old"
  obtain a ns2 where a: "advertise_bgp add_ok m ?added ns1 = (a, ns2)" by fastforce
  obtain b ns3 where b: "sync_all add_ok ?removed ns2 = (b, ns3)" by fastforce
  obtain a' where a': "sync_all add_ok ?added ns1 = (a', ns2)" "foldl os_apply K a = foldl os_apply K a'"
    using advertise_bgp_sync [OF a] by (metis surj_pair)
  obtain fs where acts: "acts = a @ fs @ b" "foldl os_apply K' fs = K'" "ns' = ns3" for K'
    using assms(3) a b
    by (auto simp: reloadBGPRoutes_def Let_def old_def [symmetric] ns1_def [symmetric] foldl_floods withdrawRoutes_def split: if_splits)
  have s: "sync_all add_ok (?added @ ?removed) ns1 = (a' @ b, ns3)" by (simp add: sync_all_append a' b)
  have "os_want ns1 q = os_want ns q" if "q \<notin> set (?added @ ?removed)" for q
    using that by (intro os_want_adverts) (auto simp: adverts_def own_bgp_def ns1_def old_def split: option.splits)
  then have "in_sync (foldl os_apply K (a' @ b)) ns3"
    by (intro change_then_sync [OF assms(1,2) _ _ _ _ s]) (simp_all add: ns1_def)
  then show ?thesis by (simp add: acts a')
qed

text \<open>The events that change no preference: the preferences of a reload are the ones in force.\<close>

fun keeps_prefer :: "(prefix \<Rightarrow> string list option) \<Rightarrow> route_event \<Rightarrow> bool" where
  "keeps_prefer pf (Reload rs rej mt pf') = (pf' = pf)"
| "keeps_prefer pf _ = True"

lemma drop_and_sync_prefer: "drop_and_sync add_ok gone ns = (acts, ns') \<Longrightarrow> advPrefer ns' = advPrefer ns"
  by (auto simp: drop_and_sync_def drop_entries_def same_table_def dest!: sync_all_same split: if_splits)

lemma step_prefer:
  assumes "advPrefer ns = Some pf" "keeps_prefer pf ev" "route_step add_ok ev ns = (acts, ns')"
  shows "advPrefer ns' = Some pf"
proof (cases ev)
  case (GotAdd now ps body)
  from assms(3) [unfolded GotAdd route_step.simps] show ?thesis
    by (cases rule: onRouteAdd_cases) (use assms(1) in \<open>auto simp: same_table_def dest!: syncRoute_same\<close>)
next
  case (ReloadBGP rs m)
  then obtain ns1 a b ns2 ps qs where "advertise_bgp add_ok m ps ns1 = (a, ns2)" "sync_all add_ok qs ns2 = (b, ns')" "advPrefer ns1 = advPrefer ns"
    using assms(3) by (auto simp: reloadBGPRoutes_def Let_def split: prod.splits)
  moreover obtain c ns3 where "sync_all add_ok ps ns1 = (c, ns3)" by fastforce
  ultimately show ?thesis using advertise_bgp_sync assms(1) by (metis same_table_def sync_all_same)
qed (use assms in \<open>auto simp: onRouteDel_def dropNodeRoutes_def sweepStaleRoutes_def sweepDeadFamilyRoutes_def reloadRoutes_def
    drop_entries_def same_table_def Let_def dest!: drop_and_sync_prefer syncRoute_same sync_all_same split: option.splits if_splits prod.splits\<close>)

lemma host_step_in_sync:
  assumes "in_sync (fst st) (snd st)" "\<And>p m. add_ok p m" "advPrefer (snd st) = Some pf" "keeps_prefer pf ev"
  shows "in_sync (fst (host_step add_ok st ev)) (snd (host_step add_ok st ev)) \<and> advPrefer (snd (host_step add_ok st ev)) = Some pf"
proof -
  obtain K ns acts ns' where st: "st = (K, ns)" "route_step add_ok ev ns = (acts, ns')" by (metis surj_pair)
  have i: "in_sync K ns" "advPrefer ns = Some pf" using assms st by auto
  have "in_sync (foldl os_apply K acts) ns'"
  proof (cases ev)
    case (Sessions bn ss)
    then have "acts = []" "ns' = publishFwd (ns\<lparr>rs_byNode := bn, rs_sess := ss\<rparr>)" using st(2) by auto
    moreover have "os_want ns' = os_want ns" by (intro ext os_want_adverts) (simp_all add: adverts_def own_bgp_def calculation(2))
    ultimately show ?thesis using i(1) by (simp add: in_sync_def host_tracked_def)
  qed (use st(2) i assms(4) in \<open>auto intro: add_in_sync [OF i(1) assms(2)] del_in_sync [OF i(1) assms(2)] drop_in_sync [OF i(1) assms(2)]
      reload_in_sync [OF i(1) assms(2) i(2)] bgp_in_sync [OF i(1) assms(2)]
      simp: dropNodeRoutes_def sweepStaleRoutes_def sweepDeadFamilyRoutes_def\<close>)
  then show ?thesis using step_prefer [OF i(2) assms(4) st(2)] st by (simp add: host_step_def)
qed

lemma run_in_sync:
  assumes "in_sync (fst st) (snd st)" "\<And>p m. add_ok p m" "advPrefer (snd st) = Some pf" "list_all (keeps_prefer pf) evs"
  shows "in_sync (fst (foldl (host_step add_ok) st evs)) (snd (foldl (host_step add_ok) st evs))"
  using assms
proof (induction evs arbitrary: st)
  case (Cons ev evs)
  have k: "keeps_prefer pf ev" "list_all (keeps_prefer pf) evs" using Cons.prems(4) by auto
  from host_step_in_sync [OF Cons.prems(1-3) k(1)] show ?case
    unfolding foldl.simps by (intro Cons.IH [OF _ Cons.prems(2) _ k(2)]) auto
qed simp

section \<open>What the host ends up with\<close>

definition mkey :: "route_state \<Rightarrow> prefix \<Rightarrow> routeEntry \<Rightarrow> int \<times> int" where
  "mkey ns p re = (preferRank ns p (re_origin re), re_metric re)"

definition best_offer :: "route_state \<Rightarrow> prefix \<Rightarrow> routeEntry list \<Rightarrow> (int \<times> int) option \<Rightarrow> bool" where
  "best_offer ns p es st \<longleftrightarrow> (es = [] \<and> st = None) \<or>
     (\<exists>b \<in> set es. (\<forall>u \<in> set es. mkey ns p b \<le> mkey ns p u) \<and> st = Some (re_metric b, preferRank ns p (re_origin b)))"

lemma metric_step_offer:
  "re_prefix x = p \<Longrightarrow> metric_step ns p (Some (re_metric b, preferRank ns p (re_origin b))) x =
     (if mkey ns p x < mkey ns p b then Some (re_metric x, preferRank ns p (re_origin x))
      else Some (re_metric b, preferRank ns p (re_origin b)))"
  by (auto simp: metric_step_def mkey_def Let_def)

lemma best_offer_snoc:
  assumes "best_offer ns p es st" "re_prefix x = p"
  shows "best_offer ns p (es @ [x]) (metric_step ns p st x)"
proof (cases "es = []")
  case True
  then show ?thesis using assms by (auto simp: best_offer_def metric_step_def Let_def)
next
  case False
  then obtain b where b: "b \<in> set es" "\<forall>u \<in> set es. mkey ns p b \<le> mkey ns p u"
    and st: "st = Some (re_metric b, preferRank ns p (re_origin b))" using assms(1) by (auto simp: best_offer_def)
  show ?thesis
  proof (cases "mkey ns p x < mkey ns p b")
    case True
    then have "\<forall>u \<in> set es. mkey ns p x \<le> mkey ns p u" using b(2) by (blast intro: less_imp_le less_le_trans)
    then show ?thesis unfolding best_offer_def st metric_step_offer [OF assms(2)] using True
      by (intro disjI2 bexI [of _ x]) auto
  next
    case False
    then show ?thesis unfolding best_offer_def st metric_step_offer [OF assms(2)] using b
      by (intro disjI2 bexI [of _ b]) auto
  qed
qed

lemma metric_fold_best: "best_offer ns p (filter (\<lambda>re. re_prefix re = p) xs) (foldl (metric_step ns p) None xs)"
proof (induction xs rule: rev_induct)
  case (snoc x xs)
  then show ?case by (cases "re_prefix x = p") (simp_all add: best_offer_snoc metric_step_other)
qed (simp add: best_offer_def)

definition os_metric_of :: "prefix \<Rightarrow> int \<Rightarrow> int" where
  "os_metric_of p m = (if isDefaultRoute p then m else m + MeshRouteMetricFloor)"

lemma os_want_iff:
  "os_want ns p = Some m \<longleftrightarrow> \<not> own_bgp ns p \<and>
     (\<exists>re \<in> set (redist ns). re_prefix re = p \<and> m = os_metric_of p (re_metric re) \<and>
        list_all (\<lambda>u. re_prefix u = p \<longrightarrow> mkey ns p re \<le> mkey ns p u) (redist ns))"
proof -
  define es where "es = filter (\<lambda>re. re_prefix re = p) (redist ns)"
  have o: "best_offer ns p es (foldl (metric_step ns p) None (redist ns))" unfolding es_def by (rule metric_fold_best)
  have mem: "re \<in> set es \<longleftrightarrow> re \<in> set (redist ns) \<and> re_prefix re = p" for re by (auto simp: es_def)
  show ?thesis
  proof (cases "es = []")
    case True
    then have "foldl (metric_step ns p) None (redist ns) = None" using o by (simp add: best_offer_def)
    moreover have "\<not> (\<exists>re \<in> set (redist ns). re_prefix re = p)" using mem True by auto
    ultimately show ?thesis by (auto simp: os_want_def bestRedistMetric_def)
  next
    case False
    then obtain b where b: "b \<in> set es" "\<forall>u \<in> set es. mkey ns p b \<le> mkey ns p u"
      and st: "foldl (metric_step ns p) None (redist ns) = Some (re_metric b, preferRank ns p (re_origin b))"
      using o by (auto simp: best_offer_def)
    have eq: "re_metric re = re_metric b" if "re \<in> set es" "\<forall>u \<in> set es. mkey ns p re \<le> mkey ns p u" for re
    proof -
      have "mkey ns p re = mkey ns p b" using b that by (intro antisym) auto
      then show ?thesis by (simp add: mkey_def)
    qed
    have min: "list_all (\<lambda>u. re_prefix u = p \<longrightarrow> mkey ns p re \<le> mkey ns p u) (redist ns) \<longleftrightarrow>
        (\<forall>u \<in> set es. mkey ns p re \<le> mkey ns p u)" for re by (auto simp: list_all_iff mem)
    have "os_want ns p = (if own_bgp ns p then None else Some (os_metric_of p (re_metric b)))"
      using st by (simp add: os_want_def bestRedistMetric_def os_metric_of_def)
    moreover have "(\<exists>re \<in> set (redist ns). re_prefix re = p \<and> m = os_metric_of p (re_metric re) \<and>
        (\<forall>u \<in> set es. mkey ns p re \<le> mkey ns p u)) \<longleftrightarrow> m = os_metric_of p (re_metric b)" (is "?l \<longleftrightarrow> ?r")
    proof
      assume ?l
      then obtain re where "re \<in> set es" "m = os_metric_of p (re_metric re)" "\<forall>u \<in> set es. mkey ns p re \<le> mkey ns p u"
        unfolding mem by (elim bexE conjE) simp
      then show ?r using eq [of re] by simp
    next
      assume ?r
      with b show ?l unfolding mem by (intro bexI [of _ b]) simp_all
    qed
    ultimately show ?thesis unfolding min by auto
  qed
qed

text \<open>C24: The host's routing table says what the mesh offers. On a device that accepts routes, after
  any history of advertisements and withdrawals received, nodes lost, sweeps, reloads of the
  configuration that keep the preferences, changes of the node's own BGP routes and of sessions,
  starting without routes, the host has a route for a prefix exactly when some origin in the table
  offers it and the node does not redistribute it from BGP itself, and then exactly one, with the metric of
  the best offer by preference and metric (above the floor unless it is a default route).\<close>
theorem host_table_is_offers:
  assumes "hasDev ns" "gatewaySupported ns" "redist ns = []" "osMetric ns = Map.empty" "advPrefer ns = Some pf"
    and "list_all (keeps_prefer pf) evs" "foldl (host_step (\<lambda>_ _. True)) ({}, ns) evs = (K, ns')"
  shows "(p, m) \<in> K \<longleftrightarrow> \<not> own_bgp ns' p \<and>
    (\<exists>re \<in> set (redist ns'). re_prefix re = p \<and> m = os_metric_of p (re_metric re) \<and>
       list_all (\<lambda>u. re_prefix u = p \<longrightarrow> mkey ns' p re \<le> mkey ns' p u) (redist ns'))"
proof -
  have "os_want ns = Map.empty" using assms(3) by (auto simp: os_want_def bestRedistMetric_def)
  then have "in_sync (fst ({}, ns)) (snd ({}, ns))" using assms by (simp add: in_sync_def host_tracked_def)
  from run_in_sync [OF this, of "\<lambda>_ _. True" pf evs] have "in_sync K ns'" using assms by simp
  then have "(p, m) \<in> K \<longleftrightarrow> os_want ns' p = Some m" by (simp add: in_sync_def host_tracked_def)
  then show ?thesis by (simp only: os_want_iff)
qed

definition ex_node :: route_state where
  "ex_node = \<lparr>rs_nodeID = ''me'', rs_routes4 = Map.empty, rs_routes6 = Map.empty, rs_osRoutes = [], rs_byNode = [''a'' \<mapsto> 1, ''b'' \<mapsto> 2],
     rs_sess = (\<lambda>_. \<lparr>probeSent4 = 0, good4 = 0, probeSent6 = 0, good6 = 0, rt_node = [], rt_overlay4 = NoAddr, rt_overlay6 = NoAddr, rt_endpoint = (NoAddr, 0), rt_hostname = []\<rparr>), fwd = None, redist = [],
     knownRoute = (\<lambda>_. False), advRoutes = None, advReject = None, advMetric = None, advPrefer = Some Map.empty, bgpRoutes = None,
     hasDev = True, gatewaySupported = True, osMetric = Map.empty, fullTunnel = False, lastRouteAdv = 0\<rparr>"

definition ex_prefix :: prefix where "ex_prefix = Prefix (Addr4 0x0a000000) 8"

definition ex_offer :: "string \<Rightarrow> int \<Rightarrow> bytes" where "ex_offer origin m = tl (encodeRouteAdd origin ex_prefix m)"

lemma host_table_is_offers_witness:
  "(ex_prefix, 9005) \<in> fst (foldl (host_step (\<lambda>_ _. True)) ({}, ex_node) [GotAdd 0 1 (ex_offer ''a'' 5)])"
proof -
  obtain K ns' where r: "foldl (host_step (\<lambda>_ _. True)) ({}, ex_node) [GotAdd 0 1 (ex_offer ''a'' 5)] = (K, ns')" by fastforce
  have "\<not> own_bgp ns' ex_prefix \<and> redist ns' = [\<lparr>re_origin = ''a'', re_prefix = ex_prefix, re_metric = 5, re_lastSeen = Some 0\<rparr>]"
    unfolding arg_cong [OF r, of snd, unfolded snd_conv, symmetric] by code_simp
  moreover have "os_metric_of ex_prefix 5 = 9005" by code_simp
  ultimately show ?thesis
    using host_table_is_offers [OF _ _ _ _ _ _ r, of Map.empty ex_prefix 9005] r by (simp add: ex_node_def)
qed

text \<open>A reload that changes the preferences does not touch the host's table, which keeps the metric
  of the offer that was best before.\<close>
lemma reload_leaves_stale_metric:
  "let ns = snd (foldl (host_step (\<lambda>_ _. True)) ({}, ex_node)
       [GotAdd 0 1 (ex_offer ''a'' 5), GotAdd 0 2 (ex_offer ''b'' 1), Reload [] [] Map.empty [ex_prefix \<mapsto> [''a'']]])
   in osMetric ns ex_prefix = Some 9001 \<and> os_want ns ex_prefix = Some 9005"
  by code_simp

definition offered :: "string \<Rightarrow> prefix \<Rightarrow> routeEntry list \<Rightarrow> int option" where
  "offered og p xs = map_option re_metric (find (\<lambda>re. re_origin re = og \<and> re_prefix re = p) xs)"

lemma refresh_offered:
  "refresh_entry og p m now xs = (ys, c) \<Longrightarrow>
     c = (offered og p xs \<noteq> None \<and> offered og p xs \<noteq> Some m) \<and>
     offered og p ys = (if offered og p xs = None then None else Some m)"
  by (induction xs arbitrary: ys c) (auto simp: offered_def split: if_splits prod.splits)

text \<open>A repeated advertisement of a known metric does nothing to the host.\<close>

definition settled :: "bytes \<Rightarrow> route_state \<Rightarrow> bool" where
  "settled body ns = (case decodeRouteAdd body of None \<Rightarrow> False
     | Some (og, p, m) \<Rightarrow> knownRoute ns (routeKey og p) \<and> offered og p (redist ns) = Some m)"

lemma settled_repeat:
  assumes "settled body ns" "onRouteAdd now add_ok ps body ns = (acts, ns')"
  shows "acts = [] \<and> settled body ns'"
  using assms(2)
proof (cases rule: onRouteAdd_cases)
  case (refreshed og p m rs')
  then show ?thesis using assms(1) refresh_offered [OF refreshed(3)] by (simp add: settled_def)
next
  case (changed og p m rs' a)
  then show ?thesis using assms(1) refresh_offered [OF changed(3)] by (simp add: settled_def)
qed (use assms(1) in \<open>auto simp: settled_def\<close>)

lemma settled_repeats:
  "settled body (snd st) \<Longrightarrow> fst (foldl (\<lambda>st now. host_step add_ok st (GotAdd now ps body)) st ts) = fst st"
proof (induction ts arbitrary: st)
  case (Cons t ts)
  obtain acts ns' where a: "onRouteAdd t add_ok ps body (snd st) = (acts, ns')" by fastforce
  note q = settled_repeat [OF Cons.prems a]
  have "host_step add_ok st (GotAdd t ps body) = (fst st, ns')" using a q by (cases st) (simp add: host_step_def)
  then show ?case using Cons.IH [of "(fst st, ns')"] q by simp
qed simp

text \<open>A route the device once refused is not tried again while its metric stays. When the device
  refuses a newly learned route, the host stays without it however often its origin repeats the
  advertisement and however willing the device is by then; and when it refuses the replacement of
  a route at a new metric, the node goes on to believe that the old route is installed, so an
  advertisement of the old metric leaves the host without the route for good.\<close>
theorem refused_route_not_retried:
  "(let st = host_step (\<lambda>_ _. False) ({}, ex_node) (GotAdd 0 1 (ex_offer ''a'' 5))
    in os_want (snd st) ex_prefix = Some 9005 \<and>
       fst (foldl (\<lambda>st now. host_step (\<lambda>_ _. True) st (GotAdd now 1 (ex_offer ''a'' 5))) st ts) = {}) \<and>
   (let st1 = host_step (\<lambda>_ _. True) ({}, ex_node) (GotAdd 0 1 (ex_offer ''a'' 1));
        st2 = host_step (\<lambda>_ _. False) st1 (GotAdd 0 1 (ex_offer ''a'' 2));
        st3 = host_step (\<lambda>_ _. True) st2 (GotAdd 0 1 (ex_offer ''a'' 1))
    in fst st3 = {} \<and> os_want (snd st3) ex_prefix = Some 9001 \<and>
       fst (foldl (\<lambda>st now. host_step (\<lambda>_ _. True) st (GotAdd now 1 (ex_offer ''a'' 1))) st3 ts) = {})"
proof -
  define st where "st = host_step (\<lambda>_ _. False) ({}, ex_node) (GotAdd 0 1 (ex_offer ''a'' 5))"
  define st3 where "st3 = foldl (\<lambda>st (ok, m). host_step (\<lambda>_ _. ok) st (GotAdd 0 1 (ex_offer ''a'' m))) ({}, ex_node)
    [(True, 1), (False, 2), (True, 1)]"
  have 1: "fst st = {}" "os_want (snd st) ex_prefix = Some 9005" "settled (ex_offer ''a'' 5) (snd st)"
    unfolding st_def by code_simp+
  have 3: "fst st3 = {}" "os_want (snd st3) ex_prefix = Some 9001" "settled (ex_offer ''a'' 1) (snd st3)"
    unfolding st3_def by code_simp+
  have "st3 = host_step (\<lambda>_ _. True) (host_step (\<lambda>_ _. False) (host_step (\<lambda>_ _. True) ({}, ex_node)
      (GotAdd 0 1 (ex_offer ''a'' 1))) (GotAdd 0 1 (ex_offer ''a'' 2))) (GotAdd 0 1 (ex_offer ''a'' 1))"
    by (simp add: st3_def)
  then show ?thesis unfolding Let_def st_def [symmetric]
    using 1 3 settled_repeats [OF 1(3)] settled_repeats [OF 3(3)] by simp
qed

end
