(* ===== verification/Route_Storm.thy ===== *)
theory Route_Storm
  imports Route_Sync
begin

text \<open>
  Route advertisements in a mesh: four nodes, every two with a session, that handle each other's
  messages with the handlers of \<open>Route_Sync\<close>; messages arrive in the order in which they were sent.
  A flood ranges over the map of sessions, in an order that may differ from call to call: an argument.
  Node 0 is the origin of a route; the session to a node is its number.
\<close>

type_synonym mesh = "(nat \<Rightarrow> route_state) \<times> (nat \<times> nat \<times> bytes) list"

text \<open>\<open>floodControl\<close>: a copy to every session but the one the message came from.\<close>

definition flood_msgs :: "nat \<Rightarrow> nat list \<Rightarrow> route_act \<Rightarrow> (nat \<times> nat \<times> bytes) list" where
  "flood_msgs self ord a = (case a of Flood body ex \<Rightarrow> map (\<lambda>x. (self, x, body)) (filter (\<lambda>x. x \<noteq> self \<and> Some x \<noteq> ex) ord) | _ \<Rightarrow> [])"

definition flood_all :: "nat \<Rightarrow> nat list \<Rightarrow> route_act list \<Rightarrow> (nat \<times> nat \<times> bytes) list" where
  "flood_all self ord acts = concat (map (flood_msgs self ord) acts)"

definition onRouteControl :: "int \<Rightarrow> nat \<Rightarrow> bytes \<Rightarrow> route_state \<Rightarrow> route_act list \<times> route_state" where
  "onRouteControl now ps msg ns =
     (case msg of [] \<Rightarrow> ([], ns)
      | t # body \<Rightarrow>
          if t = ctrlRouteAdd then onRouteAdd now (\<lambda>_ _. True) ps body ns
          else if t = ctrlRouteDel then onRouteDel (\<lambda>_ _. True) ps body ns
          else ([], ns))"

fun deliver :: "nat list \<Rightarrow> int \<Rightarrow> mesh \<Rightarrow> mesh" where
  "deliver ord now (N, []) = (N, [])"
| "deliver ord now (N, (from, to, msg) # q) =
     (case onRouteControl now from msg (N to) of (acts, ns') \<Rightarrow> (N(to := ns'), q @ flood_all to ord acts))"

text \<open>One delivery at a time \<open>now\<close>: there is a message, and the map of the receiver is met in some order.\<close>

inductive delivers :: "int \<Rightarrow> mesh \<Rightarrow> mesh \<Rightarrow> bool" where
  "snd M \<noteq> [] \<Longrightarrow> distinct ord \<Longrightarrow> set ord = {0..<4} \<Longrightarrow> delivers now M (deliver ord now M)"

section \<open>A metric that changes twice\<close>

definition node_name :: "nat \<Rightarrow> string" where "node_name i = [''o'', ''a'', ''b'', ''c''] ! i"

definition bare_node :: "nat \<Rightarrow> route_state" where
  "bare_node i = ex_node\<lparr>rs_nodeID := node_name i,
     rs_byNode := (map_of (map (\<lambda>j. (node_name j, j)) [0..<4]))(node_name i := None)\<rparr>"

text \<open>The mesh has learned the route at metric 1; then the origin's configuration is reloaded twice,
  with metric 2 and with metric 1 again, before any of its floods arrives.\<close>

definition storm_start :: mesh where
  "storm_start =
     (let o0 = snd (reloadRoutes (\<lambda>_ _. True) [ex_prefix] [] [ex_prefix \<mapsto> 1] Map.empty (bare_node 0));
          (a1, o1) = reloadRoutes (\<lambda>_ _. True) [ex_prefix] [] [ex_prefix \<mapsto> 2] Map.empty o0;
          (a2, o2) = reloadRoutes (\<lambda>_ _. True) [ex_prefix] [] [ex_prefix \<mapsto> 1] Map.empty o1
      in (\<lambda>i. if i = 0 then o2 else snd (onRouteAdd 0 (\<lambda>_ _. True) 0 (ex_offer ''o'' 1) (bare_node i)),
          flood_all 0 [0..<4] (a1 @ a2)))"

text \<open>What matters of it: the metric each node has, and the metrics under way.\<close>

fun abs_deliver :: "int list \<times> (nat \<times> nat \<times> int) list \<Rightarrow> int list \<times> (nat \<times> nat \<times> int) list" where
  "abs_deliver (ms, []) = (ms, [])"
| "abs_deliver (ms, (f, t, m) # q) =
     (if t = 0 \<or> ms ! t = m then (ms, q)
      else (ms[t := m], q @ map (\<lambda>x. (t, x, m)) (filter (\<lambda>x. x \<noteq> t \<and> x \<noteq> f) [0..<4])))"

definition abs_start :: "int list \<times> (nat \<times> nat \<times> int) list" where
  "abs_start = ([9, 1, 1, 1], [(0, 1, 2), (0, 2, 2), (0, 3, 2), (0, 1, 1), (0, 2, 1), (0, 3, 1)])"

definition has_metric :: "int \<Rightarrow> route_state \<Rightarrow> bool" where
  "has_metric m ns \<longleftrightarrow> rs_nodeID ns \<noteq> ''o'' \<and> \<not> rejected ns ex_prefix \<and> rs_byNode ns ''o'' = Some 0 \<and>
     probeSent4 (rs_sess ns 0) = 0 \<and> knownRoute ns (routeKey ''o'' ex_prefix) \<and> offered ''o'' ex_prefix (redist ns) = Some m"

definition abs_of :: "mesh \<Rightarrow> int list \<times> (nat \<times> nat \<times> int) list \<Rightarrow> bool" where
  "abs_of M A \<longleftrightarrow> (case M of (N, msgs) \<Rightarrow> case A of (ms, q) \<Rightarrow>
     msgs = map (\<lambda>(f, t, m). (f, t, encodeRouteAdd ''o'' ex_prefix m)) q \<and> length ms = 4 \<and> rs_nodeID (N 0) = ''o'' \<and>
     (\<forall>i \<in> {1, 2, 3}. has_metric (ms ! i) (N i)) \<and>
     (\<forall>(f, t, m) \<in> set q. t < 4 \<and> 0 \<le> m \<and> m \<le> 255))"

lemma ex_prefix_simps [simp]: "Masked ex_prefix = ex_prefix" "\<not> Is6 (prefix_addr ex_prefix)"
  by (simp_all add: ex_prefix_def)

lemma ex_message:
  assumes "0 \<le> m" "m \<le> 255"
  obtains body where "encodeRouteAdd ''o'' ex_prefix m = ctrlRouteAdd # body" "decodeRouteAdd body = Some (''o'', ex_prefix, m)"
proof -
  have "prefix_wf ex_prefix" "prefix_valid ex_prefix" "\<not> Is4In6 (prefix_addr ex_prefix)" by (simp_all add: ex_prefix_def)
  from route_add_body [OF this, of "''o''" m "[]"] show ?thesis using assms by (auto intro: that)
qed

lemma flood_all_sync: "syncRoute add_ok p ns = (acts, ns') \<Longrightarrow> flood_all t ord acts = []"
  by (auto simp: syncRoute_def syncFullTunnelRoute_def flood_all_def flood_msgs_def Let_def split: option.splits if_splits)

lemma onRouteAdd_known:
  assumes "decodeRouteAdd body = Some (''o'', ex_prefix, m)" "has_metric m0 ns"
  shows "\<exists>ns'. has_metric m ns' \<and> (\<exists>acts. onRouteAdd now add_ok ps body ns = (acts, ns') \<and>
     flood_all t ord acts = (if m = m0 then [] else flood_msgs t ord (Flood (encodeRouteAdd ''o'' ex_prefix m) (Some ps))))"
proof -
  obtain rs' c where r: "refresh_entry ''o'' ex_prefix m now (redist ns) = (rs', c)" by fastforce
  have o: "c = (m0 \<noteq> m)" "offered ''o'' ex_prefix rs' = Some m"
    using refresh_offered [OF r] assms(2) by (auto simp: has_metric_def)
  have live: "prefix_live ns now ex_prefix 0" using assms(2) by (simp add: prefix_live_def familyLive4_def familyLive_def has_metric_def)
  obtain a ns2 where s: "syncRoute add_ok ex_prefix (publishFwd (ns\<lparr>redist := rs'\<rparr>)) = (a, ns2)" by fastforce
  have "onRouteAdd now add_ok ps body ns =
      (if c then (a @ [Flood (encodeRouteAdd ''o'' ex_prefix m) (Some ps)], ns2) else ([], ns\<lparr>redist := rs'\<rparr>))"
    using assms live s r by (auto simp: onRouteAdd_def has_metric_def Let_def)
  moreover have "has_metric m (ns\<lparr>redist := rs'\<rparr>)" using assms(2) o(2) by (simp add: has_metric_def rejected_def)
  moreover have "has_metric m ns2"
    using assms(2) o(2) syncRoute_same [OF s] by (simp add: has_metric_def rejected_def same_table_def publishFwd_def)
  moreover have "flood_all t ord a = []" by (rule flood_all_sync [OF s])
  ultimately show ?thesis using o(1) by (cases c) (auto simp: flood_all_def)
qed

lemma deliver_abs:
  assumes "abs_of M A"
  shows "abs_of (deliver [0..<4] now M) (abs_deliver A)"
proof -
  obtain N msgs ms q where M: "M = (N, msgs)" "A = (ms, q)" by (metis surj_pair)
  show ?thesis
  proof (cases q)
    case Nil
    then show ?thesis using assms M by (simp add: abs_of_def)
  next
    case (Cons x q')
    obtain f t m where x: "x = (f, t, m)" by (cases x)
    have a: "msgs = (f, t, encodeRouteAdd ''o'' ex_prefix m) # map (\<lambda>(f, t, m). (f, t, encodeRouteAdd ''o'' ex_prefix m)) q'"
        "length ms = 4" "rs_nodeID (N 0) = ''o''" "\<forall>i \<in> {1, 2, 3}. has_metric (ms ! i) (N i)" "t < 4" "0 \<le> m" "m \<le> 255"
        "\<forall>(f, t, m) \<in> set q'. t < 4 \<and> 0 \<le> m \<and> m \<le> 255"
      using assms unfolding M Cons x abs_of_def by auto
    obtain body where b: "encodeRouteAdd ''o'' ex_prefix m = ctrlRouteAdd # body" "decodeRouteAdd body = Some (''o'', ex_prefix, m)"
      by (rule ex_message [OF a(6,7)])
    show ?thesis
    proof (cases "t = 0")
      case True
      then have "deliver [0..<4] now M = (N, map (\<lambda>(f, t, m). (f, t, encodeRouteAdd ''o'' ex_prefix m)) q')"
        using a(3) b by (simp add: M a(1) onRouteControl_def onRouteAdd_def flood_all_def)
      then show ?thesis using a True by (simp add: M Cons x abs_of_def)
    next
      case False
      then have t: "t \<in> {1, 2, 3}" using a(5) by auto
      then have "has_metric (ms ! t) (N t)" using a(4) by blast
      from onRouteAdd_known [OF b(2) this, of now "\<lambda>_ _. True" f t "[0..<4]"] obtain ns' acts where h: "has_metric m ns'"
        "onRouteAdd now (\<lambda>_ _. True) f body (N t) = (acts, ns')"
        "flood_all t [0..<4] acts = (if m = ms ! t then [] else flood_msgs t [0..<4] (Flood (encodeRouteAdd ''o'' ex_prefix m) (Some f)))" by blast
      have d: "deliver [0..<4] now M = (N(t := ns'), map (\<lambda>(f, t, m). (f, t, encodeRouteAdd ''o'' ex_prefix m)) q' @ flood_all t [0..<4] acts)"
        using h(2) b(1) by (simp add: M a(1) onRouteControl_def)
      have hm: "\<forall>i \<in> {1, 2, 3}. has_metric (ms[t := m] ! i) ((N(t := ns')) i)"
        using a(2,4,5) h(1) by (auto simp: nth_list_update)
      have N0: "rs_nodeID ((N(t := ns')) 0) = ''o''" using a(3) False by simp
      show ?thesis
      proof (cases "ms ! t = m")
        case True
        then have "ms[t := m] = ms" by auto
        then show ?thesis using True d hm N0 h(3) a(2,8) by (simp add: M Cons x abs_of_def)
      next
        case ne: False
        have "abs_deliver A = (ms[t := m], q' @ map (\<lambda>x. (t, x, m)) (filter (\<lambda>x. x \<noteq> t \<and> x \<noteq> f) [0..<4]))"
          using ne False by (simp add: M Cons x)
        moreover have "flood_all t [0..<4] acts = map (\<lambda>(f, t, m). (f, t, encodeRouteAdd ''o'' ex_prefix m))
            (map (\<lambda>x. (t, x, m)) (filter (\<lambda>x. x \<noteq> t \<and> x \<noteq> f) [0..<4]))"
          using ne h(3) by (simp add: flood_msgs_def)
        moreover have "\<forall>(g, u, k) \<in> set (map (\<lambda>x. (t, x, m)) (filter (\<lambda>x. x \<noteq> t \<and> x \<noteq> f) [0..<4])). u < 4 \<and> 0 \<le> k \<and> k \<le> 255"
          using a(6,7) by auto
        ultimately show ?thesis using d hm N0 a(2,8) unfolding abs_of_def by (simp add: ball_Un del: upt_Suc)
      qed
    qed
  qed
qed

text \<open>The 50th state is the 38th.\<close>

lemma abs_cycle: "(abs_deliver ^^ 12) ((abs_deliver ^^ 38) abs_start) = (abs_deliver ^^ 38) abs_start"
  by code_simp

lemma abs_busy: "list_all (\<lambda>n. snd ((abs_deliver ^^ n) abs_start) \<noteq> []) [0..<50]"
  by code_simp


lemma abs_never_empty: "snd ((abs_deliver ^^ n) abs_start) \<noteq> []"
proof (induction n rule: less_induct)
  case (less n)
  show ?case
  proof (cases "n < 50")
    case True
    then show ?thesis using abs_busy by (simp add: list_all_iff del: upt_rec_numeral)
  next
    case False
    define k where "k = n - 50"
    have n: "n = k + 12 + 38" using False by (simp add: k_def)
    have "(abs_deliver ^^ n) abs_start = (abs_deliver ^^ k) ((abs_deliver ^^ 12) ((abs_deliver ^^ 38) abs_start))"
      unfolding n by (simp only: funpow_add comp_def)
    also have "\<dots> = (abs_deliver ^^ (k + 38)) abs_start" unfolding abs_cycle by (simp only: funpow_add comp_def)
    finally show ?thesis using less [of "k + 38"] n by simp
  qed
qed

lemma storm_start_abs: "abs_of storm_start abs_start"
proof -
  obtain N msgs where s: "storm_start = (N, msgs)" by (cases storm_start)
  have "snd storm_start = map (\<lambda>(f, t, m). (f, t, encodeRouteAdd ''o'' ex_prefix m)) (snd abs_start)" by code_simp
  moreover have "rs_nodeID (fst storm_start 0) = ''o''" "list_all (\<lambda>i. has_metric 1 (fst storm_start i)) [1, 2, 3]" by code_simp+
  ultimately show ?thesis unfolding abs_of_def s by (simp add: abs_start_def)
qed

lemma abs_busy_mesh: "abs_of M A \<Longrightarrow> snd A \<noteq> [] \<Longrightarrow> snd M \<noteq> []"
  by (cases M; cases A) (auto simp: abs_of_def)

text \<open>The flood of a route whose metric changes twice need not die. In a full mesh of four nodes that
  know a route, when the origin changes the metric and changes it back before its floods arrive, there is an
  endless run in which every message arrives, in the order of sending, at whatever times: the nodes keep
  passing the two metrics round. In it every flood goes to the sessions in ascending order; with other
  orders the flood may die out.\<close>
theorem route_change_storm: "\<exists>run. run 0 = storm_start \<and> (\<forall>i. delivers (now i) (run i) (run (Suc i)))"
proof -
  define run where "run = rec_nat storm_start (\<lambda>i M. deliver [0..<4] (now i) M)"
  have r: "run 0 = storm_start" "run (Suc i) = deliver [0..<4] (now i) (run i)" for i by (simp_all add: run_def)
  have abs: "abs_of (run i) ((abs_deliver ^^ i) abs_start)" for i
    by (induction i) (simp_all add: r storm_start_abs deliver_abs del: upt_Suc upt_rec_numeral)
  have "snd (run i) \<noteq> []" for i by (rule abs_busy_mesh [OF abs abs_never_empty])
  then have "delivers (now i) (run i) (run (Suc i))" for i unfolding r(2) by (intro delivers.intros) simp_all
  then show ?thesis using r(1) by blast
qed

end
