(* ===== verification/Dataplane.thy ===== *)
theory Dataplane
  imports Fw_Policy Nat_Flows Flood Qos Route_Storm
begin

text \<open>
  The two pipelines of internal/mesh/engine.go: \<open>processOutbound\<close> takes a packet the host sends into
  the tunnel through the loop guard, the firewall, address translation and the choice of a session;
  \<open>deliverInner\<close> takes a packet a peer sent through the check of its source, address translation,
  the firewall and policing to the host. They are composed of the operations of the other theories.
  Sessions are handles; \<open>peers\<close> lists the sessions of the published snapshot in the order the map gives
  them; what a token bucket answers is an argument. Encryption and sending of a packet for a session
  (or its egress queue) are the result. \<open>None\<close> means the call does not return (the port search of
  address translation).
\<close>

record data_state =
  dp_rt :: route_state
  dp_fw :: "firewall option"
  dp_nat :: "natTable option"
  dp_self4 :: addr
  dp_self6 :: addr
  dp_subnet4 :: prefix
  dp_seeds :: "addrport list"
  primaryPort :: int
  extraUDPPorts :: "16 word list"
  dp_egress :: "nat shaper option"
  loopDrops :: "64 word"
  noRouteDrop :: "64 word"
  egressQDrop :: "nat \<Rightarrow> 64 word"
  spoofDrop :: "nat \<Rightarrow> 64 word"
  fwInDrop :: "nat \<Rightarrow> 64 word"
  policeDrop :: "nat \<Rightarrow> 64 word"
  tunWriteDrop :: "nat \<Rightarrow> 64 word"

section \<open>The loop guard\<close>

definition maxIPv6ExtHeaders :: nat where "maxIPv6ExtHeaders = 8"

definition port_at :: "nat \<Rightarrow> bytes \<Rightarrow> 16 word" where "port_at off p = get16 (slice off (off + 2) p)"

text \<open>The walk over extension headers; \<open>next\<close> says what stands at \<open>off\<close>.\<close>

fun udp_walk :: "nat \<Rightarrow> bytes \<Rightarrow> nat \<Rightarrow> byte \<Rightarrow> (16 word \<times> 16 word) option" where
  "udp_walk 0 p off nxt = None"
| "udp_walk (Suc n) p off nxt =
     (let go = (\<lambda>len.
        let off' = off + len
        in if off' < 40 \<or> off' > length p then None else udp_walk n p off' (p ! off))
      in if nxt = 17 then
           (if length p < off + 8 then None else Some (port_at off p, port_at (off + 2) p))
         else if nxt \<in> {0, 43, 60, 135, 139, 140} then
           (if length p < off + 8 then None else go ((unat (p ! (off + 1)) + 1) * 8))
         else if nxt = 44 then
           (if length p < off + 8 then None
            else if p ! (off + 2) \<noteq> 0 \<or> p ! (off + 3) AND 0xf8 \<noteq> 0 then None
            else go 8)
         else if nxt = 51 then
           (if length p < off + 8 then None else go ((unat (p ! (off + 1)) + 2) * 4))
         else None)"

definition udpPorts :: "bytes \<Rightarrow> (16 word \<times> 16 word) option" where
  "udpPorts p =
     (if length p < 1 then None
      else if drop_bit 4 (p ! 0) = 4 then
        (if length p < 20 \<or> p ! 9 \<noteq> 17 then None
         else if p ! 6 AND 0x1f \<noteq> 0 \<or> p ! 7 \<noteq> 0 then None
         else let ihl = unat (p ! 0 AND 0x0f) * 4
              in if ihl < 20 \<or> length p < ihl + 8 then None
                 else Some (port_at ihl p, port_at (ihl + 2) p))
      else if drop_bit 4 (p ! 0) = 6 then
        (if length p < 40 then None else udp_walk maxIPv6ExtHeaders p 40 (p ! 6))
      else None)"

definition ownUDPPort :: "data_state \<Rightarrow> 16 word \<Rightarrow> bool" where
  "ownUDPPort ns port \<longleftrightarrow> (primaryPort ns > 0 \<and> of_int (primaryPort ns) = port) \<or> port \<in> set (extraUDPPorts ns)"

definition sameUnderlayAddrPort :: "addrport \<Rightarrow> addrport \<Rightarrow> bool" where
  "sameUnderlayAddrPort a b \<longleftrightarrow> snd a = snd b \<and> Unmap (fst a) = Unmap (fst b)"

definition isUnderlayLoop :: "nat list \<Rightarrow> data_state \<Rightarrow> bytes \<Rightarrow> addr \<Rightarrow> bool" where
  "isUnderlayLoop peers ns pkt dst =
     (case udpPorts pkt of None \<Rightarrow> False
      | Some (srcPort, dstPort) \<Rightarrow>
          if \<not> ownUDPPort ns srcPort then False
          else let target = (dst, dstPort)
               in list_ex (\<lambda>s. sameUnderlayAddrPort s target) (dp_seeds ns) \<or>
                  (fwd (dp_rt ns) \<noteq> None \<and>
                   list_ex (\<lambda>ps. sameUnderlayAddrPort (rt_endpoint (rs_sess (dp_rt ns) ps)) target) peers))"

section \<open>The session of a destination\<close>

definition routeTo :: "route_state \<Rightarrow> addr \<Rightarrow> nat option" where
  "routeTo ns dst =
     (case fwd ns of None \<Rightarrow> None
      | Some s \<Rightarrow> if Is4 dst then sn_routes4 s dst else sn_routes6 s dst)"

definition os_step :: "addr \<Rightarrow> int \<times> addr \<Rightarrow> prefix \<times> addr \<Rightarrow> int \<times> addr" where
  "os_step dst st r =
     (case st of (best, gw) \<Rightarrow>
        if \<not> Contains (fst r) dst then st
        else if prefix_bits (fst r) > best then (prefix_bits (fst r), snd r)
        else st)"

definition osRouteFlow :: "fwdSnap \<Rightarrow> addr \<Rightarrow> nat option" where
  "osRouteFlow s dst =
     (case foldl (os_step dst) (-1, NoAddr) (sn_osRoutes s) of
        (_, gw) \<Rightarrow> if \<not> IsValid gw then None else if Is4 gw then sn_routes4 s gw else sn_routes6 s gw)"

definition out_session :: "int \<Rightarrow> addr \<Rightarrow> bytes \<Rightarrow> route_state \<Rightarrow> nat option" where
  "out_session now dst pkt ns =
     (case routeTo ns dst of Some ps \<Rightarrow> Some ps
      | None \<Rightarrow>
          (case redistRouteFlow now dst pkt ns of Some ps \<Rightarrow> Some ps
           | None \<Rightarrow> (case fwd ns of None \<Rightarrow> None | Some s \<Rightarrow> osRouteFlow s dst)))"

section \<open>Outbound\<close>

definition dp_translate :: "int \<Rightarrow> bytes \<Rightarrow> data_state \<Rightarrow> (natTable option \<times> bytes) option" where
  "dp_translate now buf ns =
     (case dp_nat ns of None \<Rightarrow> Some (None, buf)
      | Some t \<Rightarrow>
          (case parseSrc buf of
             None \<Rightarrow> translateOut now (Some t) buf
           | Some src \<Rightarrow>
               if src \<noteq> dp_self4 ns \<and> src \<noteq> dp_self6 ns then translateOut now (Some t) buf else Some (Some t, buf)))"

definition dp_send :: "nat \<Rightarrow> bytes \<Rightarrow> data_state \<Rightarrow> (nat \<times> bytes) list \<times> data_state" where
  "dp_send ps pkt ns =
     (case dp_egress ns of
        None \<Rightarrow> ([(ps, pkt)], ns)
      | Some eg \<Rightarrow>
          (case enqueue ps pkt eg of (queued, _, eg') \<Rightarrow>
             if queued then ([], ns\<lparr>dp_egress := Some eg'\<rparr>)
             else ([], ns\<lparr>dp_egress := Some eg', egressQDrop := (egressQDrop ns)(ps := egressQDrop ns ps + 1)\<rparr>)))"

definition processOutbound :: "int \<Rightarrow> nat list \<Rightarrow> bool \<Rightarrow> bool \<Rightarrow> bytes \<Rightarrow> data_state \<Rightarrow>
    ((nat \<times> bytes) list \<times> data_state) option" where
  "processOutbound now peers bcast mcast buf ns =
     (case parseDst buf of None \<Rightarrow> Some ([], ns)
      | Some dst0 \<Rightarrow>
          if isUnderlayLoop peers ns buf dst0 then Some ([], ns\<lparr>loopDrops := loopDrops ns + 1\<rparr>)
          else
            (case allow now fwOut buf (dp_fw ns) of (allowed, _, fw') \<Rightarrow>
               let ns1 = ns\<lparr>dp_fw := fw'\<rparr>
               in if \<not> allowed then Some ([], ns1)
                  else
                    (case dp_translate now buf ns1 of None \<Rightarrow> None
                     | Some (nat', pkt) \<Rightarrow>
                         let ns2 = ns1\<lparr>dp_nat := nat'\<rparr>;
                             floods = flood (map_option (\<lambda>_. peers) (fwd (dp_rt ns2))) pkt
                         in case parseDst pkt of None \<Rightarrow> Some ([], ns2)
                         | Some dst \<Rightarrow>
                             (case classify_dst (dp_subnet4 ns2) dst of
                                kindBroadcast \<Rightarrow> Some (if bcast then floods else [], ns2)
                              | kindMulticast \<Rightarrow> Some (if mcast then floods else [], ns2)
                              | kindUnicast \<Rightarrow>
                                  (case out_session now dst pkt (dp_rt ns2) of
                                     None \<Rightarrow> Some ([], ns2\<lparr>noRouteDrop := noRouteDrop ns2 + 1\<rparr>)
                                   | Some ps \<Rightarrow> Some (dp_send ps pkt ns2))))))"

section \<open>Inbound\<close>

definition sourceAllowedFrom :: "nat \<Rightarrow> bytes \<Rightarrow> route_state \<Rightarrow> bool" where
  "sourceAllowedFrom ps ip ns =
     (case parseSrc ip of None \<Rightarrow> False
      | Some src0 \<Rightarrow>
          let src = Unmap src0 in
          (case fwd ns of None \<Rightarrow> True
           | Some s \<Rightarrow>
               let owner = (if Is4 src then sn_routes4 s src else sn_routes6 s src);
                   node = rt_node (rs_sess ns ps)
               in if (case owner of None \<Rightarrow> False | Some q \<Rightarrow> rt_node (rs_sess ns q) = node) then True
                  else if list_ex (\<lambda>re. re_origin re = node \<and> Contains (re_prefix re) src) (sn_redist s) then True
                  else owner = None))"

definition isICMPv4EchoReply :: "bytes \<Rightarrow> bool" where
  "isICMPv4EchoReply ip =
     (if length ip < 20 \<or> drop_bit 4 (ip ! 0) \<noteq> 4 then False
      else let ihl = unat (ip ! 0 AND 0x0f) * 4
           in if ip ! 9 \<noteq> 1 \<or> length ip < ihl + 1 then False else ip ! ihl = 0)"

definition isICMPv6EchoReply :: "bytes \<Rightarrow> bool" where
  "isICMPv6EchoReply ip =
     (if length ip < 40 \<or> drop_bit 4 (ip ! 0) \<noteq> 6 then False
      else if ip ! 6 \<noteq> 58 \<or> length ip < 41 then False else ip ! 40 = 129)"

definition srcIs :: "bytes \<Rightarrow> addr \<Rightarrow> bool" where
  "srcIs ip a =
     (if Is4 a then (if length ip < 16 then False else slice 12 16 ip = addr_bytes a)
      else if length ip < 24 then False else slice 8 24 ip = as16 a)"

definition recordFamilyProbeReply :: "int \<Rightarrow> bytes \<Rightarrow> rt_session \<Rightarrow> rt_session" where
  "recordFamilyProbeReply now ip ps =
     (if isICMPv4EchoReply ip \<and> IsValid (rt_overlay4 ps) \<and> srcIs ip (rt_overlay4 ps) then ps\<lparr>good4 := now\<rparr>
      else if isICMPv6EchoReply ip \<and> IsValid (rt_overlay6 ps) \<and> srcIs ip (rt_overlay6 ps) then ps\<lparr>good6 := now\<rparr>
      else ps)"

text \<open>The bytes written to the device, if any; \<open>police\<close> says whether the ingress policer (when there is
  one) lets the packet pass, \<open>written\<close> whether the device takes it.\<close>

definition deliverInner :: "int \<Rightarrow> bool \<Rightarrow> bool \<Rightarrow> nat \<Rightarrow> bytes \<Rightarrow> data_state \<Rightarrow> bytes option \<times> data_state" where
  "deliverInner now police written ps ip ns =
     (if \<not> sourceAllowedFrom ps ip (dp_rt ns) then (None, ns\<lparr>spoofDrop := (spoofDrop ns)(ps := spoofDrop ns ps + 1)\<rparr>)
      else
        let rt = dp_rt ns;
            rt1 = rt\<lparr>rs_sess := (rs_sess rt)(ps := recordFamilyProbeReply now ip (rs_sess rt ps))\<rparr>
        in case translateIn now (dp_nat ns) ip of (nat', ip1) \<Rightarrow>
           (case allow now fwIn ip1 (dp_fw ns) of (allowed, _, fw') \<Rightarrow>
              let ns1 = ns\<lparr>dp_rt := rt1, dp_nat := nat', dp_fw := fw'\<rparr>
              in if \<not> allowed then (None, ns1\<lparr>fwInDrop := (fwInDrop ns)(ps := fwInDrop ns ps + 1)\<rparr>)
                 else if \<not> police then (None, ns1\<lparr>policeDrop := (policeDrop ns)(ps := policeDrop ns ps + 1)\<rparr>)
                 else if \<not> written then (Some ip1, ns1\<lparr>tunWriteDrop := (tunWriteDrop ns)(ps := tunWriteDrop ns ps + 1)\<rparr>)
                 else (Some ip1, ns1)))"

section \<open>What leaves\<close>

lemma parse_ipFields:
  assumes "ipFields p = Some h"
  shows "parseSrc p = Some (h_src h)" "parseDst p = Some (h_dst h)"
  using assms by (auto simp: ipFields_def ipv4Fields2_def ipv6Fields_def parseSrc_def parseDst_def Let_def
      split: if_splits option.splits prod.splits)

lemma flow_of_ipv4:
  assumes "ipFields p = Some h" "\<not> h_is6 h" "has_ports p h"
  shows "flow_of p = Some (h_proto h, h_src h, h_sport h, h_dst h, h_dport h)"
proof -
  have len: "20 \<le> length p" "p \<noteq> []" using assms(1) by (auto simp: ipFields_def split: if_splits)
  have v4: "drop_bit 4 (p ! 0) = 4"
    using assms(1,2) by (auto simp: ipFields_def ipv6Fields_def Let_def split: if_splits option.splits prod.splits)
  then have f: "ipv4Fields2 p = Some h" using assms(1) len by (simp add: ipFields_def)
  define ihl where "ihl = unat (p ! 0 AND 0x0f) * 4"
  have ihl: "\<not> ihl < 20" "\<not> length p < ihl"
    using f unfolding ipv4Fields2_def ihl_def [symmetric] by (auto simp: Let_def split: if_splits)
  have off: "l4off h = ihl" "h_proto h = p ! 9" "h_src h = AddrFrom4 (slice 12 16 p)" "h_dst h = AddrFrom4 (slice 16 20 p)"
    using f ihl unfolding ipv4Fields2_def ihl_def [symmetric] by (auto simp: Let_def split: if_splits prod.splits)
  have pr: "p ! 9 = 6 \<or> p ! 9 = 17" "ihl + 4 \<le> length p" "rd16 p 6 AND 0x1fff = 0"
    using assms(2,3) off by (auto simp: has_ports_def protoTCP_def protoUDP_def)
  have ports: "h_sport h = rd16 p ihl" "h_dport h = rd16 p (ihl + 2)"
    using f ihl pr unfolding ipv4Fields2_def ihl_def [symmetric]
    by (auto simp: Let_def l4Ports_def protoTCP_def protoUDP_def)
  have l4: "\<exists>q. parseL4 p = Some (p ! 9, rd16 p ihl, rd16 p (ihl + 2), q)"
    unfolding parseL4_def ihl_def [symmetric] Let_def using len v4 ihl pr by simp
  have "parseAddrs p = Some (AddrFrom4 (slice 12 16 p), AddrFrom4 (slice 16 20 p))" using len v4 by (simp add: parseAddrs_def)
  then show ?thesis using l4 by (auto simp: flow_of_def off ports)
qed

lemma dp_translate_own:
  assumes "parseSrc buf = Some src" "src = dp_self4 ns \<or> src = dp_self6 ns" "dp_translate now buf ns = Some (nat', pkt)"
  shows "pkt = buf \<and> nat' = dp_nat ns"
  using assms by (auto simp: dp_translate_def split: option.splits if_splits)

lemma dp_translate_fw [simp]: "dp_translate now buf (ns\<lparr>dp_fw := f\<rparr>) = dp_translate now buf ns"
  by (simp add: dp_translate_def cong: option.case_cong)

section \<open>Which session\<close>

definition owner_of :: "fwdSnap \<Rightarrow> addr \<Rightarrow> nat option" where
  "owner_of s a = (if Is4 a then sn_routes4 s a else sn_routes6 s a)"

lemma os_steps:
  assumes "foldl (os_step dst) (-1, NoAddr) rs = (b, gw)"
  shows "(gw = NoAddr \<and> b = -1 \<and> (\<forall>r \<in> set rs. \<not> Contains (fst r) dst)) \<or>
    (\<exists>p. (p, gw) \<in> set rs \<and> Contains p dst \<and> b = prefix_bits p \<and> (\<forall>r \<in> set rs. Contains (fst r) dst \<longrightarrow> prefix_bits (fst r) \<le> b))"
  using assms
proof (induction rs arbitrary: b gw rule: rev_induct)
  case (snoc r rs)
  obtain b0 gw0 where f: "foldl (os_step dst) (-1, NoAddr) rs = (b0, gw0)" by fastforce
  have nonneg: "Contains (fst r) dst \<Longrightarrow> prefix_bits (fst r) \<ge> 0" by (cases "fst r") simp_all
  have step: "(b, gw) = (if \<not> Contains (fst r) dst then (b0, gw0) else if prefix_bits (fst r) > b0 then (prefix_bits (fst r), snd r) else (b0, gw0))"
    using snoc.prems unfolding foldl_append foldl_Cons foldl_Nil f by (auto simp: os_step_def split: if_splits)
  from snoc.IH [OF f] show ?case
  proof
    assume "gw0 = NoAddr \<and> b0 = -1 \<and> (\<forall>r \<in> set rs. \<not> Contains (fst r) dst)"
    then show ?thesis using step nonneg by (cases r) (auto split: if_splits)
  next
    assume "\<exists>p. (p, gw0) \<in> set rs \<and> Contains p dst \<and> b0 = prefix_bits p \<and> (\<forall>r \<in> set rs. Contains (fst r) dst \<longrightarrow> prefix_bits (fst r) \<le> b0)"
    then obtain p where p: "(p, gw0) \<in> set rs" "Contains p dst" "b0 = prefix_bits p"
      "\<forall>r \<in> set rs. Contains (fst r) dst \<longrightarrow> prefix_bits (fst r) \<le> b0" by blast
    show ?thesis
    proof (cases "Contains (fst r) dst \<and> prefix_bits (fst r) > b0")
      case True
      then show ?thesis using step p(4) by (intro disjI2 exI [of _ "fst r"]) (auto simp: order.strict_implies_order order_trans)
    next
      case False
      then have "b = b0" "gw = gw0" using step by (auto split: if_splits)
      then show ?thesis using p False by (intro disjI2 exI [of _ p]) auto
    qed
  qed
qed simp

text \<open>The gateway of the longest host route that covers the destination.\<close>

lemma osRouteFlow_longest:
  assumes "osRouteFlow s dst = Some ps"
  shows "\<exists>p gw. (p, gw) \<in> set (sn_osRoutes s) \<and> Contains p dst \<and> IsValid gw \<and> owner_of s gw = Some ps \<and>
    (\<forall>r \<in> set (sn_osRoutes s). Contains (fst r) dst \<longrightarrow> prefix_bits (fst r) \<le> prefix_bits p)"
proof -
  obtain b gw where f: "foldl (os_step dst) (-1, NoAddr) (sn_osRoutes s) = (b, gw)" by fastforce
  then have g: "IsValid gw" "owner_of s gw = Some ps" using assms by (auto simp: osRouteFlow_def owner_of_def split: if_splits)
  then have "gw \<noteq> NoAddr" by (auto simp: IsValid_def)
  then show ?thesis using os_steps [OF f] g by blast
qed

lemma exit_of_best:
  assumes "fwd ns = Some s" "length (sn_redist s) < 2 ^ 64"
  shows "if list_ex (usable ns s now dst) (sn_redist s)
    then \<exists>re ps. re \<in> set (best_entries ns s now dst) \<and> sn_byNode s (re_origin re) = Some ps \<and> redistRouteFlow now dst pkt ns = Some ps
    else redistRouteFlow now dst pkt ns = None"
proof -
  let ?bs = "best_entries ns s now dst"
  define re where "re = ?bs ! (if length ?bs = 1 then 0 else flowIndex pkt (length ?bs))"
  have "length ?bs < 2 ^ 64" using length_best_entries assms(2) by (rule le_less_trans)
  then have mem: "?bs \<noteq> [] \<Longrightarrow> re \<in> set ?bs" unfolding re_def by (auto intro!: nth_mem flowIndex_less)
  then have "?bs \<noteq> [] \<Longrightarrow> \<exists>ps. sn_byNode s (re_origin re) = Some ps"
    using best_entries_usable by (fastforce simp: usable_def split: option.splits)
  then show ?thesis using mem best_entries_empty [of ns s now dst] flow_exit_eq [OF assms, of now dst pkt]
    unfolding re_def [symmetric] by auto
qed

text \<open>Which session a unicast packet is for, said without the order of the lookups: the owner of the address; only if
  there is none, the exit of a best usable redistributed route; and only if none is usable, the owner of the gateway
  of a longest host route.\<close>

definition right_exit :: "route_state \<Rightarrow> fwdSnap \<Rightarrow> int \<Rightarrow> addr \<Rightarrow> nat \<Rightarrow> bool" where
  "right_exit ns s now dst ps \<longleftrightarrow>
     (case owner_of s dst of Some owner \<Rightarrow> ps = owner
      | None \<Rightarrow>
          if list_ex (usable ns s now dst) (sn_redist s)
          then \<exists>re \<in> set (best_entries ns s now dst). sn_byNode s (re_origin re) = Some ps
          else \<exists>p gw. (p, gw) \<in> set (sn_osRoutes s) \<and> Contains p dst \<and> IsValid gw \<and> owner_of s gw = Some ps \<and>
            (\<forall>r \<in> set (sn_osRoutes s). Contains (fst r) dst \<longrightarrow> prefix_bits (fst r) \<le> prefix_bits p))"

lemma out_session_order:
  assumes "out_session now dst pkt ns = Some ps" "\<And>s. fwd ns = Some s \<Longrightarrow> length (sn_redist s) < 2 ^ 64"
  shows "\<exists>s. fwd ns = Some s \<and> right_exit ns s now dst ps"
proof (cases "fwd ns")
  case None
  then show ?thesis using assms(1) by (simp add: out_session_def routeTo_def redistRouteFlow_def bestRedistOrigins_def snap_session_def)
next
  case (Some s)
  note ex = exit_of_best [OF Some assms(2) [OF Some], of now dst pkt]
  show ?thesis
  proof (cases "owner_of s dst")
    case (Some owner)
    then show ?thesis using assms(1) \<open>fwd ns = Some s\<close> by (auto simp: right_exit_def out_session_def routeTo_def owner_of_def split: if_splits)
  next
    case None
    then have "out_session now dst pkt ns = (case redistRouteFlow now dst pkt ns of Some ps \<Rightarrow> Some ps | None \<Rightarrow> osRouteFlow s dst)"
      using \<open>fwd ns = Some s\<close> by (auto simp: out_session_def routeTo_def owner_of_def split: option.splits)
    then show ?thesis using None ex assms(1) osRouteFlow_longest [of s dst ps] \<open>fwd ns = Some s\<close> by (auto simp: right_exit_def split: if_splits)
  qed
qed

section \<open>The ports of a datagram\<close>

lemma port_at_rd16: "off + 2 \<le> length p \<Longrightarrow> port_at off p = rd16 p off"
proof -
  assume "off + 2 \<le> length p"
  then have "slice off (off + 2) p = [p ! off, p ! (off + 1)]"
    by (intro nth_equalityI) (auto simp: slice_def less_Suc_eq numeral_2_eq_2)
  then show ?thesis unfolding port_at_def rd16_def by (simp only: get16.simps)
qed

lemma offset_zero:
  "(push_bit 8 (ucast (a :: byte)) OR ucast (b :: byte)) AND (0x1fff :: 16 word) = 0 \<Longrightarrow> a AND 0x1f = 0 \<and> b = 0"
proof -
  let ?w = "push_bit 8 (ucast (a :: byte)) OR ucast (b :: byte) :: 16 word"
  assume z: "?w AND 0x1fff = 0"
  have m: "(0x1fff :: 16 word) = mask 13" "(0x1f :: byte) = mask 5" by (simp_all add: mask_eq_exp_minus_1)
  have bits: "\<not> bit ?w n" if "n < 13" for n
  proof -
    have "\<not> bit (?w AND mask 13) n" using z m by simp
    then show ?thesis using that by (simp add: bit_simps)
  qed
  have "\<not> bit a n" if "n < 5" for n using bits [of "n + 8"] that by (simp add: bit_simps)
  then have "a AND mask 5 = 0" by (intro bit_word_eqI) (auto simp: bit_simps)
  moreover have "\<not> bit b n" if "n < 8" for n using bits [of n] that by (simp add: bit_simps)
  then have "b = 0" by (intro bit_word_eqI) simp
  ultimately show ?thesis using m by simp
qed

lemma udpPorts_ipv4:
  assumes "ipFields p = Some h" "\<not> h_is6 h" "h_proto h = protoUDP" "has_ports p h" "l4off h + 8 \<le> length p"
  shows "udpPorts p = Some (h_sport h, h_dport h)"
proof -
  have len: "20 \<le> length p" "p \<noteq> []" using assms(1) by (auto simp: ipFields_def split: if_splits)
  have v4: "drop_bit 4 (p ! 0) = 4"
    using assms(1,2) by (auto simp: ipFields_def ipv6Fields_def Let_def split: if_splits option.splits prod.splits)
  then have f: "ipv4Fields2 p = Some h" using assms(1) len by (simp add: ipFields_def)
  define ihl where "ihl = unat (p ! 0 AND 0x0f) * 4"
  have ihl: "\<not> ihl < 20" "\<not> length p < ihl"
    using f unfolding ipv4Fields2_def ihl_def [symmetric] by (auto simp: Let_def split: if_splits)
  have off: "l4off h = ihl" "h_proto h = p ! 9"
    using f ihl unfolding ipv4Fields2_def ihl_def [symmetric] by (auto simp: Let_def split: if_splits prod.splits)
  have pr: "p ! 9 = 17" "ihl + 8 \<le> length p" "rd16 p 6 AND 0x1fff = 0"
    using assms(2-5) off by (auto simp: has_ports_def protoUDP_def)
  have ports: "h_sport h = rd16 p ihl" "h_dport h = rd16 p (ihl + 2)"
    using f ihl pr unfolding ipv4Fields2_def ihl_def [symmetric] by (auto simp: Let_def l4Ports_def protoTCP_def protoUDP_def)
  have frag: "p ! 6 AND 0x1f = 0 \<and> p ! 7 = 0" using offset_zero [of "p ! 6" "p ! 7"] pr(3) by (simp add: rd16_def)
  show ?thesis unfolding udpPorts_def ihl_def [symmetric] Let_def
    using len v4 pr ihl frag ports by (simp add: port_at_rd16)
qed

lemma processOutbound_sends:
  assumes "processOutbound now peers bcast mcast buf ns = Some (out, ns')" "out \<noteq> []"
  obtains em fw' nat' pkt dst0 dst where "parseDst buf = Some dst0" "\<not> isUnderlayLoop peers ns buf dst0"
    "allow now fwOut buf (dp_fw ns) = (True, em, fw')" "dp_translate now buf ns = Some (nat', pkt)" "parseDst pkt = Some dst"
    "dp_fw ns' = fw'" "dp_nat ns' = nat'" "dp_rt ns' = dp_rt ns" "set out \<subseteq> UNIV \<times> {pkt}"
    "if classify_dst (dp_subnet4 ns) dst = kindUnicast
     then \<exists>ps. out = [(ps, pkt)] \<and> out_session now dst pkt (dp_rt ns) = Some ps else fst ` set out \<subseteq> set peers"
proof -
  obtain dst0 where d0: "parseDst buf = Some dst0" using assms by (auto simp: processOutbound_def split: option.splits)
  have loop: "\<not> isUnderlayLoop peers ns buf dst0" using assms d0 by (auto simp: processOutbound_def)
  obtain em fw' where al: "allow now fwOut buf (dp_fw ns) = (True, em, fw')"
    using assms d0 loop by (cases "allow now fwOut buf (dp_fw ns)") (auto simp: processOutbound_def Let_def split: if_splits)
  obtain nat' pkt where tr: "dp_translate now buf ns = Some (nat', pkt)"
    using assms d0 loop al by (auto simp: processOutbound_def Let_def split: option.splits)
  obtain dst where d: "parseDst pkt = Some dst"
    using assms d0 loop al tr by (auto simp: processOutbound_def Let_def split: option.splits)
  note e = assms(1) [unfolded processOutbound_def, simplified d0 loop al tr d option.case prod.case Let_def if_False simp_thms dp_translate_fw]
  have "dp_fw ns' = fw' \<and> dp_nat ns' = nat' \<and> dp_rt ns' = dp_rt ns \<and> set out \<subseteq> UNIV \<times> {pkt} \<and>
    (if classify_dst (dp_subnet4 ns) dst = kindUnicast
     then \<exists>ps. out = [(ps, pkt)] \<and> out_session now dst pkt (dp_rt ns) = Some ps else fst ` set out \<subseteq> set peers)"
  proof (cases "classify_dst (dp_subnet4 ns) dst")
    case kindUnicast
    then show ?thesis using e assms(2) by (auto simp: dp_send_def split: option.splits prod.splits if_splits)
  qed (use e assms(2) in \<open>auto simp: flood_def split: if_splits option.splits\<close>)
  then show ?thesis using that d0 loop al tr d by blast
qed

text \<open>Handed to one session, and to no other: sent, or put into the queue of the shaper if there is one.\<close>

definition handed :: "data_state \<Rightarrow> (nat \<times> bytes) list \<Rightarrow> data_state \<Rightarrow> nat \<Rightarrow> bytes \<Rightarrow> bool" where
  "handed ns out ns' ps q \<longleftrightarrow>
     (case dp_egress ns of None \<Rightarrow> out = [(ps, q)]
      | Some eg \<Rightarrow> out = [] \<and> (\<exists>marked eg'. enqueue ps q eg = (True, marked, eg') \<and> dp_egress ns' = Some eg'))"

lemma processOutbound_hands_over:
  assumes "processOutbound now peers bcast mcast buf ns = Some (out, ns')" "out \<noteq> [] \<or> dp_egress ns' \<noteq> dp_egress ns"
  obtains em fw' nat' pkt dst0 dst where "parseDst buf = Some dst0" "\<not> isUnderlayLoop peers ns buf dst0"
    "allow now fwOut buf (dp_fw ns) = (True, em, fw')" "dp_translate now buf ns = Some (nat', pkt)" "parseDst pkt = Some dst"
    "case classify_dst (dp_subnet4 ns) dst of
       kindUnicast \<Rightarrow> \<exists>ps. out_session now dst pkt (dp_rt ns) = Some ps \<and>
         handed ns out ns' ps pkt
     | kindBroadcast \<Rightarrow> bcast \<and> fwd (dp_rt ns) \<noteq> None \<and> out = map (\<lambda>ps. (ps, pkt)) peers
     | kindMulticast \<Rightarrow> mcast \<and> fwd (dp_rt ns) \<noteq> None \<and> out = map (\<lambda>ps. (ps, pkt)) peers"
proof -
  obtain dst0 where d0: "parseDst buf = Some dst0" using assms by (auto simp: processOutbound_def split: option.splits)
  have loop: "\<not> isUnderlayLoop peers ns buf dst0" using assms d0 by (auto simp: processOutbound_def)
  obtain em fw' where al: "allow now fwOut buf (dp_fw ns) = (True, em, fw')"
    using assms d0 loop by (cases "allow now fwOut buf (dp_fw ns)") (auto simp: processOutbound_def Let_def split: if_splits)
  obtain nat' pkt where tr: "dp_translate now buf ns = Some (nat', pkt)"
    using assms d0 loop al by (auto simp: processOutbound_def Let_def split: option.splits)
  obtain dst where d: "parseDst pkt = Some dst"
    using assms d0 loop al tr by (auto simp: processOutbound_def Let_def split: option.splits)
  note e = assms(1) [unfolded processOutbound_def, simplified d0 loop al tr d option.case prod.case Let_def if_False simp_thms dp_translate_fw]
  have fl: "map_option (\<lambda>_. peers) f = Some peers" if "f \<noteq> None" for f :: "fwdSnap option" using that by auto
  show ?thesis
  proof (cases "classify_dst (dp_subnet4 ns) dst")
    case kindUnicast
    obtain ps where ps: "out_session now dst pkt (dp_rt ns) = Some ps" using e assms(2) kindUnicast by (auto split: option.splits)
    have "handed ns out ns' ps pkt"
    proof (cases "dp_egress ns")
      case None
      then show ?thesis using e kindUnicast ps by (simp add: handed_def dp_send_def)
    next
      case (Some eg)
      obtain ok marked eg' where q: "enqueue ps pkt eg = (ok, marked, eg')" by (cases "enqueue ps pkt eg")
      have "\<not> ok \<Longrightarrow> eg' = eg" using q by (auto simp: enqueue_def Let_def split: if_splits)
      then show ?thesis using e kindUnicast ps Some q assms(2) by (cases ok) (auto simp: handed_def dp_send_def)
    qed
    then show ?thesis using that [OF d0 loop al tr d] ps kindUnicast by auto
  next
    case kindBroadcast
    then show ?thesis using that [OF d0 loop al tr d] e assms(2) by (cases "fwd (dp_rt ns)") (auto simp: flood_def split: if_splits)
  next
    case kindMulticast
    then show ?thesis using that [OF d0 loop al tr d] e assms(2) by (cases "fwd (dp_rt ns)") (auto simp: flood_def split: if_splits)
  qed
qed

text \<open>A datagram that one of the daemon's own sockets sent to an underlay address it knows.\<close>

definition own_datagram :: "nat list \<Rightarrow> data_state \<Rightarrow> bytes \<Rightarrow> bool" where
  "own_datagram peers ns p \<longleftrightarrow>
     (\<exists>h a. ipFields p = Some h \<and> \<not> h_is6 h \<and> h_proto h = protoUDP \<and> has_ports p h \<and> l4off h + 8 \<le> length p \<and>
        ((primaryPort ns > 0 \<and> of_int (primaryPort ns) = h_sport h) \<or> h_sport h \<in> set (extraUDPPorts ns)) \<and>
        (a \<in> set (dp_seeds ns) \<or> (fwd (dp_rt ns) \<noteq> None \<and> a \<in> (\<lambda>ps. rt_endpoint (rs_sess (dp_rt ns) ps)) ` set peers)) \<and>
        Unmap (fst a) = Unmap (h_dst h) \<and> snd a = h_dport h)"

lemma own_datagram_loops:
  assumes "own_datagram peers ns p" "parseDst p = Some dst"
  shows "isUnderlayLoop peers ns p dst"
proof -
  obtain h a where h: "ipFields p = Some h" "\<not> h_is6 h" "h_proto h = protoUDP" "has_ports p h" "l4off h + 8 \<le> length p"
    "(primaryPort ns > 0 \<and> of_int (primaryPort ns) = h_sport h) \<or> h_sport h \<in> set (extraUDPPorts ns)"
    "a \<in> set (dp_seeds ns) \<or> (fwd (dp_rt ns) \<noteq> None \<and> a \<in> (\<lambda>ps. rt_endpoint (rs_sess (dp_rt ns) ps)) ` set peers)"
    "Unmap (fst a) = Unmap (h_dst h)" "snd a = h_dport h" using assms(1) unfolding own_datagram_def by blast
  have d: "dst = h_dst h" using parse_ipFields(2) [OF h(1)] assms(2) by simp
  have same: "sameUnderlayAddrPort a (dst, h_dport h)" using h(8,9) d by (simp add: sameUnderlayAddrPort_def)
  show ?thesis using h(6,7) same udpPorts_ipv4 [OF h(1-5)]
    by (auto simp: isUnderlayLoop_def ownUDPPort_def list_ex_iff Let_def)
qed

text \<open>C25: Nothing leaves the host but through the pipeline. When a packet is handed to a session or to the
  shaper, the firewall let it out as the host wrote it, and it is that packet after address
  translation, untouched when it comes from an overlay address of this node. A unicast packet goes to one
  session only, directly or into the queue of the shaper if there is one: the owner of the overlay address; only if
  there is none, the exit of a best redistributed route; and only if no such route is usable, the owner of the gateway of
  the longest host route. Any other packet goes to every peer of the snapshot, if its kind is allowed. A
  datagram of the daemon's own underlay traffic (IPv4) never leaves again.\<close>
theorem outbound_path:
  assumes "processOutbound now peers bcast mcast buf ns = Some (out, ns')" "out \<noteq> [] \<or> dp_egress ns' \<noteq> dp_egress ns"
    and "\<And>s. fwd (dp_rt ns) = Some s \<Longrightarrow> length (sn_redist s) < 2 ^ 64"
  shows "fst (allow now fwOut buf (dp_fw ns)) \<and> \<not> own_datagram peers ns buf \<and>
    (\<exists>s q dst. fwd (dp_rt ns) = Some s \<and> parseDst q = Some dst \<and>
      (if dp_nat ns = None \<or> (\<exists>src. parseSrc buf = Some src \<and> (src = dp_self4 ns \<or> src = dp_self6 ns)) then q = buf
       else \<exists>t t'. dp_nat ns = Some t \<and> nat_out now t buf = Some (t', q)) \<and>
      (case classify_dst (dp_subnet4 ns) dst of
         kindUnicast \<Rightarrow> \<exists>ps. handed ns out ns' ps q \<and> right_exit (dp_rt ns) s now dst ps
       | kindBroadcast \<Rightarrow> bcast \<and> out = map (\<lambda>ps. (ps, q)) peers
       | kindMulticast \<Rightarrow> mcast \<and> out = map (\<lambda>ps. (ps, q)) peers))"
  using assms(1,2)
proof (cases rule: processOutbound_hands_over)
  case (1 em fw' nat' pkt dst0 dst)
  have nat: "if dp_nat ns = None \<or> (\<exists>src. parseSrc buf = Some src \<and> (src = dp_self4 ns \<or> src = dp_self6 ns)) then pkt = buf
      else \<exists>t t'. dp_nat ns = Some t \<and> nat_out now t buf = Some (t', pkt)"
    using 1(4) by (auto simp: dp_translate_def translateOut_def split: option.splits if_splits)
  have own: "\<not> own_datagram peers ns buf" using own_datagram_loops [OF _ 1(1)] 1(2) by blast
  have "\<exists>s. fwd (dp_rt ns) = Some s \<and>
      (case classify_dst (dp_subnet4 ns) dst of
         kindUnicast \<Rightarrow> \<exists>ps. handed ns out ns' ps pkt \<and> right_exit (dp_rt ns) s now dst ps
       | kindBroadcast \<Rightarrow> bcast \<and> out = map (\<lambda>ps. (ps, pkt)) peers
       | kindMulticast \<Rightarrow> mcast \<and> out = map (\<lambda>ps. (ps, pkt)) peers)"
    using 1(6) out_session_order [OF _ assms(3)] by (cases "classify_dst (dp_subnet4 ns) dst") (simp_all, blast)
  moreover have "fst (allow now fwOut buf (dp_fw ns))" using 1(3) by simp
  ultimately show ?thesis using nat own 1(5) by blast
qed

section \<open>What arrives\<close>

definition advertises :: "fwdSnap \<Rightarrow> string \<Rightarrow> addr \<Rightarrow> bool" where
  "advertises s node a = list_ex (\<lambda>re. re_origin re = node \<and> Contains (re_prefix re) a) (sn_redist s)"

lemma sourceAllowed_iff:
  assumes "parseSrc ip = Some src" "fwd ns = Some s"
  shows "sourceAllowedFrom ps ip ns \<longleftrightarrow>
    (case owner_of s (Unmap src) of None \<Rightarrow> True
     | Some q \<Rightarrow> rt_node (rs_sess ns q) = rt_node (rs_sess ns ps) \<or> advertises s (rt_node (rs_sess ns ps)) (Unmap src))"
  using assms by (auto simp: sourceAllowedFrom_def owner_of_def advertises_def Let_def split: option.splits)

lemma deliverInner_cases:
  assumes "deliverInner now police written ps ip ns = (Some q, ns')"
  shows "sourceAllowedFrom ps ip (dp_rt ns) \<and> police \<and> q = snd (translateIn now (dp_nat ns) ip) \<and>
    fst (allow now fwIn q (dp_fw ns))"
  using assms by (auto simp: deliverInner_def Let_def split: if_splits prod.splits)

text \<open>C26: What a peer gets to the host. A packet that is delivered is the received one after
  address translation, let in by the firewall as the host sees it and within the ingress rate; and a peer
  cannot pose as another: the source it carried is an overlay address of the peer's own node, or
  an address no session owns, unless the peer's node advertises a route that covers the address.\<close>
theorem inbound_path:
  assumes "deliverInner now police written ps ip ns = (Some q, ns')"
  shows "q = snd (translateIn now (dp_nat ns) ip) \<and> fst (allow now fwIn q (dp_fw ns)) \<and> police \<and>
    (\<forall>s owner. fwd (dp_rt ns) = Some s \<and> Option.bind (parseSrc ip) (\<lambda>a. owner_of s (Unmap a)) = Some owner \<longrightarrow>
       rt_node (rs_sess (dp_rt ns) owner) = rt_node (rs_sess (dp_rt ns) ps) \<or>
       (\<exists>a. parseSrc ip = Some a \<and> advertises s (rt_node (rs_sess (dp_rt ns) ps)) (Unmap a)))"
  using deliverInner_cases [OF assms] sourceAllowed_iff
  by (auto simp: bind_eq_Some_conv split: option.splits)

section \<open>A round trip through a gateway\<close>

text \<open>C27: The pipeline is transparent to a gatewayed flow. On a node with a stateful firewall and
  masquerading, a TCP or UDP packet of an IPv4 host behind the node (not exempt, a new flow for
  address translation) goes out through the firewall and a SNAT rule to a session; then the reply to what was
  sent, arriving next from a peer that may source it, is delivered to the host with exactly the
  original address and port as its destination and valid checksums, whatever the rules say
  about packets coming in.\<close>
theorem gateway_round_trip:
  assumes nat: "nat_reach rules life t" "dp_nat ns = Some t" "dnatRev t (fwd_key h) = None" "find (snat_matches h) (snat t) = Some r"
    and fw: "dp_fw ns = Some f" "enabled f" "snap f \<noteq> []" "stateful f" "\<not> exempt f (h_proto h) (h_sport h) (h_dport h)"
    and p: "ipFields p = Some h" "\<not> h_is6 h" "has_ports p h" "h_sport h \<noteq> 0" "h_src h \<noteq> h_dst h"
    and src: "h_src h \<noteq> dp_self4 ns" "h_src h \<noteq> dp_self6 ns" and eg: "dp_egress ns = None"
    and out: "processOutbound now peers bcast mcast p ns = Some ([(ps, p1)], ns1)" and h1: "ipFields p1 = Some h1"
    and q: "ipFields q = Some g" "has_ports q g" "length q \<le> 65535" "replies_to g h1"
    and sender: "sourceAllowedFrom ps' q (dp_rt ns1)"
  shows "\<exists>q' ns2. deliverInner now' True True ps' q ns1 = (Some q', ns2) \<and>
    ipFields q' = Some (g\<lparr>h_dst := h_src h, h_dport := h_sport h\<rparr>) \<and> checksums_valid q' g"
proof -
  have "[(ps, p1)] \<noteq> []" by simp
  with out obtain em fw' nat' pkt where o: "allow now fwOut p (dp_fw ns) = (True, em, fw')" "dp_translate now p ns = Some (nat', pkt)"
      "dp_fw ns1 = fw'" "dp_nat ns1 = nat'" "set [(ps, p1)] \<subseteq> UNIV \<times> {pkt}"
    by (rule processOutbound_sends)
  have "parseSrc p = Some (h_src h)" by (rule parse_ipFields [OF p(1)])
  then obtain t1 where t1: "nat_out now t p = Some (t1, p1)" "dp_nat ns1 = Some t1"
    using o(2,4,5) nat(2) src by (auto simp: dp_translate_def translateOut_def split: option.splits)
  obtain q' t3 where q': "nat_in now' t1 q = (t3, q')" "ipFields q' = Some (g\<lparr>h_dst := h_src h, h_dport := h_sport h\<rparr>)"
      "checksums_valid q' g"
    using snat_reply_in [OF nat(1) p(1,3,4) nat(3,4) t1(1) h1 rtranclp.rtrancl_refl refl q, of now'] by blast
  let ?g = "g\<lparr>h_dst := h_src h, h_dport := h_sport h\<rparr>"
  obtain r1 t1' where h1': "h1 = h\<lparr>h_src := r1, h_sport := t1'\<rparr>"
    using snat_header [OF nat(1) p(1,3,4) nat(3,4) t1(1) h1] by blast
  have g: "h_proto ?g = h_proto h" "h_src ?g = h_dst h" "h_sport ?g = h_dport h" "\<not> h_is6 ?g" "h_dport ?g \<noteq> 0"
    using q(4) p(2,4) replies_is6 [OF q(1) h1 q(4)] by (simp_all add: replies_to_def h1')
  have "has_ports q' ?g" using ipFields_fields [OF q'(2)] g(5) by (metis (full_types))
  then have fl': "flow_of q' = Some (h_proto h, h_dst h, h_dport h, h_src h, h_sport h)"
    using flow_of_ipv4 [OF q'(2)] g by simp
  obtain f' where f': "fw' = Some f'"
    using allow_result(2) [OF o(1) [unfolded fw(1)] fw(2,3) flow_of_ipv4 [OF p(1-3)]] by blast
  have "fst (allow now' fwIn q' (Some f'))"
    by (rule reply_passes [OF o(1) [unfolded fw(1) f'] fw(2-4) flow_of_ipv4 [OF p(1-3)] _ _ fl'])
      (use fw(5) p(5) in \<open>simp_all add: fl_exempt_def\<close>)
  then obtain em' f'' where al: "allow now' fwIn q' (dp_fw ns1) = (True, em', f'')"
    using o(3) f' by (cases "allow now' fwIn q' (Some f')") auto
  have "translateIn now' (dp_nat ns1) q = (Some t3, q')" by (simp add: t1(2) translateIn_def q'(1))
  then show ?thesis using sender al q'(2,3) by (simp add: deliverInner_def Let_def)
qed

section \<open>A gateway\<close>

definition ex_gateway :: data_state where
  "ex_gateway = \<lparr>dp_rt = ex_routes, dp_fw = Some ex_fw, dp_nat = Some (newNATTable ex_rules 0),
     dp_self4 = Addr4 0x64400001, dp_self6 = NoAddr, dp_subnet4 = NoPrefix, dp_seeds = [], primaryPort = 0, extraUDPPorts = [],
     dp_egress = None, loopDrops = 0, noRouteDrop = 0, egressQDrop = (\<lambda>_. 0), spoofDrop = (\<lambda>_. 0), fwInDrop = (\<lambda>_. 0),
     policeDrop = (\<lambda>_. 0), tunWriteDrop = (\<lambda>_. 0)\<rparr>"

definition ex_query :: bytes where "ex_query = ex_udp [10,0,0,5] [8,8,8,8] 1000 53"
definition ex_reply :: bytes where "ex_reply = ex_udp [8,8,8,8] [0x64,0x40,0,1] 53 1000"

lemma ex_gateway_out:
  "\<exists>p1 ns1. processOutbound 5 [1, 2] False False ex_query ex_gateway = Some ([(1, p1)], ns1) \<and>
     ipFields p1 = Some (ex_hdr 0x64400001 0x08080808 1000 53)"
proof -
  let ?fl = "(17, Addr4 0x0a000005, 1000, Addr4 0x08080808, 53)"
  have v: "verdict (snap ex_fw) (in_rule fwOut ?fl)" unfolding ex_fw_rules(1) by code_simp
  have fl: "flow_of ex_query = Some ?fl" by code_simp
  obtain em f' where al: "allow 5 fwOut ex_query (Some ex_fw) = (True, em, f')"
    using verdict_passes [OF ex_fw_rules(2) _ fl v, of 5] ex_fw_rules(1) by (cases "allow 5 fwOut ex_query (Some ex_fw)") auto
  have tr: "dp_translate 5 ex_query ex_gateway = translateOut 5 (Some (newNATTable ex_rules 0)) ex_query"
  proof -
    have "parseSrc ex_query = Some (Addr4 0x0a000005)" by code_simp
    then show ?thesis by (simp add: dp_translate_def ex_gateway_def)
  qed
  have "Option.bind (map_option snd (nat_out 5 (newNATTable ex_rules 0) ex_query)) ipFields = Some (ex_hdr 0x64400001 0x08080808 1000 53)"
    by code_simp
  then obtain t1 p1 where n: "nat_out 5 (newNATTable ex_rules 0) ex_query = Some (t1, p1)" "ipFields p1 = Some (ex_hdr 0x64400001 0x08080808 1000 53)"
    by (auto simp: bind_eq_Some_conv)
  have d: "parseDst ex_query = Some (Addr4 0x08080808)" by code_simp
  have d1: "parseDst p1 = Some (Addr4 0x08080808)" using parse_ipFields(2) [OF n(2)] by (simp add: ex_hdr_def)
  have r: "classify_dst NoPrefix (Addr4 0x08080808) = kindUnicast" "routeTo ex_routes (Addr4 0x08080808) = None"
    "bestRedistOrigins 5 (Addr4 0x08080808) ex_routes = [''a'']" "snap_session ex_routes ''a'' = Some 1" by code_simp+
  then have "out_session 5 (Addr4 0x08080808) p1 ex_routes = Some 1" by (simp add: out_session_def redistRouteFlow_def Let_def)
  moreover have "\<not> isUnderlayLoop [1, 2] ex_gateway ex_query (Addr4 0x08080808)"
  proof -
    have "udpPorts ex_query = Some (1000, 53)" by code_simp
    then show ?thesis by (simp add: isUnderlayLoop_def ownUDPPort_def ex_gateway_def)
  qed
  moreover have "dp_fw ex_gateway = Some ex_fw" "dp_subnet4 ex_gateway = NoPrefix" "dp_rt ex_gateway = ex_routes" "dp_egress ex_gateway = None"
    by (simp_all add: ex_gateway_def)
  ultimately have "\<exists>ns1. processOutbound 5 [1, 2] False False ex_query ex_gateway = Some ([(1, p1)], ns1)"
    using al tr n(1) d d1 r(1) by (simp add: processOutbound_def translateOut_def Let_def dp_send_def)
  then show ?thesis using n(2) by blast
qed

lemma ex_gateway_size: "fwd (dp_rt ex_gateway) = Some s \<Longrightarrow> length (sn_redist s) < 2 ^ 64"
  by (auto simp: ex_gateway_def ex_routes_def publishFwd_def)

lemma outbound_path_witness:
  "\<exists>p1 ns1. processOutbound 5 [1, 2] False False ex_query ex_gateway = Some ([(1, p1)], ns1) \<and>
     fst (allow 5 fwOut ex_query (Some ex_fw))"
proof -
  obtain p1 ns1 where o: "processOutbound 5 [1, 2] False False ex_query ex_gateway = Some ([(1, p1)], ns1)"
    using ex_gateway_out by blast
  then show ?thesis using outbound_path [OF o] ex_gateway_size by (simp add: ex_gateway_def)
qed

lemma gateway_round_trip_witness:
  "\<exists>p1 ns1 q' ns2. processOutbound 5 [1, 2] False False ex_query ex_gateway = Some ([(1, p1)], ns1) \<and>
     deliverInner 6 True True 1 ex_reply ns1 = (Some q', ns2) \<and> ipFields q' = Some (ex_hdr 0x08080808 0x0a000005 53 1000)"
proof -
  let ?h = "ex_hdr 0x0a000005 0x08080808 1000 53" and ?g = "ex_hdr 0x08080808 0x64400001 53 1000"
  obtain p1 ns1 where o: "processOutbound 5 [1, 2] False False ex_query ex_gateway = Some ([(1, p1)], ns1)"
      "ipFields p1 = Some (ex_hdr 0x64400001 0x08080808 1000 53)"
    using ex_gateway_out by blast
  have "[(1 :: nat, p1)] \<noteq> []" by simp
  with o(1) have rt: "dp_rt ns1 = ex_routes" by (rule processOutbound_sends) (simp add: ex_gateway_def)
  have h: "ipFields ex_query = Some ?h" "ipFields ex_reply = Some ?g" "has_ports ex_query ?h" "has_ports ex_reply ?g"
    unfolding ex_query_def ex_reply_def by code_simp+
  have t: "dnatRev (newNATTable ex_rules 0) (fwd_key ?h) = None" "find (snat_matches ?h) (snat (newNATTable ex_rules 0)) = Some (ex_rules ! 0)"
    by code_simp+
  have f: "\<not> exempt ex_fw 17 1000 53" "sourceAllowedFrom 1 ex_reply ex_routes" by code_simp+
  have "\<exists>q' ns2. deliverInner 6 True True 1 ex_reply ns1 = (Some q', ns2) \<and>
    ipFields q' = Some (?g\<lparr>h_dst := h_src ?h, h_dport := h_sport ?h\<rparr>) \<and> checksums_valid q' ?g"
    by (rule gateway_round_trip [OF ex_reach _ t _ ex_fw_rules(2) _ ex_fw_rules(3) _ h(1) _ h(3) _ _ _ _ _ o h(2,4)])
      (use f rt in \<open>simp_all add: ex_gateway_def ex_hdr_def ex_fw_rules ex_reply_def ex_udp_def replies_to_def\<close>)
  then show ?thesis using o(1) by (auto simp: ex_hdr_def)
qed

lemma inbound_path_witness:
  "\<exists>q ns'. deliverInner 6 True True 1 ex_reply (ex_gateway\<lparr>dp_fw := None, dp_nat := None\<rparr>) = (Some q, ns') \<and> q = ex_reply"
proof -
  have "fst (deliverInner 6 True True 1 ex_reply (ex_gateway\<lparr>dp_fw := None, dp_nat := None\<rparr>)) \<noteq> None" by code_simp
  then obtain q ns' where d: "deliverInner 6 True True 1 ex_reply (ex_gateway\<lparr>dp_fw := None, dp_nat := None\<rparr>) = (Some q, ns')"
    by (cases "deliverInner 6 True True 1 ex_reply (ex_gateway\<lparr>dp_fw := None, dp_nat := None\<rparr>)") auto
  then show ?thesis using inbound_path [OF d] by (simp add: translateIn_def)
qed

section \<open>A route that steals an identity\<close>

text \<open>A node on whose overlay the address 10.0.0.5 belongs to the peer a (session 1).\<close>

definition ex_overlay :: route_state where
  "ex_overlay = publishFwd (ex_node\<lparr>rs_routes4 := [Addr4 0x0a000005 \<mapsto> 1],
     rs_sess := (\<lambda>i. (rs_sess ex_node i)\<lparr>rt_node := (if i = 1 then ''a'' else ''b'')\<rparr>)\<rparr>)"

definition ex_theft :: bytes where "ex_theft = tl (encodeRouteAdd ''b'' (Prefix (Addr4 0x0a000005) 32) 0)"

text \<open>C28: The check of sources does not keep peers apart. A peer that may not send with the overlay
  address of another may as soon as it has advertised a host route for that address: the
  advertisement is accepted, every packet it sends with that source then passes, although the
  address is still routed to its owner.\<close>
theorem route_steals_identity:
  "\<not> sourceAllowedFrom 2 (ex_udp [10, 0, 0, 5] [w, x, y, z] sp dp) ex_overlay \<and>
   (let stolen = snd (onRouteAdd now (\<lambda>_ _. True) 2 ex_theft ex_overlay)
    in sourceAllowedFrom 2 (ex_udp [10, 0, 0, 5] [w, x, y, z] sp dp) stolen \<and> routeTo stolen (Addr4 0x0a000005) = Some 1)"
proof -
  let ?p = "ex_udp [10, 0, 0, 5] [w, x, y, z] sp dp"
  define stolen where "stolen = snd (onRouteAdd now (\<lambda>_ _. True) 2 ex_theft ex_overlay)"
  have src: "parseSrc ?p = Some (Addr4 0x0a000005)"
    by (simp add: parseSrc_def ex_udp_def slice_def AddrFrom4_def) code_simp
  have p: "decodeRouteAdd ex_theft = Some (''b'', Prefix (Addr4 0x0a000005) 32, 0)" by code_simp
  have acc: "rs_nodeID ex_overlay = ''me''" "\<not> rejected ex_overlay (Prefix (Addr4 0x0a000005) 32)" "rs_byNode ex_overlay ''b'' = Some 2"
    "knownRoute ex_overlay k = False" "redist ex_overlay = []" for k
    by (simp_all add: ex_overlay_def ex_node_def publishFwd_def rejected_def)
  have live: "prefix_live ex_overlay now (Prefix (Addr4 0x0a000005) 32) 2"
    by (simp add: prefix_live_def familyLive4_def familyLive_def ex_overlay_def ex_node_def publishFwd_def)
  define ns1 where "ns1 = publishFwd (ex_overlay\<lparr>knownRoute := (knownRoute ex_overlay)(routeKey ''b'' (Prefix (Addr4 0x0a000005) 32) := True),
     redist := [\<lparr>re_origin = ''b'', re_prefix = Prefix (Addr4 0x0a000005) 32, re_metric = 0, re_lastSeen = Some now\<rparr>]\<rparr>)"
  obtain acts ns2 where s: "syncRoute (\<lambda>_ _. True) (Prefix (Addr4 0x0a000005) 32) ns1 = (acts, ns2)" by fastforce
  have "stolen = ns2" using p acc live s unfolding stolen_def ns1_def by (simp add: onRouteAdd_def Let_def)
  then have st: "fwd stolen = fwd ns1" "rs_sess stolen = rs_sess ns1" using syncRoute_same [OF s] by (simp_all add: same_table_def)
  have c: "Contains (Prefix (Addr4 0x0a000005) 32) (Addr4 0x0a000005)" by simp
  have "\<not> sourceAllowedFrom 2 ?p ex_overlay"
    by (simp add: sourceAllowedFrom_def src ex_overlay_def ex_node_def publishFwd_def Let_def)
  moreover have "sourceAllowedFrom 2 ?p stolen"
    using c by (simp add: sourceAllowedFrom_def src st ns1_def ex_overlay_def ex_node_def publishFwd_def Let_def)
  moreover have "routeTo stolen (Addr4 0x0a000005) = Some 1"
    by (simp add: routeTo_def st ns1_def ex_overlay_def ex_node_def publishFwd_def)
  ultimately show ?thesis unfolding stolen_def [symmetric] Let_def by blast
qed

end
