(* ===== verification/Bans.thy ===== *)
theory Bans
  imports Route_Sync "HOL-Library.AList"
begin

text \<open>
  Bans (internal/mesh/ban.go): records keyed by origin and target that lapse unless their origin
  refreshes them, their gossip, and what a ban does to the sessions and routes of this node. The
  Go map of bans is an association list (its order is the order of iteration); times are
  nanoseconds; calls out of this file (sending, redialling, removing the sessions of the engine,
  the overlay guard) are recorded in order. \<open>None\<close> for a network is a network id the engine does not know.
\<close>

record banRecord =
  b_target :: string
  b_origin :: string
  b_notes :: string
  atNano :: int
  expiresNano :: int
  b_endpoint :: addrport
  b_hostname :: string

record ban_node =
  bi_endpoint :: addrport
  bi_hostname :: string

record ban_state =
  bn_rt :: route_state
  bans :: "(string \<times> banRecord) list"
  bn_nodes :: "string \<Rightarrow> ban_node option"
  bn_seeds :: "addrport list"
  seedBackoff :: "addrport \<Rightarrow> bool"
  banTTL :: int
  bn_hostname :: string

datatype ban_act =
    BanFlood bytes "nat option"
  | AddSeed addrport
  | RouteActs "route_act list"
  | DropSessions string
  | DropGuardRoutes nat

datatype ban_error = UnknownNetwork | EmptyTarget | NotOurs

definition noEndpoint :: addrport where "noEndpoint = (NoAddr, 0)"
definition ep_valid :: "addrport \<Rightarrow> bool" where "ep_valid ep = IsValid (fst ep)"

definition banKey :: "string \<Rightarrow> string \<Rightarrow> string" where
  "banKey origin target = origin @ CHR 0x00 # target"

definition ban_self :: "ban_state \<Rightarrow> string" where "ban_self ns = rs_nodeID (bn_rt ns)"

definition isBanned :: "int \<Rightarrow> string \<Rightarrow> ban_state \<Rightarrow> bool" where
  "isBanned now nodeID ns =
     list_ex (\<lambda>(_, b). b_target b = nodeID \<and> (expiresNano b = 0 \<or> now < expiresNano b)) (bans ns)"

section \<open>Codecs\<close>

definition ctrlBanAdd :: byte where "ctrlBanAdd = 0x07"
definition ctrlBanDel :: byte where "ctrlBanDel = 0x08"

definition encodeBanAdd :: "banRecord \<Rightarrow> bytes" where
  "encodeBanAdd b =
     appendLenStr (appendLenStr (appendLenStr [ctrlBanAdd] (b_origin b)) (b_target b)) (b_notes b) @
     put64 (of_int (atNano b)) @ put64 (of_int (expiresNano b))"

definition decodeBanAdd :: "bytes \<Rightarrow> banRecord option" where
  "decodeBanAdd b = do {
     (origin, r) \<leftarrow> r_lenStr b;
     (target, r) \<leftarrow> r_lenStr r;
     (notes, r) \<leftarrow> r_lenStr r;
     (ts, r) \<leftarrow> r_u64 r;
     (ex, r) \<leftarrow> r_u64 r;
     Some \<lparr>b_target = target, b_origin = origin, b_notes = notes, atNano = sint ts, expiresNano = sint ex,
           b_endpoint = noEndpoint, b_hostname = []\<rparr> }"

definition encodeBanDel :: "string \<Rightarrow> string \<Rightarrow> bytes" where
  "encodeBanDel origin target = appendLenStr (appendLenStr [ctrlBanDel] origin) target"

definition decodeBanDel :: "bytes \<Rightarrow> (string \<times> string) option" where
  "decodeBanDel b = do { (origin, r) \<leftarrow> r_lenStr b; (target, r) \<leftarrow> r_lenStr r; Some (origin, target) }"

section \<open>What a ban does here\<close>

definition endpointOf :: "string \<Rightarrow> ban_state \<Rightarrow> addrport" where
  "endpointOf target ns =
     (let known = (case bn_nodes ns target of None \<Rightarrow> noEndpoint
        | Some ni \<Rightarrow> if ep_valid (bi_endpoint ni) then bi_endpoint ni else noEndpoint)
      in case rs_byNode (bn_rt ns) target of None \<Rightarrow> known
         | Some ps \<Rightarrow> let ep = rt_endpoint (rs_sess (bn_rt ns) ps) in if ep_valid ep then ep else known)"

definition hostnameOf :: "string \<Rightarrow> ban_state \<Rightarrow> string" where
  "hostnameOf target ns =
     (let known = (case bn_nodes ns target of None \<Rightarrow> [] | Some ni \<Rightarrow> bi_hostname ni)
      in case rs_byNode (bn_rt ns) target of None \<Rightarrow> known
         | Some ps \<Rightarrow> let h = rt_hostname (rs_sess (bn_rt ns) ps) in if h \<noteq> [] then h else known)"

definition redial :: "addrport \<Rightarrow> ban_state \<Rightarrow> ban_act list \<times> ban_state" where
  "redial ep ns =
     (if \<not> ep_valid ep then ([], ns) else ([AddSeed ep], ns\<lparr>seedBackoff := (seedBackoff ns)(ep := False)\<rparr>))"

fun redial_all :: "addrport list \<Rightarrow> ban_state \<Rightarrow> ban_act list \<times> ban_state" where
  "redial_all [] ns = ([], ns)"
| "redial_all (ep # eps) ns =
     (case redial ep ns of (a, ns1) \<Rightarrow> case redial_all eps ns1 of (b, ns2) \<Rightarrow> (a @ b, ns2))"

definition drop_session :: "string \<Rightarrow> route_state \<Rightarrow> route_state" where
  "drop_session target rt =
     (case rs_byNode rt target of None \<Rightarrow> rt
      | Some ps \<Rightarrow> rt\<lparr>rs_byNode := (rs_byNode rt)(target := None),
                      rs_routes4 := drop_route (rt_overlay4 (rs_sess rt ps)) ps (rs_routes4 rt),
                      rs_routes6 := drop_route (rt_overlay6 (rs_sess rt ps)) ps (rs_routes6 rt)\<rparr>)"

definition applyBan :: "(prefix \<Rightarrow> int \<Rightarrow> bool) \<Rightarrow> string \<Rightarrow> ban_state \<Rightarrow> ban_act list \<times> ban_state" where
  "applyBan add_ok target ns =
     (if target = ban_self ns then ([], ns)
      else
        let rt = bn_rt ns;
            victim = rs_byNode rt target;
            drop = (case bn_nodes ns target of None \<Rightarrow> []
                    | Some ni \<Rightarrow> if ep_valid (bi_endpoint ni) then [bi_endpoint ni] else []) @
                   (case victim of None \<Rightarrow> [] | Some ps \<Rightarrow> [rt_endpoint (rs_sess rt ps)])
        in case dropNodeRoutes add_ok target (publishFwd (drop_session target rt)) of (racts, rt2) \<Rightarrow>
             ((case victim of None \<Rightarrow> [] | Some ps \<Rightarrow> [DropSessions target, DropGuardRoutes ps]) @ [RouteActs racts],
              ns\<lparr>bn_rt := rt2, bn_nodes := (bn_nodes ns)(target := None),
                 bn_seeds := filter (\<lambda>s. s \<notin> set drop) (bn_seeds ns)\<rparr>))"

section \<open>The operator's side\<close>

definition BanNode :: "int \<Rightarrow> (prefix \<Rightarrow> int \<Rightarrow> bool) \<Rightarrow> string \<Rightarrow> string \<Rightarrow> ban_state option \<Rightarrow>
    ban_error + (ban_act list \<times> ban_state)" where
  "BanNode now add_ok target notes nso =
     (case nso of None \<Rightarrow> Inl UnknownNetwork
      | Some ns \<Rightarrow>
          if target = [] then Inl EmptyTarget
          else
            let b = \<lparr>b_target = target, b_origin = ban_self ns, b_notes = notes, atNano = now, expiresNano = now + banTTL ns,
                     b_endpoint = endpointOf target ns, b_hostname = hostnameOf target ns\<rparr>
            in case applyBan add_ok target (ns\<lparr>bans := AList.update (banKey (b_origin b) target) b (bans ns)\<rparr>) of (acts, ns1) \<Rightarrow>
                 Inr (acts @ [BanFlood (encodeBanAdd b) None], ns1))"

definition UnbanNode :: "string \<Rightarrow> ban_state option \<Rightarrow> ban_error + (ban_act list \<times> ban_state)" where
  "UnbanNode target nso =
     (case nso of None \<Rightarrow> Inl UnknownNetwork
      | Some ns \<Rightarrow>
          let key = banKey (ban_self ns) target
          in case map_of (bans ns) key of None \<Rightarrow> Inl NotOurs
             | Some b \<Rightarrow>
                 (case redial (b_endpoint b) (ns\<lparr>bans := AList.delete key (bans ns)\<rparr>) of (acts, ns1) \<Rightarrow>
                    Inr (BanFlood (encodeBanDel (ban_self ns) target) None # acts, ns1)))"

definition EditBanNotes :: "int \<Rightarrow> string \<Rightarrow> string \<Rightarrow> ban_state option \<Rightarrow> ban_error + (ban_act list \<times> ban_state)" where
  "EditBanNotes now target notes nso =
     (case nso of None \<Rightarrow> Inl UnknownNetwork
      | Some ns \<Rightarrow>
          let key = banKey (ban_self ns) target
          in case map_of (bans ns) key of None \<Rightarrow> Inl NotOurs
             | Some b \<Rightarrow>
                 let b1 = b\<lparr>b_notes := notes, expiresNano := now + banTTL ns\<rparr>
                 in Inr ([BanFlood (encodeBanAdd b1) None], ns\<lparr>bans := AList.update key b1 (bans ns)\<rparr>))"

definition ForceUnban :: "string \<Rightarrow> ban_state option \<Rightarrow> ban_error + (ban_act list \<times> ban_state)" where
  "ForceUnban target nso =
     (case nso of None \<Rightarrow> Inl UnknownNetwork
      | Some ns \<Rightarrow>
          let gone = filter (\<lambda>(_, b). b_target b = target) (bans ns)
          in case redial_all (map (\<lambda>(_, b). b_endpoint b) gone)
                    (ns\<lparr>bans := filter (\<lambda>(_, b). b_target b \<noteq> target) (bans ns)\<rparr>) of (acts, ns1) \<Rightarrow>
               Inr (BanFlood (encodeBanDel [] target) None # acts, ns1))"

definition refreshBans :: "int \<Rightarrow> ban_state \<Rightarrow> ban_act list \<times> ban_state" where
  "refreshBans now ns =
     (let bump = (\<lambda>b. if b_origin b = ban_self ns then b\<lparr>expiresNano := now + banTTL ns\<rparr> else b);
          bs = map (\<lambda>(k, b). (k, bump b)) (bans ns)
      in (map (\<lambda>(_, b). BanFlood (encodeBanAdd b) None) (filter (\<lambda>(_, b). b_origin b = ban_self ns) bs), ns\<lparr>bans := bs\<rparr>))"

definition ban_over :: "int \<Rightarrow> banRecord \<Rightarrow> bool" where
  "ban_over now b \<longleftrightarrow> expiresNano b \<noteq> 0 \<and> now \<ge> expiresNano b"

definition sweepBans :: "int \<Rightarrow> ban_state \<Rightarrow> ban_act list \<times> ban_state" where
  "sweepBans now ns =
     redial_all (map (\<lambda>(_, b). b_endpoint b) (filter (\<lambda>(_, b). ban_over now b) (bans ns)))
       (ns\<lparr>bans := filter (\<lambda>(_, b). \<not> ban_over now b) (bans ns)\<rparr>)"

record BanInfo =
  bi_Target :: string
  bi_Hostname :: string
  bi_Origin :: string
  bi_OriginHostname :: string
  bi_Notes :: string
  bi_At :: int
  bi_Mine :: bool

definition ListBans :: "ban_state option \<Rightarrow> BanInfo list" where
  "ListBans nso =
     (case nso of None \<Rightarrow> []
      | Some ns \<Rightarrow> map (\<lambda>(_, b).
          \<lparr>bi_Target = b_target b, bi_Hostname = b_hostname b, bi_Origin = b_origin b,
           bi_OriginHostname =
             (if b_origin b = ban_self ns then bn_hostname ns
              else case bn_nodes ns (b_origin b) of None \<Rightarrow> [] | Some ni \<Rightarrow> bi_hostname ni),
           bi_Notes = b_notes b, bi_At = atNano b, bi_Mine = (b_origin b = ban_self ns)\<rparr>) (bans ns))"

section \<open>Gossip\<close>

definition onBanAdd :: "(prefix \<Rightarrow> int \<Rightarrow> bool) \<Rightarrow> nat \<Rightarrow> bytes \<Rightarrow> ban_state \<Rightarrow> ban_act list \<times> ban_state" where
  "onBanAdd add_ok ps body ns =
     (case decodeBanAdd body of None \<Rightarrow> ([], ns)
      | Some b \<Rightarrow>
          let key = banKey (b_origin b) (b_target b) in
          (case map_of (bans ns) key of
             None \<Rightarrow>
               let b1 = b\<lparr>b_endpoint := endpointOf (b_target b) ns, b_hostname := hostnameOf (b_target b) ns\<rparr>
               in (case applyBan add_ok (b_target b) (ns\<lparr>bans := AList.update key b1 (bans ns)\<rparr>) of (acts, ns1) \<Rightarrow>
                     (acts @ [BanFlood (encodeBanAdd b1) (Some ps)], ns1))
           | Some old \<Rightarrow>
               if expiresNano b > expiresNano old then
                 let b1 = b\<lparr>b_endpoint := b_endpoint old, b_hostname := b_hostname old\<rparr>
                 in ([BanFlood (encodeBanAdd b1) (Some ps)], ns\<lparr>bans := AList.update key b1 (bans ns)\<rparr>)
               else ([], ns)))"

definition onBanDel :: "nat \<Rightarrow> bytes \<Rightarrow> ban_state \<Rightarrow> ban_act list \<times> ban_state" where
  "onBanDel ps body ns =
     (case decodeBanDel body of None \<Rightarrow> ([], ns)
      | Some (origin, target) \<Rightarrow>
          let hit = (\<lambda>(k, b). if origin = [] then b_target b = target else k = banKey origin target);
              gone = filter hit (bans ns)
          in if gone = [] then ([], ns)
             else case redial_all (map (\<lambda>(_, b). b_endpoint b) gone) (ns\<lparr>bans := filter (\<lambda>x. \<not> hit x) (bans ns)\<rparr>) of (acts, ns1) \<Rightarrow>
                    (acts @ [BanFlood (encodeBanDel origin target) (Some ps)], ns1))"

end
