(* ===== verification/Gossip.thy ===== *)
theory Gossip
  imports Main "HOL-Library.Multiset"
begin

text \<open>
  Epidemic flooding of a versioned value, as the control messages of internal/mesh spread: a node
  that takes a message sends it on to every neighbour but the one it came from, a node that does
  not take it sends nothing. Messages under way form a multiset: they may arrive in any order.
  The locale states what a handler promises (only a newer version is taken, and it is passed on)
  and shows that the flood then ends and leaves connected nodes in agreement.
\<close>

type_synonym ('s, 'm) mesh_config = "(nat \<Rightarrow> 's) \<times> (nat \<times> nat \<times> 'm) multiset"

definition pass_on :: "(nat \<Rightarrow> nat list) \<Rightarrow> nat \<Rightarrow> nat option \<Rightarrow> 'm \<Rightarrow> (nat \<times> nat \<times> 'm) multiset" where
  "pass_on nbrs t from m = mset (map (\<lambda>x. (t, x, m)) (filter (\<lambda>x. Some x \<noteq> from) (nbrs t)))"

fun mesh_deliver :: "(nat \<Rightarrow> 'm \<Rightarrow> 's \<Rightarrow> 'm option \<times> 's) \<Rightarrow> (nat \<Rightarrow> nat list) \<Rightarrow> nat \<times> nat \<times> 'm \<Rightarrow>
    ('s, 'm) mesh_config \<Rightarrow> ('s, 'm) mesh_config" where
  "mesh_deliver recv nbrs (f, t, m) (N, M) =
     (case recv f m (N t) of (out, s') \<Rightarrow>
        (N(t := s'), M - {#(f, t, m)#} + (case out of None \<Rightarrow> {#} | Some m' \<Rightarrow> pass_on nbrs t (Some f) m')))"

inductive mesh_step :: "(nat \<Rightarrow> 'm \<Rightarrow> 's \<Rightarrow> 'm option \<times> 's) \<Rightarrow> (nat \<Rightarrow> nat list) \<Rightarrow>
    ('s, 'm) mesh_config \<Rightarrow> ('s, 'm) mesh_config \<Rightarrow> bool" for recv nbrs where
  mesh_step: "x \<in># snd C \<Longrightarrow> mesh_step recv nbrs C (mesh_deliver recv nbrs x C)"

inductive mesh_reach :: "((nat \<Rightarrow> 's) \<Rightarrow> bool) \<Rightarrow> (nat \<Rightarrow> 'm \<Rightarrow> 's \<Rightarrow> 'm option \<times> 's) \<Rightarrow> ('s \<Rightarrow> 'm \<Rightarrow> 's \<Rightarrow> bool) \<Rightarrow>
    (nat \<Rightarrow> nat list) \<Rightarrow> ('s, 'm) mesh_config \<Rightarrow> bool" for start recv publish nbrs where
  reach_start: "start N \<Longrightarrow> mesh_reach start recv publish nbrs (N, {#})"
| reach_publish: "mesh_reach start recv publish nbrs (N, M) \<Longrightarrow> publish (N n) m s' \<Longrightarrow>
    mesh_reach start recv publish nbrs (N(n := s'), M + pass_on nbrs n None m)"
| reach_step: "mesh_reach start recv publish nbrs C \<Longrightarrow> mesh_step recv nbrs C C' \<Longrightarrow> mesh_reach start recv publish nbrs C'"

text \<open>Versions: none is below every one.\<close>

fun vle :: "int option \<Rightarrow> int option \<Rightarrow> bool" where
  "vle None _ = True" | "vle (Some a) (Some b) = (a \<le> b)" | "vle (Some _) None = False"

lemma vle_refl [simp]: "vle x x" by (cases x) simp_all
lemma vle_trans: "vle x y \<Longrightarrow> vle y z \<Longrightarrow> vle x z" by (cases x; cases y; cases z) auto
lemma vle_antisym: "vle x y \<Longrightarrow> vle y x \<Longrightarrow> x = y" by (cases x; cases y) auto
lemma vle_total: "\<not> vle x y \<Longrightarrow> vle y x" by (cases x; cases y) auto

lemma in_pass_on: "(a, b, m') \<in># pass_on nbrs t from m \<longleftrightarrow> a = t \<and> m' = m \<and> b \<in> set (nbrs t) \<and> Some b \<noteq> from"
  by (auto simp: pass_on_def)

lemma size_pass_on: "size (pass_on nbrs t from m) \<le> length (nbrs t)"
  unfolding pass_on_def size_mset length_map by (rule length_filter_le)

locale newest_wins =
  fixes version :: "'s \<Rightarrow> int option" and stamp :: "'m \<Rightarrow> int" and ok :: "'m \<Rightarrow> bool" and good :: "'s \<Rightarrow> bool"
    and recv :: "nat \<Rightarrow> 'm \<Rightarrow> 's \<Rightarrow> 'm option \<times> 's" and publish :: "'s \<Rightarrow> 'm \<Rightarrow> 's \<Rightarrow> bool"
  assumes take_newer: "ok m \<Longrightarrow> good s \<Longrightarrow> \<not> vle (Some (stamp m)) (version s) \<Longrightarrow>
      \<exists>m' s'. recv f m s = (Some m', s') \<and> good s' \<and> ok m' \<and> stamp m' = stamp m \<and> version s' = Some (stamp m)"
    and ignore_older: "ok m \<Longrightarrow> good s \<Longrightarrow> vle (Some (stamp m)) (version s) \<Longrightarrow>
      \<exists>s'. recv f m s = (None, s') \<and> good s' \<and> version s' = version s"
    and publish_newest: "publish s m s' \<Longrightarrow> good s \<Longrightarrow>
      good s' \<and> ok m \<and> version s' = Some (stamp m) \<and> vle (version s) (Some (stamp m))"
begin

definition covered :: "(nat \<Rightarrow> nat list) \<Rightarrow> ('s, 'm) mesh_config \<Rightarrow> bool" where
  "covered nbrs C \<longleftrightarrow> (case C of (N, M) \<Rightarrow>
     (\<forall>n. good (N n)) \<and>
     (\<forall>f t m. (f, t, m) \<in># M \<longrightarrow> ok m \<and> t \<in> set (nbrs f) \<and> vle (Some (stamp m)) (version (N f))) \<and>
     (\<forall>a b. b \<in> set (nbrs a) \<longrightarrow> vle (version (N a)) (version (N b)) \<or>
        (\<exists>f m. (f, b, m) \<in># M \<and> vle (version (N a)) (Some (stamp m)))))"

lemma coveredD:
  assumes "covered nbrs (N, M)"
  shows "good (N n)" and "(f, t, m) \<in># M \<Longrightarrow> ok m \<and> t \<in> set (nbrs f) \<and> vle (Some (stamp m)) (version (N f))"
    and "b \<in> set (nbrs a) \<Longrightarrow> vle (version (N a)) (version (N b)) \<or> (\<exists>f m. (f, b, m) \<in># M \<and> vle (version (N a)) (Some (stamp m)))"
  using assms by (auto simp: covered_def)

lemma publish_covered:
  assumes c: "covered nbrs (N, M)" and p: "publish (N n) m s'"
  shows "covered nbrs (N(n := s'), M + pass_on nbrs n None m)"
proof -
  note new = publish_newest [OF p coveredD(1) [OF c]]
  have up: "vle (version (N a)) (version ((N(n := s')) a))" for a using new by simp
  show ?thesis unfolding covered_def split_conv
  proof (intro conjI allI impI)
    fix a show "good ((N(n := s')) a)" using new coveredD(1) [OF c] by simp
  next
    fix f t k assume "(f, t, k) \<in># M + pass_on nbrs n None m"
    then consider "(f, t, k) \<in># M" | "f = n" "k = m" "t \<in> set (nbrs n)" by (auto simp: in_pass_on)
    then have "ok k \<and> t \<in> set (nbrs f) \<and> vle (Some (stamp k)) (version ((N(n := s')) f))"
    proof cases
      case 1
      then show ?thesis using coveredD(2) [OF c 1] vle_trans [OF _ up] by blast
    qed (use new in auto)
    then show "ok k" "t \<in> set (nbrs f)" "vle (Some (stamp k)) (version ((N(n := s')) f))" by blast+
  next
    fix a b assume b: "b \<in> set (nbrs a)"
    show "vle (version ((N(n := s')) a)) (version ((N(n := s')) b)) \<or>
      (\<exists>f k. (f, b, k) \<in># M + pass_on nbrs n None m \<and> vle (version ((N(n := s')) a)) (Some (stamp k)))"
    proof (cases "a = n")
      case True
      then have "(n, b, m) \<in># pass_on nbrs n None m" using b by (simp add: in_pass_on)
      then show ?thesis using True new by (auto intro!: exI [of _ n] exI [of _ m])
    next
      case False
      then have a: "(N(n := s')) a = N a" by simp
      show ?thesis unfolding a using coveredD(3) [OF c b] vle_trans [OF _ up [of b]] by (meson union_iff)
    qed
  qed
qed

lemma deliver_cases:
  assumes c: "covered nbrs (N, M)" and m: "(f, t, m) \<in># M"
  obtains (stale) s' where "mesh_deliver recv nbrs (f, t, m) (N, M) = (N(t := s'), M - {#(f, t, m)#})"
      "good s'" "version s' = version (N t)" "vle (Some (stamp m)) (version (N t))"
    | (fresh) s' m' where
      "mesh_deliver recv nbrs (f, t, m) (N, M) = (N(t := s'), M - {#(f, t, m)#} + pass_on nbrs t (Some f) m')"
      "good s'" "ok m'" "stamp m' = stamp m" "version s' = Some (stamp m)" "\<not> vle (Some (stamp m)) (version (N t))"
proof (cases "vle (Some (stamp m)) (version (N t))")
  case True
  then obtain s' where "recv f m (N t) = (None, s')" "good s'" "version s' = version (N t)"
    using ignore_older [OF _ coveredD(1) [OF c] True, of f] coveredD(2) [OF c m] by blast
  then show ?thesis using True by (intro stale [of s']) simp_all
next
  case False
  then obtain m' s' where "recv f m (N t) = (Some m', s')" "good s'" "ok m'" "stamp m' = stamp m" "version s' = Some (stamp m)"
    using take_newer [OF _ coveredD(1) [OF c] False, of f] coveredD(2) [OF c m] by blast
  then show ?thesis using False by (intro fresh [of s' m']) simp_all
qed

lemma remove_one: "x \<in># M \<Longrightarrow> x \<noteq> y \<Longrightarrow> x \<in># M - {#y#}"
  by (simp add: in_diff_count)

lemma deliver_covered:
  assumes c: "covered nbrs (N, M)" and m: "(f, t, m) \<in># M"
  shows "covered nbrs (mesh_deliver recv nbrs (f, t, m) (N, M))"
  using assms
proof (cases rule: deliver_cases)
  case (stale s')
  have v: "version ((N(t := s')) a) = version (N a)" for a using stale by simp
  show ?thesis unfolding covered_def stale(1) split_conv v
  proof (intro conjI allI impI)
    fix a show "good ((N(t := s')) a)" using stale(2) coveredD(1) [OF c] by simp
  next
    fix g u k assume "(g, u, k) \<in># M - {#(f, t, m)#}"
    then have "(g, u, k) \<in># M" by (rule in_diffD)
    then show "ok k" "u \<in> set (nbrs g)" "vle (Some (stamp k)) (version (N g))" using coveredD(2) [OF c] by blast+
  next
    fix a b assume b: "b \<in> set (nbrs a)"
    from coveredD(3) [OF c b] show "vle (version (N a)) (version (N b)) \<or>
      (\<exists>g k. (g, b, k) \<in># M - {#(f, t, m)#} \<and> vle (version (N a)) (Some (stamp k)))"
    proof (elim disjE exE conjE)
      fix g k assume g: "(g, b, k) \<in># M" "vle (version (N a)) (Some (stamp k))"
      show ?thesis
      proof (cases "(g, b, k) = (f, t, m)")
        case True
        then show ?thesis using g(2) stale(4) vle_trans by blast
      next
        case False
        then show ?thesis using remove_one [OF g(1)] g(2) by blast
      qed
    qed blast
  qed
next
  case (fresh s' m')
  have up: "vle (version (N a)) (version ((N(t := s')) a))" for a using fresh(5) vle_total [OF fresh(6)] by simp
  show ?thesis unfolding covered_def fresh(1) split_conv
  proof (intro conjI allI impI)
    fix a show "good ((N(t := s')) a)" using fresh(2) coveredD(1) [OF c] by simp
  next
    fix g u k assume "(g, u, k) \<in># M - {#(f, t, m)#} + pass_on nbrs t (Some f) m'"
    then consider "(g, u, k) \<in># M" | "g = t" "k = m'" "u \<in> set (nbrs t)" by (auto simp: in_pass_on dest: in_diffD)
    then have "ok k \<and> u \<in> set (nbrs g) \<and> vle (Some (stamp k)) (version ((N(t := s')) g))"
    proof cases
      case 1
      then show ?thesis using coveredD(2) [OF c 1] vle_trans [OF _ up] by blast
    qed (use fresh(3-5) in auto)
    then show "ok k" "u \<in> set (nbrs g)" "vle (Some (stamp k)) (version ((N(t := s')) g))" by blast+
  next
    fix a b assume b: "b \<in> set (nbrs a)"
    show "vle (version ((N(t := s')) a)) (version ((N(t := s')) b)) \<or>
      (\<exists>g k. (g, b, k) \<in># M - {#(f, t, m)#} + pass_on nbrs t (Some f) m' \<and> vle (version ((N(t := s')) a)) (Some (stamp k)))"
    proof (cases "a = t")
      case True
      show ?thesis
      proof (cases "b = f")
        case bf: True
        have "vle (Some (stamp m)) (version ((N(t := s')) f))" using vle_trans [OF _ up] coveredD(2) [OF c m] by blast
        then show ?thesis using bf True fresh(5) by simp
      next
        case False
        then have "(t, b, m') \<in># pass_on nbrs t (Some f) m'" using b True by (simp add: in_pass_on)
        then show ?thesis using True fresh(4,5) by (auto intro!: exI [of _ t] exI [of _ m'])
      qed
    next
      case False
      from coveredD(3) [OF c b] show ?thesis
      proof (elim disjE exE conjE)
        assume "vle (version (N a)) (version (N b))"
        from vle_trans [OF this up] show ?thesis using False by simp
      next
        fix g k assume g: "(g, b, k) \<in># M" "vle (version (N a)) (Some (stamp k))"
        show ?thesis
        proof (cases "(g, b, k) = (f, t, m)")
          case True
          then show ?thesis using False g(2) fresh(5) by auto
        next
          case ne: False
          have "(g, b, k) \<in># M - {#(f, t, m)#}" by (rule remove_one [OF g(1) ne])
          then show ?thesis using False g(2) by auto
        qed
      qed
    qed
  qed
qed

lemma step_covered: "covered nbrs C \<Longrightarrow> mesh_step recv nbrs C C' \<Longrightarrow> covered nbrs C'"
  by (cases C) (auto elim!: mesh_step.cases intro: deliver_covered simp del: mesh_deliver.simps)

lemma reach_covered:
  assumes "mesh_reach start recv publish nbrs C" "\<And>N. start N \<Longrightarrow> covered nbrs (N, {#})"
  shows "covered nbrs C"
  using assms(1) by induction (auto intro: assms(2) publish_covered step_covered)

text \<open>When nothing is under way, connected nodes agree.\<close>

lemma quiet_agreement:
  assumes "covered nbrs (N, {#})" "\<And>a b. b \<in> set (nbrs a) \<Longrightarrow> a \<in> set (nbrs b)" "(\<lambda>a b. b \<in> set (nbrs a))\<^sup>*\<^sup>* a b"
  shows "version (N a) = version (N b)"
  using assms(3)
proof induction
  case (step b d)
  then show ?case using coveredD(3) [OF assms(1)] assms(2) by (auto intro: vle_antisym)
qed simp

text \<open>A flood ends: every delivery lowers the number of messages under way plus, for each node, the
  versions it has yet to take, weighted by what taking one may send.\<close>

definition pending :: "int set \<Rightarrow> 's \<Rightarrow> nat" where
  "pending V s = card {v \<in> V. \<not> vle (Some v) (version s)}"

definition confined :: "nat set \<Rightarrow> int set \<Rightarrow> (nat \<times> nat \<times> 'm) multiset \<Rightarrow> bool" where
  "confined A V M \<longleftrightarrow> (\<forall>f t m. (f, t, m) \<in># M \<longrightarrow> t \<in> A \<and> stamp m \<in> V)"

definition effort :: "nat set \<Rightarrow> nat \<Rightarrow> int set \<Rightarrow> ('s, 'm) mesh_config \<Rightarrow> nat" where
  "effort A D V C = (case C of (N, M) \<Rightarrow> size M + (D + 1) * (\<Sum>n \<in> A. pending V (N n)))"

lemma pending_less:
  assumes "finite V" "v \<in> V" "\<not> vle (Some v) (version s)" "version s' = Some v"
  shows "pending V s' < pending V s"
  unfolding pending_def
proof (rule psubset_card_mono)
  show "{u \<in> V. \<not> vle (Some u) (version s')} \<subset> {u \<in> V. \<not> vle (Some u) (version s)}"
    using assms(2-4) by (cases "version s") auto
qed (use assms(1) in simp)

lemma pending_same: "version s' = version s \<Longrightarrow> pending V s' = pending V s"
  by (simp add: pending_def)

lemma deliver_effort:
  assumes c: "covered nbrs (N, M)" and m: "(f, t, m) \<in># M" and cf: "confined A V M"
    and fin: "finite A" "finite V" and D: "\<And>n. n \<in> A \<Longrightarrow> length (nbrs n) \<le> D \<and> set (nbrs n) \<subseteq> A"
  shows "effort A D V (mesh_deliver recv nbrs (f, t, m) (N, M)) < effort A D V (N, M) \<and>
    confined A V (snd (mesh_deliver recv nbrs (f, t, m) (N, M)))"
proof -
  have t: "t \<in> A" "stamp m \<in> V" using cf m by (auto simp: confined_def)
  have M: "size M = size (M - {#(f, t, m)#}) + 1" using m by (metis Suc_eq_plus1 insert_DiffM size_add_mset)
  have sum: "(\<Sum>n \<in> A. pending V ((N(t := s')) n)) + pending V (N t) = (\<Sum>n \<in> A. pending V (N n)) + pending V s'" for s'
  proof -
    have "(\<Sum>n \<in> A - {t}. pending V ((N(t := s')) n)) = (\<Sum>n \<in> A - {t}. pending V (N n))" by (intro sum.cong) auto
    then show ?thesis using sum.remove [OF fin(1) t(1), of "\<lambda>n. pending V ((N(t := s')) n)"]
        sum.remove [OF fin(1) t(1), of "\<lambda>n. pending V (N n)"] by simp
  qed
  have cf': "confined A V (M - {#(f, t, m)#})" using cf by (auto simp: confined_def dest: in_diffD)
  from c m show ?thesis
  proof (cases rule: deliver_cases)
    case (stale s')
    have "(\<Sum>n \<in> A. pending V ((N(t := s')) n)) = (\<Sum>n \<in> A. pending V (N n))"
      using sum [of s'] pending_same [OF stale(3), of V] by simp
    then show ?thesis unfolding stale(1) using cf' M by (simp add: effort_def)
  next
    case (fresh s' m')
    have "pending V s' < pending V (N t)" by (rule pending_less [OF fin(2) t(2) fresh(6,5)])
    then have "(\<Sum>n \<in> A. pending V ((N(t := s')) n)) + 1 \<le> (\<Sum>n \<in> A. pending V (N n))" using sum [of s'] by simp
    then have "(D + 1) * ((\<Sum>n \<in> A. pending V ((N(t := s')) n)) + 1) \<le> (D + 1) * (\<Sum>n \<in> A. pending V (N n))"
      by (rule mult_le_mono2)
    moreover have "size (pass_on nbrs t (Some f) m') \<le> D" using size_pass_on [of nbrs t "Some f" m'] D [OF t(1)] by simp
    moreover have "confined A V (M - {#(f, t, m)#} + pass_on nbrs t (Some f) m')"
      using cf' D [OF t(1)] t(2) fresh(4) by (auto simp: confined_def in_pass_on)
    ultimately show ?thesis unfolding fresh(1) using M by (simp add: effort_def algebra_simps)
  qed
qed

lemma flood_ends:
  assumes "(mesh_step recv nbrs ^^ k) C C'" "covered nbrs C" "confined A V (snd C)"
    and "finite A" "finite V" "\<And>n. n \<in> A \<Longrightarrow> length (nbrs n) \<le> D \<and> set (nbrs n) \<subseteq> A"
  shows "k + effort A D V C' \<le> effort A D V C \<and> covered nbrs C' \<and> confined A V (snd C')"
  using assms(1)
proof (induction k arbitrary: C')
  case (Suc k)
  then obtain B where B: "(mesh_step recv nbrs ^^ k) C B" "mesh_step recv nbrs B C'" by auto
  note IH = Suc.IH [OF B(1)]
  obtain N M f t m where x: "B = (N, M)" "(f, t, m) \<in># M" "C' = mesh_deliver recv nbrs (f, t, m) B"
    using B(2) by (cases B) (auto elim!: mesh_step.cases simp del: mesh_deliver.simps)
  have "effort A D V C' < effort A D V B \<and> confined A V (snd C')"
    unfolding x(3) x(1) by (rule deliver_effort [OF _ x(2) _ assms(4-6)]) (use IH x(1) in simp_all)
  then show ?case using IH step_covered [OF _ B(2)] by simp
qed (use assms(2,3) in auto)

lemma effort_bound:
  assumes "finite V"
  shows "effort A D V (N, M) \<le> size M + (D + 1) * (card A * card V)"
proof -
  have "pending V s \<le> card V" for s unfolding pending_def using assms by (intro card_mono) auto
  then have "(\<Sum>n \<in> A. pending V (N n)) \<le> (\<Sum>n \<in> A. card V)" by (intro sum_mono)
  then have "(D + 1) * (\<Sum>n \<in> A. pending V (N n)) \<le> (D + 1) * (card A * card V)" by (intro mult_le_mono2) simp
  then show ?thesis by (simp add: effort_def)
qed

end

end
