(* ===== verification/Wire_Int64.thy ===== *)
theory Wire_Int64
  imports Wire_Reader
begin

text \<open>Fields the gossip messages share: signed 64-bit times, a last field, raw bytes carried as a string.\<close>

definition int64 :: "int \<Rightarrow> bool" where "int64 x \<longleftrightarrow> - (2 ^ 63) \<le> x \<and> x < 2 ^ 63"

lemma sint_of_int64: "- (2 ^ 63) \<le> x \<Longrightarrow> x < 2 ^ 63 \<Longrightarrow> sint (of_int x :: 64 word) = x"
  by (simp add: signed_of_int signed_take_bit_int_eq_self)

lemma r_u64_end: "r_u64 (put64 w) = Some (w, [])"
  using r_u64_put [of w "[]"] by simp

lemma str_bytes_of_bytes [simp]: "str_bytes (bytes_str b) = b"
proof -
  have "of_char (char_of (unat x) :: char) = (x :: byte)" for x
  proof -
    have "(of_char (char_of (unat x) :: char) :: byte) = of_nat (of_char (char_of (unat x) :: char))"
      by (simp only: of_nat_of_char)
    also have "(of_char (char_of (unat x) :: char) :: nat) = unat x"
      using unsigned_less [of x, where ?'a = nat] by simp
    finally show ?thesis by simp
  qed
  then show ?thesis by (simp add: str_bytes_def bytes_str_def comp_def)
qed

lemma length_bytes_str [simp]: "length (bytes_str b) = length b"
  by (simp add: bytes_str_def)

lemma r_lenStr_bytes [wire_simps]: "length b \<le> 255 \<Longrightarrow> r_lenStr (of_nat (length b) # b @ r) = Some (bytes_str b, r)"
  using r_lenStr_put [of "bytes_str b" r] by (simp add: clip255_def)

end
