(* ===== verification/Ban_Gossip.thy ===== *)
theory Ban_Gossip
  imports Bans Gossip Wire_Int64
begin

text \<open>
  The gossip of one ban. The handlers of \<open>Bans\<close> fulfil the contract of \<open>Gossip\<close> for the records of a
  given origin and target, with the expiry as the version; so the flood of a ban ends and leaves
  connected nodes with the same ban. An unban has no version: a refresh it overtakes brings the ban back.
\<close>

section \<open>Messages are read back\<close>

definition wire_ban :: "banRecord \<Rightarrow> banRecord" where
  "wire_ban b = b\<lparr>b_target := clip255 (b_target b), b_origin := clip255 (b_origin b), b_notes := clip255 (b_notes b),
     b_endpoint := noEndpoint, b_hostname := []\<rparr>"

lemma ban_add_body:
  assumes "int64 (atNano b)" "int64 (expiresNano b)"
  shows "\<exists>body. encodeBanAdd b = ctrlBanAdd # body \<and> decodeBanAdd (body @ r) = Some (wire_ban b)"
  using assms unfolding int64_def
  by (simp add: encodeBanAdd_def decodeBanAdd_def appendLenStr_eq wire_simps sint_of_int64 wire_ban_def del: length_clip255)

lemma ban_del_body:
  "\<exists>body. encodeBanDel origin target = ctrlBanDel # body \<and> decodeBanDel (body @ r) = Some (clip255 origin, clip255 target)"
  by (simp add: encodeBanDel_def decodeBanDel_def appendLenStr_eq wire_simps del: length_clip255)

lemma r_lenStr_short:
  assumes "r_lenStr r = Some (s, r')"
  shows "length s \<le> 255"
proof -
  have "\<exists>n :: byte. length s \<le> unat n"
    using assms by (auto simp: r_lenStr_def r_take_def bytes_str_def bind_eq_Some_conv split: if_splits)
  then obtain n :: byte where "length s \<le> unat n" ..
  then show ?thesis using unat_less_2p [of n] by simp
qed

lemma decodeBanAdd_wf:
  assumes "decodeBanAdd body = Some b"
  shows "wire_ban b = b \<and> int64 (atNano b) \<and> int64 (expiresNano b)"
proof -
  obtain origin target nts r1 r2 r3 and ts ex :: "64 word" where
    "r_lenStr body = Some (origin, r1)" "r_lenStr r1 = Some (target, r2)" "r_lenStr r2 = Some (nts, r3)"
    and b: "b = \<lparr>b_target = target, b_origin = origin, b_notes = nts, atNano = sint ts, expiresNano = sint ex,
           b_endpoint = noEndpoint, b_hostname = []\<rparr>"
    using assms by (auto simp: decodeBanAdd_def bind_eq_Some_conv)
  then have "length origin \<le> 255" "length target \<le> 255" "length nts \<le> 255" by (auto dest: r_lenStr_short)
  moreover have "int64 (sint w)" for w :: "64 word" using sint_range_size [of w] by (simp add: int64_def word_size)
  ultimately show ?thesis by (simp add: b wire_ban_def)
qed

section \<open>The contract of the flood\<close>

definition ban_version :: "string \<Rightarrow> string \<Rightarrow> ban_state \<Rightarrow> int option" where
  "ban_version origin target s = map_option expiresNano (map_of (bans s) (banKey origin target))"

definition ban_stamp :: "bytes \<Rightarrow> int" where
  "ban_stamp body = (case decodeBanAdd body of None \<Rightarrow> 0 | Some b \<Rightarrow> expiresNano b)"

definition ban_msg :: "string \<Rightarrow> string \<Rightarrow> bytes \<Rightarrow> bool" where
  "ban_msg origin target body = (case decodeBanAdd body of None \<Rightarrow> False | Some b \<Rightarrow> b_origin b = origin \<and> b_target b = target)"

definition ban_good :: "string \<Rightarrow> string \<Rightarrow> ban_state \<Rightarrow> bool" where
  "ban_good origin target s =
     (case map_of (bans s) (banKey origin target) of None \<Rightarrow> True | Some b \<Rightarrow> b_origin b = origin \<and> b_target b = target)"

definition ban_floods :: "ban_act list \<Rightarrow> bytes list" where
  "ban_floods acts = concat (map (\<lambda>a. case a of BanFlood m _ \<Rightarrow> [tl m] | _ \<Rightarrow> []) acts)"

definition ban_recv :: "(prefix \<Rightarrow> int \<Rightarrow> bool) \<Rightarrow> nat \<Rightarrow> bytes \<Rightarrow> ban_state \<Rightarrow> bytes option \<times> ban_state" where
  "ban_recv add_ok p body s =
     (case onBanAdd add_ok p body s of (acts, s') \<Rightarrow> (case ban_floods acts of [] \<Rightarrow> None | m # _ \<Rightarrow> Some m, s'))"

text \<open>The origin issues the ban, edits its notes or refreshes it, at a time at which the new expiry is
  not before the old one.\<close>

definition ban_publish :: "(prefix \<Rightarrow> int \<Rightarrow> bool) \<Rightarrow> string \<Rightarrow> string \<Rightarrow> ban_state \<Rightarrow> bytes \<Rightarrow> ban_state \<Rightarrow> bool" where
  "ban_publish add_ok origin target s body s' \<longleftrightarrow>
     ban_self s = origin \<and> length origin \<le> 255 \<and> length target \<le> 255 \<and>
     (\<exists>now nts acts.
        (BanNode now add_ok target nts (Some s) = Inr (acts, s') \<or>
         EditBanNotes now target nts (Some s) = Inr (acts, s') \<or>
         refreshBans now s = (acts, s') \<and> ban_version origin target s \<noteq> None) \<and>
        body \<in> set (ban_floods acts) \<and> ban_msg origin target body \<and>
        int64 now \<and> int64 (now + banTTL s) \<and> vle (ban_version origin target s) (Some (now + banTTL s)))"

lemma applyBan_bans:
  assumes "applyBan add_ok t s = (acts, s')"
  shows "bans s' = bans s \<and> ban_floods acts = [] \<and> ban_self s' = ban_self s"
  using assms unfolding applyBan_def
  by (auto simp: Let_def ban_floods_def ban_self_def dropNodeRoutes_def drop_and_sync_def drop_entries_def publishFwd_def
      drop_session_def same_table_def dest!: sync_all_same split: if_splits prod.splits option.splits)

lemma ban_floods_append [simp]: "ban_floods (xs @ ys) = ban_floods xs @ ban_floods ys"
  by (simp add: ban_floods_def)

lemma flood_of:
  assumes "int64 (atNano b)" "int64 (expiresNano b)"
  shows "\<exists>body. ban_floods [BanFlood (encodeBanAdd b) x] = [body] \<and> decodeBanAdd body = Some (wire_ban b)"
  using ban_add_body [OF assms, of "[]"] by (auto simp: ban_floods_def)

lemma wire_ban_ends:
  "wire_ban (b\<lparr>b_endpoint := e, b_hostname := h\<rparr>) = wire_ban b"
  by (simp add: wire_ban_def)

lemma ban_take_newer:
  assumes "ban_msg origin target body" "\<not> vle (Some (ban_stamp body)) (ban_version origin target s)"
  shows "\<exists>m' s'. ban_recv add_ok f body s = (Some m', s') \<and> ban_good origin target s' \<and> ban_msg origin target m' \<and>
    ban_stamp m' = ban_stamp body \<and> ban_version origin target s' = Some (ban_stamp body)"
proof -
  obtain b where b: "decodeBanAdd body = Some b" "b_origin b = origin" "b_target b = target"
    using assms(1) by (auto simp: ban_msg_def split: option.splits)
  note wf = decodeBanAdd_wf [OF b(1)]
  have new: "map_of (bans s) (banKey origin target) = None \<or>
      (\<exists>old. map_of (bans s) (banKey origin target) = Some old \<and> expiresNano old < expiresNano b)"
    using assms(2) b(1) by (cases "map_of (bans s) (banKey origin target)") (auto simp: ban_version_def ban_stamp_def)
  have "\<exists>e h acts s'. onBanAdd add_ok f body s = (acts, s') \<and>
      ban_floods acts = ban_floods [BanFlood (encodeBanAdd (b\<lparr>b_endpoint := e, b_hostname := h\<rparr>)) (Some f)] \<and>
      map_of (bans s') (banKey origin target) = Some (b\<lparr>b_endpoint := e, b_hostname := h\<rparr>)"
    using new
  proof (elim disjE exE conjE)
    assume n: "map_of (bans s) (banKey origin target) = None"
    define b1 where "b1 = b\<lparr>b_endpoint := endpointOf target s, b_hostname := hostnameOf target s\<rparr>"
    obtain acts s' where a: "applyBan add_ok target (s\<lparr>bans := AList.update (banKey origin target) b1 (bans s)\<rparr>) = (acts, s')" by fastforce
    have "onBanAdd add_ok f body s = (acts @ [BanFlood (encodeBanAdd b1) (Some f)], s')"
      using b n a by (simp add: onBanAdd_def b1_def Let_def)
    then show ?thesis using applyBan_bans [OF a] unfolding b1_def
      by (intro exI [of _ "endpointOf target s"] exI [of _ "hostnameOf target s"]) (simp add: update_conv)
  next
    fix old assume "map_of (bans s) (banKey origin target) = Some old" "expiresNano old < expiresNano b"
    then show ?thesis using b
      by (intro exI [of _ "b_endpoint old"] exI [of _ "b_hostname old"]) (simp add: onBanAdd_def Let_def update_conv)
  qed
  then obtain e h acts s' where r: "onBanAdd add_ok f body s = (acts, s')"
    "ban_floods acts = ban_floods [BanFlood (encodeBanAdd (b\<lparr>b_endpoint := e, b_hostname := h\<rparr>)) (Some f)]"
    "map_of (bans s') (banKey origin target) = Some (b\<lparr>b_endpoint := e, b_hostname := h\<rparr>)" by blast
  obtain m' where "ban_floods acts = [m']" "decodeBanAdd m' = Some b"
    using flood_of [of "b\<lparr>b_endpoint := e, b_hostname := h\<rparr>" "Some f"] wf r(2) by (auto simp: wire_ban_ends)
  then show ?thesis using r(1,3) b by (simp add: ban_recv_def ban_good_def ban_msg_def ban_stamp_def ban_version_def)
qed

lemma ban_ignore_older:
  assumes "ban_msg origin target body" "ban_good origin target s" "vle (Some (ban_stamp body)) (ban_version origin target s)"
  shows "\<exists>s'. ban_recv add_ok f body s = (None, s') \<and> ban_good origin target s' \<and> ban_version origin target s' = ban_version origin target s"
proof -
  obtain b where b: "decodeBanAdd body = Some b" "b_origin b = origin" "b_target b = target"
    using assms(1) by (auto simp: ban_msg_def split: option.splits)
  obtain old where "map_of (bans s) (banKey origin target) = Some old" "\<not> expiresNano b > expiresNano old"
    using assms(3) b(1) by (cases "map_of (bans s) (banKey origin target)") (auto simp: ban_version_def ban_stamp_def)
  then have "onBanAdd add_ok f body s = ([], s)" using b by (simp add: onBanAdd_def Let_def)
  then show ?thesis using assms(2) by (simp add: ban_recv_def ban_floods_def)
qed

lemma in_ban_floods: "body \<in> set (ban_floods acts) \<longleftrightarrow> (\<exists>m x. BanFlood m x \<in> set acts \<and> body = tl m)"
proof (induction acts)
  case (Cons a acts)
  then show ?case by (cases a) (auto simp: ban_floods_def)
qed (simp add: ban_floods_def)

lemma flood_stamp:
  assumes "body \<in> set (ban_floods [BanFlood (encodeBanAdd b) x])" "int64 (expiresNano b)"
  shows "ban_stamp body = expiresNano b"
  using assms unfolding int64_def
  by (simp add: ban_floods_def encodeBanAdd_def decodeBanAdd_def ban_stamp_def appendLenStr_eq wire_simps sint_of_int64
      r_u64_end del: length_clip255)

lemma ban_publish_record:
  assumes "BanNode now add_ok target nts (Some s) = Inr (acts, s') \<or> EditBanNotes now target nts (Some s) = Inr (acts, s') \<or>
      refreshBans now s = (acts, s') \<and> ban_version origin target s \<noteq> None"
    and "ban_self s = origin" "ban_good origin target s"
  shows "(\<exists>b. map_of (bans s') (banKey origin target) = Some b \<and> b_origin b = origin \<and> b_target b = target \<and>
      expiresNano b = now + banTTL s) \<and>
    (\<forall>body \<in> set (ban_floods acts). \<exists>b x. expiresNano b = now + banTTL s \<and> body \<in> set (ban_floods [BanFlood (encodeBanAdd b) x]))"
  using assms(1)
proof (elim disjE conjE)
  assume a: "BanNode now add_ok target nts (Some s) = Inr (acts, s')"
  define b where "b = \<lparr>b_target = target, b_origin = ban_self s, b_notes = nts, atNano = now, expiresNano = now + banTTL s,
     b_endpoint = endpointOf target s, b_hostname = hostnameOf target s\<rparr>"
  obtain acts1 s1 where ap: "applyBan add_ok target (s\<lparr>bans := AList.update (banKey (ban_self s) target) b (bans s)\<rparr>) = (acts1, s1)"
    by fastforce
  have "acts = acts1 @ [BanFlood (encodeBanAdd b) None]" "s' = s1"
    using a ap by (auto simp: BanNode_def Let_def b_def split: if_splits)
  moreover have "expiresNano b = now + banTTL s" "b_origin b = origin" "b_target b = target" using assms(2) by (simp_all add: b_def)
  ultimately show ?thesis using applyBan_bans [OF ap] assms(2) by (auto simp: update_conv)
next
  assume "EditBanNotes now target nts (Some s) = Inr (acts, s')"
  then obtain b where b: "map_of (bans s) (banKey origin target) = Some b"
    "acts = [BanFlood (encodeBanAdd (b\<lparr>b_notes := nts, expiresNano := now + banTTL s\<rparr>)) None]"
    "s' = s\<lparr>bans := AList.update (banKey origin target) (b\<lparr>b_notes := nts, expiresNano := now + banTTL s\<rparr>) (bans s)\<rparr>"
    using assms(2) by (auto simp: EditBanNotes_def Let_def split: option.splits)
  define b1 where "b1 = b\<lparr>b_notes := nts, expiresNano := now + banTTL s\<rparr>"
  have b1: "b_origin b1 = origin" "b_target b1 = target" "expiresNano b1 = now + banTTL s"
    using b(1) assms(3) by (simp_all add: ban_good_def b1_def)
  have "map_of (bans s') (banKey origin target) = Some b1" "acts = [BanFlood (encodeBanAdd b1) None]"
    using b(2,3) by (simp_all add: b1_def update_conv)
  then show ?thesis using b1 by blast
next
  assume r: "refreshBans now s = (acts, s')" "ban_version origin target s \<noteq> None"
  then obtain b where b: "map_of (bans s) (banKey origin target) = Some b" "b_origin b = origin" "b_target b = target"
    using assms(3) by (auto simp: ban_version_def ban_good_def)
  let ?up = "\<lambda>b. if b_origin b = ban_self s then b\<lparr>expiresNano := now + banTTL s\<rparr> else b"
  have "bans s' = map (\<lambda>(k, b). (k, ?up b)) (bans s)" using r(1) by (auto simp: refreshBans_def Let_def)
  then have "map_of (bans s') (banKey origin target) = Some (b\<lparr>expiresNano := now + banTTL s\<rparr>)"
    using b assms(2) by (simp add: map_of_map)
  moreover have "\<exists>b x. expiresNano b = now + banTTL s \<and> body \<in> set (ban_floods [BanFlood (encodeBanAdd b) x])"
    if q: "body \<in> set (ban_floods acts)" for body
  proof -
    obtain m x where m: "BanFlood m x \<in> set acts" "body = tl m" using q unfolding in_ban_floods by blast
    then obtain b where b: "b_origin b = ban_self s" "m = encodeBanAdd (?up b)" using r(1) by (auto simp: refreshBans_def Let_def split: if_splits)
    then have "expiresNano (?up b) = now + banTTL s" "body \<in> set (ban_floods [BanFlood (encodeBanAdd (?up b)) None])"
      using m by (simp_all add: in_ban_floods)
    then show ?thesis by blast
  qed
  ultimately show ?thesis using b by simp
qed

lemma ban_publish_newest:
  assumes "ban_publish add_ok origin target s body s'" "ban_good origin target s"
  shows "ban_good origin target s' \<and> ban_msg origin target body \<and> ban_version origin target s' = Some (ban_stamp body) \<and>
    vle (ban_version origin target s) (Some (ban_stamp body))"
proof -
  obtain now nts acts where p: "ban_self s = origin" "length origin \<le> 255" "length target \<le> 255"
    "BanNode now add_ok target nts (Some s) = Inr (acts, s') \<or> EditBanNotes now target nts (Some s) = Inr (acts, s') \<or>
       refreshBans now s = (acts, s') \<and> ban_version origin target s \<noteq> None"
    "body \<in> set (ban_floods acts)" "ban_msg origin target body" "int64 now" "int64 (now + banTTL s)"
    "vle (ban_version origin target s) (Some (now + banTTL s))"
    using assms(1) unfolding ban_publish_def by blast
  have "expiresNano b = now + banTTL s \<Longrightarrow> body \<in> set (ban_floods [BanFlood (encodeBanAdd b) x]) \<Longrightarrow>
      ban_stamp body = now + banTTL s" for b x
    using flood_stamp [of body b x] p(8) by simp
  then show ?thesis using p(6,9) ban_publish_record [OF p(4) p(1) assms(2)] p(5)
    by (auto simp: ban_good_def ban_version_def)
qed

section \<open>Agreement and end of the flood\<close>

interpretation ban: newest_wins "ban_version origin target" ban_stamp "ban_msg origin target" "ban_good origin target"
    "ban_recv add_ok" "ban_publish add_ok origin target" for origin target add_ok
  by unfold_locales (use ban_take_newer ban_ignore_older ban_publish_newest in blast)+

definition no_ban :: "string \<Rightarrow> string \<Rightarrow> (nat \<Rightarrow> ban_state) \<Rightarrow> bool" where
  "no_ban origin target N \<longleftrightarrow> (\<forall>n. map_of (bans (N n)) (banKey origin target) = None)"

abbreviation ban_reach where
  "ban_reach origin target add_ok nbrs C \<equiv>
     mesh_reach (no_ban origin target) (ban_recv add_ok) (ban_publish add_ok origin target) nbrs C"

lemma ban_covered: "ban_reach origin target add_ok nbrs C \<Longrightarrow> newest_wins.covered (ban_version origin target) ban_stamp
    (ban_msg origin target) (ban_good origin target) nbrs C"
  by (erule ban.reach_covered) (auto simp: ban.covered_def no_ban_def ban_good_def ban_version_def)

lemma listed_is_banned:
  "map_of (bans s) k = Some b \<Longrightarrow> b_target b = target \<Longrightarrow> now < expiresNano b \<Longrightarrow> isBanned now target s"
  by (auto simp: isBanned_def list_ex_iff dest: map_of_SomeD)

text \<open>C29: gossip makes a ban hold everywhere. However the origin bans, edits and refreshes, and in whatever
  order the messages between neighbours arrive, once none is under way all nodes connected to a node
  that holds the ban hold it with the same expiry, and refuse its target until then.\<close>
theorem ban_reaches_everyone:
  assumes "ban_reach origin target add_ok nbrs (N, {#})"
    and "\<And>a b. b \<in> set (nbrs a) \<Longrightarrow> a \<in> set (nbrs b)" "(\<lambda>a b. b \<in> set (nbrs a))\<^sup>*\<^sup>* a b"
  shows "ban_version origin target (N b) = ban_version origin target (N a) \<and>
    (ban_version origin target (N a) = Some e \<and> now < e \<longrightarrow> isBanned now target (N b))"
proof -
  note c = ban_covered [OF assms(1)]
  have same: "ban_version origin target (N b) = ban_version origin target (N a)"
    using ban.quiet_agreement [OF c assms(2,3)] by simp
  have "isBanned now target (N b)" if e: "ban_version origin target (N a) = Some e" "now < e"
  proof -
    obtain r where r: "map_of (bans (N b)) (banKey origin target) = Some r" "expiresNano r = e"
      using same e(1) by (auto simp: ban_version_def)
    moreover have "b_target r = target" using ban.coveredD(1) [OF c, of b] r(1) by (simp add: ban_good_def)
    ultimately show ?thesis using e(2) by (auto intro: listed_is_banned)
  qed
  then show ?thesis using same by blast
qed

text \<open>C30: the flood of a ban ends: among the nodes \<open>A\<close>, each with at most \<open>D\<close> neighbours, messages of
  \<open>length V\<close> different expiries are delivered at most as often as there are messages under way plus
  \<open>D + 1\<close> times per node and expiry, whatever the topology, its cycles included.\<close>
theorem ban_flood_ends:
  assumes "ban_reach origin target add_ok nbrs (N, M)" "(mesh_step (ban_recv add_ok) nbrs ^^ k) (N, M) C"
    and "\<forall>(f, t, m) \<in># M. t \<in> A \<and> ban_stamp m \<in> V" "finite A" "finite V"
    and "\<And>n. n \<in> A \<Longrightarrow> length (nbrs n) \<le> D \<and> set (nbrs n) \<subseteq> A"
  shows "k \<le> size M + (D + 1) * (card A * card V)"
proof -
  have "newest_wins.confined ban_stamp A V (snd (N, M))" using assms(3) by (auto simp: ban.confined_def)
  from ban.flood_ends [OF assms(2) ban_covered [OF assms(1)] this assms(4-6)]
  have "k \<le> newest_wins.effort (ban_version origin target) A D V (N, M)" by simp
  also have "\<dots> \<le> size M + (D + 1) * (card A * card V)" by (rule ban.effort_bound [OF assms(5)])
  finally show ?thesis .
qed

section \<open>A ban that outlives its unban\<close>

lemma BanNode_flood:
  assumes "BanNode now add_ok target nts (Some s) = Inr (acts, s1)" "body \<in> set (ban_floods acts)"
    and "length (ban_self s) \<le> 255" "length target \<le> 255" "int64 now" "int64 (now + banTTL s)"
  shows "\<exists>b. decodeBanAdd body = Some b \<and> b_origin b = ban_self s \<and> b_target b = target \<and> expiresNano b = now + banTTL s"
proof -
  define b where "b = \<lparr>b_target = target, b_origin = ban_self s, b_notes = nts, atNano = now, expiresNano = now + banTTL s,
     b_endpoint = endpointOf target s, b_hostname = hostnameOf target s\<rparr>"
  obtain acts1 s2 where ap: "applyBan add_ok target (s\<lparr>bans := AList.update (banKey (ban_self s) target) b (bans s)\<rparr>) = (acts1, s2)"
    by fastforce
  have "acts = acts1 @ [BanFlood (encodeBanAdd b) None]"
    using assms(1) ap by (auto simp: BanNode_def Let_def b_def split: if_splits)
  moreover have "int64 (atNano b)" "int64 (expiresNano b)" using assms(5,6) by (simp_all add: b_def)
  ultimately have "decodeBanAdd body = Some (wire_ban b)"
    using flood_of [of b None] applyBan_bans [OF ap] assms(2) by auto
  then show ?thesis using assms(3,4) by (simp add: wire_ban_def b_def clip255_def)
qed

lemma redial_same: "redial ep s = (acts, s') \<Longrightarrow> bans s' = bans s \<and> ban_self s' = ban_self s \<and> banTTL s' = banTTL s"
  by (auto simp: redial_def ban_self_def split: if_splits)

lemma applyBan_ttl: "applyBan add_ok t s = (acts, s') \<Longrightarrow> banTTL s' = banTTL s"
  by (auto simp: applyBan_def Let_def split: if_splits prod.splits)

lemma BanNode_keeps:
  assumes "BanNode now add_ok target nts (Some s) = Inr (acts, s1)"
  shows "ban_self s1 = ban_self s \<and> banTTL s1 = banTTL s"
proof -
  obtain b a where ap: "applyBan add_ok target (s\<lparr>bans := AList.update (banKey (ban_self s) target) b (bans s)\<rparr>) = (a, s1)"
    using assms by (auto simp: BanNode_def Let_def split: if_splits prod.splits)
  then show ?thesis using applyBan_bans [OF ap] applyBan_ttl [OF ap] by (simp add: ban_self_def)
qed

text \<open>C31: an unban is undone by an echo of the ban. A node that lifts its own ban drops the record and keeps
  no trace of it; when a neighbour's copy of the ban still arrives afterwards, the node takes the ban for
  a new one, refuses the target again, and from then on refreshes it: the ban never lapses.\<close>
theorem unban_undone:
  assumes "BanNode now add_ok target nts (Some s) = Inr (acts1, s1)" "body \<in> set (ban_floods acts1)"
    and "UnbanNode target (Some s1) = Inr (acts2, s2)" "onBanAdd add_ok ps body s2 = (acts3, s3)"
    and "length (ban_self s) \<le> 255" "length target \<le> 255" "int64 now" "int64 (now + banTTL s)"
  shows "map_of (bans s2) (banKey (ban_self s) target) = None \<and> (t < now + banTTL s \<longrightarrow> isBanned t target s3) \<and>
    (u < t + banTTL s \<longrightarrow> isBanned u target (snd (refreshBans t s3)))"
proof -
  obtain b where b: "decodeBanAdd body = Some b" "b_origin b = ban_self s" "b_target b = target" "expiresNano b = now + banTTL s"
    using BanNode_flood [OF assms(1,2,5-8)] by blast
  note k1 = BanNode_keeps [OF assms(1)]
  obtain e :: banRecord where "redial (b_endpoint e) (s1\<lparr>bans := AList.delete (banKey (ban_self s) target) (bans s1)\<rparr>) = (tl acts2, s2)"
    using assms(3) k1 by (auto simp: UnbanNode_def Let_def split: option.splits prod.splits)
  note s2 = redial_same [OF this]
  have gone: "map_of (bans s2) (banKey (ban_self s) target) = None" using s2 by (simp add: delete_conv)
  define b1 where "b1 = b\<lparr>b_endpoint := endpointOf target s2, b_hostname := hostnameOf target s2\<rparr>"
  obtain a where a: "applyBan add_ok target (s2\<lparr>bans := AList.update (banKey (ban_self s) target) b1 (bans s2)\<rparr>) = (a, s3)"
    using assms(4) b gone by (auto simp: onBanAdd_def Let_def b1_def split: prod.splits)
  note s3 = applyBan_bans [OF a] applyBan_ttl [OF a]
  have r: "map_of (bans s3) (banKey (ban_self s) target) = Some b1" using s3 by (simp add: update_conv)
  then have now_banned: "t < now + banTTL s \<Longrightarrow> isBanned t target s3" using b by (auto simp: b1_def intro: listed_is_banned)
  have self: "ban_self s3 = ban_self s" "banTTL s3 = banTTL s" using s3 s2 k1 by (simp_all add: ban_self_def)
  have "map_of (bans (snd (refreshBans t s3))) (banKey (ban_self s) target) = Some (b1\<lparr>expiresNano := t + banTTL s\<rparr>)"
    using r b self by (simp add: refreshBans_def Let_def map_of_map b1_def)
  then have "u < t + banTTL s \<Longrightarrow> isBanned u target (snd (refreshBans t s3))"
    using b by (auto simp: b1_def intro: listed_is_banned)
  then show ?thesis using gone now_banned by blast
qed

section \<open>What a ban cuts off\<close>

lemma syncRoute_routes:
  "syncRoute add_ok p ns = (acts, ns') \<Longrightarrow> rs_routes4 ns' = rs_routes4 ns \<and> rs_routes6 ns' = rs_routes6 ns \<and> rs_osRoutes ns' = rs_osRoutes ns"
  by (auto simp: syncRoute_def syncFullTunnelRoute_def Let_def split: option.splits if_splits)

lemma sync_all_routes:
  "sync_all add_ok ps ns = (acts, ns') \<Longrightarrow> rs_routes4 ns' = rs_routes4 ns \<and> rs_routes6 ns' = rs_routes6 ns \<and> rs_osRoutes ns' = rs_osRoutes ns"
  by (induction ps arbitrary: ns acts ns') (auto split: prod.splits dest!: syncRoute_routes)

lemma same_sync:
  assumes "sync_all add_ok ps ns = (acts, ns')" "fwd ns = fwd (publishFwd ns)"
  shows "redist ns' = redist ns \<and> rs_byNode ns' = rs_byNode ns \<and> rs_routes4 ns' = rs_routes4 ns \<and> rs_routes6 ns' = rs_routes6 ns \<and>
    fwd ns' = fwd (publishFwd ns')"
  using assms(2) sync_all_same [OF assms(1)] sync_all_routes [OF assms(1)] by (simp add: same_table_def publishFwd_def)

lemma dropNodeRoutes_routes:
  assumes "dropNodeRoutes add_ok target (publishFwd ns) = (acts, ns')"
  shows "redist ns' = filter (\<lambda>re. re_origin re \<noteq> target) (redist ns) \<and> rs_byNode ns' = rs_byNode ns \<and>
    rs_routes4 ns' = rs_routes4 ns \<and> rs_routes6 ns' = rs_routes6 ns \<and> fwd ns' = fwd (publishFwd ns')"
proof (cases "redist ns = []")
  case True
  then show ?thesis using assms by (auto simp: dropNodeRoutes_def drop_and_sync_def publishFwd_def)
next
  case False
  then have s: "sync_all add_ok (map re_prefix (filter (\<lambda>re. re_origin re = target) (redist ns)))
      (drop_entries (\<lambda>re. re_origin re = target) (publishFwd ns)) = (acts, ns')"
    using assms by (simp add: dropNodeRoutes_def drop_and_sync_def publishFwd_def)
  have "fwd (drop_entries (\<lambda>re. re_origin re = target) (publishFwd ns)) =
      fwd (publishFwd (drop_entries (\<lambda>re. re_origin re = target) (publishFwd ns)))" by (simp add: drop_entries_def publishFwd_def)
  from same_sync [OF s this] show ?thesis by (simp add: drop_entries_def publishFwd_def)
qed

text \<open>C32: a ban cuts the target off at once where it is issued, and nobody else. The target is banned for the
  lifetime of a ban; of all node records, sessions, seeds, overlay addresses and learned routes exactly those of
  the target are removed and every other one stays; the packet path sees the same tables at once; a session with
  the target is closed, the routes that guard it are removed, and the ban is told to the mesh.\<close>
theorem ban_cuts_off:
  assumes "BanNode now add_ok target nts (Some s) = Inr (acts, s')" "target \<noteq> ban_self s"
  shows "(t < now + banTTL s \<longrightarrow> isBanned t target s') \<and>
    rs_byNode (bn_rt s') = (rs_byNode (bn_rt s))(target := None) \<and> bn_nodes s' = (bn_nodes s)(target := None) \<and>
    redist (bn_rt s') = filter (\<lambda>re. re_origin re \<noteq> target) (redist (bn_rt s)) \<and>
    (\<forall>ep. ep \<in> set (bn_seeds s') \<longleftrightarrow> ep \<in> set (bn_seeds s) \<and>
       \<not> (\<exists>ni. bn_nodes s target = Some ni \<and> ep_valid ep \<and> ep = bi_endpoint ni) \<and>
       \<not> (\<exists>ps. rs_byNode (bn_rt s) target = Some ps \<and> ep = rt_endpoint (rs_sess (bn_rt s) ps))) \<and>
    (\<forall>a. rs_routes4 (bn_rt s') a = (if \<exists>ps. rs_byNode (bn_rt s) target = Some ps \<and> IsValid a \<and> a = rt_overlay4 (rs_sess (bn_rt s) ps) \<and>
         rs_routes4 (bn_rt s) a = Some ps then None else rs_routes4 (bn_rt s) a)) \<and>
    (\<forall>a. rs_routes6 (bn_rt s') a = (if \<exists>ps. rs_byNode (bn_rt s) target = Some ps \<and> IsValid a \<and> a = rt_overlay6 (rs_sess (bn_rt s) ps) \<and>
         rs_routes6 (bn_rt s) a = Some ps then None else rs_routes6 (bn_rt s) a)) \<and>
    fwd (bn_rt s') = Some \<lparr>sn_routes4 = rs_routes4 (bn_rt s'), sn_routes6 = rs_routes6 (bn_rt s'), sn_byNode = rs_byNode (bn_rt s'),
       sn_redist = redist (bn_rt s'), sn_osRoutes = rs_osRoutes (bn_rt s')\<rparr> \<and>
    (\<forall>ps. rs_byNode (bn_rt s) target = Some ps \<longrightarrow> DropSessions target \<in> set acts \<and> DropGuardRoutes ps \<in> set acts) \<and>
    (\<exists>b. last acts = BanFlood (encodeBanAdd b) None \<and> b_target b = target \<and> expiresNano b = now + banTTL s)"
proof -
  define b where "b = \<lparr>b_target = target, b_origin = ban_self s, b_notes = nts, atNano = now, expiresNano = now + banTTL s,
     b_endpoint = endpointOf target s, b_hostname = hostnameOf target s\<rparr>"
  let ?s = "s\<lparr>bans := AList.update (banKey (ban_self s) target) b (bans s)\<rparr>"
  obtain acts1 where ap: "applyBan add_ok target ?s = (acts1, s')" and acts: "acts = acts1 @ [BanFlood (encodeBanAdd b) None]"
    using assms(1) by (auto simp: BanNode_def Let_def b_def split: if_splits prod.splits)
  have b: "b_target b = target" "expiresNano b = now + banTTL s" by (simp_all add: b_def)
  have "map_of (bans s') (banKey (ban_self s) target) = Some b" using applyBan_bans [OF ap] by (simp add: update_conv)
  then have banned: "t < now + banTTL s \<longrightarrow> isBanned t target s'" using b by (auto intro: listed_is_banned)
  obtain ra rt2 where d: "dropNodeRoutes add_ok target (publishFwd (drop_session target (bn_rt s))) = (ra, rt2)" by fastforce
  have s': "bn_rt s' = rt2" "bn_nodes s' = (bn_nodes s)(target := None)"
    "\<forall>ps. rs_byNode (bn_rt s) target = Some ps \<longrightarrow> DropSessions target \<in> set acts1 \<and> DropGuardRoutes ps \<in> set acts1"
    using ap d assms(2) by (auto simp: applyBan_def Let_def ban_self_def)
  have seeds: "ep \<in> set (bn_seeds s') \<longleftrightarrow> ep \<in> set (bn_seeds s) \<and> \<not> (\<exists>ni. bn_nodes s target = Some ni \<and> ep_valid ep \<and> ep = bi_endpoint ni) \<and>
      \<not> (\<exists>ps. rs_byNode (bn_rt s) target = Some ps \<and> ep = rt_endpoint (rs_sess (bn_rt s) ps))" for ep
    using ap d assms(2) by (auto simp: applyBan_def Let_def ban_self_def split: option.splits if_splits)
  have "rs_routes4 (drop_session target rt) a = (if \<exists>ps. rs_byNode rt target = Some ps \<and> IsValid a \<and> a = rt_overlay4 (rs_sess rt ps) \<and>
        rs_routes4 rt a = Some ps then None else rs_routes4 rt a)"
    "rs_routes6 (drop_session target rt) a = (if \<exists>ps. rs_byNode rt target = Some ps \<and> IsValid a \<and> a = rt_overlay6 (rs_sess rt ps) \<and>
        rs_routes6 rt a = Some ps then None else rs_routes6 rt a)"
    "rs_byNode (drop_session target rt) = (rs_byNode rt)(target := None)" "redist (drop_session target rt) = redist rt" for rt a
    by (auto simp: drop_session_def drop_route_def split: option.splits)
  moreover have "fwd rt2 = Some \<lparr>sn_routes4 = rs_routes4 rt2, sn_routes6 = rs_routes6 rt2, sn_byNode = rs_byNode rt2,
      sn_redist = redist rt2, sn_osRoutes = rs_osRoutes rt2\<rparr>"
    using dropNodeRoutes_routes [OF d] by (simp add: publishFwd_def)
  moreover have "\<exists>b. last acts = BanFlood (encodeBanAdd b) None \<and> b_target b = target \<and> expiresNano b = now + banTTL s"
    using b acts by (intro exI [of _ b]) simp
  moreover have "\<forall>ps. rs_byNode (bn_rt s) target = Some ps \<longrightarrow> DropSessions target \<in> set acts \<and> DropGuardRoutes ps \<in> set acts"
    using s'(3) acts by simp
  ultimately show ?thesis using dropNodeRoutes_routes [OF d] s'(1,2) seeds banned by simp
qed

section \<open>Examples\<close>

definition ex_ban_node :: "string \<Rightarrow> ban_state" where
  "ex_ban_node me = \<lparr>bn_rt = ex_node\<lparr>rs_nodeID := me, rs_byNode := Map.empty\<rparr>, bans = [], bn_nodes = Map.empty, bn_seeds = [],
     seedBackoff = (\<lambda>_. False), banTTL = 10, bn_hostname = []\<rparr>"

definition ex_ban_result :: "ban_act list \<times> ban_state" where
  "ex_ban_result = projr (BanNode 0 (\<lambda>_ _. True) ''z'' [] (Some (ex_ban_node ''a'')))"

definition ex_ban_msg :: bytes where "ex_ban_msg = hd (ban_floods (fst ex_ban_result))"

lemma ex_ban_done: "BanNode 0 (\<lambda>_ _. True) ''z'' [] (Some (ex_ban_node ''a'')) = Inr (fst ex_ban_result, snd ex_ban_result)"
  unfolding ex_ban_result_def BanNode_def Let_def by (simp split: prod.split)

lemma ex_ban_msg_facts:
  "ban_floods (fst ex_ban_result) = [ex_ban_msg]" "ban_msg ''a'' ''z'' ex_ban_msg" "ban_stamp ex_ban_msg = 10"
  "ban_version ''a'' ''z'' (snd ex_ban_result) = Some 10" "ban_version ''a'' ''z'' (ex_ban_node ''a'') = None"
  by code_simp+

lemma ex_ban_published:
  "ban_publish (\<lambda>_ _. True) ''a'' ''z'' (ex_ban_node ''a'') ex_ban_msg (snd ex_ban_result)"
proof -
  have "ban_self (ex_ban_node ''a'') = ''a''" "banTTL (ex_ban_node ''a'') = 10" by (simp_all add: ban_self_def ex_ban_node_def)
  then show ?thesis using ex_ban_done ex_ban_msg_facts unfolding ban_publish_def int64_def by fastforce
qed

definition ex_pair :: "nat \<Rightarrow> nat list" where "ex_pair n = (if n = 0 then [1] else if n = 1 then [0] else [])"
definition ex_ban_start :: "nat \<Rightarrow> ban_state" where "ex_ban_start n = ex_ban_node (if n = 0 then ''a'' else ''b'')"

lemma ex_ban_reach:
  "ban_reach ''a'' ''z'' (\<lambda>_ _. True) ex_pair (ex_ban_start(0 := snd ex_ban_result), {#(0, 1, ex_ban_msg)#})"
proof -
  have "no_ban ''a'' ''z'' ex_ban_start" by (simp add: no_ban_def ex_ban_start_def ex_ban_node_def)
  then have "ban_reach ''a'' ''z'' (\<lambda>_ _. True) ex_pair (ex_ban_start, {#})" by (rule reach_start)
  from reach_publish [OF this, of 0 ex_ban_msg "snd ex_ban_result"]
  show ?thesis using ex_ban_published by (simp add: ex_ban_start_def pass_on_def ex_pair_def)
qed

lemma ban_flood_ends_witness:
  "\<exists>C. (mesh_step (ban_recv (\<lambda>_ _. True)) ex_pair ^^ 1) (ex_ban_start(0 := snd ex_ban_result), {#(0, 1, ex_ban_msg)#}) C \<and>
     1 \<le> size {#(0 :: nat, 1 :: nat, ex_ban_msg)#} + (1 + 1) * (card {0 :: nat, 1} * card {10 :: int})"
proof -
  let ?N = "ex_ban_start(0 := snd ex_ban_result)" and ?M = "{#(0 :: nat, 1 :: nat, ex_ban_msg)#}"
  have "mesh_step (ban_recv (\<lambda>_ _. True)) ex_pair (?N, ?M) (mesh_deliver (ban_recv (\<lambda>_ _. True)) ex_pair (0, 1, ex_ban_msg) (?N, ?M))"
    by (rule mesh_step) simp
  then have s: "(mesh_step (ban_recv (\<lambda>_ _. True)) ex_pair ^^ 1) (?N, ?M)
      (mesh_deliver (ban_recv (\<lambda>_ _. True)) ex_pair (0, 1, ex_ban_msg) (?N, ?M))" unfolding relpowp_1 .
  have "1 \<le> size ?M + (1 + 1) * (card {0 :: nat, 1} * card {10 :: int})"
    by (rule ban_flood_ends [OF ex_ban_reach s]) (auto simp: ex_ban_msg_facts ex_pair_def)
  then show ?thesis using s by blast
qed

lemma ex_pair_sym: "b \<in> set (ex_pair a) \<Longrightarrow> a \<in> set (ex_pair b)"
  by (simp add: ex_pair_def split: if_splits)

lemma ban_reaches_everyone_witness:
  "\<exists>s1. ban_reach ''a'' ''z'' (\<lambda>_ _. True) ex_pair (ex_ban_start(0 := snd ex_ban_result, 1 := s1), {#}) \<and> isBanned 5 ''z'' s1"
proof -
  let ?N = "ex_ban_start(0 := snd ex_ban_result)" and ?M = "{#(0 :: nat, 1 :: nat, ex_ban_msg)#}"
  obtain m s1 where r: "ban_recv (\<lambda>_ _. True) 0 ex_ban_msg (ex_ban_node ''b'') = (m, s1)" by fastforce
  have "\<not> Option.is_none (fst (ban_recv (\<lambda>_ _. True) 0 ex_ban_msg (ex_ban_node ''b'')))" by code_simp
  then obtain x where "m = Some x" using r by (cases m) auto
  then have "mesh_deliver (ban_recv (\<lambda>_ _. True)) ex_pair (0, 1, ex_ban_msg) (?N, ?M) = (?N(1 := s1), {#})"
    using r by (simp add: ex_ban_start_def ex_pair_def pass_on_def)
  moreover have "mesh_step (ban_recv (\<lambda>_ _. True)) ex_pair (?N, ?M) (mesh_deliver (ban_recv (\<lambda>_ _. True)) ex_pair (0, 1, ex_ban_msg) (?N, ?M))"
    by (rule mesh_step) simp
  ultimately have q: "ban_reach ''a'' ''z'' (\<lambda>_ _. True) ex_pair (?N(1 := s1), {#})"
    using reach_step [OF ex_ban_reach] by simp
  have "isBanned 5 ''z'' ((?N(1 := s1)) 1)"
    using ban_reaches_everyone [OF q ex_pair_sym, of 0 1 10 5] r_into_rtranclp [of "\<lambda>a b. b \<in> set (ex_pair a)" 0 1] ex_ban_msg_facts(4)
    by (simp add: ex_pair_def)
  then show ?thesis using q by auto
qed

lemma unban_undone_witness:
  "\<exists>acts s2 s3. UnbanNode ''z'' (Some (snd ex_ban_result)) = Inr (acts, s2) \<and>
     snd (onBanAdd (\<lambda>_ _. True) 1 ex_ban_msg s2) = s3 \<and> isBanned 5 ''z'' s3"
proof -
  have "isl (UnbanNode ''z'' (Some (snd ex_ban_result))) = False" by code_simp
  then obtain acts s2 where u: "UnbanNode ''z'' (Some (snd ex_ban_result)) = Inr (acts, s2)"
    by (cases "UnbanNode ''z'' (Some (snd ex_ban_result))") auto
  obtain a3 s3 where o3: "onBanAdd (\<lambda>_ _. True) 1 ex_ban_msg s2 = (a3, s3)" by fastforce
  have "ban_self (ex_ban_node ''a'') = ''a''" "banTTL (ex_ban_node ''a'') = 10" by (simp_all add: ban_self_def ex_ban_node_def)
  then have "isBanned 5 ''z'' s3"
    using unban_undone [OF ex_ban_done _ u o3, of 5] ex_ban_msg_facts(1) by (simp add: int64_def)
  then show ?thesis using u o3 by auto
qed

lemma ban_cuts_off_witness: "isBanned 5 ''z'' (snd ex_ban_result)"
  using ban_cuts_off [OF ex_ban_done, of 5] by (simp add: ban_self_def ex_ban_node_def)

section \<open>The break-glass unban\<close>

lemma redial_all_same: "redial_all eps s = (acts, s') \<Longrightarrow> bans s' = bans s \<and> ban_self s' = ban_self s"
  by (induction eps arbitrary: s acts s') (fastforce dest!: redial_same split: prod.splits)+

lemma wildcard_clears:
  assumes "decodeBanDel body = Some ([], target)" "onBanDel ps body og = (acts, og1)"
  shows "\<forall>(k, b) \<in> set (bans og1). b_target b \<noteq> target"
proof (cases "filter (\<lambda>(k, b). b_target b = target) (bans og) = []")
  case True
  then have "og1 = og" using assms by (simp add: onBanDel_def Let_def)
  then show ?thesis using True by (auto simp: filter_empty_conv)
next
  case False
  obtain a n where r: "redial_all (map (\<lambda>(_, b). b_endpoint b) (filter (\<lambda>(k, b). b_target b = target) (bans og)))
      (og\<lparr>bans := filter (\<lambda>x. \<not> (case x of (k, b) \<Rightarrow> b_target b = target)) (bans og)\<rparr>) = (a, n)" by fastforce
  then have "og1 = n" using assms False by (simp add: onBanDel_def Let_def)
  then show ?thesis using redial_all_same [OF r] by auto
qed

text \<open>a forced unban also lifts the ban at the node that issued it: once the issuing node has received the wildcard
  removal it holds no ban on the target, and its next refresh does not assert the ban again, although the
  node is alive.\<close>
theorem force_unban_silences_origin:
  assumes "ForceUnban target (Some s) = Inr (acts, s1)" "length target \<le> 255"
    and "onBanDel ps (tl (encodeBanDel [] target)) og = (acts', og1)"
  shows "hd acts = BanFlood (encodeBanDel [] target) None \<and> \<not> isBanned u target s1 \<and>
    \<not> isBanned u target (snd (refreshBans t og1)) \<and> \<not> isBanned u target og1"
proof -
  obtain eps where "redial_all eps (s\<lparr>bans := filter (\<lambda>(_, b). b_target b \<noteq> target) (bans s)\<rparr>) = (tl acts, s1)"
    and hd: "hd acts = BanFlood (encodeBanDel [] target) None"
    using assms(1) by (auto simp: ForceUnban_def Let_def split: prod.splits)
  from redial_all_same [OF this(1)] have s1: "\<not> isBanned u target s1" by (auto simp: isBanned_def list_ex_iff)
  have "decodeBanDel (tl (encodeBanDel [] target)) = Some ([], target)"
    using ban_del_body [of "[]" target "[]"] assms(2) by (auto simp: clip255_def)
  then have "\<forall>(k, b) \<in> set (bans og1). b_target b \<noteq> target" by (rule wildcard_clears [OF _ assms(3)])
  then show ?thesis using hd s1 by (fastforce simp: isBanned_def list_ex_iff refreshBans_def Let_def split: if_splits)
qed

lemma force_unban_silences_origin_witness:
  "isBanned 5 ''z'' (snd ex_ban_result) \<and>
   \<not> isBanned 5 ''z'' (snd (refreshBans 3 (snd (onBanDel 1 (tl (encodeBanDel [] ''z'')) (snd ex_ban_result)))))"
proof -
  obtain acts s1 where f: "ForceUnban ''z'' (Some (ex_ban_node ''b'')) = Inr (acts, s1)"
    by (cases "ForceUnban ''z'' (Some (ex_ban_node ''b''))") (auto simp: ForceUnban_def Let_def split: prod.splits)
  obtain a og1 where d: "onBanDel 1 (tl (encodeBanDel [] ''z'')) (snd ex_ban_result) = (a, og1)" by fastforce
  have "isBanned 5 ''z'' (snd ex_ban_result)" by code_simp
  then show ?thesis using force_unban_silences_origin [OF f _ d, of 5 3] d by simp
qed

end
