(* ===== verification/Hosts_File.thy ===== *)
theory Hosts_File
  imports Net_Parse "HOL-Library.Multiset"
begin

text \<open>
  The managed block of the hosts file (internal/hosts/hosts.go): \<open>Render\<close> replaces the lines between the
  markers of a tag by the entries of a network and leaves the other lines. \<open>sort.Slice\<close> by name
  leaves entries of one name in any order, so the sorting function is an argument of which only what
  \<open>sort.Slice\<close> promises is used. A line ends in a newline; text is a list of bytes, here characters.
  The width verb of a format pads an address by its bytes.
\<close>

definition nl :: char where "nl = CHR 0x0A"

record host_entry =
  Hostname :: string
  V4 :: addr
  V6 :: addr

definition begin_mark :: "string \<Rightarrow> string" where "begin_mark tag = ''# BEGIN gravinet '' @ tag"
definition end_mark :: "string \<Rightarrow> string" where "end_mark tag = ''# END gravinet '' @ tag"

fun kept_lines :: "string \<Rightarrow> bool \<Rightarrow> string list \<Rightarrow> string list" where
  "kept_lines tag inBlock [] = []"
| "kept_lines tag inBlock (ln # lns) =
     (let t = TrimSpace ln
      in if t = begin_mark tag then kept_lines tag True lns
         else if t = end_mark tag then kept_lines tag False lns
         else if inBlock then kept_lines tag inBlock lns
         else ln # kept_lines tag inBlock lns)"

definition drop_blank :: "string list \<Rightarrow> string list" where
  "drop_blank lns = rev (dropWhile (\<lambda>ln. TrimSpace ln = []) (rev lns))"

definition pad_right :: "nat \<Rightarrow> string \<Rightarrow> string" where
  "pad_right n s = s @ replicate (n - length s) CHR 0x20"

definition entry_lines :: "host_entry \<Rightarrow> string list" where
  "entry_lines e =
     (if Hostname e = [] then []
      else (if IsValid (V4 e) then [pad_right 15 (addr_String (V4 e)) @ CHR 0x20 # Hostname e] else []) @
           (if IsValid (V6 e) then [pad_right 39 (addr_String (V6 e)) @ CHR 0x20 # Hostname e] else []))"

definition unlines :: "string list \<Rightarrow> string" where "unlines lns = concat (map (\<lambda>l. l @ [nl]) lns)"

definition renderBlock :: "(host_entry list \<Rightarrow> host_entry list) \<Rightarrow> string \<Rightarrow> host_entry list \<Rightarrow> string" where
  "renderBlock srt tag es = unlines ([begin_mark tag] @ concat (map entry_lines (srt es)) @ [end_mark tag])"

definition Render :: "(host_entry list \<Rightarrow> host_entry list) \<Rightarrow> string \<Rightarrow> string \<Rightarrow> host_entry list \<Rightarrow> string" where
  "Render srt existing tag es =
     (let kept = drop_blank (kept_lines tag False (SplitOn existing nl));
          b = (if kept = [] then [] else join [nl] kept @ [nl])
      in if es = [] then b
         else b @ (if b = [] then [] else [nl]) @ renderBlock srt tag es)"

section \<open>What the file says\<close>

text \<open>Said of the positions of the lines, without the code's loop: a line that is no marker is in the block
  of a tag when an opening marker stands before it and no closing one in between; the others that are
  no markers are outside. Lines at the end that are blank do not count.\<close>

definition is_mark :: "string \<Rightarrow> string \<Rightarrow> bool" where
  "is_mark tag ln \<longleftrightarrow> TrimSpace ln = begin_mark tag \<or> TrimSpace ln = end_mark tag"

definition opened :: "string \<Rightarrow> string list \<Rightarrow> nat \<Rightarrow> bool" where
  "opened tag lns i \<longleftrightarrow> (\<exists>j < i. TrimSpace (lns ! j) = begin_mark tag \<and> (\<forall>k < i. j < k \<longrightarrow> TrimSpace (lns ! k) \<noteq> end_mark tag))"

definition lines_where :: "string list \<Rightarrow> (nat \<Rightarrow> bool) \<Rightarrow> string list" where
  "lines_where lns P = map ((!) lns) (filter P [0..<length lns])"

fun without_end_blanks :: "string list \<Rightarrow> string list" where
  "without_end_blanks [] = []"
| "without_end_blanks (ln # lns) =
     (if list_all (\<lambda>l. TrimSpace l = []) (ln # lns) then [] else ln # without_end_blanks lns)"

definition outside :: "string \<Rightarrow> string \<Rightarrow> string list" where
  "outside tag f =
     (let lns = SplitOn f nl in without_end_blanks (lines_where lns (\<lambda>i. \<not> is_mark tag (lns ! i) \<and> \<not> opened tag lns i)))"

definition inside :: "string \<Rightarrow> string \<Rightarrow> string list" where
  "inside tag f = (let lns = SplitOn f nl in lines_where lns (\<lambda>i. \<not> is_mark tag (lns ! i) \<and> opened tag lns i))"

definition tag_ok :: "string \<Rightarrow> bool" where
  "tag_ok tag \<longleftrightarrow> tag \<noteq> [] \<and> (\<forall>c \<in> set tag. c \<in> set ''0123456789abcdef'')"

definition sorts :: "(host_entry list \<Rightarrow> host_entry list) \<Rightarrow> bool" where
  "sorts srt \<longleftrightarrow> (\<forall>es. mset (srt es) = mset es \<and> sorted_wrt (\<lambda>a b. str_cmp (Hostname a) (Hostname b) \<le> 0) (srt es))"

definition one_line :: "host_entry \<Rightarrow> bool" where
  "one_line e \<longleftrightarrow> nl \<notin> set (Hostname e) \<and> nl \<notin> set (addr_String (V4 e)) \<and> nl \<notin> set (addr_String (V6 e))"

section \<open>Lines\<close>

lemma SplitOn_at: "SplitOn (a @ c # b) c = SplitOn a c @ SplitOn b c"
  by (induction a) (auto split: list.splits)

lemma SplitOn_lines: "ln \<in> set (SplitOn s c) \<Longrightarrow> c \<notin> set ln"
  by (induction s arbitrary: ln) (auto split: list.splits if_splits)

lemma SplitOn_unlines: "(\<forall>l \<in> set ls. nl \<notin> set l) \<Longrightarrow> SplitOn (unlines ls) nl = ls @ [[]]"
  by (induction ls) (simp_all add: unlines_def SplitOn_append)

lemma unlines_append: "unlines (a @ b) = unlines a @ unlines b"
  by (simp add: unlines_def)

lemma join_unlines: "ls \<noteq> [] \<Longrightarrow> join [nl] ls @ [nl] = unlines ls"
proof (cases ls)
  case (Cons l r)
  have "concat (map ((@) [nl]) r) @ [nl] = nl # unlines r" by (induction r) (simp_all add: unlines_def)
  then show ?thesis by (simp add: Cons join_def unlines_def)
qed simp

fun block_lines :: "string \<Rightarrow> bool \<Rightarrow> string list \<Rightarrow> string list" where
  "block_lines tag inBlock [] = []"
| "block_lines tag inBlock (ln # lns) =
     (let t = TrimSpace ln
      in if t = begin_mark tag then block_lines tag True lns
         else if t = end_mark tag then block_lines tag False lns
         else if inBlock then ln # block_lines tag inBlock lns
         else block_lines tag inBlock lns)"

lemma marks_differ [simp]: "begin_mark tag \<noteq> end_mark tag" "end_mark tag \<noteq> begin_mark tag"
  by (simp_all add: begin_mark_def end_mark_def)

text \<open>The code's loop, started inside a block or not.\<close>

definition opened_from :: "string \<Rightarrow> bool \<Rightarrow> string list \<Rightarrow> nat \<Rightarrow> bool" where
  "opened_from tag b lns i \<longleftrightarrow> opened tag lns i \<or> b \<and> (\<forall>k < i. TrimSpace (lns ! k) \<noteq> end_mark tag)"

lemma opened_0 [simp]: "opened_from tag b lns 0 = b" by (simp add: opened_from_def opened_def)

lemma opened_Suc [simp]:
  "opened_from tag b (ln # lns) (Suc i) =
     opened_from tag (if TrimSpace ln = begin_mark tag then True else if TrimSpace ln = end_mark tag then False else b) lns i"
  by (auto simp: opened_from_def opened_def Ex_less_Suc2 All_less_Suc2)

lemma lines_where_Cons:
  "lines_where (ln # lns) P = (if P 0 then [ln] else []) @ lines_where lns (\<lambda>i. P (Suc i))"
proof -
  have "[0..<length (ln # lns)] = 0 # map Suc [0..<length lns]" by (simp add: upt_conv_Cons map_Suc_upt del: upt_Suc)
  then show ?thesis by (simp add: lines_where_def filter_map comp_def)
qed

lemma loop_lines:
  "kept_lines tag b lns = lines_where lns (\<lambda>i. \<not> is_mark tag (lns ! i) \<and> \<not> opened_from tag b lns i)"
  "block_lines tag b lns = lines_where lns (\<lambda>i. \<not> is_mark tag (lns ! i) \<and> opened_from tag b lns i)"
  by (induction lns arbitrary: b) (simp_all add: lines_where_Cons is_mark_def Let_def, simp_all add: lines_where_def)

lemma drop_blank_Cons: "drop_blank (ln # lns) = (if list_all (\<lambda>l. TrimSpace l = []) (ln # lns) then [] else ln # drop_blank lns)"
  by (auto simp: drop_blank_def dropWhile_append list_all_iff dropWhile_eq_Nil_conv)

lemma drop_blank_end: "drop_blank lns = without_end_blanks lns"
  by (induction lns) (simp_all add: drop_blank_Cons, simp add: drop_blank_def)

lemma outside_code: "outside tag f = drop_blank (kept_lines tag False (SplitOn f nl))"
  by (simp add: outside_def Let_def drop_blank_end loop_lines opened_from_def)

lemma inside_code: "inside tag f = block_lines tag False (SplitOn f nl)"
  by (simp add: inside_def Let_def loop_lines opened_from_def)

lemma kept_append:
  "\<forall>ln \<in> set xs. TrimSpace ln \<noteq> begin_mark tag \<and> TrimSpace ln \<noteq> end_mark tag \<Longrightarrow>
     kept_lines tag False (xs @ ys) = xs @ kept_lines tag False ys \<and> block_lines tag False (xs @ ys) = block_lines tag False ys \<and>
     kept_lines tag True (xs @ ys) = kept_lines tag True ys \<and> block_lines tag True (xs @ ys) = xs @ block_lines tag True ys"
  by (induction xs) (simp_all add: Let_def)

lemma kept_no_marks:
  "ln \<in> set (kept_lines tag b lns) \<Longrightarrow> TrimSpace ln \<noteq> begin_mark tag \<and> TrimSpace ln \<noteq> end_mark tag \<and> ln \<in> set lns"
  by (induction lns arbitrary: b) (auto simp: Let_def split: if_splits)

lemma drop_blank_set: "ln \<in> set (drop_blank lns) \<Longrightarrow> ln \<in> set lns"
  unfolding drop_blank_def by (metis set_dropWhileD set_rev)

lemma drop_blank_idem: "drop_blank (drop_blank lns) = drop_blank lns"
  by (simp add: drop_blank_def)

lemma drop_blank_snoc: "TrimSpace ln = [] \<Longrightarrow> drop_blank (lns @ [ln]) = drop_blank lns"
  by (simp add: drop_blank_def)

lemma drop_blank_keeps: "ln \<in> set lns \<Longrightarrow> TrimSpace ln \<noteq> [] \<Longrightarrow> ln \<in> set (drop_blank lns)"
  unfolding drop_blank_def by (induction lns rule: rev_induct) auto

section \<open>Trimming\<close>

definition space_byte :: "char \<Rightarrow> bool" where
  "space_byte c \<longleftrightarrow> (\<exists>w \<in> set space_seqs. hd w = c \<or> last w = c)"

lemma trim_head:
  assumes "\<forall>w \<in> set ws. w \<noteq> [] \<and> hd w \<noteq> c"
  shows "trim_with ws n (c # s) = c # s"
proof (cases n)
  case (Suc m)
  have "find (HasPrefix (c # s)) ws = None" using assms by (auto simp: find_None_iff HasPrefix_iff) (metis list.sel(1) append_is_Nil_conv hd_append2)
  then show ?thesis by (simp add: Suc)
qed simp

lemma trim_suffix: "\<exists>p. s = p @ trim_with ws n s"
proof (induction n arbitrary: s)
  case (Suc n)
  show ?case
  proof (cases "find (HasPrefix s) ws")
    case (Some w)
    obtain p where "drop (length w) s = p @ trim_with ws n (drop (length w) s)" using Suc by blast
    then have "s = (take (length w) s @ p) @ trim_with ws n (drop (length w) s)" by (metis append.assoc append_take_drop_id)
    then show ?thesis using Some by (intro exI [of _ "take (length w) s @ p"]) simp
  qed simp
qed simp

lemma TrimSpace_head:
  assumes "\<not> space_byte c"
  shows "TrimSpace (c # s) = [] \<or> hd (TrimSpace (c # s)) = c"
proof -
  have "TrimLeft (c # s) = c # s"
    unfolding TrimLeft_def using assms by (intro trim_head) (auto simp: space_byte_def dest: space_seqs_ne)
  moreover obtain p where "rev (c # s) = p @ trim_with (map rev space_seqs) (length (c # s)) (rev (c # s))" using trim_suffix by blast
  then have "c # s = TrimRight (c # s) @ rev p" unfolding TrimRight_def by (metis rev_append rev_rev_ident)
  ultimately show ?thesis unfolding TrimSpace_def by (metis append_eq_Cons_conv list.sel(1))
qed

lemma TrimSpace_same:
  assumes "s \<noteq> []" "\<not> space_byte (hd s)" "\<not> space_byte (last s)"
  shows "TrimSpace s = s"
proof -
  obtain c r where s: "s = c # r" using assms(1) by (cases s) auto
  have l: "TrimLeft s = s"
    unfolding TrimLeft_def s using assms(2) s by (intro trim_head) (auto simp: space_byte_def dest: space_seqs_ne)
  obtain d q where d: "rev s = d # q" "d = last s" using assms(1) by (metis append_butlast_last_id rev.simps(2) rev_append rev_is_Nil_conv rev_singleton_conv append_Cons append_Nil)
  have "trim_with (map rev space_seqs) (length s) (rev s) = rev s"
    unfolding d(1) using assms(3) d(2) by (intro trim_head) (auto simp: space_byte_def hd_rev dest: space_seqs_ne)
  then show ?thesis using l by (simp add: TrimSpace_def TrimRight_def)
qed


lemma mark_trims: "tag_ok tag \<Longrightarrow> TrimSpace (begin_mark tag) = begin_mark tag \<and> TrimSpace (end_mark tag) = end_mark tag"
proof -
  assume t: "tag_ok tag"
  then have "last tag \<in> set ''0123456789abcdef''" using last_in_set [of tag] unfolding tag_ok_def by blast
  moreover have "\<forall>c \<in> set (CHR ''#'' # ''0123456789abcdef''). \<not> space_byte c" by (simp add: space_byte_def space_seqs_def)
  ultimately have sp: "\<not> space_byte (last tag)" "\<not> space_byte CHR ''#''" unfolding list.set insert_iff by blast+
  have "tag \<noteq> []" using t by (simp add: tag_ok_def)
  then show ?thesis using sp unfolding begin_mark_def end_mark_def
    by (intro conjI TrimSpace_same) simp_all
qed

lemma mark_one_line: "tag_ok tag \<Longrightarrow> nl \<notin> set (begin_mark tag) \<and> nl \<notin> set (end_mark tag)"
proof -
  assume "tag_ok tag"
  moreover have "nl \<notin> set ''0123456789abcdef''" by (simp add: nl_def)
  ultimately have "nl \<notin> set tag" unfolding tag_ok_def by blast
  then show ?thesis by (simp add: begin_mark_def end_mark_def nl_def)
qed

section \<open>Printed addresses\<close>

definition addr_chars :: string where "addr_chars = ''0123456789abcdef:''"

lemma hex_digit_chars: "d < 16 \<Longrightarrow> hex_digit d \<in> set addr_chars"
proof -
  assume "d < 16"
  moreover have "list_all (\<lambda>d. hex_digit d \<in> set addr_chars) [0..<16]" by code_simp
  ultimately show ?thesis by (simp add: list_all_iff)
qed

lemma hex_text_hd: "n < 65536 \<Longrightarrow> hex_text n \<noteq> [] \<and> hd (hex_text n) \<in> set addr_chars"
  by (auto simp: hex_text_def intro!: hex_digit_chars)

lemma Itoa_nat_chars: "hd (Itoa_nat n) \<in> set addr_chars"
proof -
  have "Itoa_nat n \<noteq> []" by simp
  then obtain d where d: "d < 10" "hd (Itoa_nat n) = char_of (48 + d :: nat)" using Itoa_nat_digits [of "hd (Itoa_nat n)" n] by auto
  have "list_all (\<lambda>d. char_of (48 + d :: nat) \<in> set addr_chars) [0..<10]" by code_simp
  then show ?thesis using d by (simp add: list_all_iff)
qed

lemma join_hd: "ss \<noteq> [] \<Longrightarrow> hd ss \<noteq> [] \<Longrightarrow> join sep ss \<noteq> [] \<and> hd (join sep ss) = hd (hd ss)"
  by (cases ss) (simp_all add: join_def)

lemma v6_groups_bound: "g \<in> set (v6_groups w) \<Longrightarrow> g < 65536"
  using take_bit_nat_less_exp [of 16] by (auto simp: v6_groups_def unsigned_take_bit_eq)

lemma groups_hd: "gs \<noteq> [] \<Longrightarrow> \<forall>g \<in> set gs. g < 65536 \<Longrightarrow>
    join '':'' (map hex_text gs) \<noteq> [] \<and> hd (join '':'' (map hex_text gs)) \<in> set addr_chars"
  using join_hd [of "map hex_text gs" "'':''"] hex_text_hd [of "hd gs"] by (simp add: hd_map)

lemma addr_String_hd: "IsValid a \<Longrightarrow> addr_String a \<noteq> [] \<and> hd (addr_String a) \<in> set addr_chars"
proof (cases a)
  case (Addr4 w)
  then show ?thesis using join_hd [of "map (\<lambda>b. Itoa_nat (unat b)) (put32 w)" "''.''"] Itoa_nat_chars
    by (simp add: put32_def)
next
  case (Addr6 w z)
  obtain s l where b: "best_run (v6_groups w) = (s, l)" by fastforce
  have g: "\<forall>g \<in> set (v6_groups w). g < 65536" "v6_groups w \<noteq> []" by (simp add: v6_groups_bound) (simp add: v6_groups_def)
  have "s > 0 \<Longrightarrow> take s (v6_groups w) \<noteq> [] \<and> (\<forall>g \<in> set (take s (v6_groups w)). g < 65536)" using g by (auto dest: in_set_takeD)
  note t = groups_hd [OF conjunct1 [OF this] conjunct2 [OF this]]
  have c: "CHR '':'' \<in> set addr_chars" by code_simp
  have "hd (''::'' @ x) \<in> set addr_chars" for x using c by simp
  then show ?thesis using b t groups_hd [OF g(2,1)] c
    by (cases "s = 0") (auto simp: Addr6 Let_def join_def hd_append)
qed (simp add: IsValid_def)

lemma addr_line_trim:
  assumes "IsValid a" "ln = pad_right n (addr_String a) @ x"
  shows "TrimSpace ln \<noteq> begin_mark tag \<and> TrimSpace ln \<noteq> end_mark tag"
proof -
  obtain c r where ln: "ln = c # r" "c \<in> set addr_chars"
    using addr_String_hd [OF assms(1)] assms(2) by (cases "addr_String a") (auto simp: pad_right_def)
  have "\<forall>c \<in> set addr_chars. \<not> space_byte c \<and> c \<noteq> CHR ''#''" by (simp add: addr_chars_def space_byte_def space_seqs_def)
  then have "\<not> space_byte c" "c \<noteq> CHR ''#''" using ln(2) by blast+
  then have "TrimSpace ln = [] \<or> hd (TrimSpace ln) \<noteq> CHR ''#''" using TrimSpace_head [of c r] ln(1) by auto
  then show ?thesis by (auto simp: begin_mark_def end_mark_def)
qed

lemma entry_line_trim: "ln \<in> set (entry_lines e) \<Longrightarrow> TrimSpace ln \<noteq> begin_mark tag \<and> TrimSpace ln \<noteq> end_mark tag"
  by (auto simp: entry_lines_def dest!: addr_line_trim [OF _ refl] split: if_splits)

section \<open>What a rendering keeps and writes\<close>

lemma Render_lines:
  "Render srt f tag es =
     unlines (outside tag f @ (if es = [] then [] else (if outside tag f = [] then [] else [[]]) @
       [begin_mark tag] @ concat (map entry_lines (srt es)) @ [end_mark tag]))"
  using join_unlines [of "outside tag f"]
  by (auto simp: Render_def Let_def outside_code [symmetric] renderBlock_def unlines_append) (auto simp: unlines_def)

lemma srt_set: "sorts srt \<Longrightarrow> set (srt es) = set es"
  by (metis sorts_def set_mset_mset)

lemma TrimSpace_Nil [simp]: "TrimSpace [] = []"
  by (simp add: TrimSpace_def TrimLeft_def TrimRight_def)

lemma outside_no_marks: "\<forall>ln \<in> set (outside tag f). TrimSpace ln \<noteq> begin_mark tag \<and> TrimSpace ln \<noteq> end_mark tag \<and> nl \<notin> set ln"
  using kept_no_marks SplitOn_lines by (fastforce simp: outside_code dest!: drop_blank_set)

lemma Render_reads_back:
  assumes "tag_ok tag" "sorts srt" "\<forall>e \<in> set es. one_line e"
  shows "outside tag (Render srt f tag es) = outside tag f" "inside tag (Render srt f tag es) = concat (map entry_lines (srt es))"
proof -
  let ?o = "outside tag f" and ?el = "concat (map entry_lines (srt es))"
  note o = outside_no_marks [of tag f]
  have el: "\<forall>ln \<in> set ?el. TrimSpace ln \<noteq> begin_mark tag \<and> TrimSpace ln \<noteq> end_mark tag"
    using entry_line_trim by auto
  have "\<forall>ln \<in> set ?el. nl \<notin> set ln"
    using assms(3) srt_set [OF assms(2)] by (auto simp: entry_lines_def one_line_def pad_right_def nl_def)
  then have lines: "SplitOn (Render srt f tag es) nl = (?o @ (if es = [] then [] else (if ?o = [] then [] else [[]]) @
      [begin_mark tag] @ ?el @ [end_mark tag])) @ [[]]"
    unfolding Render_lines using o mark_one_line [OF assms(1)] by (intro SplitOn_unlines) auto
  have ne: "TrimSpace [] \<noteq> begin_mark tag" "TrimSpace [] \<noteq> end_mark tag" by (simp_all add: begin_mark_def end_mark_def)
  have dr: "drop_blank (?o @ [[]]) = ?o" "drop_blank (?o @ [[], []]) = ?o"
    using drop_blank_snoc [of "[]" ?o] drop_blank_snoc [of "[]" "?o @ [[]]"] by (simp_all add: outside_code drop_blank_idem)
  have "drop_blank [[]] = []" by (simp add: drop_blank_def)
  note dr = dr this
  have oo: "drop_blank ?o = ?o" by (simp add: outside_code drop_blank_idem)
  note ko = kept_append [of ?o tag, OF ballI] and ke = kept_append [OF el]
  have tr: "TrimSpace (begin_mark tag) = begin_mark tag" "TrimSpace (end_mark tag) = end_mark tag" using mark_trims [OF assms(1)] by auto
  show "outside tag (Render srt f tag es) = ?o"
    unfolding outside_code [of tag "Render srt f tag es"] lines
    using o ne tr ke oo dr by (simp add: ko Let_def)
  show "inside tag (Render srt f tag es) = ?el"
    unfolding inside_code lines using o ne tr ke srt_set [OF assms(2), of es] srt_set [OF assms(2), of "[]"]
    by (simp add: ko Let_def)
qed



section \<open>A name with line breaks\<close>

lemma unlines_split: "unlines (a @ [x @ nl # y] @ b) = unlines (a @ [x, y] @ b)"
  by (simp add: unlines_def)

text \<open>A host name is written as it is. One that contains the closing marker of the block makes what follows it a
  line outside of the block, which no later writing removes.\<close>
lemma planted_line:
  assumes "tag_ok tag" "sorts srt" "Hostname e = h @ nl # end_mark tag @ nl # evil" "V6 e = NoAddr" "IsValid (V4 e)"
    and "nl \<notin> set (h @ evil @ addr_String (V4 e))" "TrimSpace evil \<notin> {[], begin_mark tag, end_mark tag}"
  shows "evil \<in> set (outside tag (Render srt f tag [e]))"
proof -
  let ?o = "outside tag f" and ?l = "pad_right 15 (addr_String (V4 e)) @ CHR 0x20 # h"
  define pre where "pre = ?o @ (if ?o = [] then [] else [[]])"
  have "\<forall>ln \<in> set ?o. TrimSpace ln \<noteq> begin_mark tag \<and> TrimSpace ln \<noteq> end_mark tag \<and> nl \<notin> set ln" by (rule outside_no_marks)
  moreover have "[] \<noteq> begin_mark tag" "[] \<noteq> end_mark tag" by (simp_all add: begin_mark_def end_mark_def)
  ultimately have o: "\<forall>ln \<in> set pre. TrimSpace ln \<noteq> begin_mark tag \<and> TrimSpace ln \<noteq> end_mark tag \<and> nl \<notin> set ln"
    by (simp add: pre_def)
  have "mset (srt [e]) = {#e#}" using assms(2) by (simp add: sorts_def)
  then have "srt [e] = [e]" by (cases "srt [e]") auto
  moreover have "entry_lines e = [?l @ nl # end_mark tag @ nl # evil]"
    using assms(3-5) by (simp add: entry_lines_def IsValid_def)
  ultimately have "Render srt f tag [e] = unlines ((pre @ [begin_mark tag]) @ [?l @ nl # end_mark tag @ nl # evil] @ [end_mark tag])"
    by (simp add: Render_lines pre_def)
  also have "\<dots> = unlines ((pre @ [begin_mark tag, ?l]) @ [end_mark tag @ nl # evil] @ [end_mark tag])"
    by (subst unlines_split) simp
  also have "\<dots> = unlines (pre @ [begin_mark tag, ?l, end_mark tag, evil, end_mark tag])" by (subst unlines_split) simp
  finally have "SplitOn (Render srt f tag [e]) nl = (pre @ [begin_mark tag, ?l, end_mark tag, evil, end_mark tag]) @ [[]]"
    using o assms(6) mark_one_line [OF assms(1)] by (simp only:) (intro SplitOn_unlines, auto simp: pad_right_def nl_def)
  moreover have "TrimSpace ?l \<noteq> begin_mark tag \<and> TrimSpace ?l \<noteq> end_mark tag"
    by (rule addr_line_trim [OF assms(5) refl])
  ultimately have "evil \<in> set (kept_lines tag False (SplitOn (Render srt f tag [e]) nl))"
    using kept_append [of pre tag, OF ballI] o assms(7) mark_trims [OF assms(1)] by (simp add: Let_def)
  then show ?thesis using assms(7) by (simp add: outside_code drop_blank_keeps)
qed

end
