(* ===== verification/Host_Records.thy ===== *)
theory Host_Records
  imports Route_Sync Hosts_File "HOL-Library.AList"
begin

text \<open>
  Advertised host records (internal/mesh/hostadv.go) and the hosts file they and the connected peers
  end up in (hostsync.go). The Go maps are association lists in the order of iteration, sessions are
  handles into a store, times are nanoseconds. The state holds the content of the hosts file;
  \<open>wok\<close> says which content the system lets the daemon write, \<open>srt\<close> is the sorting of \<open>Hosts_File\<close>.
\<close>

record hostRecord =
  hr_name :: string
  hr_ip :: addr

record learnedHost =
  lh_origin :: string
  lh_name :: string
  lh_ip :: addr
  lh_lastSeen :: int

record host_state =
  ht_nodeID :: string
  ht_byNode :: "(string \<times> nat) list"
  ht_sess :: "nat \<Rightarrow> rt_session"
  learnedHosts :: "(string \<times> learnedHost) list"
  advHosts :: "hostRecord list option"
  advHostReject :: "string list option"
  HostsSync :: bool
  ht_tag :: string
  lastHostsSig :: string
  lastHostAdv :: int
  ht_file :: string

datatype host_act = HostFlood bytes "nat option"

definition toHostRecords :: "hostRecord list \<Rightarrow> hostRecord list" where
  "toHostRecords specs = filter (\<lambda>s. \<not> (hr_name s = [] \<or> \<not> IsValid (hr_ip s))) specs"

definition hostKey :: "string \<Rightarrow> string \<Rightarrow> string" where
  "hostKey origin name = origin @ CHR ''|'' # name"

section \<open>Messages\<close>

definition ctrlHostAdd :: byte where "ctrlHostAdd = 0x0c"
definition ctrlHostDel :: byte where "ctrlHostDel = 0x0d"

definition encodeHostAdd :: "string \<Rightarrow> string \<Rightarrow> addr \<Rightarrow> bytes" where
  "encodeHostAdd origin name ip = appendLenStr (appendLenStr [ctrlHostAdd] origin) name @ encodeAddr ip"

definition encodeHostDel :: "string \<Rightarrow> string \<Rightarrow> bytes" where
  "encodeHostDel origin name = appendLenStr (appendLenStr [ctrlHostDel] origin) name"

definition decodeHostAdd :: "bytes \<Rightarrow> (string \<times> string \<times> addr) option" where
  "decodeHostAdd b = do {
     (origin, r) \<leftarrow> r_lenStr b;
     (name, r) \<leftarrow> r_lenStr r;
     ip \<leftarrow> decodeAddr r;
     if name = [] then None else Some (origin, name, ip) }"

definition decodeHostDel :: "bytes \<Rightarrow> (string \<times> string) option" where
  "decodeHostDel b = do {
     (origin, r) \<leftarrow> r_lenStr b;
     (name, r) \<leftarrow> r_lenStr r;
     if name = [] then None else Some (origin, name) }"

section \<open>The hosts file\<close>

definition hostEntryFor :: "string \<Rightarrow> addr \<Rightarrow> host_entry" where
  "hostEntryFor name ip =
     (if Is4 ip then \<lparr>Hostname = name, V4 = ip, V6 = NoAddr\<rparr> else \<lparr>Hostname = name, V4 = NoAddr, V6 = ip\<rparr>)"

definition lowerAll :: "string list \<Rightarrow> string list" where "lowerAll names = map ToLower names"

definition hostRejected :: "host_state \<Rightarrow> string \<Rightarrow> bool" where
  "hostRejected ns name =
     (case advHostReject ns of None \<Rightarrow> False | Some rs \<Rightarrow> if rs = [] then False else ToLower name \<in> set rs)"

definition peer_host :: "int \<Rightarrow> rt_session \<Rightarrow> host_entry list" where
  "peer_host now ps =
     (if rt_hostname ps = [] then []
      else let v4 = (if IsValid (rt_overlay4 ps) \<and> \<not> familyLive4 ps now then NoAddr else rt_overlay4 ps);
               v6 = (if IsValid (rt_overlay6 ps) \<and> \<not> familyLive6 ps now then NoAddr else rt_overlay6 ps)
           in if \<not> IsValid v4 \<and> \<not> IsValid v6 then [] else [\<lparr>Hostname = rt_hostname ps, V4 = v4, V6 = v6\<rparr>])"

definition host_entries :: "int \<Rightarrow> host_state \<Rightarrow> host_entry list" where
  "host_entries now ns =
     concat (map (\<lambda>(_, ps). peer_host now (ht_sess ns ps)) (ht_byNode ns)) @
     map (\<lambda>(_, h). hostEntryFor (lh_name h) (lh_ip h)) (filter (\<lambda>(_, h). \<not> hostRejected ns (lh_name h)) (learnedHosts ns)) @
     (case advHosts ns of None \<Rightarrow> [] | Some hs \<Rightarrow> map (\<lambda>h. hostEntryFor (hr_name h) (hr_ip h)) hs)"

fun ins_str :: "string \<Rightarrow> string list \<Rightarrow> string list" where
  "ins_str s [] = [s]"
| "ins_str s (t # ts) = (if str_cmp s t \<le> 0 then s # t # ts else t # ins_str s ts)"

definition sort_Strings :: "string list \<Rightarrow> string list" where "sort_Strings ss = foldr ins_str ss []"

definition sig_line :: "host_entry \<Rightarrow> string" where
  "sig_line e = Hostname e @ CHR ''|'' # addr_String (V4 e) @ CHR ''|'' # addr_String (V6 e)"

definition hostsSignature :: "host_entry list \<Rightarrow> string" where
  "hostsSignature es = join [nl] (sort_Strings (map sig_line es))"

definition hosts_Sync :: "(host_entry list \<Rightarrow> host_entry list) \<Rightarrow> (string \<Rightarrow> bool) \<Rightarrow> string \<Rightarrow> string \<Rightarrow> host_entry list \<Rightarrow> string option" where
  "hosts_Sync srt wok f tag es = (let out = Render srt f tag es in if wok out then Some out else None)"

definition syncHosts :: "(host_entry list \<Rightarrow> host_entry list) \<Rightarrow> (string \<Rightarrow> bool) \<Rightarrow> int \<Rightarrow> host_state \<Rightarrow> host_state" where
  "syncHosts srt wok now ns =
     (if \<not> HostsSync ns then ns
      else let es = host_entries now ns; sig = hostsSignature es
           in if sig = lastHostsSig ns then ns
              else case hosts_Sync srt wok (ht_file ns) (ht_tag ns) es of None \<Rightarrow> ns
                   | Some out \<Rightarrow> ns\<lparr>ht_file := out, lastHostsSig := sig\<rparr>)"

definition clearNetworkHosts :: "(host_entry list \<Rightarrow> host_entry list) \<Rightarrow> (string \<Rightarrow> bool) \<Rightarrow> host_state \<Rightarrow> host_state" where
  "clearNetworkHosts srt wok ns =
     (if \<not> HostsSync ns then ns
      else case hosts_Sync srt wok (ht_file ns) (ht_tag ns) [] of None \<Rightarrow> ns | Some out \<Rightarrow> ns\<lparr>ht_file := out\<rparr>)"

section \<open>Handlers\<close>

definition advertiseHosts :: "host_state \<Rightarrow> host_act list" where
  "advertiseHosts ns =
     (case advHosts ns of None \<Rightarrow> []
      | Some hs \<Rightarrow> map (\<lambda>h. HostFlood (encodeHostAdd (ht_nodeID ns) (hr_name h) (hr_ip h)) None) hs)"

definition withdrawHosts :: "host_state \<Rightarrow> hostRecord list \<Rightarrow> host_act list" where
  "withdrawHosts ns recs = map (\<lambda>h. HostFlood (encodeHostDel (ht_nodeID ns) (hr_name h)) None) recs"

definition onHostAdd :: "(host_entry list \<Rightarrow> host_entry list) \<Rightarrow> (string \<Rightarrow> bool) \<Rightarrow> int \<Rightarrow> nat \<Rightarrow> bytes \<Rightarrow> host_state \<Rightarrow>
    host_act list \<times> host_state" where
  "onHostAdd srt wok now ps body ns =
     (case decodeHostAdd body of None \<Rightarrow> ([], ns)
      | Some (origin, name, ip) \<Rightarrow>
          if origin = ht_nodeID ns then ([], ns)
          else if map_of (ht_byNode ns) origin = None then ([], ns)
          else
            let key = hostKey origin name;
                cur = map_of (learnedHosts ns) key;
                changed = (case cur of None \<Rightarrow> True | Some h \<Rightarrow> lh_ip h \<noteq> ip);
                rec = (case cur of None \<Rightarrow> \<lparr>lh_origin = origin, lh_name = name, lh_ip = ip, lh_lastSeen = now\<rparr>
                       | Some h \<Rightarrow> h\<lparr>lh_lastSeen := now, lh_ip := ip\<rparr>);
                ns1 = ns\<lparr>learnedHosts := AList.update key rec (learnedHosts ns)\<rparr>
            in if changed then
                 ([HostFlood (encodeHostAdd origin name ip) (Some ps)], syncHosts srt wok now (ns1\<lparr>lastHostsSig := []\<rparr>))
               else ([], ns1))"

definition onHostDel :: "(host_entry list \<Rightarrow> host_entry list) \<Rightarrow> (string \<Rightarrow> bool) \<Rightarrow> int \<Rightarrow> nat \<Rightarrow> bytes \<Rightarrow> host_state \<Rightarrow>
    host_act list \<times> host_state" where
  "onHostDel srt wok now ps body ns =
     (case decodeHostDel body of None \<Rightarrow> ([], ns)
      | Some (origin, name) \<Rightarrow>
          if origin = ht_nodeID ns then ([], ns)
          else let key = hostKey origin name
               in if map_of (learnedHosts ns) key = None then ([], ns)
                  else ([HostFlood (encodeHostDel origin name) (Some ps)],
                        syncHosts srt wok now (ns\<lparr>learnedHosts := AList.delete key (learnedHosts ns), lastHostsSig := []\<rparr>)))"

definition sweepStaleHosts :: "(host_entry list \<Rightarrow> host_entry list) \<Rightarrow> (string \<Rightarrow> bool) \<Rightarrow> int \<Rightarrow> int \<Rightarrow> host_state \<Rightarrow> host_state" where
  "sweepStaleHosts srt wok interval now ns =
     (let stale = (\<lambda>(_, h). now - lh_lastSeen h > routeTTL interval)
      in if list_ex stale (learnedHosts ns)
         then syncHosts srt wok now (ns\<lparr>learnedHosts := filter (\<lambda>x. \<not> stale x) (learnedHosts ns), lastHostsSig := []\<rparr>)
         else ns)"

definition reloadHosts :: "(host_entry list \<Rightarrow> host_entry list) \<Rightarrow> (string \<Rightarrow> bool) \<Rightarrow> int \<Rightarrow> hostRecord list \<Rightarrow> string list \<Rightarrow> host_state \<Rightarrow>
    host_act list \<times> host_state" where
  "reloadHosts srt wok now recs reject ns =
     (let old = (case advHosts ns of None \<Rightarrow> [] | Some hs \<Rightarrow> hs);
          inNew = map_of (rev (map (\<lambda>h. (hr_name h, hr_ip h)) recs));
          gone = filter (\<lambda>h. inNew (hr_name h) \<noteq> Some (hr_ip h)) old;
          ns1 = ns\<lparr>advHosts := Some recs, advHostReject := Some (lowerAll reject)\<rparr>
      in ((if gone = [] then [] else withdrawHosts ns1 gone) @ advertiseHosts ns1,
          syncHosts srt wok now (ns1\<lparr>lastHostsSig := []\<rparr>)))"

definition shouldReadvertiseHosts :: "int \<Rightarrow> int \<Rightarrow> host_state \<Rightarrow> bool \<times> host_state" where
  "shouldReadvertiseHosts now interval ns =
     (case advHosts ns of None \<Rightarrow> (False, ns)
      | Some hs \<Rightarrow> if hs = [] then (False, ns)
                   else if now - lastHostAdv ns < interval then (False, ns)
                   else (True, ns\<lparr>lastHostAdv := now\<rparr>))"

section \<open>The file follows the records\<close>

text \<open>Names and addresses that fit on a line of the file and of the signature.\<close>

definition clean_text :: "string \<Rightarrow> bool" where "clean_text s \<longleftrightarrow> nl \<notin> set s \<and> CHR ''|'' \<notin> set s"
definition clean_rec :: "string \<Rightarrow> addr \<Rightarrow> bool" where "clean_rec name ip \<longleftrightarrow> clean_text name \<and> clean_text (addr_String ip)"

definition clean_entry :: "host_entry \<Rightarrow> bool" where
  "clean_entry e \<longleftrightarrow> clean_text (Hostname e) \<and> clean_text (addr_String (V4 e)) \<and> clean_text (addr_String (V6 e))"

definition clean_sess :: "rt_session \<Rightarrow> bool" where
  "clean_sess ps \<longleftrightarrow> clean_rec (rt_hostname ps) (rt_overlay4 ps) \<and> clean_rec (rt_hostname ps) (rt_overlay6 ps)"

definition clean_state :: "host_state \<Rightarrow> bool" where
  "clean_state ns \<longleftrightarrow> (\<forall>(_, h) \<in> set (learnedHosts ns). clean_rec (lh_name h) (lh_ip h)) \<and>
     (\<forall>hs. advHosts ns = Some hs \<longrightarrow> (\<forall>h \<in> set hs. clean_rec (hr_name h) (hr_ip h))) \<and>
     (\<forall>(_, ps) \<in> set (ht_byNode ns). clean_sess (ht_sess ns ps))"

datatype host_event =
    GotHostAdd int nat bytes
  | GotHostDel int nat bytes
  | SweepHosts int
  | ReloadHosts int "hostRecord list" "string list"
  | SyncHosts int
  | HostSessions "(string \<times> nat) list" "nat \<Rightarrow> rt_session"

fun host_event_step :: "(host_entry list \<Rightarrow> host_entry list) \<Rightarrow> (string \<Rightarrow> bool) \<Rightarrow> int \<Rightarrow> host_state \<Rightarrow> host_event \<Rightarrow> host_state" where
  "host_event_step srt wok interval ns (GotHostAdd now ps body) = snd (onHostAdd srt wok now ps body ns)"
| "host_event_step srt wok interval ns (GotHostDel now ps body) = snd (onHostDel srt wok now ps body ns)"
| "host_event_step srt wok interval ns (SweepHosts now) = sweepStaleHosts srt wok interval now ns"
| "host_event_step srt wok interval ns (ReloadHosts now recs reject) = snd (reloadHosts srt wok now recs reject ns)"
| "host_event_step srt wok interval ns (SyncHosts now) = syncHosts srt wok now ns"
| "host_event_step srt wok interval ns (HostSessions bn ss) = ns\<lparr>ht_byNode := bn, ht_sess := ss\<rparr>"

fun clean_event :: "host_event \<Rightarrow> bool" where
  "clean_event (GotHostAdd now ps body) = (case decodeHostAdd body of None \<Rightarrow> True | Some (og, name, ip) \<Rightarrow> clean_rec name ip)"
| "clean_event (ReloadHosts now recs reject) = (\<forall>h \<in> set recs. clean_rec (hr_name h) (hr_ip h))"
| "clean_event (HostSessions bn ss) = (\<forall>(_, ps) \<in> set bn. clean_sess (ss ps))"
| "clean_event _ = True"

lemma clean_invalid [simp]: "clean_text ''invalid IP''"
  by (simp add: clean_text_def nl_def)

lemma clean_entry_for: "clean_rec name ip \<Longrightarrow> clean_entry (hostEntryFor name ip)"
  by (simp add: hostEntryFor_def clean_entry_def clean_rec_def)

lemma clean_peer: "clean_sess ps \<Longrightarrow> e \<in> set (peer_host now ps) \<Longrightarrow> clean_entry e"
  by (auto simp: peer_host_def clean_entry_def clean_rec_def clean_sess_def Let_def split: if_splits)

lemma clean_host_entries:
  assumes "clean_state ns" "e \<in> set (host_entries now ns)"
  shows "clean_entry e"
proof -
  consider (peer) n ps where "(n, ps) \<in> set (ht_byNode ns)" "e \<in> set (peer_host now (ht_sess ns ps))"
    | (learned) k h where "(k, h) \<in> set (learnedHosts ns)" "e = hostEntryFor (lh_name h) (lh_ip h)"
    | (own) hs h where "advHosts ns = Some hs" "h \<in> set hs" "e = hostEntryFor (hr_name h) (hr_ip h)"
    using assms(2) by (cases "advHosts ns") (auto simp: host_entries_def)
  then show ?thesis
  proof cases
    case peer
    then show ?thesis using assms(1) clean_peer unfolding clean_state_def by blast
  next
    case learned
    then show ?thesis using assms(1) clean_entry_for unfolding clean_state_def by blast
  next
    case own
    then show ?thesis using assms(1) clean_entry_for unfolding clean_state_def by blast
  qed
qed

lemma clean_one_line: "clean_entry e \<Longrightarrow> one_line e"
  by (simp add: clean_entry_def one_line_def clean_text_def)

subsection \<open>Signatures\<close>

lemma mset_ins_str [simp]: "mset (ins_str s ts) = add_mset s (mset ts)"
  by (induction ts) auto

lemma mset_sort_Strings [simp]: "mset (sort_Strings ss) = mset ss"
  by (induction ss) (simp_all add: sort_Strings_def)

text \<open>The lines of an entry can be read off its line of the signature.\<close>

definition lines_of :: "string \<Rightarrow> string list" where
  "lines_of l = (case SplitOn l CHR ''|'' of [h, s4, s6] \<Rightarrow>
     if h = [] then [] else (if s4 = ''invalid IP'' then [] else [pad_right 15 s4 @ CHR 0x20 # h]) @
       (if s6 = ''invalid IP'' then [] else [pad_right 39 s6 @ CHR 0x20 # h]) | _ \<Rightarrow> [])"

lemma invalid_text: "addr_String a = ''invalid IP'' \<longleftrightarrow> \<not> IsValid a"
proof
  assume "addr_String a = ''invalid IP''"
  moreover have "CHR ''i'' \<notin> set addr_chars" by (simp add: addr_chars_def)
  ultimately show "\<not> IsValid a" using addr_String_hd [of a] by auto
qed (simp add: IsValid_def)

lemma lines_of_sig: "clean_entry e \<Longrightarrow> lines_of (sig_line e) = entry_lines e"
  by (simp add: lines_of_def sig_line_def clean_entry_def clean_text_def SplitOn_append SplitOn_no invalid_text entry_lines_def)

lemma sig_line_one: "clean_entry e \<Longrightarrow> nl \<notin> set (sig_line e)"
  by (auto simp: sig_line_def clean_entry_def clean_text_def nl_def)

lemma SplitOn_join: "ls \<noteq> [] \<Longrightarrow> \<forall>l \<in> set ls. nl \<notin> set l \<Longrightarrow> SplitOn (join [nl] ls) nl = ls"
proof (induction ls)
  case (Cons l ls)
  then show ?case by (cases ls) (simp_all add: join_def SplitOn_append SplitOn_no)
qed simp

lemma signature_lines:
  assumes "\<forall>e \<in> set es. clean_entry e" "es \<noteq> []"
  shows "mset (SplitOn (hostsSignature es) nl) = mset (map sig_line es)"
proof -
  have "set (sort_Strings (map sig_line es)) = set (map sig_line es)" by (metis mset_sort_Strings set_mset_mset)
  then have "\<forall>l \<in> set (sort_Strings (map sig_line es)). nl \<notin> set l" using assms(1) sig_line_one by auto
  moreover have "sort_Strings (map sig_line es) \<noteq> []" using assms(2) by (metis mset_sort_Strings mset_zero_iff map_is_Nil_conv)
  ultimately show ?thesis by (simp add: hostsSignature_def SplitOn_join)
qed

lemma mset_concat_cong:
  assumes "mset xs = mset ys"
  shows "mset (concat (map f xs)) = mset (concat (map f ys))"
proof -
  have "mset (concat (map f zs)) = sum_mset (image_mset (\<lambda>z. mset (f z)) (mset zs))" for zs by (induction zs) simp_all
  then show ?thesis using assms by simp
qed

lemma signature_determines:
  assumes "\<forall>e \<in> set es. clean_entry e" "\<forall>e \<in> set es'. clean_entry e" "es \<noteq> []" "es' \<noteq> []" "hostsSignature es = hostsSignature es'"
  shows "mset (concat (map entry_lines es)) = mset (concat (map entry_lines es'))"
proof -
  have l: "concat (map entry_lines zs) = concat (map lines_of (map sig_line zs))" if "\<forall>e \<in> set zs. clean_entry e" for zs
    using that lines_of_sig by (induction zs) simp_all
  have "mset (map sig_line es) = mset (map sig_line es')"
    using signature_lines [OF assms(1,3)] signature_lines [OF assms(2,4)] assms(5) by simp
  from mset_concat_cong [OF this, of lines_of] show ?thesis by (simp only: l [OF assms(1)] l [OF assms(2)])
qed

lemma signature_ne: "hostsSignature es = [] \<longleftrightarrow> es = []"
proof (cases "sort_Strings (map sig_line es)")
  case Nil
  then show ?thesis by (metis hostsSignature_def join_def list.simps(4) map_is_Nil_conv mset_sort_Strings mset_zero_iff)
next
  case (Cons l ls)
  then have "l \<in> set (map sig_line es)" by (metis list.set_intros(1) mset_sort_Strings set_mset_mset)
  then obtain e where e: "e \<in> set es" "l = sig_line e" by auto
  then have "es \<noteq> []" "l \<noteq> []" by (auto simp: sig_line_def)
  then show ?thesis by (simp add: hostsSignature_def join_def Cons)
qed

subsection \<open>The invariant\<close>

definition file_in_step :: "host_state \<Rightarrow> bool" where
  "file_in_step ns \<longleftrightarrow> lastHostsSig ns = [] \<or>
     (\<exists>es. es \<noteq> [] \<and> (\<forall>e \<in> set es. clean_entry e) \<and> hostsSignature es = lastHostsSig ns \<and>
        mset (inside (ht_tag ns) (ht_file ns)) = mset (concat (map entry_lines es)))"

definition same_owner :: "host_state \<Rightarrow> host_state \<Rightarrow> bool" where
  "same_owner ns ns' \<longleftrightarrow> outside (ht_tag ns) (ht_file ns') = outside (ht_tag ns) (ht_file ns) \<and>
     ht_tag ns' = ht_tag ns \<and> HostsSync ns' = HostsSync ns"

lemma sync_in_step:
  assumes "tag_ok (ht_tag ns)" "sorts srt" "clean_state ns" "file_in_step ns"
  shows "file_in_step (syncHosts srt wok now ns) \<and> clean_state (syncHosts srt wok now ns) \<and> same_owner ns (syncHosts srt wok now ns)"
proof (cases "syncHosts srt wok now ns = ns")
  case True
  then show ?thesis using assms by (simp add: same_owner_def)
next
  case False
  define es where "es = host_entries now ns"
  have s: "syncHosts srt wok now ns = ns\<lparr>ht_file := Render srt (ht_file ns) (ht_tag ns) es, lastHostsSig := hostsSignature es\<rparr>"
    using False by (auto simp: syncHosts_def hosts_Sync_def es_def Let_def split: if_splits)
  have c: "\<forall>e \<in> set es. clean_entry e" using clean_host_entries [OF assms(3)] by (simp add: es_def)
  note r = Render_reads_back [OF assms(1,2), of es "ht_file ns"]
  have "mset (concat (map entry_lines (srt es))) = mset (concat (map entry_lines es))"
    using assms(2) by (intro mset_concat_cong) (simp add: sorts_def)
  then have "file_in_step (syncHosts srt wok now ns)"
    using r c clean_one_line signature_ne [of es] unfolding s file_in_step_def by (cases "es = []") auto
  moreover have "clean_state (syncHosts srt wok now ns)" using assms(3) unfolding s clean_state_def by simp
  ultimately show ?thesis using r c clean_one_line unfolding s same_owner_def by simp
qed

lemma reset_sync_in_step:
  assumes "tag_ok (ht_tag ns)" "sorts srt" "clean_state ns1" "ht_tag ns1 = ht_tag ns" "HostsSync ns1 = HostsSync ns" "ht_file ns1 = ht_file ns"
  shows "file_in_step (syncHosts srt wok now (ns1\<lparr>lastHostsSig := []\<rparr>)) \<and> clean_state (syncHosts srt wok now (ns1\<lparr>lastHostsSig := []\<rparr>)) \<and>
    same_owner ns (syncHosts srt wok now (ns1\<lparr>lastHostsSig := []\<rparr>))"
proof -
  let ?n = "ns1\<lparr>lastHostsSig := []\<rparr>"
  have "tag_ok (ht_tag ?n)" "file_in_step ?n" using assms(1,4) by (simp_all add: file_in_step_def)
  moreover have "clean_state ?n" using assms(3) by (simp add: clean_state_def)
  ultimately have "file_in_step (syncHosts srt wok now ?n) \<and> clean_state (syncHosts srt wok now ?n) \<and> same_owner ?n (syncHosts srt wok now ?n)"
    using sync_in_step assms(2) by blast
  moreover have "same_owner ?n x = same_owner ns x" for x using assms(4-6) by (simp add: same_owner_def)
  ultimately show ?thesis by simp
qed

lemma same_owner_trans: "same_owner a b \<Longrightarrow> same_owner b c \<Longrightarrow> same_owner a c"
  by (simp add: same_owner_def)

lemma in_learned_update: "(k, h) \<in> set (AList.update key v xs) \<Longrightarrow> h = v \<or> (k, h) \<in> set xs"
  by (induction xs) (auto split: if_splits)

lemma host_step_in_step:
  assumes "tag_ok (ht_tag ns)" "sorts srt" "clean_state ns" "file_in_step ns" "clean_event ev"
  shows "file_in_step (host_event_step srt wok interval ns ev) \<and> clean_state (host_event_step srt wok interval ns ev) \<and>
    same_owner ns (host_event_step srt wok interval ns ev)"
proof (cases ev)
  case (GotHostAdd now ps body)
  show ?thesis
  proof (cases "onHostAdd srt wok now ps body ns = ([], ns)")
    case True
    then show ?thesis using assms by (simp add: GotHostAdd same_owner_def)
  next
    case False
    then obtain og name ip where d: "decodeHostAdd body = Some (og, name, ip)" by (auto simp: onHostAdd_def split: option.splits)
    define cur where "cur = map_of (learnedHosts ns) (hostKey og name)"
    define rec where "rec = (case cur of None \<Rightarrow> \<lparr>lh_origin = og, lh_name = name, lh_ip = ip, lh_lastSeen = now\<rparr>
       | Some h \<Rightarrow> h\<lparr>lh_lastSeen := now, lh_ip := ip\<rparr>)"
    define ns1 where "ns1 = ns\<lparr>learnedHosts := AList.update (hostKey og name) rec (learnedHosts ns)\<rparr>"
    have cl: "clean_rec (lh_name h) (lh_ip h)" if "(k, h) \<in> set (learnedHosts ns)" for k h using that assms(3) unfolding clean_state_def by blast
    have "clean_rec (lh_name rec) (lh_ip rec)"
      using assms(5) d cl [OF map_of_SomeD] by (auto simp: GotHostAdd rec_def cur_def clean_rec_def split: option.splits)
    then have c: "clean_state ns1" using assms(3) unfolding clean_state_def ns1_def by (auto dest!: in_learned_update)
    have "file_in_step ns1" "same_owner ns ns1" using assms(4) by (simp_all add: ns1_def file_in_step_def same_owner_def)
    moreover have "snd (onHostAdd srt wok now ps body ns) = syncHosts srt wok now (ns1\<lparr>lastHostsSig := []\<rparr>) \<or> snd (onHostAdd srt wok now ps body ns) = ns1"
      using False d unfolding onHostAdd_def ns1_def rec_def cur_def by (simp add: Let_def split: if_splits)
    ultimately show ?thesis using c reset_sync_in_step [OF assms(1,2) c, where now = now and wok = wok]
      by (auto simp: GotHostAdd ns1_def)
  qed
next
  case (GotHostDel now ps body)
  show ?thesis
  proof (cases "onHostDel srt wok now ps body ns = ([], ns)")
    case True
    then show ?thesis using assms by (simp add: GotHostDel same_owner_def)
  next
    case False
    then obtain key where s: "snd (onHostDel srt wok now ps body ns) =
        syncHosts srt wok now ((ns\<lparr>learnedHosts := AList.delete key (learnedHosts ns)\<rparr>)\<lparr>lastHostsSig := []\<rparr>)"
      by (auto simp: onHostDel_def Let_def split: option.splits if_splits)
    have "set (AList.delete key (learnedHosts ns)) \<subseteq> set (learnedHosts ns)" by (auto simp: AList.delete_eq)
    then have "clean_state (ns\<lparr>learnedHosts := AList.delete key (learnedHosts ns)\<rparr>)" using assms(3) unfolding clean_state_def by auto
    from reset_sync_in_step [OF assms(1,2) this, where now = now and wok = wok] show ?thesis by (simp add: GotHostDel s)
  qed
next
  case (SweepHosts now)
  show ?thesis
  proof (cases "sweepStaleHosts srt wok interval now ns = ns")
    case True
    then show ?thesis using assms by (simp add: SweepHosts same_owner_def)
  next
    case False
    then obtain P where s: "sweepStaleHosts srt wok interval now ns =
        syncHosts srt wok now ((ns\<lparr>learnedHosts := filter P (learnedHosts ns)\<rparr>)\<lparr>lastHostsSig := []\<rparr>)"
      by (auto simp: sweepStaleHosts_def Let_def split: if_splits)
    have "clean_state (ns\<lparr>learnedHosts := filter P (learnedHosts ns)\<rparr>)" using assms(3) unfolding clean_state_def by auto
    from reset_sync_in_step [OF assms(1,2) this, where now = now and wok = wok] show ?thesis by (simp add: SweepHosts s)
  qed
next
  case (ReloadHosts now recs reject)
  have "clean_state (ns\<lparr>advHosts := Some recs, advHostReject := Some (lowerAll reject)\<rparr>)"
    using assms(3,5) unfolding clean_state_def by (simp add: ReloadHosts)
  from reset_sync_in_step [OF assms(1,2) this, where now = now and wok = wok] show ?thesis by (simp add: ReloadHosts reloadHosts_def Let_def)
next
  case (SyncHosts now)
  then show ?thesis using sync_in_step [OF assms(1-4)] by simp
next
  case (HostSessions bn ss)
  then show ?thesis using assms(3-5) unfolding clean_state_def file_in_step_def same_owner_def by simp
qed

lemma host_run_in_step:
  assumes "tag_ok (ht_tag ns)" "sorts srt" "clean_state ns" "file_in_step ns" "\<forall>ev \<in> set evs. clean_event ev"
    and "foldl (host_event_step srt wok interval) ns evs = ns'"
  shows "file_in_step ns' \<and> clean_state ns' \<and> same_owner ns ns'"
  using assms(1,3-6)
proof (induction evs arbitrary: ns)
  case (Cons ev evs)
  let ?n = "host_event_step srt wok interval ns ev"
  have n: "file_in_step ?n \<and> clean_state ?n \<and> same_owner ns ?n"
    using host_step_in_step [OF Cons.prems(1) assms(2) Cons.prems(2,3)] Cons.prems(4) by simp
  then have "tag_ok (ht_tag ?n)" using Cons.prems(1) by (simp add: same_owner_def)
  then have "file_in_step ns' \<and> clean_state ns' \<and> same_owner ?n ns'" using Cons.IH [of ?n] n Cons.prems(4,5) by simp
  then show ?case using n same_owner_trans by blast
qed (simp add: same_owner_def)


section \<open>Where the file goes wrong\<close>

lemma sync_nothing: "host_entries now ns = [] \<Longrightarrow> lastHostsSig ns = [] \<Longrightarrow> syncHosts srt wok now ns = ns"
  by (simp add: syncHosts_def Let_def signature_ne)

text \<open>C35: the last record never leaves the hosts file. The code clears the signature to force a rewrite, but an empty
  signature is also that of no entries at all: when the expiry of the records leaves the node nothing to
  write, the block stays as it is, and so it does at every later synchronisation while the node is alone.\<close>
theorem last_host_record_stays:
  assumes "learnedHosts ns \<noteq> []" "\<forall>(_, h) \<in> set (learnedHosts ns). now - lh_lastSeen h > routeTTL interval"
    and "ht_byNode ns = []" "advHosts ns = None \<or> advHosts ns = Some []" "sweepStaleHosts srt wok interval now ns = ns1"
  shows "learnedHosts ns1 = [] \<and> ht_file (foldl (\<lambda>n t. syncHosts srt wok t n) ns1 ts) = ht_file ns"
proof -
  let ?n = "ns\<lparr>learnedHosts := [], lastHostsSig := []\<rparr>"
  have e: "host_entries t ?n = []" for t using assms(3,4) by (auto simp: host_entries_def)
  have "list_ex (\<lambda>(_, h). now - lh_lastSeen h > routeTTL interval) (learnedHosts ns)"
    using assms(1,2) by (cases "learnedHosts ns") auto
  moreover have "filter (\<lambda>x. \<not> (case x of (_, h) \<Rightarrow> now - lh_lastSeen h > routeTTL interval)) (learnedHosts ns) = []"
    using assms(2) by (auto simp: filter_empty_conv)
  ultimately have "ns1 = syncHosts srt wok now ?n" using assms(5) by (simp add: sweepStaleHosts_def Let_def)
  then have n: "ns1 = ?n" using sync_nothing [of now ?n] e by simp
  have "foldl (\<lambda>n t. syncHosts srt wok t n) ?n ts = ?n" using sync_nothing [of _ ?n] e by (induction ts) simp_all
  then show ?thesis by (simp add: n)
qed

lemma host_add_body:
  assumes "clip255 name \<noteq> []" "IsValid ip"
  shows "decodeHostAdd (tl (encodeHostAdd origin name ip)) = Some (clip255 origin, clip255 name, WithoutZone (Unmap ip))"
  using assms decode_encode_addr [OF assms(2), of "[]"]
  by (simp add: encodeHostAdd_def decodeHostAdd_def appendLenStr_eq wire_simps del: length_clip255)

text \<open>C36: a peer can plant lines in the hosts file that outlive it. A host name with line breaks passes the
  decoder; written to the file, its text behind a closing marker lies outside the block, so it says what
  the peer chose, whatever this node rejects, and no later synchronisation removes it.\<close>
theorem host_name_plants_line:
  assumes "tag_ok tag" "sorts srt" "name = h @ nl # end_mark tag @ nl # evil" "length name \<le> 255" "length origin \<le> 255"
    and "nl \<notin> set (h @ evil)" "TrimSpace evil \<notin> {[], begin_mark tag, end_mark tag}" "\<forall>e \<in> set es. one_line e"
  shows "decodeHostAdd (tl (encodeHostAdd origin name (Addr4 w))) = Some (origin, name, Addr4 w) \<and>
    evil \<in> set (outside tag (Render srt f tag [hostEntryFor name (Addr4 w)])) \<and>
    evil \<in> set (outside tag (Render srt (Render srt f tag [hostEntryFor name (Addr4 w)]) tag es))"
proof -
  have "name \<noteq> []" using assms(3) by simp
  then have "decodeHostAdd (tl (encodeHostAdd origin name (Addr4 w))) = Some (origin, name, Addr4 w)"
    using host_add_body [of name "Addr4 w" origin] assms(4,5) by (simp add: IsValid_def clip255_def)
  moreover have "nl \<notin> set (addr_String (Addr4 w))"
    using Itoa_nat_not [of nl] by (auto simp: join_def put32_def nl_def)
  then have "evil \<in> set (outside tag (Render srt f tag [hostEntryFor name (Addr4 w)]))"
    using assms(3,6,7) by (intro planted_line [OF assms(1,2), of _ h]) (auto simp: hostEntryFor_def IsValid_def)
  ultimately show ?thesis using Render_reads_back(1) [OF assms(1,2,8)] by simp
qed

section \<open>Examples\<close>

fun ins_entry :: "host_entry \<Rightarrow> host_entry list \<Rightarrow> host_entry list" where
  "ins_entry e [] = [e]"
| "ins_entry e (x # xs) = (if str_cmp (Hostname e) (Hostname x) \<le> 0 then e # x # xs else x # ins_entry e xs)"

definition sort_entries :: "host_entry list \<Rightarrow> host_entry list" where "sort_entries es = foldr ins_entry es []"

lemma ins_entry_mset: "mset (ins_entry e xs) = add_mset e (mset xs)"
  by (induction xs) auto

lemma str_cmp_total: "str_cmp a b \<le> 0 \<or> str_cmp b a \<le> 0"
  by (induction a b rule: str_cmp.induct) auto

lemma str_cmp_Cons:
  "str_cmp (x # s) (y # t) \<le> 0 \<longleftrightarrow> of_char x < (of_char y :: nat) \<or> of_char x = (of_char y :: nat) \<and> str_cmp s t \<le> 0"
  by auto

lemma str_cmp_le_trans: "str_cmp a b \<le> 0 \<Longrightarrow> str_cmp b c \<le> 0 \<Longrightarrow> str_cmp a c \<le> 0"
proof (induction a b arbitrary: c rule: str_cmp.induct)
  case (4 x s y t)
  show ?case
  proof (cases c)
    case (Cons z u)
    have p: "str_cmp (x # s) (y # t) \<le> 0" "str_cmp (y # t) (z # u) \<le> 0" using 4(2,3) Cons by simp_all
    have "str_cmp s u \<le> 0" if "of_char x = (of_char y :: nat)" "str_cmp s t \<le> 0" "str_cmp t u \<le> 0"
      using 4(1) that by simp
    then have "str_cmp (x # s) (z # u) \<le> 0" using p unfolding str_cmp_Cons by auto
    then show ?thesis by (simp only: Cons)
  qed (use 4(3) in simp)
next
  case (2 y t)
  then show ?case by (cases c) simp_all
qed simp_all

lemma ins_entry_sorted:
  "sorted_wrt (\<lambda>a b. str_cmp (Hostname a) (Hostname b) \<le> 0) xs \<Longrightarrow> sorted_wrt (\<lambda>a b. str_cmp (Hostname a) (Hostname b) \<le> 0) (ins_entry e xs)"
proof (induction xs)
  case (Cons x xs)
  have "set (ins_entry e xs) = insert e (set xs)" by (metis ins_entry_mset set_mset_add_mset_insert set_mset_mset)
  then show ?case using Cons str_cmp_le_trans str_cmp_total [of "Hostname e" "Hostname x"] by (auto dest: bspec)
qed simp

lemma sorts_sort_entries: "sorts sort_entries"
proof -
  have "mset (foldr ins_entry es []) = mset es" for es by (induction es) (simp_all add: ins_entry_mset)
  moreover have "sorted_wrt (\<lambda>a b. str_cmp (Hostname a) (Hostname b) \<le> 0) (foldr ins_entry es [])" for es
    by (induction es) (simp_all add: ins_entry_sorted)
  ultimately show ?thesis by (simp add: sorts_def sort_entries_def)
qed

definition ex_hosts :: host_state where
  "ex_hosts = \<lparr>ht_nodeID = ''me'', ht_byNode = [(''a'', 1)],
     ht_sess = (\<lambda>_. \<lparr>probeSent4 = 0, good4 = 0, probeSent6 = 0, good6 = 0, rt_node = [], rt_overlay4 = NoAddr, rt_overlay6 = NoAddr,
       rt_endpoint = (NoAddr, 0), rt_hostname = []\<rparr>),
     learnedHosts = [], advHosts = None, advHostReject = None, HostsSync = True, ht_tag = ''1'', lastHostsSig = [], lastHostAdv = 0,
     ht_file = ''127.0.0.1 localhost'' @ [nl]\<rparr>"

definition ex_host_add :: bytes where "ex_host_add = tl (encodeHostAdd ''a'' ''web'' (Addr4 0x0a000001))"

lemma ex_tag: "tag_ok ''1''" by (simp add: tag_ok_def)

lemma ex_host_clean: "clean_state ex_hosts"
  by (simp add: clean_state_def ex_hosts_def clean_sess_def clean_rec_def) (simp add: clean_text_def)


definition ex_host_run :: host_state where
  "ex_host_run = foldl (host_event_step sort_entries (\<lambda>_. True) 0) ex_hosts [GotHostAdd 0 1 ex_host_add]"


lemma last_host_record_stays_witness:
  "let ns = ex_host_run\<lparr>ht_byNode := []\<rparr>; ns1 = sweepStaleHosts sort_entries (\<lambda>_. True) 0 1000000000000 ns
   in learnedHosts ns1 = [] \<and> ht_file ns1 = ht_file ex_host_run \<and> inside ''1'' (ht_file ex_host_run) = [''10.0.0.1        web'']"
proof -
  let ?ns = "ex_host_run\<lparr>ht_byNode := []\<rparr>"
  have f: "inside ''1'' (ht_file ex_host_run) = [''10.0.0.1        web'']" by code_simp
  have "map (\<lambda>(_, h). lh_lastSeen h) (learnedHosts ex_host_run) = [0]" "Option.is_none (advHosts ex_host_run)" "routeTTL 0 < 1000000000000"
    by code_simp+
  then have "learnedHosts ?ns \<noteq> []" "\<forall>(_, h) \<in> set (learnedHosts ?ns). 1000000000000 - lh_lastSeen h > routeTTL 0"
    "advHosts ?ns = None" by (auto simp: Option.is_none_def map_eq_Cons_conv)
  from last_host_record_stays [OF this(1,2) _ _ refl, of sort_entries "\<lambda>_. True" "[]"] this(3)
  show ?thesis using f by (simp add: Let_def)
qed

lemma host_name_plants_line_witness:
  "\<exists>name. decodeHostAdd (tl (encodeHostAdd ''a'' name (Addr4 0))) = Some (''a'', name, Addr4 0) \<and>
     ''6.6.6.6 bank'' \<in> set (outside ''1'' (Render sort_entries (Render sort_entries (ht_file ex_hosts) ''1'' [hostEntryFor name (Addr4 0)]) ''1'' []))"
proof -
  let ?name = "''x'' @ nl # end_mark ''1'' @ nl # ''6.6.6.6 bank''"
  have n: "nl \<notin> set (''x'' @ ''6.6.6.6 bank'')" "length ?name \<le> 255" "TrimSpace ''6.6.6.6 bank'' = ''6.6.6.6 bank''" by code_simp+
  have m: "TrimSpace ''6.6.6.6 bank'' \<notin> {[], begin_mark ''1'', end_mark ''1''}" unfolding n(3) by (simp add: begin_mark_def end_mark_def)
  have "length ''a'' \<le> 255" by simp
  from host_name_plants_line [OF ex_tag sorts_sort_entries refl n(2) this n(1) m, of "[]" 0 "ht_file ex_hosts"]
  show ?thesis by (intro exI [of _ ?name]) simp
qed

end
