(* ===== verification/Dns_Records.thy ===== *)
theory Dns_Records
  imports Host_Records
begin

text \<open>
  Conditional DNS forwarding: the advertised forwards (internal/mesh/dnsadv.go), what of them is handed
  to the resolver of the host (dnssync.go), and the platform-neutral part of internal/resolver
  (resolver.go). Which of two learned forwards of one domain the loop over the Go map meets last is up to the
  map, so the order of that loop is an argument. The resolver of the platform is a parameter: a call with
  tag, interface, entries and search domains that succeeds, reports that search domains are not
  supported, or fails with a message. Calls are recorded.
\<close>

record dnsForward =
  df_domain :: string
  df_servers :: "addr list"

record learnedDNS_rec =
  ld_origin :: string
  ld_domain :: string
  ld_servers :: "addr list"
  ld_lastSeen :: int

record resolver_entry =
  Domain :: string
  Servers :: "addr list"

datatype resolver_result = ResolverOk | SearchUnsupported | ResolverError string

record dns_state =
  dn_nodeID :: string
  dn_byNode :: "string \<Rightarrow> nat option"
  learnedDNS :: "(string \<times> learnedDNS_rec) list"
  advDNS :: "dnsForward list option"
  advDNSReject :: "string list option"
  DNSSync :: bool
  dn_iface :: string
  dn_tag :: string
  searchDomains :: "string list option"
  SearchLearned :: bool
  lastDNSSig :: string
  lastDNSErr :: string
  lastDNSAdv :: int

datatype dns_act = DnsFlood bytes "nat option" | ResolverSync string string "resolver_entry list" "string list"

type_synonym resolver = "string \<Rightarrow> string \<Rightarrow> resolver_entry list \<Rightarrow> string list \<Rightarrow> resolver_result"
type_synonym dns_order = "(string \<times> learnedDNS_rec) list \<Rightarrow> (string \<times> learnedDNS_rec) list"

definition toDNSForwards :: "dnsForward list \<Rightarrow> dnsForward list" where
  "toDNSForwards specs =
     concat (map (\<lambda>s. if df_domain s = [] \<or> df_servers s = [] then []
       else let servers = filter IsValid (df_servers s)
            in if servers = [] then [] else [\<lparr>df_domain = df_domain s, df_servers = servers\<rparr>]) specs)"

definition dnsKey :: "string \<Rightarrow> string \<Rightarrow> string" where "dnsKey origin domain = origin @ CHR ''|'' # domain"

section \<open>Messages\<close>

definition ctrlDNSAdd :: byte where "ctrlDNSAdd = 0x0e"
definition ctrlDNSDel :: byte where "ctrlDNSDel = 0x0f"

definition encodeDNSAdd :: "string \<Rightarrow> string \<Rightarrow> addr list \<Rightarrow> bytes" where
  "encodeDNSAdd origin domain servers0 =
     (let servers = (if length servers0 > 255 then take 255 servers0 else servers0)
      in appendLenStr (appendLenStr [ctrlDNSAdd] origin) domain @ [of_nat (length servers)] @ concat (map encodeAddr servers))"

definition encodeDNSDel :: "string \<Rightarrow> string \<Rightarrow> bytes" where
  "encodeDNSDel origin domain = appendLenStr (appendLenStr [ctrlDNSDel] origin) domain"

text \<open>The cursor's address reader is the one of the route messages.\<close>

fun read_servers :: "nat \<Rightarrow> reader \<Rightarrow> (addr list \<times> reader) option" where
  "read_servers 0 r = Some ([], r)"
| "read_servers (Suc n) r = do { (a, r) \<leftarrow> r_addr r; (as, r) \<leftarrow> read_servers n r; Some (a # as, r) }"

definition decodeDNSAdd :: "bytes \<Rightarrow> (string \<times> string \<times> addr list) option" where
  "decodeDNSAdd b = do {
     (origin, r) \<leftarrow> r_lenStr b;
     (domain, r) \<leftarrow> r_lenStr r;
     (n, r) \<leftarrow> r_byte r;
     (servers, r) \<leftarrow> read_servers (unat n) r;
     if domain = [] \<or> servers = [] then None else Some (origin, domain, servers) }"

definition decodeDNSDel :: "bytes \<Rightarrow> (string \<times> string) option" where
  "decodeDNSDel b = do {
     (origin, r) \<leftarrow> r_lenStr b;
     (domain, r) \<leftarrow> r_lenStr r;
     if domain = [] then None else Some (origin, domain) }"

section \<open>The resolver of the host\<close>

definition normalizeDomain :: "string \<Rightarrow> string" where
  "normalizeDomain d = ToLower (TrimSuffix (TrimSpace d) ''.'')"

definition linuxRoutingArgs :: "resolver_entry list \<Rightarrow> string list \<times> string list" where
  "linuxRoutingArgs es =
     (let used = filter (\<lambda>e. normalizeDomain (Domain e) \<noteq> []) es
      in (sort_Strings (remdups (map (\<lambda>e. CHR ''~'' # normalizeDomain (Domain e)) used)),
          sort_Strings (remdups (concat (map (\<lambda>e. map addr_String (filter IsValid (Servers e))) used)))))"

definition searchDomainArgs :: "string list \<Rightarrow> string list" where
  "searchDomainArgs ds = sort_Strings (remdups (filter (\<lambda>d. d \<noteq> []) (map normalizeDomain ds)))"

definition dnsRejected :: "dns_state \<Rightarrow> string \<Rightarrow> bool" where
  "dnsRejected ns domain =
     (case advDNSReject ns of None \<Rightarrow> False | Some rs \<Rightarrow> if rs = [] then False else ToLower domain \<in> set rs)"

definition byDomain :: "dns_order \<Rightarrow> dns_state \<Rightarrow> (string \<times> addr list) list" where
  "byDomain ord ns =
     (let m1 = foldl (\<lambda>m (_, d). if dnsRejected ns (ld_domain d) then m else AList.update (ToLower (ld_domain d)) (ld_servers d) m)
                 [] (ord (learnedDNS ns))
      in case advDNS ns of None \<Rightarrow> m1
         | Some ds \<Rightarrow> foldl (\<lambda>m d. AList.update (ToLower (df_domain d)) (df_servers d) m) m1 ds)"

definition effectiveSearchDomains :: "string list \<Rightarrow> (string \<times> addr list) list \<Rightarrow> bool \<Rightarrow> string list" where
  "effectiveSearchDomains configured m learned =
     (if \<not> learned \<or> m = [] then configured else configured @ map fst m)"

definition forward_line :: "resolver_entry \<Rightarrow> string" where
  "forward_line e = Domain e @ CHR ''|'' # join '','' (sort_Strings (map addr_String (Servers e)))"

definition dnsSignature :: "resolver_entry list \<Rightarrow> string list \<Rightarrow> string" where
  "dnsSignature es search =
     join [nl] (sort_Strings (map forward_line es)) @ [nl] @ ''--search--'' @ [nl] @ join [nl] (sort_Strings search)"

definition dns_entries :: "dns_order \<Rightarrow> dns_state \<Rightarrow> resolver_entry list" where
  "dns_entries ord ns = map (\<lambda>(d, ss). \<lparr>Domain = d, Servers = ss\<rparr>) (byDomain ord ns)"

definition search_list :: "dns_order \<Rightarrow> dns_state \<Rightarrow> string list" where
  "search_list ord ns =
     effectiveSearchDomains (case searchDomains ns of None \<Rightarrow> [] | Some ds \<Rightarrow> ds) (byDomain ord ns) (SearchLearned ns)"

definition syncDNS :: "dns_order \<Rightarrow> resolver \<Rightarrow> dns_state \<Rightarrow> dns_act list \<times> dns_state" where
  "syncDNS ord rsv ns =
     (if \<not> DNSSync ns then ([], ns)
      else
        let es = dns_entries ord ns;
            search = search_list ord ns;
            sig = dnsSignature es search
        in if sig = lastDNSSig ns then ([], ns)
           else ([ResolverSync (dn_tag ns) (dn_iface ns) es search],
                 case rsv (dn_tag ns) (dn_iface ns) es search of
                   ResolverOk \<Rightarrow> ns\<lparr>lastDNSErr := [], lastDNSSig := sig\<rparr>
                 | SearchUnsupported \<Rightarrow> ns\<lparr>lastDNSSig := sig\<rparr>
                 | ResolverError msg \<Rightarrow> if msg \<noteq> lastDNSErr ns then ns\<lparr>lastDNSErr := msg\<rparr> else ns))"

section \<open>Handlers\<close>

definition advertiseDNS :: "dns_state \<Rightarrow> dns_act list" where
  "advertiseDNS ns =
     (case advDNS ns of None \<Rightarrow> []
      | Some ds \<Rightarrow> map (\<lambda>d. DnsFlood (encodeDNSAdd (dn_nodeID ns) (df_domain d) (df_servers d)) None) ds)"

definition withdrawDNS :: "dns_state \<Rightarrow> dnsForward list \<Rightarrow> dns_act list" where
  "withdrawDNS ns fwds = map (\<lambda>d. DnsFlood (encodeDNSDel (dn_nodeID ns) (df_domain d)) None) fwds"

definition onDNSAdd :: "dns_order \<Rightarrow> resolver \<Rightarrow> int \<Rightarrow> nat \<Rightarrow> bytes \<Rightarrow> dns_state \<Rightarrow> dns_act list \<times> dns_state" where
  "onDNSAdd ord rsv now ps body ns =
     (case decodeDNSAdd body of None \<Rightarrow> ([], ns)
      | Some (origin, domain, servers) \<Rightarrow>
          if origin = dn_nodeID ns then ([], ns)
          else if dn_byNode ns origin = None then ([], ns)
          else
            let key = dnsKey origin domain;
                cur = map_of (learnedDNS ns) key;
                changed = (case cur of None \<Rightarrow> True | Some d \<Rightarrow> ld_servers d \<noteq> servers);
                rec = (case cur of None \<Rightarrow> \<lparr>ld_origin = origin, ld_domain = domain, ld_servers = servers, ld_lastSeen = now\<rparr>
                       | Some d \<Rightarrow> d\<lparr>ld_lastSeen := now, ld_servers := servers\<rparr>);
                ns1 = ns\<lparr>learnedDNS := AList.update key rec (learnedDNS ns)\<rparr>
            in if changed then
                 (case syncDNS ord rsv (ns1\<lparr>lastDNSSig := []\<rparr>) of (acts, ns2) \<Rightarrow>
                    (DnsFlood (encodeDNSAdd origin domain servers) (Some ps) # acts, ns2))
               else ([], ns1))"

definition onDNSDel :: "dns_order \<Rightarrow> resolver \<Rightarrow> nat \<Rightarrow> bytes \<Rightarrow> dns_state \<Rightarrow> dns_act list \<times> dns_state" where
  "onDNSDel ord rsv ps body ns =
     (case decodeDNSDel body of None \<Rightarrow> ([], ns)
      | Some (origin, domain) \<Rightarrow>
          if origin = dn_nodeID ns then ([], ns)
          else let key = dnsKey origin domain
               in if map_of (learnedDNS ns) key = None then ([], ns)
                  else case syncDNS ord rsv (ns\<lparr>learnedDNS := AList.delete key (learnedDNS ns), lastDNSSig := []\<rparr>) of (acts, ns1) \<Rightarrow>
                         (DnsFlood (encodeDNSDel origin domain) (Some ps) # acts, ns1))"

definition sweepStaleDNS :: "dns_order \<Rightarrow> resolver \<Rightarrow> int \<Rightarrow> int \<Rightarrow> dns_state \<Rightarrow> dns_act list \<times> dns_state" where
  "sweepStaleDNS ord rsv interval now ns =
     (let stale = (\<lambda>(_, d). now - ld_lastSeen d > routeTTL interval)
      in if list_ex stale (learnedDNS ns)
         then syncDNS ord rsv (ns\<lparr>learnedDNS := filter (\<lambda>x. \<not> stale x) (learnedDNS ns), lastDNSSig := []\<rparr>)
         else ([], ns))"

definition reloadDNS :: "dns_order \<Rightarrow> resolver \<Rightarrow> dnsForward list \<Rightarrow> string list \<Rightarrow> dns_state \<Rightarrow> dns_act list \<times> dns_state" where
  "reloadDNS ord rsv fwds reject ns =
     (let old = (case advDNS ns of None \<Rightarrow> [] | Some ds \<Rightarrow> ds);
          inNew = map_of (rev (map (\<lambda>d. (df_domain d, df_servers d)) fwds));
          gone = filter (\<lambda>d. inNew (df_domain d) \<noteq> Some (df_servers d)) old;
          ns1 = ns\<lparr>advDNS := Some fwds, advDNSReject := Some (lowerAll reject)\<rparr>
      in case syncDNS ord rsv (ns1\<lparr>lastDNSSig := []\<rparr>) of (acts, ns2) \<Rightarrow>
           ((if gone = [] then [] else withdrawDNS ns1 gone) @ advertiseDNS ns1 @ acts, ns2))"

definition shouldReadvertiseDNS :: "int \<Rightarrow> int \<Rightarrow> dns_state \<Rightarrow> bool \<times> dns_state" where
  "shouldReadvertiseDNS now interval ns =
     (case advDNS ns of None \<Rightarrow> (False, ns)
      | Some ds \<Rightarrow> if ds = [] then (False, ns)
                   else if now - lastDNSAdv ns < interval then (False, ns)
                   else (True, ns\<lparr>lastDNSAdv := now\<rparr>))"

section \<open>Messages are read back\<close>

lemma r_addr_encoded: "IsValid a \<Longrightarrow> r_addr (encodeAddr a @ r) = Some (WithoutZone (Unmap a), r)"
proof -
  assume v: "IsValid a"
  define b where "b = WithoutZone (Unmap a)"
  have "IsValid b" "\<not> has_zone b" "\<not> Is4In6 b" using v by (cases a; simp add: b_def IsValid_def)+
  moreover have "encodeAddr a = encodeAddr b" by (cases a) (simp_all add: b_def encodeAddr_def as16_def)
  ultimately show ?thesis using r_addr_put [of b r] by (simp add: b_def)
qed

lemma read_servers_put:
  "\<forall>a \<in> set as. IsValid a \<Longrightarrow> read_servers (length as) (concat (map encodeAddr as) @ r) = Some (map (\<lambda>a. WithoutZone (Unmap a)) as, r)"
  by (induction as) (simp_all add: r_addr_encoded)

lemma dns_message_roundtrip:
  assumes "clip255 domain \<noteq> []" "servers \<noteq> []" "\<forall>a \<in> set servers. IsValid a"
  shows "decodeDNSAdd (tl (encodeDNSAdd origin domain servers)) =
    Some (clip255 origin, clip255 domain, map (\<lambda>a. WithoutZone (Unmap a)) (take 255 servers))"
proof -
  define ss where "ss = take 255 servers"
  have s: "(if length servers > 255 then take 255 servers else servers) = ss" by (simp add: ss_def)
  have "length ss \<le> 255" "ss \<noteq> []" "\<forall>a \<in> set ss. IsValid a" using assms(2,3) by (auto simp: ss_def dest: in_set_takeD)
  moreover from this have "unat (of_nat (length ss) :: byte) = length ss" by (simp add: unat_of_nat)
  ultimately show ?thesis using assms(1) read_servers_put [of ss "[]"] unfolding ss_def [symmetric]
    by (simp add: encodeDNSAdd_def s Let_def decodeDNSAdd_def appendLenStr_eq wire_simps del: length_clip255)
qed

section \<open>What the resolver is given\<close>

definition own_servers :: "string \<Rightarrow> dnsForward list \<Rightarrow> addr list option" where
  "own_servers d ds = map_option df_servers (find (\<lambda>f. ToLower (df_domain f) = d) (rev ds))"

definition learned_servers :: "dns_state \<Rightarrow> string \<Rightarrow> (string \<times> learnedDNS_rec) list \<Rightarrow> addr list option" where
  "learned_servers ns d ls =
     map_option (\<lambda>(_, l). ld_servers l) (find (\<lambda>(_, l). ToLower (ld_domain l) = d \<and>
       (case advDNSReject ns of None \<Rightarrow> True | Some rs \<Rightarrow> d \<notin> set rs)) (rev ls))"

lemma dnsRejected_iff: "dnsRejected ns x \<longleftrightarrow> (case advDNSReject ns of None \<Rightarrow> False | Some rs \<Rightarrow> ToLower x \<in> set rs)"
  by (auto simp: dnsRejected_def split: option.splits)

lemma learned_servers_code:
  "learned_servers ns d ls =
     map_option (\<lambda>(_, l). ld_servers l) (find (\<lambda>(_, l). \<not> dnsRejected ns (ld_domain l) \<and> ToLower (ld_domain l) = d) (rev ls))"
  unfolding learned_servers_def
  by (intro arg_cong [where f = "map_option (\<lambda>(_, l). ld_servers l)"] find_cong) (auto simp: dnsRejected_iff split: option.splits)

lemma learned_fold:
  "map_of (foldl (\<lambda>m (_, d). if dnsRejected ns (ld_domain d) then m else AList.update (ToLower (ld_domain d)) (ld_servers d) m) [] ls) d =
     learned_servers ns d ls"
  by (induction ls rule: rev_induct) (auto simp: learned_servers_code update_conv split: prod.splits)

lemma own_fold:
  "map_of (foldl (\<lambda>m d. AList.update (ToLower (df_domain d)) (df_servers d) m) m ds) d =
     (case own_servers d ds of None \<Rightarrow> map_of m d | Some ss \<Rightarrow> Some ss)"
  by (induction ds rule: rev_induct) (auto simp: own_servers_def update_conv)

lemma byDomain_servers:
  "map_of (byDomain ord ns) d =
     (case own_servers d (case advDNS ns of None \<Rightarrow> [] | Some ds \<Rightarrow> ds) of Some ss \<Rightarrow> Some ss | None \<Rightarrow> learned_servers ns d (ord (learnedDNS ns)))"
proof -
  have "own_servers d [] = None" by (simp add: own_servers_def)
  then show ?thesis by (cases "advDNS ns") (auto simp: byDomain_def learned_fold own_fold split: option.split)
qed

lemma distinct_fold_update: "distinct (map fst m) \<Longrightarrow> distinct (map fst (foldl (\<lambda>m x. if P x then m else AList.update (k x) (v x) m) m xs))"
  by (induction xs arbitrary: m) (simp_all add: distinct_update)

lemma byDomain_distinct: "distinct (map fst (byDomain ord ns))"
proof -
  have "distinct (map fst (foldl (\<lambda>m x. if dnsRejected ns (ld_domain (snd x)) then m
      else AList.update (ToLower (ld_domain (snd x))) (ld_servers (snd x)) m) [] (ord (learnedDNS ns))))" by (rule distinct_fold_update) simp
  then have l: "distinct (map fst (foldl (\<lambda>m (_, d). if dnsRejected ns (ld_domain d) then m
      else AList.update (ToLower (ld_domain d)) (ld_servers d) m) [] (ord (learnedDNS ns))))" by (simp add: case_prod_unfold)
  show ?thesis
  proof (cases "advDNS ns")
    case None
    then show ?thesis using l by (simp add: byDomain_def)
  next
    case (Some ds)
    then show ?thesis using distinct_fold_update [OF l, of "\<lambda>_. False" "\<lambda>d. ToLower (df_domain d)" df_servers ds] by (simp add: byDomain_def)
  qed
qed

lemma dnsSignature_ne: "dnsSignature es search \<noteq> []"
  by (simp add: dnsSignature_def)

lemma sync_cleared:
  assumes "DNSSync ns" "lastDNSSig ns = []" "syncDNS ord rsv ns = (acts, ns')"
  shows "acts = [ResolverSync (dn_tag ns) (dn_iface ns) (dns_entries ord ns) (search_list ord ns)] \<and>
    (\<exists>e sg. ns' = ns\<lparr>lastDNSErr := e, lastDNSSig := sg\<rparr>)"
proof -
  have "ns' = ns\<lparr>lastDNSErr := lastDNSErr ns', lastDNSSig := lastDNSSig ns'\<rparr>"
    using assms(3) by (cases "rsv (dn_tag ns) (dn_iface ns) (dns_entries ord ns) (search_list ord ns)")
      (auto simp: syncDNS_def Let_def split: if_splits)
  then show ?thesis using assms dnsSignature_ne by (auto simp: syncDNS_def Let_def)
qed

lemma entries_spec:
  "distinct (map Domain (dns_entries ord ns)) \<and>
   (\<forall>d ss. \<lparr>Domain = d, Servers = ss\<rparr> \<in> set (dns_entries ord ns) \<longleftrightarrow>
     (case own_servers d (case advDNS ns of None \<Rightarrow> [] | Some ds \<Rightarrow> ds) of Some own \<Rightarrow> ss = own
      | None \<Rightarrow> learned_servers ns d (ord (learnedDNS ns)) = Some ss))"
proof -
  have "map Domain (dns_entries ord ns) = map fst (byDomain ord ns)" by (simp add: dns_entries_def split_def)
  moreover have "\<lparr>Domain = d, Servers = ss\<rparr> \<in> set (dns_entries ord ns) \<longleftrightarrow> map_of (byDomain ord ns) d = Some ss" for d ss
    using byDomain_distinct [of ord ns] by (force simp: dns_entries_def)
  ultimately show ?thesis using byDomain_distinct by (simp add: byDomain_servers) (auto split: option.splits)
qed

text \<open>What happens to a node, and what of its records counts: not when one was last heard.\<close>

datatype dns_event =
    GotDNSAdd int nat bytes
  | GotDNSDel nat bytes
  | DNSSweep int int
  | DNSReload "dnsForward list" "string list"

fun dns_event_step :: "dns_order \<Rightarrow> resolver \<Rightarrow> dns_event \<Rightarrow> dns_state \<Rightarrow> dns_act list \<times> dns_state" where
  "dns_event_step ord rsv (GotDNSAdd now ps body) ns = onDNSAdd ord rsv now ps body ns"
| "dns_event_step ord rsv (GotDNSDel ps body) ns = onDNSDel ord rsv ps body ns"
| "dns_event_step ord rsv (DNSSweep interval now) ns = sweepStaleDNS ord rsv interval now ns"
| "dns_event_step ord rsv (DNSReload fwds reject) ns = reloadDNS ord rsv fwds reject ns"

definition dns_records :: "dns_state \<Rightarrow> string \<Rightarrow> (string \<times> string \<times> addr list) option" where
  "dns_records ns k = map_option (\<lambda>l. (ld_origin l, ld_domain l, ld_servers l)) (map_of (learnedDNS ns) k)"

definition resolver_call :: "dns_act \<Rightarrow> bool" where
  "resolver_call a = (case a of ResolverSync _ _ _ _ \<Rightarrow> True | _ \<Rightarrow> False)"

text \<open>Every event that changes a record ends in a synchronisation with the signature cleared.\<close>

lemma change_syncs:
  assumes "dns_event_step ord rsv ev ns = (acts, ns')" "dns_records ns' \<noteq> dns_records ns \<or> (\<exists>fwds reject. ev = DNSReload fwds reject)"
  obtains ns0 sends acts0 where "syncDNS ord rsv ns0 = (acts0, ns')" "lastDNSSig ns0 = []" "DNSSync ns0 = DNSSync ns"
    "dn_tag ns0 = dn_tag ns" "dn_iface ns0 = dn_iface ns" "acts = sends @ acts0" "filter resolver_call sends = []"
proof (cases ev)
  case (GotDNSAdd now ps body)
  then obtain origin domain servers where d: "decodeDNSAdd body = Some (origin, domain, servers)" "origin \<noteq> dn_nodeID ns" "dn_byNode ns origin \<noteq> None"
    using assms by (auto simp: onDNSAdd_def split: option.splits if_splits)
  define key where "key = dnsKey origin domain"
  define rec where "rec = (case map_of (learnedDNS ns) key of None \<Rightarrow> \<lparr>ld_origin = origin, ld_domain = domain, ld_servers = servers, ld_lastSeen = now\<rparr>
     | Some d \<Rightarrow> d\<lparr>ld_lastSeen := now, ld_servers := servers\<rparr>)"
  define ns1 where "ns1 = ns\<lparr>learnedDNS := AList.update key rec (learnedDNS ns)\<rparr>"
  note e = assms(1) [unfolded GotDNSAdd dns_event_step.simps onDNSAdd_def, simplified d option.case prod.case Let_def key_def [symmetric],
      folded rec_def, folded ns1_def]
  have "\<not> (\<exists>l. map_of (learnedDNS ns) key = Some l \<and> ld_servers l = servers)"
  proof
    assume "\<exists>l. map_of (learnedDNS ns) key = Some l \<and> ld_servers l = servers"
    then obtain l where l: "map_of (learnedDNS ns) key = Some l" "ld_servers l = servers" by blast
    then have "ns' = ns1" using e d(2,3) by (auto split: option.splits)
    then have "dns_records ns' = dns_records ns" using l by (auto simp: dns_records_def ns1_def rec_def update_conv)
    then show False using assms(2) GotDNSAdd by simp
  qed
  then obtain acts0 where "syncDNS ord rsv (ns1\<lparr>lastDNSSig := []\<rparr>) = (acts0, ns')" "acts = DnsFlood (encodeDNSAdd origin domain servers) (Some ps) # acts0"
    using e d(2,3) by (auto split: option.splits prod.splits)
  then show thesis using that [of "ns1\<lparr>lastDNSSig := []\<rparr>" acts0 "[DnsFlood (encodeDNSAdd origin domain servers) (Some ps)]"]
    by (simp add: ns1_def resolver_call_def)
next
  case (GotDNSDel ps body)
  obtain origin domain where d: "decodeDNSDel body = Some (origin, domain)" "origin \<noteq> dn_nodeID ns" "map_of (learnedDNS ns) (dnsKey origin domain) \<noteq> None"
    using assms GotDNSDel by (auto simp: onDNSDel_def Let_def split: option.splits if_splits)
  then obtain acts0 where "syncDNS ord rsv (ns\<lparr>learnedDNS := AList.delete (dnsKey origin domain) (learnedDNS ns), lastDNSSig := []\<rparr>) = (acts0, ns')"
    "acts = DnsFlood (encodeDNSDel origin domain) (Some ps) # acts0"
    using assms(1) GotDNSDel by (auto simp: onDNSDel_def Let_def split: prod.splits)
  then show thesis using that [of _ acts0 "[DnsFlood (encodeDNSDel origin domain) (Some ps)]"] by (simp add: resolver_call_def)
next
  case (DNSSweep interval now)
  define stale where "stale = (\<lambda>(_ :: string, d :: learnedDNS_rec). now - ld_lastSeen d > routeTTL interval)"
  have "list_ex stale (learnedDNS ns)" using assms DNSSweep by (auto simp: sweepStaleDNS_def stale_def Let_def split: if_splits)
  then have "syncDNS ord rsv (ns\<lparr>learnedDNS := filter (\<lambda>x. \<not> stale x) (learnedDNS ns), lastDNSSig := []\<rparr>) = (acts, ns')"
    using assms(1) DNSSweep by (simp add: sweepStaleDNS_def stale_def Let_def)
  then show thesis using that [of _ acts "[]"] by simp
next
  case (DNSReload fwds reject)
  define ns1 where "ns1 = ns\<lparr>advDNS := Some fwds, advDNSReject := Some (lowerAll reject)\<rparr>"
  define gone where "gone = filter (\<lambda>d. map_of (rev (map (\<lambda>d. (df_domain d, df_servers d)) fwds)) (df_domain d) \<noteq> Some (df_servers d))
      (case advDNS ns of None \<Rightarrow> [] | Some ds \<Rightarrow> ds)"
  obtain acts0 ns2 where sy: "syncDNS ord rsv (ns1\<lparr>lastDNSSig := []\<rparr>) = (acts0, ns2)" by fastforce
  have "acts = ((if gone = [] then [] else withdrawDNS ns1 gone) @ advertiseDNS ns1) @ acts0 \<and> ns2 = ns'"
    using assms(1) sy by (simp add: DNSReload reloadDNS_def Let_def gone_def [symmetric] ns1_def [symmetric] cong: if_cong)
  moreover have "filter resolver_call ((if gone = [] then [] else withdrawDNS ns1 gone) @ advertiseDNS ns1) = []"
    by (auto simp: withdrawDNS_def advertiseDNS_def resolver_call_def filter_empty_conv split: option.splits)
  ultimately show thesis using sy that [of "ns1\<lparr>lastDNSSig := []\<rparr>" acts0] by (simp add: ns1_def)
qed

text \<open>C37: the resolver gets what the mesh forwards. Whenever an advertisement, a withdrawal or the expiry of records
  changes a record, and at every reload, the resolver is called, once, even when nothing is left to forward; it
  is given one entry for each domain, whatever its spelling, with the servers this node
  configured for it or else those of the accepted record the loop meets last, and none for a domain that
  is rejected or that nobody forwards.\<close>
theorem dns_change_reaches_resolver:
  assumes "DNSSync ns" "dns_event_step ord rsv ev ns = (acts, ns')"
    and "dns_records ns' \<noteq> dns_records ns \<or> (\<exists>fwds reject. ev = DNSReload fwds reject)"
  shows "\<exists>es search. filter resolver_call acts = [ResolverSync (dn_tag ns) (dn_iface ns) es search] \<and> distinct (map Domain es) \<and>
    (\<forall>d ss. \<lparr>Domain = d, Servers = ss\<rparr> \<in> set es \<longleftrightarrow>
       (case own_servers d (case advDNS ns' of None \<Rightarrow> [] | Some ds \<Rightarrow> ds) of Some own \<Rightarrow> ss = own
        | None \<Rightarrow> learned_servers ns' d (ord (learnedDNS ns')) = Some ss))"
proof -
  obtain ns0 sends acts0 where c: "syncDNS ord rsv ns0 = (acts0, ns')" "lastDNSSig ns0 = []" "DNSSync ns0 = DNSSync ns"
    "dn_tag ns0 = dn_tag ns" "dn_iface ns0 = dn_iface ns" "acts = sends @ acts0" "filter resolver_call sends = []"
    by (rule change_syncs [OF assms(2,3)])
  from sync_cleared [OF _ c(2,1)] obtain e sg where s: "acts0 = [ResolverSync (dn_tag ns) (dn_iface ns) (dns_entries ord ns0) (search_list ord ns0)]"
    "ns' = ns0\<lparr>lastDNSErr := e, lastDNSSig := sg\<rparr>"
    using assms(1) c(3-5) by auto
  have e: "dns_entries ord ns' = dns_entries ord ns0"
    unfolding s(2) by (simp add: dns_entries_def byDomain_def dnsRejected_def)
  show ?thesis using entries_spec [of ord ns', unfolded e] s(1) c(6,7)
    by (intro exI [of _ "dns_entries ord ns0"] exI [of _ "search_list ord ns0"]) (simp add: resolver_call_def)
qed

section \<open>Two nodes that forward one domain\<close>

text \<open>two peers that forward one domain to different servers make every node call its resolver over and over. The
  loop over the map takes the records in either order and the last one wins, so with every change of the
  order, which the map makes at random, the other server is registered anew, though nothing changed.\<close>
theorem dns_two_origins_flap:
  assumes "learnedDNS ns = [(k1, d1), (k2, d2)]" "ToLower (ld_domain d1) = ToLower (ld_domain d2)" "advDNS ns = None" "DNSSync ns"
    and "\<not> dnsRejected ns (ld_domain d1)" "\<not> dnsRejected ns (ld_domain d2)" "searchDomains ns = None" "\<not> SearchLearned ns"
    and "join '','' (sort_Strings (map addr_String (ld_servers d1))) \<noteq> join '','' (sort_Strings (map addr_String (ld_servers d2)))"
    and "\<And>t i es se. rsv t i es se = ResolverOk"
    and "syncDNS id rsv ns = (a1, n1)" "syncDNS rev rsv n1 = (a2, n2)" "syncDNS id rsv n2 = (a3, n3)"
  shows "a2 = [ResolverSync (dn_tag ns) (dn_iface ns) [\<lparr>Domain = ToLower (ld_domain d1), Servers = ld_servers d1\<rparr>] []] \<and>
    a3 = [ResolverSync (dn_tag ns) (dn_iface ns) [\<lparr>Domain = ToLower (ld_domain d1), Servers = ld_servers d2\<rparr>] []] \<and> n3 = n2\<lparr>lastDNSSig := lastDNSSig n3\<rparr> \<and>
    learnedDNS n3 = learnedDNS ns"
proof -
  define e where "e ss = \<lparr>Domain = ToLower (ld_domain d1), Servers = ss\<rparr>" for ss
  define sg where "sg ss = dnsSignature [e ss] []" for ss
  have sort1: "sort_Strings [x] = [x]" "sort_Strings [] = []" for x by (simp_all add: sort_Strings_def)
  have sg: "sg (ld_servers d1) \<noteq> sg (ld_servers d2)"
    using assms(9) by (simp add: sg_def e_def dnsSignature_def forward_line_def sort1 join_def [of "[nl]"])
  have st: "dns_entries id n = [e (ld_servers d2)] \<and> dns_entries rev n = [e (ld_servers d1)] \<and> search_list ord n = []"
    if "n = ns\<lparr>lastDNSErr := x, lastDNSSig := y\<rparr>" for n x y ord
    using assms(1-8) that by (simp add: dns_entries_def search_list_def effectiveSearchDomains_def byDomain_def e_def dnsRejected_def)
  have e0: "dns_entries id ns = [e (ld_servers d2)]" "search_list id ns = []"
    using st [where n = ns and x = "lastDNSErr ns" and y = "lastDNSSig ns" and ord = id] by simp_all
  have "\<exists>x1. n1 = ns\<lparr>lastDNSErr := x1, lastDNSSig := sg (ld_servers d2)\<rparr>"
  proof (cases "lastDNSSig ns = sg (ld_servers d2)")
    case True
    then have "n1 = ns" using assms(4,11) e0 by (simp add: syncDNS_def sg_def)
    then show ?thesis using True by (intro exI [of _ "lastDNSErr ns"]) simp
  next
    case False
    then show ?thesis using assms(4,10,11) e0 by (auto simp: syncDNS_def sg_def Let_def)
  qed
  then obtain x1 where n1: "n1 = ns\<lparr>lastDNSErr := x1, lastDNSSig := sg (ld_servers d2)\<rparr>" by blast
  have "a2 = [ResolverSync (dn_tag ns) (dn_iface ns) [e (ld_servers d1)] []] \<and> n2 = ns\<lparr>lastDNSErr := [], lastDNSSig := sg (ld_servers d1)\<rparr>"
    using assms(4,10,12) st [OF n1, of rev] sg n1 by (auto simp: syncDNS_def Let_def sg_def)
  moreover from this have "a3 = [ResolverSync (dn_tag ns) (dn_iface ns) [e (ld_servers d2)] []] \<and> n3 = ns\<lparr>lastDNSErr := [], lastDNSSig := sg (ld_servers d2)\<rparr>"
    using assms(4,10,13) st [where n = n2 and x = "[]" and y = "sg (ld_servers d1)" and ord = id] sg by (auto simp: syncDNS_def Let_def sg_def)
  ultimately show ?thesis by (simp add: e_def)
qed

definition ex_dns :: dns_state where
  "ex_dns = \<lparr>dn_nodeID = ''me'', dn_byNode = [''a'' \<mapsto> 1, ''b'' \<mapsto> 2],
     learnedDNS = [(''a|lan'', \<lparr>ld_origin = ''a'', ld_domain = ''lan'', ld_servers = [Addr4 1], ld_lastSeen = 0\<rparr>),
                   (''b|LAN'', \<lparr>ld_origin = ''b'', ld_domain = ''LAN'', ld_servers = [Addr4 2], ld_lastSeen = 0\<rparr>)],
     advDNS = None, advDNSReject = None, DNSSync = True, dn_iface = ''gn0'', dn_tag = ''1'', searchDomains = None, SearchLearned = False,
     lastDNSSig = [], lastDNSErr = [], lastDNSAdv = 0\<rparr>"

lemma dns_change_reaches_resolver_witness:
  "\<exists>es search. filter resolver_call (fst (onDNSDel id (\<lambda>_ _ _ _. ResolverOk) 2 (tl (encodeDNSDel ''a'' ''lan'')) ex_dns)) =
       [ResolverSync ''1'' ''gn0'' es search] \<and> \<lparr>Domain = ''lan'', Servers = [Addr4 2]\<rparr> \<in> set es"
proof -
  obtain acts ns' where s: "dns_event_step id (\<lambda>_ _ _ _. ResolverOk) (GotDNSDel 2 (tl (encodeDNSDel ''a'' ''lan''))) ex_dns = (acts, ns')" by fastforce
  then have a: "acts = fst (onDNSDel id (\<lambda>_ _ _ _. ResolverOk) 2 (tl (encodeDNSDel ''a'' ''lan'')) ex_dns)"
    "ns' = snd (onDNSDel id (\<lambda>_ _ _ _. ResolverOk) 2 (tl (encodeDNSDel ''a'' ''lan'')) ex_dns)" by simp_all
  have "Option.is_none (dns_records ns' ''a|lan'') \<and> \<not> Option.is_none (dns_records ex_dns ''a|lan'')" unfolding a(2) by code_simp
  then have ch: "dns_records ns' \<noteq> dns_records ex_dns" by auto
  have l: "learned_servers ns' ''lan'' (learnedDNS ns') = Some [Addr4 2]" "Option.is_none (advDNS ns')" unfolding a(2) by code_simp+
  have "DNSSync ex_dns" "dn_tag ex_dns = ''1''" "dn_iface ex_dns = ''gn0''" by (simp_all add: ex_dns_def)
  moreover have "own_servers d [] = None" for d by (simp add: own_servers_def)
  moreover have "advDNS ns' = None" using l(2) by (simp add: Option.is_none_def)
  ultimately show ?thesis using dns_change_reaches_resolver [OF _ s disjI1 [OF ch]] l(1) unfolding a(1) [symmetric] by auto
qed

lemma dns_two_origins_flap_witness:
  "\<exists>es. fst (syncDNS rev (\<lambda>_ _ _ _. ResolverOk) (snd (syncDNS id (\<lambda>_ _ _ _. ResolverOk) ex_dns))) = [ResolverSync ''1'' ''gn0'' es []]"
proof -
  obtain a1 n1 where s1: "syncDNS id (\<lambda>_ _ _ _. ResolverOk) ex_dns = (a1, n1)" by fastforce
  obtain a2 n2 where s2: "syncDNS rev (\<lambda>_ _ _ _. ResolverOk) n1 = (a2, n2)" by fastforce
  obtain a3 n3 where s3: "syncDNS id (\<lambda>_ _ _ _. ResolverOk) n2 = (a3, n3)" by fastforce
  have l: "learnedDNS ex_dns = [(''a|lan'', \<lparr>ld_origin = ''a'', ld_domain = ''lan'', ld_servers = [Addr4 1], ld_lastSeen = 0\<rparr>),
     (''b|LAN'', \<lparr>ld_origin = ''b'', ld_domain = ''LAN'', ld_servers = [Addr4 2], ld_lastSeen = 0\<rparr>)]" by (simp add: ex_dns_def)
  have d: "advDNS ex_dns = None" "DNSSync ex_dns" "searchDomains ex_dns = None" "\<not> SearchLearned ex_dns" "\<And>d. \<not> dnsRejected ex_dns d"
    "dn_tag ex_dns = ''1''" "dn_iface ex_dns = ''gn0''" by (simp_all add: ex_dns_def dnsRejected_def)
  have "ToLower ''lan'' = ToLower ''LAN''" "join '','' (sort_Strings (map addr_String [Addr4 1])) \<noteq> join '','' (sort_Strings (map addr_String [Addr4 2]))"
    by code_simp+
  then have "a2 = [ResolverSync ''1'' ''gn0'' [\<lparr>Domain = ToLower ''lan'', Servers = [Addr4 1]\<rparr>] []]"
    using dns_two_origins_flap [OF l _ d(1,2,5,5,3,4) _ _ s1 s2 s3] d(6,7) by simp
  then show ?thesis using s1 s2 by simp
qed

end
