(* ===== verification/Nat_Config.thy ===== *)
theory Nat_Config
  imports Nat_Flows Fw_Catalog
begin

text \<open>
  From the configured form of a NAT rule to the rule the table runs: \<open>NATRuleSpec.toRule\<close> of
  internal/mesh/nat.go with its helpers, and \<open>SplitNATTarget\<close> of internal/config/ops.go, which
  reads a port-forward target. An error is \<open>None\<close>. The addresses the operating system lists
  for an interface are a parameter.
\<close>

record NATRuleSpec =
  ns_Source :: string
  ns_Dest :: string
  ns_SourceNegate :: bool
  ns_DestNegate :: bool
  ns_DestPort :: string
  ns_Proto :: string
  ns_Translate :: string
  ns_Interface :: string

definition portForwardPrefix :: string where "portForwardPrefix = ''port-forward:''"

definition IsLoopback :: "addr \<Rightarrow> bool" where
  "IsLoopback a = (case a of Addr4 w \<Rightarrow> drop_bit 24 w = 127 | Addr6 w _ \<Rightarrow> w = 1 | NoAddr \<Rightarrow> False)"

definition IsLinkLocalUnicast :: "addr \<Rightarrow> bool" where
  "IsLinkLocalUnicast a =
     (case a of Addr4 w \<Rightarrow> drop_bit 16 w = 0xa9fe | Addr6 w _ \<Rightarrow> drop_bit 118 w = 0x3fa | NoAddr \<Rightarrow> False)"

definition AddrFromSlice :: "bytes \<Rightarrow> addr option" where
  "AddrFromSlice bs = (if length bs = 4 then Some (AddrFrom4 bs) else if length bs = 16 then Some (AddrFrom16 bs) else None)"

text \<open>\<open>addrs\<close> lists the byte forms of the interface's addresses; \<open>None\<close> when it cannot be listed.\<close>

fun first_usable :: "bool \<Rightarrow> bytes list \<Rightarrow> addr option" where
  "first_usable want6 [] = None"
| "first_usable want6 (b # bs) =
     (case AddrFromSlice b of
        None \<Rightarrow> first_usable want6 bs
      | Some a0 \<Rightarrow>
          let na = Unmap a0
          in if Is4 na = want6 then first_usable want6 bs
             else if IsLoopback na then first_usable want6 bs
             else if want6 \<and> IsLinkLocalUnicast na then first_usable want6 bs
             else Some na)"

definition interfaceAddr :: "(string \<Rightarrow> bytes list option) \<Rightarrow> string \<Rightarrow> bool \<Rightarrow> addr option" where
  "interfaceAddr addrs name want6 = (case addrs name of None \<Rightarrow> None | Some bs \<Rightarrow> first_usable want6 bs)"

definition cutPrefixFold :: "string \<Rightarrow> string \<Rightarrow> string \<times> bool" where
  "cutPrefixFold s p =
     (if length s < length p \<or> \<not> EqualFold (take (length p) s) p then (s, False) else (drop (length p) s, True))"

definition parsePortSpec :: "string \<Rightarrow> (16 word \<times> 16 word) option" where
  "parsePortSpec s =
     (case Cut s CHR ''-'' of
        (a, _, False) \<Rightarrow>
          (case Atoi a of None \<Rightarrow> None
           | Some p \<Rightarrow> if p < 1 \<or> p > 65535 then None else Some (of_int p, of_int p))
      | (a, b, True) \<Rightarrow>
          (case (Atoi a, Atoi b) of
             (Some lo, Some hi) \<Rightarrow>
               if lo < 1 \<or> lo > 65535 \<or> hi < 1 \<or> hi > 65535 \<or> lo > hi then None else Some (of_int lo, of_int hi)
           | _ \<Rightarrow> None))"

text \<open>The address, the port text and whether there is one.\<close>

definition SplitNATTarget :: "string \<Rightarrow> (string \<times> string \<times> bool) option" where
  "SplitNATTarget s0 =
     (let s = TrimSpace s0
      in if s = [] then None
         else if HasPrefix s ''['' then
           (case Cut s CHR '']'' of
              (_, _, False) \<Rightarrow> None
            | (front, back, True) \<Rightarrow>
                let a = TrimSpace (tl front); remainder = TrimSpace back
                in if remainder = [] then Some (a, [], False)
                   else if HasPrefix remainder '':'' then Some (a, TrimSpace (tl remainder), True)
                   else None)
         else if ParseAddr s \<noteq> None then Some (s, [], False)
         else case Cut s CHR '':'' of
                (_, _, False) \<Rightarrow> Some (s, [], False)
              | (a, p, True) \<Rightarrow> Some (TrimSpace a, TrimSpace p, True))"

definition natTargetText :: "addr \<Rightarrow> 16 word \<Rightarrow> string" where
  "natTargetText ip port =
     (if port = 0 then addr_String ip
      else if Is6 ip then ''['' @ addr_String ip @ '']:'' @ Itoa_nat (unat port)
      else addr_String ip @ '':'' @ Itoa_nat (unat port))"

text \<open>What \<open>Translate\<close> asks for: the action, the text of the target and the new port.\<close>

definition spec_target :: "(string \<Rightarrow> bytes list option) \<Rightarrow> NATRuleSpec \<Rightarrow> prefix \<Rightarrow> (natAction \<times> string \<times> 16 word) option" where
  "spec_target addrs s src =
     (let translate = TrimSpace (ns_Translate s)
      in case cutPrefixFold translate portForwardPrefix of
        (rest, True) \<Rightarrow>
          (case SplitNATTarget rest of
             None \<Rightarrow> None
           | Some (a, _, False) \<Rightarrow> Some (dnatAction, a, 0)
           | Some (a, portStr, True) \<Rightarrow>
               (case Atoi (TrimSpace portStr) of
                  None \<Rightarrow> None
                | Some p \<Rightarrow> if p < 1 \<or> p > 65535 then None else Some (dnatAction, a, of_int p)))
      | (_, False) \<Rightarrow>
          if (translate = [] \<or> EqualFold translate ''masquerade'') \<and> ns_Interface s \<noteq> []
          then (case interfaceAddr addrs (ns_Interface s) (prefix_valid src \<and> \<not> Is4 (prefix_addr src)) of
                  None \<Rightarrow> None
                | Some ip \<Rightarrow> Some (snatAction, addr_String ip, 0))
          else Some (snatAction, translate, 0))"

definition NATRuleSpec_toRule :: "(string \<Rightarrow> bytes list option) \<Rightarrow> NATRuleSpec \<Rightarrow> natRule option" where
  "NATRuleSpec_toRule addrs s =
     (case parsePrefixField (ns_Source s) of None \<Rightarrow> None
      | Some src \<Rightarrow>
     (case parsePrefixField (ns_Dest s) of None \<Rightarrow> None
      | Some dst \<Rightarrow>
     (case spec_target addrs s src of None \<Rightarrow> None
      | Some (act, translate, tp) \<Rightarrow>
     (case ParseAddr translate of None \<Rightarrow> None
      | Some to \<Rightarrow>
         let is6 = (\<not> Is4 to)
         in if Is4In6 to then None
            else if prefix_valid src \<and> (\<not> Is4 (prefix_addr src)) \<noteq> is6 then None
            else if prefix_valid dst \<and> (\<not> Is4 (prefix_addr dst)) \<noteq> is6 then None
            else
              let dp = TrimSpace (ns_DestPort s)
              in case (if dp = [] then Some (0, 0) else parsePortSpec dp) of
                None \<Rightarrow> None
              | Some (lo, hi) \<Rightarrow>
                  Some \<lparr>action = act, r_is6 = is6, r_src = src, r_dst = dst, srcNeg = ns_SourceNegate s,
                        dstNeg = ns_DestNegate s, r_proto = protoNum (ns_Proto s), r_to = to,
                        dportLo = lo, dportHi = hi, toPort = tp\<rparr>))))"

section \<open>What a configured rule looks like\<close>

lemma ParseAddr_valid: "ParseAddr s = Some a \<Longrightarrow> (\<exists>w. a = Addr4 w) \<or> (\<exists>w z. a = Addr6 w z)"
  by (auto simp: ParseAddr_def parseIPv6_def AddrFrom4_def Let_def split: option.splits if_splits prod.splits)

lemma parsePortSpec_range: "parsePortSpec s = Some (lo, hi) \<Longrightarrow> 0 < lo \<and> lo \<le> hi"
proof -
  have m: "unat (of_int p :: 16 word) = nat p" if "1 \<le> p" "p \<le> 65535" for p :: int
  proof -
    obtain n where "p = int n" using \<open>1 \<le> p\<close> by (metis zero_le_imp_eq_int order_trans zero_le_one)
    then show ?thesis using that by (simp add: unat_of_nat)
  qed
  assume "parsePortSpec s = Some (lo, hi)"
  then have "\<exists>p q. 1 \<le> p \<and> p \<le> q \<and> q \<le> 65535 \<and> lo = of_int p \<and> hi = of_int q"
    by (auto simp: parsePortSpec_def not_less split: prod.splits bool.splits option.splits if_splits)
  then obtain p q where "1 \<le> p" "p \<le> q" "q \<le> 65535" "lo = of_int p" "hi = of_int q" by blast
  then show ?thesis using m [of p] m [of q] by (simp add: word_le_nat_alt word_less_nat_alt nat_le_eq_zle)
qed

text \<open>C13: A rule accepted from the configuration is well typed for the data path: its target and every
  prefix it matches on are of the rule's own family, a target without a zone satisfies the
  invariant of the NAT table, a port bound is a non-empty range of real ports (or absent), and only a
  port-forward rule has a new port.\<close>
theorem configured_rules_well_typed:
  assumes "NATRuleSpec_toRule addrs s = Some r"
  shows "(Is4 (r_to r) \<longleftrightarrow> \<not> r_is6 r) \<and>
    (prefix_valid (r_src r) \<longrightarrow> (Is4 (prefix_addr (r_src r)) \<longleftrightarrow> \<not> r_is6 r)) \<and>
    (prefix_valid (r_dst r) \<longrightarrow> (Is4 (prefix_addr (r_dst r)) \<longleftrightarrow> \<not> r_is6 r)) \<and>
    (\<not> has_zone (r_to r) \<longrightarrow> rule_wf r) \<and>
    (dportLo r = 0 \<and> dportHi r = 0 \<or> 0 < dportLo r \<and> dportLo r \<le> dportHi r) \<and>
    (toPort r \<noteq> 0 \<longrightarrow> action r = dnatAction)"
proof -
  obtain src dst act translate tp to lo hi where
    st: "spec_target addrs s src = Some (act, translate, tp)" and to: "ParseAddr translate = Some to" "\<not> Is4In6 to"
    and src: "prefix_valid src \<longrightarrow> (\<not> Is4 (prefix_addr src)) = (\<not> Is4 to)"
    and dst: "prefix_valid dst \<longrightarrow> (\<not> Is4 (prefix_addr dst)) = (\<not> Is4 to)"
    and ports: "(if TrimSpace (ns_DestPort s) = [] then Some (0, 0) else parsePortSpec (TrimSpace (ns_DestPort s))) = Some (lo, hi)"
    and r: "r = \<lparr>action = act, r_is6 = (\<not> Is4 to), r_src = src, r_dst = dst, srcNeg = ns_SourceNegate s,
                dstNeg = ns_DestNegate s, r_proto = protoNum (ns_Proto s), r_to = to, dportLo = lo, dportHi = hi, toPort = tp\<rparr>"
    using assms by (auto simp: NATRuleSpec_toRule_def Let_def split: option.splits if_splits prod.splits)
  have "tp \<noteq> 0 \<longrightarrow> act = dnatAction"
    using st by (auto simp: spec_target_def Let_def split: prod.splits bool.splits option.splits if_splits)
  moreover have "lo = 0 \<and> hi = 0 \<or> 0 < lo \<and> lo \<le> hi"
    using ports parsePortSpec_range by (auto split: if_splits)
  moreover have "\<not> has_zone to \<longrightarrow> rule_wf r"
    using ParseAddr_valid [OF to(1)] by (auto simp: rule_wf_def fam_def r)
  ultimately show ?thesis using src dst by (simp add: r)
qed

lemma configured_rules_well_typed_witness:
  "\<exists>r. NATRuleSpec_toRule (\<lambda>_. None)
      \<lparr>ns_Source = [], ns_Dest = ''10.0.0.1'', ns_SourceNegate = False, ns_DestNegate = False, ns_DestPort = ''80-90'',
       ns_Proto = ''udp'', ns_Translate = ''Port-Forward:10.0.0.9'', ns_Interface = []\<rparr> = Some r \<and> rule_wf r"
proof -
  let ?s = "\<lparr>ns_Source = [], ns_Dest = ''10.0.0.1'', ns_SourceNegate = False, ns_DestNegate = False, ns_DestPort = ''80-90'',
       ns_Proto = ''udp'', ns_Translate = ''Port-Forward:10.0.0.9'', ns_Interface = []\<rparr>"
  have "map_option (has_zone \<circ> r_to) (NATRuleSpec_toRule (\<lambda>_. None) ?s) = Some False" by code_simp
  then obtain r where r: "NATRuleSpec_toRule (\<lambda>_. None) ?s = Some r" "\<not> has_zone (r_to r)" by auto
  then show ?thesis using configured_rules_well_typed [OF r(1)] by blast
qed

end
