(* ===== verification/Nat_Editor.thy ===== *)
theory Nat_Editor
  imports Nat_Config Hosts_File
begin

text \<open>
  Editing the NAT rules of the configuration (the NAT section of internal/config/ops.go): validation,
  normalisation and the list operations. An error is \<open>Inl\<close> of the kind of message the code gives.
  \<open>Nat_Halves\<close> holds what the editor promises to the engine and to the kernel.
\<close>

record NATRule =
  nr_Source :: string
  nr_Dest :: string
  nr_SourceNegate :: bool
  nr_DestNegate :: bool
  nr_DestPort :: string
  nr_Proto :: string
  nr_Translate :: string
  nr_Interface :: string
  nr_Enabled :: bool

datatype nat_error =
    NotAnAddress | MappedAddress | BadPortRange | BadProto | PortNeedsProto | BadTarget | BadRemapPort | RemapNeedsOnePort
  | MixedFamilies | PortNeedsForward | NeedsInterface | MasqueradeAny | NegatedAny | NoRuleAt | RuleExists | NoRuleFor

type_synonym 'a nat_result = "nat_error + 'a"

section \<open>Fields\<close>

definition validNATCIDR :: "string \<Rightarrow> string nat_result" where
  "validNATCIDR s0 =
     (let s = TrimSpace s0
      in if s = [] \<or> EqualFold s ''any'' then Inr []
         else case ParseAddr s of
           Some ip \<Rightarrow> if Is4In6 ip then Inl MappedAddress else Inr s
         | None \<Rightarrow>
             (case ParsePrefix s of
                Some p \<Rightarrow> if Is4In6 (prefix_addr p) then Inl MappedAddress else Inr s
              | None \<Rightarrow> Inl NotAnAddress))"

text \<open>The family a field names, when it names one: whether it is IPv6.\<close>

definition natFieldFamily :: "string \<Rightarrow> bool option" where
  "natFieldFamily s =
     (if s = [] then None
      else case ParseAddr s of Some ip \<Rightarrow> Some (\<not> Is4 ip)
         | None \<Rightarrow> (case ParsePrefix s of Some p \<Rightarrow> Some (\<not> Is4 (prefix_addr p)) | None \<Rightarrow> None))"

fun agree_from :: "bool option \<Rightarrow> string list \<Rightarrow> bool nat_result" where
  "agree_from have6 [] = Inr (case have6 of None \<Rightarrow> False | Some b \<Rightarrow> b)"
| "agree_from have6 (f # fs) =
     (case natFieldFamily f of None \<Rightarrow> agree_from have6 fs
      | Some v6 \<Rightarrow>
          (case have6 of None \<Rightarrow> agree_from (Some v6) fs
           | Some is6 \<Rightarrow> if v6 \<noteq> is6 then Inl MixedFamilies else agree_from have6 fs))"

definition natFamilyAgreement :: "string list \<Rightarrow> bool nat_result" where
  "natFamilyAgreement fs = agree_from None fs"

definition validNATPortSpec :: "string \<Rightarrow> (16 word \<times> 16 word) nat_result" where
  "validNATPortSpec s0 =
     (let s = TrimSpace s0
      in if s = [] then Inr (0, 0)
         else case Cut s CHR ''-'' of
           (a, _, False) \<Rightarrow>
             (case Atoi a of None \<Rightarrow> Inl BadPortRange
              | Some p \<Rightarrow> if p < 1 \<or> p > 65535 then Inl BadPortRange else Inr (of_int p, of_int p))
         | (a, b, True) \<Rightarrow>
             (case (Atoi a, Atoi b) of
                (Some lo, Some hi) \<Rightarrow>
                  if lo < 1 \<or> lo > 65535 \<or> hi < 1 \<or> hi > 65535 \<or> lo > hi then Inl BadPortRange else Inr (of_int lo, of_int hi)
              | _ \<Rightarrow> Inl BadPortRange))"

definition natPortForwardPrefix :: string where "natPortForwardPrefix = ''port-forward:''"

definition cutNATPortForwardPrefix :: "string \<Rightarrow> string \<times> bool" where
  "cutNATPortForwardPrefix s =
     (if length s < length natPortForwardPrefix \<or> \<not> EqualFold (take (length natPortForwardPrefix) s) natPortForwardPrefix then (s, False)
      else (drop (length natPortForwardPrefix) s, True))"

definition emptyNATRule :: NATRule where
  "emptyNATRule = \<lparr>nr_Source = [], nr_Dest = [], nr_SourceNegate = False, nr_DestNegate = False, nr_DestPort = [], nr_Proto = [],
     nr_Translate = [], nr_Interface = [], nr_Enabled = False\<rparr>"

section \<open>Building a rule\<close>

text \<open>The text stored for the target of a port forward.\<close>

definition forward_text :: "16 word \<times> 16 word \<Rightarrow> string \<Rightarrow> (string \<times> string) nat_result" where
  "forward_text dp rest =
     (case SplitNATTarget rest of None \<Rightarrow> Inl BadTarget
      | Some (addrPart, portPart, hasPort) \<Rightarrow>
          (case ParseAddr addrPart of None \<Rightarrow> Inl NotAnAddress
           | Some ip \<Rightarrow>
               if Is4In6 ip then Inl MappedAddress
               else if \<not> hasPort then Inr (addrPart, natPortForwardPrefix @ natTargetText ip 0)
               else case Atoi (TrimSpace portPart) of None \<Rightarrow> Inl BadRemapPort
                    | Some p \<Rightarrow>
                        if p < 1 \<or> p > 65535 then Inl BadRemapPort
                        else if fst dp = 0 \<or> fst dp \<noteq> snd dp then Inl RemapNeedsOnePort
                        else Inr (addrPart, natPortForwardPrefix @ natTargetText ip (of_int p))))"

definition build_forward :: "string \<Rightarrow> string \<Rightarrow> string \<Rightarrow> 16 word \<times> 16 word \<Rightarrow> string \<Rightarrow> string \<Rightarrow> NATRule nat_result" where
  "build_forward src dst destPort dp proto rest =
     (case forward_text dp rest of Inl e \<Rightarrow> Inl e
      | Inr (addrPart, out) \<Rightarrow>
          (case natFamilyAgreement [src, dst, addrPart] of Inl e \<Rightarrow> Inl e
           | Inr _ \<Rightarrow> Inr (emptyNATRule\<lparr>nr_Source := src, nr_Dest := dst, nr_DestPort := destPort, nr_Proto := proto, nr_Translate := out\<rparr>)))"

definition build_snat :: "string \<Rightarrow> string \<Rightarrow> string \<Rightarrow> string \<Rightarrow> NATRule nat_result" where
  "build_snat src dst translate0 iface0 =
     (case (if translate0 = [] \<or> EqualFold translate0 ''masquerade'' then
              if iface0 = [] then Inl NeedsInterface
              else if natFieldFamily src = None then Inl MasqueradeAny
              else Inr (''masquerade'', iface0)
            else case ParseAddr translate0 of None \<Rightarrow> Inl NotAnAddress
                 | Some ip \<Rightarrow> if Is4In6 ip then Inl MappedAddress else Inr (translate0, [])) of
        Inl e \<Rightarrow> Inl e
      | Inr (translate, iface) \<Rightarrow>
          (case natFamilyAgreement [src, dst, translate] of Inl e \<Rightarrow> Inl e
           | Inr _ \<Rightarrow> Inr (emptyNATRule\<lparr>nr_Source := src, nr_Dest := dst, nr_Translate := translate, nr_Interface := iface\<rparr>)))"

definition buildNATRule :: "string \<Rightarrow> string \<Rightarrow> string \<Rightarrow> string \<Rightarrow> string \<Rightarrow> string \<Rightarrow> NATRule nat_result" where
  "buildNATRule source dest destPort0 proto0 translate0 iface0 =
     (case validNATCIDR source of Inl e \<Rightarrow> Inl e
      | Inr src \<Rightarrow>
     (case validNATCIDR dest of Inl e \<Rightarrow> Inl e
      | Inr dst \<Rightarrow>
     (let destPort = TrimSpace destPort0
      in case validNATPortSpec destPort of Inl e \<Rightarrow> Inl e
      | Inr dp \<Rightarrow>
     (let proto = ToLower (TrimSpace proto0)
      in if proto \<noteq> [] \<and> proto \<noteq> ''tcp'' \<and> proto \<noteq> ''udp'' then Inl BadProto
         else if destPort \<noteq> [] \<and> proto = [] then Inl PortNeedsProto
         else
           let translate = TrimSpace translate0; iface = TrimSpace iface0
           in case cutNATPortForwardPrefix translate of
                (rest, True) \<Rightarrow> build_forward src dst destPort dp proto rest
              | (_, False) \<Rightarrow>
                  if destPort \<noteq> [] then Inl PortNeedsForward else build_snat src dst translate iface))))"

definition applyNATNegate :: "NATRule \<Rightarrow> bool \<Rightarrow> bool \<Rightarrow> NATRule nat_result" where
  "applyNATNegate r sneg dneg =
     (if sneg \<and> nr_Source r = [] then Inl NegatedAny
      else if dneg \<and> nr_Dest r = [] then Inl NegatedAny
      else Inr (r\<lparr>nr_SourceNegate := sneg, nr_DestNegate := dneg\<rparr>))"

section \<open>The rule list\<close>

definition NATRuleAddNeg :: "string \<Rightarrow> string \<Rightarrow> string \<Rightarrow> string \<Rightarrow> string \<Rightarrow> string \<Rightarrow> bool \<Rightarrow> bool \<Rightarrow> NATRule list \<Rightarrow> NATRule list nat_result" where
  "NATRuleAddNeg source dest destPort proto translate iface sneg dneg rs =
     (case buildNATRule source dest destPort proto translate iface of Inl e \<Rightarrow> Inl e
      | Inr r \<Rightarrow>
          (case applyNATNegate r sneg dneg of Inl e \<Rightarrow> Inl e
           | Inr r1 \<Rightarrow> Inr (rs @ [r1\<lparr>nr_Enabled := True\<rparr>])))"

definition NATRuleAdd :: "string \<Rightarrow> string \<Rightarrow> string \<Rightarrow> string \<Rightarrow> string \<Rightarrow> string \<Rightarrow> NATRule list \<Rightarrow> NATRule list nat_result" where
  "NATRuleAdd source dest destPort proto translate iface rs = NATRuleAddNeg source dest destPort proto translate iface False False rs"

definition in_range :: "int \<Rightarrow> 'a list \<Rightarrow> bool" where "in_range idx rs \<longleftrightarrow> \<not> (idx < 0 \<or> idx \<ge> int (length rs))"

definition NATRuleUpdateAtNeg :: "int \<Rightarrow> string \<Rightarrow> string \<Rightarrow> string \<Rightarrow> string \<Rightarrow> string \<Rightarrow> string \<Rightarrow> bool \<Rightarrow> bool \<Rightarrow> NATRule list \<Rightarrow> NATRule list nat_result" where
  "NATRuleUpdateAtNeg idx source dest destPort proto translate iface sneg dneg rs =
     (if \<not> in_range idx rs then Inl NoRuleAt
      else case buildNATRule source dest destPort proto translate iface of Inl e \<Rightarrow> Inl e
      | Inr r \<Rightarrow>
          (case applyNATNegate r sneg dneg of Inl e \<Rightarrow> Inl e
           | Inr r1 \<Rightarrow> Inr (rs[nat idx := r1\<lparr>nr_Enabled := nr_Enabled (rs ! nat idx)\<rparr>])))"

definition NATRuleUpdateAt :: "int \<Rightarrow> string \<Rightarrow> string \<Rightarrow> string \<Rightarrow> string \<Rightarrow> string \<Rightarrow> string \<Rightarrow> NATRule list \<Rightarrow> NATRule list nat_result" where
  "NATRuleUpdateAt idx source dest destPort proto translate iface rs =
     NATRuleUpdateAtNeg idx source dest destPort proto translate iface False False rs"

definition NATRuleDeleteAt :: "int \<Rightarrow> NATRule list \<Rightarrow> NATRule list nat_result" where
  "NATRuleDeleteAt idx rs = (if \<not> in_range idx rs then Inl NoRuleAt else Inr (take (nat idx) rs @ drop (nat idx + 1) rs))"

definition NATRuleSetEnabled :: "int \<Rightarrow> bool \<Rightarrow> NATRule list \<Rightarrow> NATRule list nat_result" where
  "NATRuleSetEnabled idx on rs =
     (if \<not> in_range idx rs then Inl NoRuleAt else Inr (rs[nat idx := (rs ! nat idx)\<lparr>nr_Enabled := on\<rparr>]))"

definition NATAdd :: "string \<Rightarrow> NATRule list \<Rightarrow> NATRule list nat_result" where
  "NATAdd iface rs =
     (if iface = [] then Inl NeedsInterface
      else if list_ex (\<lambda>r. nr_Interface r = iface) rs then Inl RuleExists
      else Inr (rs @ [emptyNATRule\<lparr>nr_Translate := ''masquerade'', nr_Interface := iface, nr_Enabled := True\<rparr>]))"

text \<open>The list is stored back before the code looks whether a rule was found.\<close>

definition NATDelete :: "string \<Rightarrow> NATRule list \<Rightarrow> NATRule list nat_result" where
  "NATDelete iface rs =
     (if list_ex (\<lambda>r. nr_Interface r = iface) rs then Inr (filter (\<lambda>r. nr_Interface r \<noteq> iface) rs) else Inl NoRuleFor)"

text \<open>What the daemon hands to the engine (applySpec of cmd/gravinet).\<close>

definition nat_spec :: "NATRule \<Rightarrow> NATRuleSpec" where
  "nat_spec nr =
     \<lparr>ns_Source = nr_Source nr, ns_Dest = nr_Dest nr, ns_SourceNegate = nr_SourceNegate nr, ns_DestNegate = nr_DestNegate nr,
      ns_DestPort = nr_DestPort nr, ns_Proto = nr_Proto nr, ns_Translate = nr_Translate nr, ns_Interface = nr_Interface nr\<rparr>"

section \<open>Trimming is idempotent\<close>

lemma trim_none: "\<forall>w \<in> set ws. w \<noteq> [] \<Longrightarrow> length s \<le> n \<Longrightarrow> find (HasPrefix (trim_with ws n s)) ws = None"
proof (induction n arbitrary: s)
  case 0
  then show ?case by (auto simp: find_None_iff HasPrefix_iff)
next
  case (Suc n)
  show ?case
  proof (cases "find (HasPrefix s) ws")
    case (Some w)
    then have "w \<in> set ws" "HasPrefix s w" by (auto simp: find_Some_iff)
    then have "0 < length w" using Suc.prems(1) by auto
    then have "length (drop (length w) s) \<le> n" using Suc.prems(2) unfolding length_drop by linarith
    then show ?thesis using Some Suc by simp
  qed simp
qed

lemma trim_same: "find (HasPrefix s) ws = None \<Longrightarrow> trim_with ws n s = s"
  by (cases n) simp_all

lemma TrimSpace_idem [simp]: "TrimSpace (TrimSpace s) = TrimSpace s"
proof -
  define l where "l = TrimLeft s"
  have ne: "\<forall>w \<in> set space_seqs. w \<noteq> []" "\<forall>w \<in> set (map rev space_seqs). w \<noteq> []" using space_seqs_ne by fastforce+
  have l: "find (HasPrefix l) space_seqs = None" unfolding l_def TrimLeft_def by (rule trim_none [OF ne(1)]) simp
  define t where "t = TrimRight l"
  have r: "find (HasPrefix (rev t)) (map rev space_seqs) = None"
    unfolding t_def TrimRight_def rev_rev_ident by (rule trim_none [OF ne(2)]) simp
  obtain p where "rev l = p @ trim_with (map rev space_seqs) (length l) (rev l)" using trim_suffix by blast
  then have "l = t @ rev p" unfolding t_def TrimRight_def by (metis rev_append rev_rev_ident)
  then have "find (HasPrefix t) space_seqs = None" using l by (auto simp: find_None_iff HasPrefix_iff)
  then have "TrimSpace t = t" using r by (simp add: TrimSpace_def TrimLeft_def TrimRight_def trim_same)
  then show ?thesis by (simp add: TrimSpace_def t_def l_def)
qed

end
