(* ===== verification/Addr_Text.thy ===== *)
theory Addr_Text
  imports Hosts_File
begin

text \<open>
  The text of an IPv6 address is read back: \<open>ParseAddr\<close> inverts \<open>Addr.String\<close> on every valid address that
  is not IPv4-mapped, zones included; and the text of an address without a zone holds no slash.
\<close>

section \<open>Groups\<close>

lemma hex_digit_val: "d < 16 \<Longrightarrow> hex_val (hex_digit d) = Some d"
  by (cases "d < 10") (simp_all add: hex_digit_def hex_val_def Let_def)

lemma hex_group_digits:
  assumes "\<forall>d \<in> set ds. d < 16" "off + length ds \<le> 4" "rest = [] \<or> hex_val (hd rest) = None"
  shows "hex_group (map hex_digit ds @ rest) off acc = Some (off + length ds, foldl (\<lambda>a d. 16 * a + d) acc ds, rest)"
  using assms
proof (induction ds arbitrary: off acc)
  case Nil
  then show ?case by (cases rest) auto
qed (simp add: hex_digit_val)

definition hex_digits :: "nat \<Rightarrow> nat list" where
  "hex_digits n =
     (if n \<ge> 4096 then [n div 4096] else []) @ (if n \<ge> 256 then [n div 256 mod 16] else []) @
     (if n \<ge> 16 then [n div 16 mod 16] else []) @ [n mod 16]"

lemma hex_text_digits: "hex_text n = map hex_digit (hex_digits n)"
  by (simp add: hex_text_def hex_digits_def)

lemma hex_digits_value: "n < 65536 \<Longrightarrow> foldl (\<lambda>a d. 16 * a + d) 0 (hex_digits n) = n"
proof -
  assume "n < 65536"
  define p where "p = n div 16"
  define q where "q = p div 16"
  define r where "r = q div 16"
  have d: "n div 256 = q" "n div 4096 = r" by (simp_all add: p_def q_def r_def flip: div_mult2_eq)
  have e: "16 * p + n mod 16 = n" "16 * q + p mod 16 = p" "16 * r + q mod 16 = q" unfolding p_def q_def r_def by simp_all
  have r: "r < 16" using \<open>n < 65536\<close> unfolding d(2) [symmetric] by simp
  have z: "\<not> 4096 \<le> n \<Longrightarrow> r = 0" "\<not> 256 \<le> n \<Longrightarrow> q = 0" "\<not> 16 \<le> n \<Longrightarrow> p = 0"
    unfolding d [symmetric] p_def by simp_all
  have big: "4096 \<le> n \<Longrightarrow> 256 \<le> n" "256 \<le> n \<Longrightarrow> 16 \<le> n" by simp_all
  consider "4096 \<le> n" | "\<not> 4096 \<le> n" "256 \<le> n" | "\<not> 256 \<le> n" "16 \<le> n" | "\<not> 16 \<le> n" by blast
  then show ?thesis
  proof cases
    case 1
    then have "foldl (\<lambda>a d. 16 * a + d) 0 (hex_digits n) = 16 * (16 * (16 * r + q mod 16) + p mod 16) + n mod 16"
      using big unfolding hex_digits_def d p_def [symmetric] by simp
    then show ?thesis unfolding e .
  next
    case 2
    then have "foldl (\<lambda>a d. 16 * a + d) 0 (hex_digits n) = 16 * (16 * (q mod 16) + p mod 16) + n mod 16"
      using big unfolding hex_digits_def d p_def [symmetric] by simp
    moreover have "q mod 16 = q" using e z(1) [OF 2(1)] by simp
    ultimately show ?thesis unfolding e by (simp add: e)
  next
    case 3
    then have "foldl (\<lambda>a d. 16 * a + d) 0 (hex_digits n) = 16 * (p mod 16) + n mod 16"
      unfolding hex_digits_def d p_def [symmetric] by simp
    moreover have "p mod 16 = p" using e z(2) [OF 3(1)] by simp
    ultimately show ?thesis by (simp add: e)
  next
    case 4
    then show ?thesis unfolding hex_digits_def by simp
  qed
qed

lemma hex_digits_ok: "n < 65536 \<Longrightarrow> (\<forall>d \<in> set (hex_digits n). d < 16) \<and> length (hex_digits n) \<le> 4 \<and> hex_digits n \<noteq> []"
  by (auto simp: hex_digits_def)

lemma hex_group_text: "n < 65536 \<Longrightarrow> rest = [] \<or> hex_val (hd rest) = None \<Longrightarrow>
    \<exists>k > 0. hex_group (hex_text n @ rest) 0 0 = Some (k, n, rest)"
  using hex_group_digits [of "hex_digits n" 0 rest 0] hex_digits_ok [of n]
  by (auto simp: hex_text_digits hex_digits_value)

lemma colon_no_hex [simp]: "hex_val CHR '':'' = None"
  by code_simp

definition group_bytes :: "nat list \<Rightarrow> bytes" where
  "group_bytes gs = concat (map (\<lambda>g. put16 (of_nat g)) gs)"

lemma group_bytes_simps [simp]:
  "group_bytes [] = []" "group_bytes (g # gs) = put16 (of_nat g) @ group_bytes gs"
  "group_bytes (gs @ hs) = group_bytes gs @ group_bytes hs" "length (group_bytes gs) = 2 * length gs"
  by (simp_all add: group_bytes_def) (induction gs; simp)

lemma parse_last: "g < 65536 \<Longrightarrow> length ip < 16 \<Longrightarrow> parse_groups (Suc n) (hex_text g) ip ell = Some (ip @ put16 (of_nat g), ell, [])"
  using hex_group_text [of g "[]"] by (auto simp: HasPrefix1)

lemma parse_more: "g < 65536 \<Longrightarrow> length ip < 16 \<Longrightarrow> s \<noteq> [] \<Longrightarrow> hd s \<noteq> CHR '':'' \<Longrightarrow>
    parse_groups (Suc n) (hex_text g @ CHR '':'' # s) ip ell = parse_groups n s (ip @ put16 (of_nat g)) ell"
  using hex_group_text [of g "CHR '':'' # s"] by (auto simp: HasPrefix1)

lemma parse_ellipsis: "g < 65536 \<Longrightarrow> length ip < 16 \<Longrightarrow>
    parse_groups (Suc n) (hex_text g @ ''::'' @ s) ip None =
      (if s = [] then Some (ip @ put16 (of_nat g), Some (length ip + 2), [])
       else parse_groups n s (ip @ put16 (of_nat g)) (Some (length ip + 2)))"
  using hex_group_text [of g "CHR '':'' # CHR '':'' # s"] by (auto simp: HasPrefix1)

definition groups_text :: "nat list \<Rightarrow> string" where "groups_text gs = join '':'' (map hex_text gs)"

lemma groups_text_simps:
  "groups_text [] = []" "groups_text [g] = hex_text g"
  "gs \<noteq> [] \<Longrightarrow> groups_text (g # gs) = hex_text g @ CHR '':'' # groups_text gs"
  by (simp_all add: groups_text_def join_def) (cases gs; simp)

lemma hex_text_start: "n < 65536 \<Longrightarrow> hex_text n \<noteq> [] \<and> hd (hex_text n) \<noteq> CHR '':''"
proof -
  assume n: "n < 65536"
  have "hex_digit d \<noteq> CHR '':''" if "d < 16" for d using hex_digit_val [OF that] by (metis colon_no_hex option.discI)
  then show ?thesis using hex_digits_ok [OF n] unfolding hex_text_digits by (cases "hex_digits n") auto
qed

lemma groups_text_start: "gs \<noteq> [] \<Longrightarrow> \<forall>g \<in> set gs. g < 65536 \<Longrightarrow> groups_text gs \<noteq> [] \<and> hd (groups_text gs) \<noteq> CHR '':''"
  using hex_text_start by (cases gs; cases "tl gs") (auto simp: groups_text_simps)

lemma parse_text:
  assumes "gs \<noteq> []" "\<forall>g \<in> set gs. g < 65536" "length ip + 2 * length gs \<le> 16" "length gs \<le> n"
  shows "parse_groups n (groups_text gs) ip ell = Some (ip @ group_bytes gs, ell, [])"
  using assms
proof (induction gs arbitrary: n ip)
  case (Cons g gs)
  obtain m where n: "n = Suc m" using Cons.prems(4) by (cases n) auto
  show ?case
  proof (cases "gs = []")
    case True
    then show ?thesis using Cons.prems n parse_last [of g ip m ell] by (simp add: groups_text_simps)
  next
    case False
    have "parse_groups n (groups_text (g # gs)) ip ell = parse_groups m (groups_text gs) (ip @ put16 (of_nat g)) ell"
      using parse_more [of g ip "groups_text gs" m ell] groups_text_start [OF False] Cons.prems False by (simp add: groups_text_simps n)
    then show ?thesis using Cons.IH [OF False, of "ip @ put16 (of_nat g)" m] Cons.prems n by simp
  qed
qed simp

lemma parse_text_ellipsis:
  assumes "gs \<noteq> []" "\<forall>g \<in> set gs. g < 65536" "length ip + 2 * length gs \<le> 16" "length gs \<le> n"
  shows "parse_groups n (groups_text gs @ ''::'' @ s) ip None =
    (if s = [] then Some (ip @ group_bytes gs, Some (length ip + 2 * length gs), [])
     else parse_groups (n - length gs) s (ip @ group_bytes gs) (Some (length ip + 2 * length gs)))"
  using assms
proof (induction gs arbitrary: n ip)
  case (Cons g gs)
  obtain m where n: "n = Suc m" using Cons.prems(4) by (cases n) auto
  show ?case
  proof (cases "gs = []")
    case True
    then show ?thesis using Cons.prems n parse_ellipsis [of g ip m s] by (simp add: groups_text_simps)
  next
    case False
    have "parse_groups n (groups_text (g # gs) @ ''::'' @ s) ip None = parse_groups m (groups_text gs @ ''::'' @ s) (ip @ put16 (of_nat g)) None"
      using parse_more [of g ip "groups_text gs @ ''::'' @ s" m None] groups_text_start [OF False] Cons.prems False
      by (simp add: groups_text_simps n)
    then show ?thesis using Cons.IH [OF False, of "ip @ put16 (of_nat g)" m] Cons.prems n by (simp add: algebra_simps)
  qed
qed simp

section \<open>The run of zeros\<close>

lemma zero_run_zero: "l \<le> zero_run gs i \<Longrightarrow> i + l \<le> length gs \<or> l = 0 \<Longrightarrow> take l (drop i gs) = replicate l 0"
proof -
  assume l: "l \<le> zero_run gs i"
  let ?z = "takeWhile (\<lambda>g. g = 0) (drop i gs)"
  have "?z = replicate (length ?z) 0" by (rule replicate_eqI) (auto dest: set_takeWhileD)
  moreover have "take (length ?z) (drop i gs) = ?z" by (rule takeWhile_eq_take [symmetric])
  ultimately have "take (zero_run gs i) (drop i gs) = replicate (zero_run gs i) 0" unfolding zero_run_def by simp
  then have "take l (take (zero_run gs i) (drop i gs)) = take l (replicate (zero_run gs i) 0)" by simp
  then show ?thesis using l by (simp add: min_def)
qed

lemma zero_run_fits: "zero_run gs i \<le> length gs - i"
  using length_takeWhile_le [of "\<lambda>g. g = 0" "drop i gs"] by (simp add: zero_run_def)

lemma best_run_sound: "length gs = 8 \<Longrightarrow> best_run gs = (s, l) \<Longrightarrow>
    l = 0 \<or> s + l \<le> 8 \<and> take l (drop s gs) = replicate l 0"
proof -
  assume n: "length gs = 8" and b: "best_run gs = (s, l)"
  define good where "good = (\<lambda>(s, l). l = 0 \<or> s + l \<le> 8 \<and> take l (drop s gs) = replicate l (0 :: nat))"
  define stp where "stp = (\<lambda>(s, l) i. let r = zero_run gs i in if r \<ge> 2 \<and> r > l then (i, r) else (s, l))"
  have r: "good (i, zero_run gs i)" for i
    using zero_run_zero [of "zero_run gs i" gs i] zero_run_fits [of gs i] n by (auto simp: good_def)
  have "good a \<Longrightarrow> good (stp a i)" for a i
    using r [of i] by (auto simp: stp_def Let_def split: prod.splits)
  then have "good a \<Longrightarrow> good (foldl stp a is)" for a "is" by (induction "is" arbitrary: a) auto
  moreover have "good (8, 0)" by (simp add: good_def)
  ultimately have "good (foldl stp (8, 0) [0..<8])" by blast
  then show ?thesis using b by (simp add: best_run_def stp_def good_def)
qed

section \<open>Reading an address back\<close>

lemma group_bytes_v6: "group_bytes (v6_groups w) = put128 w"
proof -
  have e: "[0..<8] = [0, 1, 2, 3, 4, 5, 6, 7 :: nat]" by (simp add: upt_rec)
  have g: "(of_nat (unat (take_bit 16 (drop_bit k w))) :: 16 word) = ucast (drop_bit k w)" for k
    by (rule bit_word_eqI) (auto simp: bit_simps unsigned_take_bit_eq)
  show ?thesis unfolding v6_groups_def group_bytes_def e put128_def put64_def put16_def
    by (simp add: g) (auto simp: bit_simps intro!: bit_word_eqI)
qed

lemma group_bytes_zeros: "group_bytes (replicate n 0) = replicate (2 * n) 0"
  by (induction n) (simp_all add: put16_def)

lemma hex_text_chars: "n < 65536 \<Longrightarrow> c \<in> set (hex_text n) \<Longrightarrow> c \<noteq> CHR ''%'' \<and> c \<noteq> CHR ''.'' \<and> c \<noteq> CHR '']'' \<and> c \<noteq> CHR ''/''"
proof -
  assume "n < 65536" "c \<in> set (hex_text n)"
  then obtain d where "c = hex_digit d" "d < 16" using hex_digits_ok [of n] by (auto simp: hex_text_digits)
  then have "hex_val c = Some d" by (simp add: hex_digit_val)
  moreover have "hex_val CHR ''%'' = None" "hex_val CHR ''.'' = None" "hex_val CHR '']'' = None" "hex_val CHR ''/'' = None" by code_simp+
  ultimately show ?thesis by auto
qed

definition plain_char :: "char \<Rightarrow> bool" where
  "plain_char c \<longleftrightarrow> c \<noteq> CHR ''%'' \<and> c \<noteq> CHR ''.'' \<and> c \<noteq> CHR '']'' \<and> c \<noteq> CHR ''/''"

lemma groups_text_chars: "\<forall>g \<in> set gs. g < 65536 \<Longrightarrow> list_all plain_char (groups_text gs)"
proof (induction gs)
  case (Cons g gs)
  have "list_all plain_char (hex_text g)" using hex_text_chars [of g] Cons.prems by (auto simp: list_all_iff plain_char_def)
  moreover have "plain_char CHR '':''" by (simp add: plain_char_def)
  ultimately show ?case using Cons by (cases "gs = []") (simp_all add: groups_text_simps)
qed (simp add: groups_text_simps)

lemma find_colon: "list_all plain_char b \<Longrightarrow> CHR '':'' \<in> set b \<Longrightarrow>
    find (\<lambda>c. c = CHR ''.'' \<or> c = CHR '':'' \<or> c = CHR ''%'') (b @ r) = Some CHR '':''"
  by (induction b) (auto simp: plain_char_def)

definition v6_body :: "128 word \<Rightarrow> string" where
  "v6_body w =
     (let gs = v6_groups w
      in case best_run gs of
        (s, l) \<Rightarrow> if l = 0 then groups_text gs else groups_text (take s gs) @ ''::'' @ groups_text (drop (s + l) gs))"

lemma addr_String6: "drop_bit 32 w \<noteq> 0xffff \<Longrightarrow> addr_String (Addr6 w z) = v6_body w @ (if z = [] then [] else CHR ''%'' # z)"
  by (auto simp: v6_body_def groups_text_def Let_def split: prod.splits)

lemma v6_groups_len [simp]: "length (v6_groups w) = 8"
  by (simp add: v6_groups_def)

lemma groups_below: "\<forall>g \<in> set (take n (v6_groups w)). g < 65536" "\<forall>g \<in> set (drop n (v6_groups w)). g < 65536"
  "\<forall>g \<in> set (v6_groups w). g < 65536"
  using v6_groups_bound by (auto dest: in_set_takeD in_set_dropD)

lemma v6_body_chars: "list_all plain_char (v6_body w) \<and> CHR '':'' \<in> set (v6_body w)"
proof -
  obtain g gs where g: "v6_groups w = g # gs" "gs \<noteq> []"
    by (metis v6_groups_len length_0_conv length_Cons neq_Nil_conv numeral_eq_one_iff One_nat_def semiring_norm(83) zero_neq_numeral)
  have "CHR '':'' \<in> set (groups_text (v6_groups w))" unfolding g(1) by (simp add: groups_text_simps g(2))
  then show ?thesis using groups_text_chars [OF groups_below(1)] groups_text_chars [OF groups_below(2)] groups_text_chars [OF groups_below(3)]
    by (auto simp: v6_body_def Let_def plain_char_def split: prod.splits)
qed

lemma parse_v6_body:
  assumes "zone_ok = (\<not> (hz \<and> z = []))" "zone_ok"
  shows "(let lead = HasPrefix (v6_body w) ''::''; s1 = (if lead then drop 2 (v6_body w) else v6_body w)
          in if lead \<and> s1 = [] then Some (Addr6 0 z)
             else case parse_groups 9 s1 [] (if lead then Some 0 else None) of
               None \<Rightarrow> None
             | Some (ip, ell, rest) \<Rightarrow>
                 if rest \<noteq> [] then None
                 else if length ip < 16 then
                   (case ell of None \<Rightarrow> None
                    | Some e \<Rightarrow> Some (Addr6 (get128 (take e ip @ replicate (16 - length ip) 0 @ drop e ip)) z))
                 else if ell \<noteq> None then None
                 else Some (Addr6 (get128 ip) z)) = Some (Addr6 w z)"
proof -
  define gs where "gs = v6_groups w"
  have gb: "group_bytes gs = put128 w" "length gs = 8" unfolding gs_def by (simp_all add: group_bytes_v6)
  note below = groups_below [where w = w, folded gs_def]
  obtain s l where sl: "best_run gs = (s, l)" by fastforce
  show ?thesis
  proof (cases "l = 0")
    case True
    have "gs \<noteq> []" using gb(2) by auto
    then have st: "groups_text gs \<noteq> []" "hd (groups_text gs) \<noteq> CHR '':''" using groups_text_start below(3) by auto
    then have "\<not> HasPrefix (groups_text gs) ''::''" by (cases "groups_text gs") auto
    moreover have "parse_groups 9 (groups_text gs) [] None = Some (put128 w, None, [])"
      using parse_text [OF \<open>gs \<noteq> []\<close> below(3), of "[]" 9 None] gb by simp
    ultimately show ?thesis using True sl by (simp add: v6_body_def gs_def [symmetric])
  next
    case False
    define A B where "A = take s gs" and "B = drop (s + l) gs"
    have z: "s + l \<le> 8" "take l (drop s gs) = replicate l 0" using best_run_sound [OF gb(2) sl] False by auto
    have "gs = A @ take l (drop s gs) @ B"
      unfolding A_def B_def by (metis append_take_drop_id drop_drop add.commute)
    then have "group_bytes gs = group_bytes A @ replicate (2 * l) 0 @ group_bytes B" by (simp add: z group_bytes_zeros)
    then have w: "w = get128 (group_bytes A @ replicate (2 * l) 0 @ group_bytes B)" using gb(1) by (metis get128_put128)
    have len: "length A = s" "length B = 8 - (s + l)" using z gb(2) by (simp_all add: A_def B_def)
    have ab: "\<forall>g \<in> set A. g < 65536" "\<forall>g \<in> set B. g < 65536" unfolding A_def B_def using below by auto
    have body: "v6_body w = groups_text A @ ''::'' @ groups_text B" using False sl by (simp add: v6_body_def gs_def [symmetric] A_def B_def)
    have tB: "groups_text B = [] \<longleftrightarrow> B = []" using groups_text_start [of B] ab by (auto simp: groups_text_simps)
    show ?thesis
    proof (cases "A = []")
      case True
      then have lead: "HasPrefix (v6_body w) ''::''" "drop 2 (v6_body w) = groups_text B" by (simp_all add: body groups_text_simps)
      show ?thesis
      proof (cases "B = []")
        case True
        have "l = 8" using len True \<open>A = []\<close> z by simp
        then have "w = get128 (replicate 16 0)" using w True \<open>A = []\<close> by simp
        moreover have "get128 (replicate 16 0) = 0" by code_simp
        ultimately show ?thesis using lead tB True by (simp add: Let_def)
      next
        case False
        then have "parse_groups 9 (groups_text B) [] (Some 0) = Some (group_bytes B, Some 0, [])"
          using parse_text [OF False ab(2), of "[]" 9 "Some 0"] len by simp
        moreover have "16 - 2 * length B = 2 * l" using len True z by simp
        ultimately show ?thesis using lead tB False w True len \<open>l \<noteq> 0\<close> by (simp add: Let_def)
      qed
    next
      case False
      then have st: "groups_text A \<noteq> []" "hd (groups_text A) \<noteq> CHR '':''" using groups_text_start ab by auto
      then have nl: "\<not> HasPrefix (v6_body w) ''::''" unfolding body by (cases "groups_text A") auto
      have s9: "length A \<le> 9" "2 * length A \<le> 16" using len z by simp_all
      have "parse_groups 9 (v6_body w) [] None = Some (group_bytes A @ group_bytes B, Some (2 * s), [])"
      proof (cases "B = []")
        case True
        then show ?thesis unfolding body
          using parse_text_ellipsis [OF False ab(1), of "[]" 9 "groups_text B"] tB len s9 by simp
      next
        case bf: False
        then show ?thesis unfolding body
          using parse_text_ellipsis [OF False ab(1), of "[]" 9 "groups_text B"] tB len s9 z
            parse_text [OF bf ab(2), of "group_bytes A" "9 - length A" "Some (2 * s)"] by simp
      qed
      moreover have "16 - (2 * s + 2 * length B) = 2 * l" "2 * s + 2 * length B < 16" using len z \<open>l \<noteq> 0\<close> by simp_all
      ultimately show ?thesis using nl w len by (simp add: Let_def)
    qed
  qed
qed

theorem ParseAddr_String: "IsValid a \<Longrightarrow> \<not> Is4In6 a \<Longrightarrow> ParseAddr (addr_String a) = Some a"
proof (cases a)
  case (Addr6 w z)
  assume "\<not> Is4In6 a"
  then have s: "addr_String a = v6_body w @ (if z = [] then [] else CHR ''%'' # z)" unfolding Addr6 by (intro addr_String6) simp
  note c = v6_body_chars [of w]
  have "CHR ''%'' \<notin> set (v6_body w)" using c by (auto simp: list_all_iff plain_char_def)
  then have "Cut (addr_String a) CHR ''%'' = (v6_body w, z, z \<noteq> [])" unfolding s by (simp add: Cut_append Cut_none)
  then have "parseIPv6 (addr_String a) = Some a" unfolding parseIPv6_def Addr6 using parse_v6_body [OF refl, of "z \<noteq> []" z w] by simp
  then show ?thesis using find_colon [of "v6_body w"] c by (simp add: ParseAddr_def s)
qed (simp_all add: ParseAddr_String4 IsValid_def del: addr_String.simps)

end
