(* ===== verification/Kernel_Nat.thy ===== *)
theory Kernel_Nat
  imports Nat_Editor Addr_Text
begin

text \<open>
  The kernel's half of address translation: the rules handed to the packet filter of the host
  (\<open>kernelNATRules\<close> of cmd/gravinet/main.go), next to the selection for the overlay of the same file, and
  the texts internal/netfilter/netfilter.go prints for nftables, pf, iptables and WinNAT. The \<open>%q\<close> verb
  of a format is the argument \<open>qt\<close>. Running the tools is not modelled.
\<close>

datatype Kind = Masquerade | SNAT | DNAT

record kernel_rule =
  k_Kind :: Kind
  k_Source :: prefix
  k_SourceNeg :: bool
  k_DestNeg :: bool
  k_Dest :: prefix
  k_OutIface :: string
  k_InIface :: string
  k_To :: addr
  k_V6 :: bool
  k_Proto :: string
  k_DPortLo :: "16 word"
  k_DPortHi :: "16 word"
  k_ToPort :: "16 word"

definition zero_rule :: kernel_rule where
  "zero_rule = \<lparr>k_Kind = Masquerade, k_Source = NoPrefix, k_SourceNeg = False, k_DestNeg = False, k_Dest = NoPrefix, k_OutIface = [],
     k_InIface = [], k_To = NoAddr, k_V6 = False, k_Proto = [], k_DPortLo = 0, k_DPortHi = 0, k_ToPort = 0\<rparr>"

section \<open>From the configuration to the kernel\<close>

definition parsePfx :: "string \<Rightarrow> prefix" where
  "parsePfx s0 =
     (let s = TrimSpace s0
      in if s = [] then NoPrefix
         else case ParsePrefix s of Some p \<Rightarrow> p
         | None \<Rightarrow>
             (case ParseAddr s of Some a \<Rightarrow> PrefixFrom a (if Is6 a then 128 else 32) | None \<Rightarrow> NoPrefix))"

text \<open>\<open>strconv.ParseUint\<close> of base 10 takes digits only.\<close>

definition ParseUint64 :: "string \<Rightarrow> int option" where
  "ParseUint64 s = (if s = [] then None else case digits_val s 0 of None \<Rightarrow> None | Some n \<Rightarrow> if int n < 2 ^ 64 then Some (int n) else None)"

definition parsePort :: "string \<Rightarrow> int option" where
  "parsePort s = (case ParseUint64 s of None \<Rightarrow> None | Some v \<Rightarrow> if v > 65535 then None else Some v)"

definition parsePortRange :: "string \<Rightarrow> (int \<times> int) option" where
  "parsePortRange s0 =
     (let s = TrimSpace s0
      in if s = [] then Some (0, 0)
         else case Cut s CHR ''-'' of
           (a, b, True) \<Rightarrow>
             (case parsePort (TrimSpace a) of None \<Rightarrow> None
              | Some lo \<Rightarrow> (case parsePort (TrimSpace b) of None \<Rightarrow> None | Some hi \<Rightarrow> if hi < lo then None else Some (lo, hi)))
         | (_, _, False) \<Rightarrow> (case parsePort s of None \<Rightarrow> None | Some p \<Rightarrow> Some (p, p)))"

definition kernel_dnat :: "NATRule \<Rightarrow> prefix \<Rightarrow> prefix \<Rightarrow> string \<Rightarrow> kernel_rule list" where
  "kernel_dnat r src dst rest =
     (case SplitNATTarget rest of None \<Rightarrow> []
      | Some (addrPart, portPart, hasPort) \<Rightarrow>
          (case ParseAddr (TrimSpace addrPart) of None \<Rightarrow> []
           | Some to \<Rightarrow>
               if \<not> IsValid to then []
               else
                 let toPort = (if hasPort then
                       (case Atoi (TrimSpace portPart) of Some p \<Rightarrow> if p \<ge> 1 \<and> p \<le> 65535 then of_int p else 0 | None \<Rightarrow> 0) else 0);
                     (dpLo, dpHi) = (if nr_DestPort r \<noteq> [] then
                       (case parsePortRange (nr_DestPort r) of
                          Some (lo, hi) \<Rightarrow> if lo \<ge> 1 \<and> lo \<le> 65535 \<and> hi \<ge> lo \<and> hi \<le> 65535 then (of_int lo, of_int hi) else (0, 0)
                        | None \<Rightarrow> (0, 0)) else (0, 0))
                 in [zero_rule\<lparr>k_Kind := DNAT, k_Source := src, k_SourceNeg := nr_SourceNegate r, k_Dest := dst, k_DestNeg := nr_DestNegate r,
                       k_InIface := nr_Interface r, k_To := to, k_V6 := Is6 to, k_Proto := nr_Proto r, k_DPortLo := dpLo, k_DPortHi := dpHi,
                       k_ToPort := toPort\<rparr>]))"

definition kernel_rule_of :: "NATRule \<Rightarrow> kernel_rule list" where
  "kernel_rule_of r =
     (let src = parsePfx (nr_Source r); dst = parsePfx (nr_Dest r); t = TrimSpace (nr_Translate r)
      in if length t \<ge> length natPortForwardPrefix \<and> EqualFold (take (length natPortForwardPrefix) t) natPortForwardPrefix
         then kernel_dnat r src dst (TrimSpace (drop (length natPortForwardPrefix) t))
         else if t = [] \<or> EqualFold t ''masquerade'' then
           [zero_rule\<lparr>k_Kind := Masquerade, k_Source := src, k_SourceNeg := nr_SourceNegate r, k_Dest := dst, k_DestNeg := nr_DestNegate r,
              k_OutIface := nr_Interface r, k_V6 := prefix_valid src \<and> Is6 (prefix_addr src)\<rparr>]
         else case ParseAddr t of None \<Rightarrow> []
              | Some to \<Rightarrow>
                  if IsValid to then
                    [zero_rule\<lparr>k_Kind := SNAT, k_Source := src, k_SourceNeg := nr_SourceNegate r, k_Dest := dst, k_DestNeg := nr_DestNegate r,
                       k_OutIface := nr_Interface r, k_To := to, k_V6 := Is6 to\<rparr>]
                  else [])"

definition kernelNATRules :: "bool \<Rightarrow> NATRule list \<Rightarrow> kernel_rule list" where
  "kernelNATRules on rs = (if on then concat (map kernel_rule_of (filter nr_Enabled rs)) else [])"

text \<open>The overlay's half, per network interface.\<close>

definition natRuleAppliesToOverlay :: "NATRule \<Rightarrow> string \<Rightarrow> bool" where
  "natRuleAppliesToOverlay r netIface =
     (let iface = TrimSpace (nr_Interface r) in if iface = [] then True else EqualFold iface (TrimSpace netIface))"

definition overlayNATRules :: "bool \<Rightarrow> string \<Rightarrow> NATRule list \<Rightarrow> NATRuleSpec list" where
  "overlayNATRules on netIface rs =
     (if on then map nat_spec (filter (\<lambda>r. nr_Enabled r \<and> natRuleAppliesToOverlay r netIface) rs) else [])"

section \<open>nftables\<close>

definition rule_family :: "kernel_rule \<Rightarrow> string" where "rule_family r = (if k_V6 r then ''ip6'' else ''ip'')"
definition anyFamily :: "kernel_rule list \<Rightarrow> string \<Rightarrow> bool" where "anyFamily rs fm = list_ex (\<lambda>r. rule_family r = fm) rs"

definition splitFamily :: "kernel_rule list \<Rightarrow> kernel_rule list \<times> kernel_rule list" where
  "splitFamily rs = (filter (\<lambda>r. \<not> k_V6 r) rs, filter k_V6 rs)"

definition tableName :: string where "tableName = ''gravinet_nat''"
definition port_text :: "16 word \<Rightarrow> string" where "port_text p = Itoa_nat (unat p)"

definition nftNeg :: "bool \<Rightarrow> string" where "nftNeg neg = (if neg then ''!= '' else [])"

definition nftSaddr :: "kernel_rule \<Rightarrow> string" where
  "nftSaddr r = (if prefix_valid (k_Source r) then '' '' @ rule_family r @ '' saddr '' @ nftNeg (k_SourceNeg r) @ prefix_String (k_Source r) else [])"

definition nftDaddr :: "kernel_rule \<Rightarrow> string" where
  "nftDaddr r = (if prefix_valid (k_Dest r) then '' '' @ rule_family r @ '' daddr '' @ nftNeg (k_DestNeg r) @ prefix_String (k_Dest r) else [])"

definition nftOif :: "(string \<Rightarrow> string) \<Rightarrow> kernel_rule \<Rightarrow> string" where
  "nftOif qt r = (if k_OutIface r \<noteq> [] then '' oifname '' @ qt (k_OutIface r) else [])"

definition nftIif :: "(string \<Rightarrow> string) \<Rightarrow> kernel_rule \<Rightarrow> string" where
  "nftIif qt r = (if k_InIface r \<noteq> [] then '' iifname '' @ qt (k_InIface r) else [])"

definition nftDport :: "kernel_rule \<Rightarrow> string" where
  "nftDport r =
     (if k_DPortLo r = 0 then []
      else if k_DPortHi r = k_DPortLo r then '' '' @ k_Proto r @ '' dport '' @ port_text (k_DPortLo r)
      else '' '' @ k_Proto r @ '' dport '' @ port_text (k_DPortLo r) @ ''-'' @ port_text (k_DPortHi r))"

definition target_text :: "kernel_rule \<Rightarrow> string" where
  "target_text r =
     (if k_ToPort r = 0 then addr_String (k_To r)
      else if Is6 (k_To r) then ''['' @ addr_String (k_To r) @ '']:'' @ port_text (k_ToPort r)
      else addr_String (k_To r) @ '':'' @ port_text (k_ToPort r))"

definition nftDnatTo :: "kernel_rule \<Rightarrow> string" where "nftDnatTo r = target_text r"

definition nft_line :: "(string \<Rightarrow> string) \<Rightarrow> string \<Rightarrow> kernel_rule \<Rightarrow> string" where
  "nft_line qt fm r =
     (case k_Kind r of
        Masquerade \<Rightarrow> ''add rule '' @ fm @ '' '' @ tableName @ '' postrouting'' @ nftSaddr r @ nftDaddr r @ nftOif qt r @ '' masquerade''
      | SNAT \<Rightarrow> ''add rule '' @ fm @ '' '' @ tableName @ '' postrouting'' @ nftSaddr r @ nftDaddr r @ nftOif qt r @ '' snat to '' @ addr_String (k_To r)
      | DNAT \<Rightarrow> ''add rule '' @ fm @ '' '' @ tableName @ '' prerouting'' @ nftDaddr r @ nftIif qt r @ nftDport r @ '' dnat to '' @ nftDnatTo r)"

definition nft_table :: "(string \<Rightarrow> string) \<Rightarrow> kernel_rule list \<Rightarrow> string \<Rightarrow> string list" where
  "nft_table qt rs fm =
     (let fr = filter (\<lambda>r. rule_family r = fm) rs
      in if fr = [] then []
         else [''add table '' @ fm @ '' '' @ tableName,
               ''flush table '' @ fm @ '' '' @ tableName,
               ''add chain '' @ fm @ '' '' @ tableName @ '' postrouting { type nat hook postrouting priority 100 ; }'',
               ''add chain '' @ fm @ '' '' @ tableName @ '' prerouting { type nat hook prerouting priority -100 ; }''] @
              map (nft_line qt fm) fr)"

definition nftScript :: "(string \<Rightarrow> string) \<Rightarrow> kernel_rule list \<Rightarrow> string" where
  "nftScript qt rs = unlines (concat (map (nft_table qt rs) [''ip'', ''ip6'']))"

section \<open>pf\<close>

definition pfAddr :: "prefix \<Rightarrow> bool \<Rightarrow> string" where
  "pfAddr p neg = (if prefix_valid p then (if neg then ''! '' @ prefix_String p else prefix_String p) else ''any'')"

definition pfProto :: "kernel_rule \<Rightarrow> string" where "pfProto r = (if k_DPortLo r = 0 then [] else '' proto '' @ k_Proto r)"

definition pfDport :: "kernel_rule \<Rightarrow> string" where
  "pfDport r =
     (if k_DPortLo r = 0 then []
      else if k_DPortHi r = k_DPortLo r then '' port '' @ port_text (k_DPortLo r)
      else '' port '' @ port_text (k_DPortLo r) @ '':'' @ port_text (k_DPortHi r))"

definition pfToPort :: "kernel_rule \<Rightarrow> string" where "pfToPort r = (if k_ToPort r = 0 then [] else '' port '' @ port_text (k_ToPort r))"

definition pf_line :: "kernel_rule \<Rightarrow> string" where
  "pf_line r =
     (let fm = (if k_V6 r then ''inet6'' else ''inet'');
          from_to = '' from '' @ pfAddr (k_Source r) (k_SourceNeg r) @ '' to '' @ pfAddr (k_Dest r) (k_DestNeg r);
          rdr = fm @ pfProto r @ '' from any to '' @ pfAddr (k_Dest r) (k_DestNeg r) @ pfDport r @ '' -> '' @ addr_String (k_To r) @ pfToPort r
      in case k_Kind r of
        Masquerade \<Rightarrow>
          (let iface = (if k_OutIface r = [] then ''egress'' else k_OutIface r)
           in ''nat on '' @ iface @ '' '' @ fm @ from_to @ '' -> ('' @ iface @ '')'')
      | SNAT \<Rightarrow>
          (if k_OutIface r \<noteq> [] then ''nat on '' @ k_OutIface r @ '' '' @ fm @ from_to @ '' -> '' @ addr_String (k_To r)
           else ''nat '' @ fm @ from_to @ '' -> '' @ addr_String (k_To r))
      | DNAT \<Rightarrow> (if k_InIface r \<noteq> [] then ''rdr on '' @ k_InIface r @ '' '' @ rdr else ''rdr '' @ rdr))"

definition pfScript :: "kernel_rule list \<Rightarrow> string" where "pfScript rs = unlines (map pf_line rs)"

section \<open>iptables\<close>

definition iptPostChain :: string where "iptPostChain = ''GRAVINET_NAT_POST''"
definition iptPreChain :: string where "iptPreChain = ''GRAVINET_NAT_PRE''"

definition iptSrcDst :: "string list \<Rightarrow> kernel_rule \<Rightarrow> string list" where
  "iptSrcDst a r =
     a @ (if prefix_valid (k_Source r) then (if k_SourceNeg r then [''!''] else []) @ [''-s'', prefix_String (k_Source r)] else []) @
     (if prefix_valid (k_Dest r) then (if k_DestNeg r then [''!''] else []) @ [''-d'', prefix_String (k_Dest r)] else [])"

definition iptDportArg :: "kernel_rule \<Rightarrow> string" where
  "iptDportArg r =
     (if k_DPortHi r = k_DPortLo r then port_text (k_DPortLo r) else port_text (k_DPortLo r) @ '':'' @ port_text (k_DPortHi r))"

definition iptToDestination :: "kernel_rule \<Rightarrow> string" where "iptToDestination r = target_text r"

definition iptablesRuleArgs :: "kernel_rule \<Rightarrow> string list" where
  "iptablesRuleArgs r =
     (case k_Kind r of
        Masquerade \<Rightarrow> iptSrcDst [''-t'', ''nat'', ''-A'', iptPostChain] r @ (if k_OutIface r \<noteq> [] then [''-o'', k_OutIface r] else []) @
          [''-j'', ''MASQUERADE'']
      | SNAT \<Rightarrow> iptSrcDst [''-t'', ''nat'', ''-A'', iptPostChain] r @ (if k_OutIface r \<noteq> [] then [''-o'', k_OutIface r] else []) @
          [''-j'', ''SNAT'', ''--to-source'', addr_String (k_To r)]
      | DNAT \<Rightarrow> iptSrcDst [''-t'', ''nat'', ''-A'', iptPreChain] r @ (if k_InIface r \<noteq> [] then [''-i'', k_InIface r] else []) @
          (if k_DPortLo r \<noteq> 0 then [''-p'', k_Proto r, ''--dport'', iptDportArg r] else []) @
          [''-j'', ''DNAT'', ''--to-destination'', iptToDestination r])"

section \<open>WinNAT\<close>

definition winNATPrefix :: string where "winNATPrefix = ''gravinet_nat_''"
definition winNATProto :: "string \<Rightarrow> string" where "winNATProto proto = (if proto = ''udp'' then ''UDP'' else ''TCP'')"

definition winNATDNATSupported :: "kernel_rule \<Rightarrow> bool" where
  "winNATDNATSupported r \<longleftrightarrow> k_DPortLo r \<noteq> 0 \<and> k_DPortLo r = k_DPortHi r \<and> (k_Proto r = ''tcp'' \<or> k_Proto r = ''udp'') \<and>
     prefix_valid (k_Dest r) \<and> prefix_bits (k_Dest r) = 32"

definition apos :: string where "apos = [CHR 0x27]"

definition win_head :: "string list" where
  "win_head =
     [''$ErrorActionPreference = '' @ apos @ ''Stop'' @ apos,
      ''Get-NetNatStaticMapping -ErrorAction SilentlyContinue | Where-Object { $_.NatName -like '' @ apos @ winNATPrefix @ ''*'' @ apos @
        '' } | Remove-NetNatStaticMapping -Confirm:$false -ErrorAction SilentlyContinue'',
      ''Get-NetNat -ErrorAction SilentlyContinue | Where-Object { $_.Name -like '' @ apos @ winNATPrefix @ ''*'' @ apos @
        '' } | Remove-NetNat -Confirm:$false -ErrorAction SilentlyContinue'']"

text \<open>The lines for a rule with the name \<open>n\<close>, or none when WinNAT cannot express it.\<close>

definition win_rule :: "(string \<Rightarrow> string) \<Rightarrow> nat \<Rightarrow> kernel_rule \<Rightarrow> string list option" where
  "win_rule qt n r =
     (let name = qt (winNATPrefix @ Itoa_nat n);
          new_nat = (\<lambda>p. ''New-NetNat -Name '' @ name @ '' -InternalIPInterfaceAddressPrefix '' @ qt p @ '' | Out-Null'')
      in if k_V6 r then None
         else if k_Kind r \<noteq> DNAT \<and> prefix_valid (k_Dest r) then None
         else if k_SourceNeg r \<or> k_DestNeg r then None
         else case k_Kind r of
           Masquerade \<Rightarrow> if \<not> prefix_valid (k_Source r) then None else Some [new_nat (prefix_String (k_Source r))]
         | DNAT \<Rightarrow>
             if \<not> winNATDNATSupported r then None
             else Some [new_nat (addr_String (k_To r) @ ''/32''),
               ''Add-NetNatStaticMapping -NatName '' @ name @ '' -Protocol '' @ winNATProto (k_Proto r) @ '' -ExternalIPAddress '' @
                 qt (addr_String (prefix_addr (k_Dest r))) @ '' -ExternalPort '' @ port_text (k_DPortLo r) @ '' -InternalIPAddress '' @
                 qt (addr_String (k_To r)) @ '' -InternalPort '' @ port_text (if k_ToPort r \<noteq> 0 then k_ToPort r else k_DPortLo r) @ '' | Out-Null'']
         | SNAT \<Rightarrow> None)"

fun win_rules :: "(string \<Rightarrow> string) \<Rightarrow> nat \<Rightarrow> kernel_rule list \<Rightarrow> string list \<times> kernel_rule list" where
  "win_rules qt n [] = ([], [])"
| "win_rules qt n (r # rs) =
     (case win_rule qt n r of
        None \<Rightarrow> (case win_rules qt n rs of (ls, uns) \<Rightarrow> (ls, r # uns))
      | Some l \<Rightarrow> (case win_rules qt (n + 1) rs of (ls, uns) \<Rightarrow> (l @ ls, uns)))"

definition winNATScript :: "(string \<Rightarrow> string) \<Rightarrow> kernel_rule list \<Rightarrow> string \<times> kernel_rule list" where
  "winNATScript qt rs = (case win_rules qt 0 rs of (ls, uns) \<Rightarrow> (unlines (win_head @ ls), uns))"

end
