(* ===== verification/Nat_Halves.thy ===== *)
theory Nat_Halves
  imports Kernel_Nat
begin

text \<open>
  The two halves of address translation against the editor: what the editor accepts, the overlay engine
  loads and the kernel gets, and the two mean the same packets; and what the texts for the packet
  filters leave out.
\<close>

section \<open>Characters of addresses\<close>

lemma SplitOn_mem: "c \<in> set s \<Longrightarrow> c \<noteq> d \<Longrightarrow> \<exists>f \<in> set (SplitOn s d). c \<in> set f"
proof (induction s)
  case (Cons a s)
  obtain f fs where f: "SplitOn s d = f # fs" using SplitOn_ne by (cases "SplitOn s d") auto
  show ?case using Cons f by auto
qed simp

lemma digits_val_bad: "c \<in> set s \<Longrightarrow> digit_val c = None \<Longrightarrow> digits_val s acc = None"
  by (induction s arbitrary: acc) (auto split: option.splits)

lemma parseIPv4_chars: "parseIPv4Fields s = Some b \<Longrightarrow> c \<in> set s \<Longrightarrow> c = CHR ''.'' \<or> digit_val c \<noteq> None"
proof (rule ccontr)
  assume p: "parseIPv4Fields s = Some b" and c: "c \<in> set s" and n: "\<not> (c = CHR ''.'' \<or> digit_val c \<noteq> None)"
  then obtain f where f: "f \<in> set (SplitOn s CHR ''.'')" "c \<in> set f" using SplitOn_mem by blast
  have "parse_octet f = None" using digits_val_bad [OF f(2)] n by (auto simp: parse_octet_def)
  then have "None \<in> set (map parse_octet (SplitOn s CHR ''.''))" using f(1) by force
  then show False using p by (auto simp: parseIPv4Fields_def split: list.splits option.splits)
qed

lemma hex_group_rest: "hex_group s off acc = Some (k, v, rest) \<Longrightarrow> \<exists>p. s = p @ rest \<and> (\<forall>c \<in> set p. hex_val c \<noteq> None)"
proof (induction s arbitrary: off acc)
  case (Cons a s)
  show ?case
  proof (cases "hex_val a")
    case (Some d)
    then have "hex_group s (off + 1) (16 * acc + d) = Some (k, v, rest)" using Cons.prems by (auto split: if_splits)
    then obtain p where "s = p @ rest" "\<forall>c \<in> set p. hex_val c \<noteq> None" using Cons.IH by blast
    then show ?thesis using Some by (intro exI [of _ "a # p"]) simp
  qed (use Cons.prems in auto)
qed auto

lemma slash_no_digit: "hex_val CHR ''/'' = None" "digit_val CHR ''/'' = None" "digit_val CHR '':'' = None"
  by code_simp+

lemma parse_groups_slash: "parse_groups n s ip ell = Some (ip', ell', []) \<Longrightarrow> CHR ''/'' \<notin> set s"
proof (induction n arbitrary: s ip ell)
  case (Suc n)
  show ?case
  proof (cases "length ip \<ge> 16")
    case False
    then obtain k v rest where h: "hex_group s 0 0 = Some (k, v, rest)" using Suc.prems by (auto split: option.splits)
    obtain p where p: "s = p @ rest" "\<forall>c \<in> set p. hex_val c \<noteq> None" using hex_group_rest [OF h] by blast
    have np: "CHR ''/'' \<notin> set p" using p(2) slash_no_digit(1) by auto
    have k: "k \<noteq> 0" using Suc.prems False h by (cases "k = 0") auto
    show ?thesis
    proof (cases "HasPrefix rest ''.''")
      case True
      then have "parseIPv4Fields s \<noteq> None" using Suc.prems False h k by (auto split: if_splits option.splits)
      then show ?thesis using parseIPv4_chars slash_no_digit(2) by fastforce
    next
      case nd: False
      show ?thesis
      proof (cases rest)
        case Nil
        then show ?thesis using p np by simp
      next
        case (Cons c r)
        then have c: "c = CHR '':''" "r \<noteq> []" using Suc.prems False h k nd by (auto simp: Let_def split: if_splits)
        then obtain d q where r: "r = d # q" by (cases r) auto
        have "CHR ''/'' \<notin> set r"
        proof (cases "d = CHR '':''")
          case True
          then have "q = [] \<or> (\<exists>ip ell. parse_groups n q ip ell = Some (ip', ell', []))"
            using Suc.prems False h k nd Cons c r by (auto simp: Let_def split: if_splits)
          then show ?thesis using Suc.IH r True by auto
        next
          case False
          then have "\<exists>ip ell. parse_groups n r ip ell = Some (ip', ell', [])"
            using Suc.prems \<open>\<not> 16 \<le> length ip\<close> h k nd Cons c r by (auto simp: Let_def split: if_splits)
          then show ?thesis using Suc.IH by blast
        qed
        then show ?thesis using p np Cons c by simp
      qed
    qed
  qed (use Suc.prems in simp)
qed simp

lemma find_mem: "find P xs = Some x \<Longrightarrow> x \<in> set xs \<and> P x"
  by (induction xs) (auto split: if_splits)

lemma ParseAddr_slash:
  assumes "ParseAddr s = Some a" "CHR ''%'' \<notin> set s"
  shows "CHR ''/'' \<notin> set s"
proof -
  obtain c where f: "find (\<lambda>c. c = CHR ''.'' \<or> c = CHR '':'' \<or> c = CHR ''%'') s = Some c"
    using assms(1) by (auto simp: ParseAddr_def split: option.splits)
  then have c: "c \<in> set s \<and> (c = CHR ''.'' \<or> c = CHR '':'' \<or> c = CHR ''%'')" by (rule find_mem)
  then consider "c = CHR ''.''" | "c = CHR '':''" using assms(2) by auto
  then show ?thesis
  proof cases
    case 1
    then have "parseIPv4Fields s \<noteq> None" using assms(1) f by (auto simp: ParseAddr_def)
    then show ?thesis using parseIPv4_chars slash_no_digit(2) by fastforce
  next
    case 2
    have "Cut s CHR ''%'' = (s, [], False)" using assms(2) by (rule Cut_none)
    then have p6: "parseIPv6 s = Some a" "Cut s CHR ''%'' = (s, [], False)" using assms(1) f 2 by (auto simp: ParseAddr_def)
    define s1 where "s1 = (if HasPrefix s ''::'' then drop 2 s else s)"
    have "s1 = [] \<or> (\<exists>ip ell ip' ell'. parse_groups 9 s1 ip ell = Some (ip', ell', []))"
      using p6 by (auto simp: parseIPv6_def Let_def s1_def split: if_splits option.splits) blast+
    then have "CHR ''/'' \<notin> set s1" using parse_groups_slash by fastforce
    then show ?thesis by (auto simp: s1_def HasPrefix_iff split: if_splits)
  qed
qed

section \<open>Fields\<close>

lemma CutLast_mem: "CutLast s c = (a, b, True) \<Longrightarrow> c \<in> set s"
  using Cut_eq [of "rev s" c "rev b" "rev a" True] by (auto simp: CutLast_def split: prod.splits) (metis in_set_conv_decomp set_rev)

lemma Is4_WithoutZone [simp]: "Is4 (WithoutZone a) = Is4 a" "Is6 (WithoutZone a) = Is6 a"
  by (cases a; simp)+

lemma Is6_valid: "IsValid a \<Longrightarrow> Is6 a = (\<not> Is4 a)"
  by (cases a) (simp_all add: IsValid_def)

lemma ParseAddr_IsValid: "ParseAddr s = Some a \<Longrightarrow> IsValid a"
  using ParseAddr_valid by (auto simp: IsValid_def)

lemma ParsePrefix_valid:
  assumes "ParsePrefix s = Some p"
  shows "CHR ''/'' \<in> set s \<and> prefix_valid p \<and> IsValid (prefix_addr p)"
proof -
  obtain as bs ip bits where c: "CutLast s CHR ''/'' = (as, bs, True)" and ip: "ParseAddr as = Some ip"
    and b: "0 \<le> bits" "bits \<le> int (BitLen ip)" and p: "p = PrefixFrom ip bits"
    using assms by (auto simp: ParsePrefix_def not_less split: prod.splits bool.splits option.splits if_splits)
  have "p = Prefix (WithoutZone ip) (nat bits)" "ip \<noteq> NoAddr"
    using ParseAddr_IsValid [OF ip] b p by (auto simp: PrefixFrom_def IsValid_def)
  then show ?thesis using CutLast_mem [OF c] by (cases ip) (simp_all add: IsValid_def)
qed

lemma PrefixFrom_host: "IsValid a \<Longrightarrow> PrefixFrom a (int (BitLen a)) = Prefix (WithoutZone a) (BitLen a)"
  by (simp add: PrefixFrom_def IsValid_def)

text \<open>What the editor stores in a field of addresses.\<close>

lemma stored_field:
  assumes "validNATCIDR x = Inr f" "CHR ''%'' \<notin> set f"
  obtains "f = []" "parsePrefixField f = Some NoPrefix" "parsePfx f = NoPrefix" "natFieldFamily f = None"
  | p where "f \<noteq> []" "parsePrefixField f = Some p" "parsePfx f = p" "prefix_valid p" "IsValid (prefix_addr p)"
      "natFieldFamily f = Some (\<not> Is4 (prefix_addr p))"
proof (cases "TrimSpace x = [] \<or> EqualFold (TrimSpace x) ''any''")
  case True
  then have "f = []" using assms(1) by (simp add: validNATCIDR_def)
  then show ?thesis using that(1) by (simp add: parsePrefixField_def parsePfx_def natFieldFamily_def)
next
  case False
  then have f: "f = TrimSpace x" using assms(1) by (auto simp: validNATCIDR_def Let_def split: option.splits if_splits)
  have ne: "f \<noteq> []" "\<not> EqualFold f ''any''" "TrimSpace f = f" using False f by auto
  show ?thesis
  proof (cases "ParseAddr f")
    case (Some a)
    have v: "IsValid a" using ParseAddr_IsValid [OF Some] .
    have ns: "CHR ''/'' \<notin> set f" using ParseAddr_slash [OF Some assms(2)] .
    then have "ParsePrefix f = None" using ParsePrefix_valid by (cases "ParsePrefix f") auto
    moreover have "(if Is6 a then 128 else 32) = int (BitLen a)" using v by (cases a) (simp_all add: IsValid_def)
    ultimately show ?thesis using that(2) [of "Prefix (WithoutZone a) (BitLen a)"] ne ns Some v PrefixFrom_host [OF v]
      by (simp add: parsePrefixField_def parsePfx_def natFieldFamily_def ContainsChar_def IsValid_def) (cases a; simp)
  next
    case None
    then obtain p where p: "ParsePrefix f = Some p" using assms(1) False f by (auto simp: validNATCIDR_def Let_def split: option.splits)
    then show ?thesis using that(2) [of p] ne None ParsePrefix_valid [OF p]
      by (simp add: parsePrefixField_def parsePfx_def natFieldFamily_def ContainsChar_def)
  qed
qed

section \<open>Targets\<close>

definition addr_text :: "string \<Rightarrow> bool" where "addr_text s \<longleftrightarrow> s \<noteq> [] \<and> set s \<subseteq> set (CHR ''.'' # addr_chars)"

lemma Itoa_addr_text: "addr_text (Itoa_nat n)"
proof -
  have "list_all (\<lambda>d. char_of (48 + d :: nat) \<in> set addr_chars) [0..<10]" by code_simp
  then show ?thesis using Itoa_nat_digits by (fastforce simp: addr_text_def list_all_iff)
qed

lemma addr_text_set: "addr_text s \<Longrightarrow> set s \<subseteq> set (CHR ''.'' # addr_chars)"
  by (simp add: addr_text_def)

lemma groups_addr_text: "\<forall>g \<in> set gs. g < 65536 \<Longrightarrow> set (groups_text gs) \<subseteq> set (CHR ''.'' # addr_chars)"
proof (induction gs)
  case (Cons g gs)
  have "set (hex_text g) \<subseteq> set addr_chars"
    using hex_digits_ok [of g] Cons.prems by (auto simp: hex_text_digits intro!: hex_digit_chars)
  moreover have "CHR '':'' \<in> set addr_chars" by (simp add: addr_chars_def)
  ultimately show ?case using Cons by (cases "gs = []") (auto simp: groups_text_simps)
qed (simp add: groups_text_simps)

lemma addr_String_text:
  assumes "IsValid a" "\<not> has_zone a" "\<not> Is4In6 a"
  shows "addr_text (addr_String a)"
proof (cases a)
  case (Addr4 w)
  have i: "c \<in> set (Itoa_nat n) \<Longrightarrow> c \<in> insert CHR ''.'' (set addr_chars)" for c n
    using addr_text_set [OF Itoa_addr_text] by auto
  show ?thesis unfolding addr_text_def Addr4 by (auto simp: join_def put32_def dest!: i)
next
  case (Addr6 w z)
  then have s: "addr_String a = v6_body w" using assms addr_String6 [of w z] by simp
  obtain i l where "best_run (v6_groups w) = (i, l)" by fastforce
  moreover have "CHR '':'' \<in> set addr_chars" by (simp add: addr_chars_def)
  ultimately have "set (v6_body w) \<subseteq> set (CHR ''.'' # addr_chars)"
    using groups_addr_text [OF groups_below(1)] groups_addr_text [OF groups_below(2)] groups_addr_text [OF groups_below(3)]
    by (simp add: v6_body_def Let_def)
  then show ?thesis using v6_body_chars [of w] unfolding s addr_text_def by auto
qed (use assms in \<open>simp add: IsValid_def\<close>)

lemma addr_char_facts: "c \<in> set (CHR ''.'' # addr_chars) \<Longrightarrow> \<not> space_byte c \<and> c \<noteq> CHR ''['' \<and> c \<noteq> CHR '']'' \<and> c \<noteq> CHR ''%''"
proof -
  have "\<forall>c \<in> set (CHR ''.'' # addr_chars). \<not> space_byte c \<and> c \<noteq> CHR ''['' \<and> c \<noteq> CHR '']'' \<and> c \<noteq> CHR ''%''"
    by (simp add: addr_chars_def space_byte_def space_seqs_def)
  then show "c \<in> set (CHR ''.'' # addr_chars) \<Longrightarrow> ?thesis" by blast
qed

lemma addr_text_facts:
  assumes "addr_text s"
  shows "s \<noteq> []" "\<not> space_byte (hd s)" "\<not> space_byte (last s)" "hd s \<noteq> CHR ''[''" "CHR '']'' \<notin> set s" "CHR ''%'' \<notin> set s" "TrimSpace s = s"
proof -
  have c: "\<forall>c \<in> set s. \<not> space_byte c \<and> c \<noteq> CHR ''['' \<and> c \<noteq> CHR '']'' \<and> c \<noteq> CHR ''%''"
    using addr_char_facts addr_text_set [OF assms] by blast
  show n: "s \<noteq> []" using assms by (simp add: addr_text_def)
  show h: "\<not> space_byte (hd s)" "\<not> space_byte (last s)" "hd s \<noteq> CHR ''[''" "CHR '']'' \<notin> set s" "CHR ''%'' \<notin> set s"
    using c n hd_in_set last_in_set by blast+
  show "TrimSpace s = s" using TrimSpace_same n h by blast
qed

lemma text4_no_colon: "c \<in> set (addr_String (Addr4 w)) \<Longrightarrow> c = CHR ''.'' \<or> digit_val c \<noteq> None"
  and text4_find: "find (\<lambda>c. c = CHR ''.'' \<or> c = CHR '':'' \<or> c = CHR ''%'') (addr_String (Addr4 w)) = Some CHR ''.''"
proof -
  let ?P = "\<lambda>c. c = CHR ''.'' \<or> c = CHR '':'' \<or> c = CHR ''%''"
  define s where "s = addr_String (Addr4 w)"
  have p: "ParseAddr s = Some (Addr4 w)" unfolding s_def by (rule ParseAddr_String4)
  have "parseIPv6 s \<noteq> Some (Addr4 w)" by (auto simp: parseIPv6_def Let_def split: prod.splits if_splits option.splits)
  then have "find ?P s = Some CHR ''.'' \<and> parseIPv4Fields s \<noteq> None" using p by (auto simp: ParseAddr_def split: option.splits if_splits)
  then show "find ?P (addr_String (Addr4 w)) = Some CHR ''.''" "c \<in> set (addr_String (Addr4 w)) \<Longrightarrow> c = CHR ''.'' \<or> digit_val c \<noteq> None"
    using parseIPv4_chars unfolding s_def by auto
qed

lemma find_first_some: "find P s = Some c \<Longrightarrow> find P (s @ r) = Some c"
  by (induction s) (auto split: if_splits)

lemma ParseAddr_port4: "ParseAddr (addr_String (Addr4 w) @ CHR '':'' # ds) = None"
proof -
  let ?s = "addr_String (Addr4 w) @ CHR '':'' # ds"
  have "parseIPv4Fields ?s = None"
    using parseIPv4_chars [of ?s _ "CHR '':''"] slash_no_digit(3) by (cases "parseIPv4Fields ?s") auto
  then show ?thesis unfolding ParseAddr_def find_first_some [OF text4_find] by simp
qed

lemma split_target:
  assumes "IsValid ip" "\<not> has_zone ip" "\<not> Is4In6 ip"
  shows "SplitNATTarget (natTargetText ip p) =
      Some (addr_String ip, if p = 0 then [] else Itoa_nat (unat p), p \<noteq> 0) \<and>
    natTargetText ip p \<noteq> [] \<and> \<not> space_byte (hd (natTargetText ip p)) \<and> \<not> space_byte (last (natTargetText ip p))"
proof -
  define t where "t = addr_String ip"
  define ds where "ds = Itoa_nat (unat p)"
  have tx: "addr_text t" "addr_text ds" unfolding t_def ds_def using addr_String_text [OF assms] Itoa_addr_text by auto
  note tf = addr_text_facts [OF tx(1)] and df = addr_text_facts [OF tx(2)]
  have pt: "ParseAddr t = Some ip" unfolding t_def using ParseAddr_String assms by blast
  have sp: "\<not> space_byte CHR ''[''" "\<not> space_byte CHR '':''" by (simp_all add: space_byte_def space_seqs_def)
  consider "p = 0" | "p \<noteq> 0" "Is6 ip" | "p \<noteq> 0" "\<not> Is6 ip" by blast
  then show ?thesis
  proof cases
    case 1
    then show ?thesis using tf pt by (simp add: natTargetText_def SplitNATTarget_def HasPrefix1 flip: t_def)
  next
    case 2
    let ?s = "CHR ''['' # t @ CHR '']'' # CHR '':'' # ds"
    have tr: "TrimSpace ?s = ?s" "TrimSpace (CHR '':'' # ds) = CHR '':'' # ds" using sp df by (auto intro!: TrimSpace_same)
    have "Cut ?s CHR '']'' = (CHR ''['' # t, CHR '':'' # ds, True)" using Cut_append [of "CHR '']''" "CHR ''['' # t" "CHR '':'' # ds"] tf by simp
    then show ?thesis using 2 tr tf df sp by (simp add: natTargetText_def SplitNATTarget_def flip: t_def ds_def)
  next
    case 3
    then obtain w where w: "ip = Addr4 w" using assms(1) by (cases ip) (auto simp: IsValid_def)
    let ?s = "t @ CHR '':'' # ds"
    have "CHR '':'' \<notin> set t" using text4_no_colon [of "CHR '':''" w] slash_no_digit(3) unfolding t_def w by auto
    then have "Cut ?s CHR '':'' = (t, ds, True)" by (rule Cut_append)
    moreover have "TrimSpace ?s = ?s" using tf df by (intro TrimSpace_same) auto
    moreover have "ParseAddr ?s = None" using ParseAddr_port4 unfolding t_def w .
    ultimately show ?thesis using 3 tf df by (simp add: natTargetText_def SplitNATTarget_def HasPrefix1 flip: t_def ds_def)
  qed
qed

section \<open>Ports\<close>

lemma digits_val_chars: "digits_val s acc = Some n \<Longrightarrow> c \<in> set s \<Longrightarrow> digit_val c \<noteq> None"
  using digits_val_bad [of c s acc] by auto

lemma digit_no_space: "digit_val c \<noteq> None \<Longrightarrow> \<not> space_byte c"
  by (auto simp: digit_val_def Let_def space_byte_def space_seqs_def split: if_splits)

lemma kernel_port:
  assumes "Atoi s = Some p" "1 \<le> p" "p \<le> 65535" "CHR ''+'' \<notin> set s"
  shows "parsePort s = Some p \<and> TrimSpace s = s"
proof -
  have n: "s \<noteq> []" using assms(1) by (auto simp: Atoi_def Let_def)
  have "\<not> HasPrefix s ''-''" using assms(1,2) by (auto simp: Atoi_def Let_def split: if_splits option.splits)
  moreover have "\<not> HasPrefix s ''+''" using assms(4) n by (cases s) (auto simp: HasPrefix1)
  ultimately obtain k where k: "digits_val s 0 = Some k" "p = int k"
    using assms(1) n by (auto simp: Atoi_def Let_def split: option.splits if_splits)
  have "\<forall>c \<in> set s. \<not> space_byte c" using digits_val_chars [OF k(1)] digit_no_space by blast
  then have "TrimSpace s = s" using n by (intro TrimSpace_same) auto
  then show ?thesis using k n assms(3) by (simp add: parsePort_def ParseUint64_def)
qed

definition kernel_ports :: "string \<Rightarrow> 16 word \<times> 16 word" where
  "kernel_ports d =
     (if d \<noteq> [] then
        (case parsePortRange d of
           Some (lo, hi) \<Rightarrow> if lo \<ge> 1 \<and> lo \<le> 65535 \<and> hi \<ge> lo \<and> hi \<le> 65535 then (of_int lo, of_int hi) else (0, 0)
         | None \<Rightarrow> (0, 0)) else (0, 0))"

text \<open>A destination port the editor accepts is read alike by the engine and by the kernel, unless it is
  written with a plus sign.\<close>

lemma ports_agree:
  assumes "validNATPortSpec d = Inr x" "TrimSpace d = d" "CHR ''+'' \<notin> set d"
  shows "(if d = [] then Some (0, 0) else parsePortSpec d) = Some (kernel_ports d)"
proof (cases "d = []")
  case False
  obtain a b ok where c: "Cut d CHR ''-'' = (a, b, ok)" by (cases "Cut d CHR ''-''") auto
  have ab: "CHR ''+'' \<notin> set a" "CHR ''+'' \<notin> set b" using Cut_eq [OF c] assms(3) by (auto split: if_splits)
  show ?thesis
  proof (cases ok)
    case True
    then obtain lo hi where "Atoi a = Some lo" "Atoi b = Some hi" "1 \<le> lo" "lo \<le> hi" "hi \<le> 65535"
      using assms(1,2) False c by (auto simp: validNATPortSpec_def Let_def not_less split: option.splits if_splits)
    moreover from this have "parsePort a = Some lo \<and> TrimSpace a = a" "parsePort b = Some hi \<and> TrimSpace b = b"
      using kernel_port [of a lo] kernel_port [of b hi] ab by simp_all
    ultimately show ?thesis using True False c assms(2) by (simp add: parsePortSpec_def kernel_ports_def parsePortRange_def)
  next
    case no_range: False
    have "a = d" using Cut_eq [OF c] no_range by simp
    then have c: "Cut d CHR ''-'' = (d, b, False)" using c no_range by simp
    then obtain p where "Atoi d = Some p" "1 \<le> p" "p \<le> 65535"
      using assms(1,2) False by (auto simp: validNATPortSpec_def Let_def not_less split: option.splits if_splits)
    moreover from this have "parsePort d = Some p" using kernel_port [of d p] assms(3) by simp
    ultimately show ?thesis using False c assms(2) by (simp add: parsePortSpec_def kernel_ports_def parsePortRange_def)
  qed
qed (simp add: kernel_ports_def)

section \<open>The halves agree\<close>

text \<open>The rule of the engine and the rule of the kernel say the same.\<close>

definition same_rule :: "natRule \<Rightarrow> kernel_rule \<Rightarrow> bool" where
  "same_rule q k \<longleftrightarrow>
     r_src q = k_Source k \<and> r_dst q = k_Dest k \<and> srcNeg q = k_SourceNeg k \<and> dstNeg q = k_DestNeg k \<and>
     r_is6 q = k_V6 k \<and> (action q = dnatAction \<longleftrightarrow> k_Kind k = DNAT) \<and> (k_Kind k \<noteq> Masquerade \<longrightarrow> r_to q = k_To k) \<and>
     r_proto q = protoNum (k_Proto k) \<and> dportLo q = k_DPortLo k \<and> dportHi q = k_DPortHi k \<and> toPort q = k_ToPort k"

definition halves_agree :: "(string \<Rightarrow> bytes list option) \<Rightarrow> NATRule \<Rightarrow> bool" where
  "halves_agree addrs r \<longleftrightarrow> (\<exists>q k. NATRuleSpec_toRule addrs (nat_spec r) = Some q \<and> kernel_rule_of r = [k] \<and> same_rule q k)"

text \<open>A stored field that fits_family a family.\<close>

definition fits_family :: "string \<Rightarrow> bool \<Rightarrow> bool" where
  "fits_family f v6 \<longleftrightarrow> (\<exists>x. validNATCIDR x = Inr f) \<and> CHR ''%'' \<notin> set f \<and> (natFieldFamily f = None \<or> natFieldFamily f = Some v6)"

lemma fits_family_cases:
  assumes "fits_family f v6"
  obtains p where "parsePrefixField f = Some p" "parsePfx f = p" "prefix_valid p \<longrightarrow> (\<not> Is4 (prefix_addr p)) = v6"
    "prefix_valid p \<longrightarrow> Is6 (prefix_addr p) = v6" "natFieldFamily f = (if prefix_valid p then Some v6 else None)"
proof -
  obtain x where "validNATCIDR x = Inr f" "CHR ''%'' \<notin> set f" using assms by (auto simp: fits_family_def)
  then show thesis
  proof (cases rule: stored_field)
    case 1
    then show ?thesis using that [of NoPrefix] by simp
  next
    case (2 p)
    then show ?thesis using that [of p] assms Is6_valid [of "prefix_addr p"] by (auto simp: fits_family_def)
  qed
qed

lemma EqualFold_refl [simp]: "EqualFold s s"
  by (simp add: EqualFold_def)

lemma same_marker: "portForwardPrefix = natPortForwardPrefix"
  by (simp add: portForwardPrefix_def natPortForwardPrefix_def)

lemma kernel_dnat_ports:
  "kernel_dnat r src dst rest =
     (case SplitNATTarget rest of None \<Rightarrow> []
      | Some (addrPart, portPart, hasPort) \<Rightarrow>
          (case ParseAddr (TrimSpace addrPart) of None \<Rightarrow> []
           | Some to \<Rightarrow>
               if \<not> IsValid to then []
               else [zero_rule\<lparr>k_Kind := DNAT, k_Source := src, k_SourceNeg := nr_SourceNegate r, k_Dest := dst, k_DestNeg := nr_DestNegate r,
                       k_InIface := nr_Interface r, k_To := to, k_V6 := Is6 to, k_Proto := nr_Proto r,
                       k_DPortLo := fst (kernel_ports (nr_DestPort r)), k_DPortHi := snd (kernel_ports (nr_DestPort r)),
                       k_ToPort := (if hasPort then
                         (case Atoi (TrimSpace portPart) of Some p \<Rightarrow> if p \<ge> 1 \<and> p \<le> 65535 then of_int p else 0 | None \<Rightarrow> 0) else 0)\<rparr>]))"
  by (simp add: kernel_dnat_def kernel_ports_def Let_def split: option.split prod.split)

lemma port_value: "Atoi (Itoa_nat (unat p)) = Some (uint p) \<and> (p \<noteq> 0 \<longrightarrow> 1 \<le> uint p \<and> uint p \<le> 65535)" for p :: "16 word"
proof -
  define n where "n = unat p"
  have n: "uint p = int n" "unat p = n" "n < 65536" using unat_less_2p [of p] unfolding n_def by simp_all
  have "Atoi (Itoa (int n)) = Some (int n)" using n(3) by (intro Atoi_Itoa) simp_all
  moreover have "p \<noteq> 0 \<Longrightarrow> 0 < n" using unat_gt_0 [of p] unfolding n_def by blast
  ultimately show ?thesis unfolding n(1,2) using n(3) by (simp add: Itoa_def Suc_le_eq)
qed

lemma agree_forward:
  assumes src: "fits_family (nr_Source r) v6" and dst: "fits_family (nr_Dest r) v6" and v6: "v6 = (\<not> Is4 ip)"
    and ip: "IsValid ip" "\<not> has_zone ip" "\<not> Is4In6 ip" and tr: "nr_Translate r = natPortForwardPrefix @ natTargetText ip p"
    and port: "validNATPortSpec (nr_DestPort r) = Inr x" "TrimSpace (nr_DestPort r) = nr_DestPort r" "CHR ''+'' \<notin> set (nr_DestPort r)"
  shows "halves_agree addrs r"
proof -
  obtain ps where ps: "parsePrefixField (nr_Source r) = Some ps" "parsePfx (nr_Source r) = ps" "prefix_valid ps \<longrightarrow> (\<not> Is4 (prefix_addr ps)) = v6"
    using src by (rule fits_family_cases)
  obtain pd where pd: "parsePrefixField (nr_Dest r) = Some pd" "parsePfx (nr_Dest r) = pd" "prefix_valid pd \<longrightarrow> (\<not> Is4 (prefix_addr pd)) = v6"
    using dst by (rule fits_family_cases)
  define t where "t = natTargetText ip p"
  have st: "SplitNATTarget t = Some (addr_String ip, if p = 0 then [] else Itoa_nat (unat p), p \<noteq> 0)"
    "t \<noteq> []" "\<not> space_byte (hd t)" "\<not> space_byte (last t)" using split_target [OF ip, of p] unfolding t_def by blast+
  have tt: "TrimSpace t = t" "TrimSpace (nr_Translate r) = natPortForwardPrefix @ t"
    using st(2-4) unfolding tr t_def [symmetric] by (auto intro!: TrimSpace_same simp: natPortForwardPrefix_def space_byte_def space_seqs_def)
  have pa: "ParseAddr (addr_String ip) = Some ip" using ParseAddr_String ip by blast
  note ta = addr_text_facts(7) [OF addr_String_text [OF ip]] and td = addr_text_facts(7) [OF Itoa_addr_text]
  have at: "Atoi (Itoa_nat (unat p)) = Some (uint p)" and pr: "p \<noteq> 0 \<Longrightarrow> 1 \<le> uint p \<and> uint p \<le> 65535"
    using port_value by blast+
  have sp: "spec_target addrs (nat_spec r) src = Some (dnatAction, addr_String ip, p)" for src
    using at pr td by (cases "p = 0") (simp_all add: spec_target_def nat_spec_def tt cutPrefixFold_def same_marker st)
  note pts = ports_agree [OF port] 
  obtain q where q: "NATRuleSpec_toRule addrs (nat_spec r) = Some q" "r_src q = ps" "r_dst q = pd" "srcNeg q = nr_SourceNegate r"
    "dstNeg q = nr_DestNegate r" "r_is6 q = v6" "action q = dnatAction" "r_to q = ip" "dportLo q = fst (kernel_ports (nr_DestPort r))"
    "dportHi q = snd (kernel_ports (nr_DestPort r))" "toPort q = p" "r_proto q = protoNum (nr_Proto r)"
    using ps pd pts sp [of ps] pa ip(3) v6 port(2)
    by (cases "kernel_ports (nr_DestPort r)") (simp add: NATRuleSpec_toRule_def nat_spec_def Let_def)
  have "kernel_rule_of r = kernel_dnat r ps pd t" by (simp add: kernel_rule_of_def tt ps pd Let_def)
  then show ?thesis using q at pr td ta pa st(1) ip(1) v6 Is6_valid [OF ip(1)]
    by (cases "p = 0") (simp_all add: halves_agree_def same_rule_def kernel_dnat_ports zero_rule_def)
qed

lemma agree_snat:
  assumes src: "fits_family (nr_Source r) v6" and dst: "fits_family (nr_Dest r) v6" and v6: "v6 = (\<not> Is4 ip)"
    and ip: "ParseAddr (nr_Translate r) = Some ip" "\<not> Is4In6 ip" and tr: "TrimSpace (nr_Translate r) = nr_Translate r"
    and kind: "\<not> snd (cutNATPortForwardPrefix (nr_Translate r))" "nr_Translate r \<noteq> []" "\<not> EqualFold (nr_Translate r) ''masquerade''"
    and port: "nr_DestPort r = []" "nr_Proto r = []"
  shows "halves_agree addrs r"
proof -
  obtain ps where ps: "parsePrefixField (nr_Source r) = Some ps" "parsePfx (nr_Source r) = ps" "prefix_valid ps \<longrightarrow> (\<not> Is4 (prefix_addr ps)) = v6"
    using src by (rule fits_family_cases)
  obtain pd where pd: "parsePrefixField (nr_Dest r) = Some pd" "parsePfx (nr_Dest r) = pd" "prefix_valid pd \<longrightarrow> (\<not> Is4 (prefix_addr pd)) = v6"
    using dst by (rule fits_family_cases)
  have cut: "\<not> (length natPortForwardPrefix \<le> length (nr_Translate r) \<and>
      EqualFold (take (length natPortForwardPrefix) (nr_Translate r)) natPortForwardPrefix)"
    using kind(1) by (auto simp: cutNATPortForwardPrefix_def split: if_splits)
  have sp: "spec_target addrs (nat_spec r) src = Some (snatAction, nr_Translate r, 0)" for src
    using cut kind(2,3) tr by (auto simp: spec_target_def nat_spec_def Let_def cutPrefixFold_def same_marker)
  have v: "IsValid ip" using ParseAddr_IsValid [OF ip(1)] .
  obtain q where q: "NATRuleSpec_toRule addrs (nat_spec r) = Some q" "r_src q = ps" "r_dst q = pd" "srcNeg q = nr_SourceNegate r"
    "dstNeg q = nr_DestNegate r" "r_is6 q = v6" "action q = snatAction" "r_to q = ip" "dportLo q = 0" "dportHi q = 0" "toPort q = 0" "r_proto q = protoNum []"
    using ps pd sp [of ps] ip v6 port by (simp add: NATRuleSpec_toRule_def nat_spec_def Let_def)
  have "kernel_rule_of r = [zero_rule\<lparr>k_Kind := SNAT, k_Source := ps, k_SourceNeg := nr_SourceNegate r, k_Dest := pd, k_DestNeg := nr_DestNegate r,
      k_OutIface := nr_Interface r, k_To := ip, k_V6 := Is6 ip\<rparr>]"
    unfolding kernel_rule_of_def Let_def tr ps(2) pd(2) if_not_P [OF cut] using kind(2,3) ip(1) v by simp
  then show ?thesis using q v6 Is6_valid [OF v] by (simp add: halves_agree_def same_rule_def zero_rule_def)
qed

lemma first_usable_sound: "first_usable want6 bs = Some ip \<Longrightarrow> IsValid ip \<and> \<not> Is4In6 ip \<and> Is4 ip = (\<not> want6)"
proof (induction bs)
  case (Cons b bs)
  show ?case
  proof (cases "AddrFromSlice b")
    case (Some a)
    have u: "IsValid (Unmap a) \<and> \<not> Is4In6 (Unmap a)"
      using Some by (auto simp: AddrFromSlice_def AddrFrom4_def AddrFrom16_def IsValid_def split: if_splits)
    have "first_usable want6 bs = Some ip \<or> ip = Unmap a \<and> Is4 (Unmap a) \<noteq> want6"
      using Cons.prems Some by (simp add: Let_def del: Unmap.simps split: if_splits)
    then show ?thesis using Cons.IH u by blast
  qed (use Cons in simp)
qed simp

definition wants_v6 :: "NATRule \<Rightarrow> bool" where "wants_v6 r \<longleftrightarrow> natFieldFamily (nr_Source r) = Some True"

lemma agree_masquerade:
  assumes src: "fits_family (nr_Source r) v6" and dst: "fits_family (nr_Dest r) v6" and v6: "v6 = wants_v6 r"
    and tr: "nr_Translate r = ''masquerade''" and ifc: "nr_Interface r \<noteq> []"
    and ip: "interfaceAddr addrs (nr_Interface r) (wants_v6 r) \<noteq> None" and port: "nr_DestPort r = []" "nr_Proto r = []"
  shows "halves_agree addrs r"
proof -
  obtain ps where ps: "parsePrefixField (nr_Source r) = Some ps" "parsePfx (nr_Source r) = ps" "prefix_valid ps \<longrightarrow> (\<not> Is4 (prefix_addr ps)) = v6"
    "prefix_valid ps \<longrightarrow> Is6 (prefix_addr ps) = v6" "natFieldFamily (nr_Source r) = (if prefix_valid ps then Some v6 else None)"
    using src by (rule fits_family_cases)
  obtain pd where pd: "parsePrefixField (nr_Dest r) = Some pd" "parsePfx (nr_Dest r) = pd" "prefix_valid pd \<longrightarrow> (\<not> Is4 (prefix_addr pd)) = v6"
    using dst by (rule fits_family_cases)
  have "v6 \<Longrightarrow> prefix_valid ps" using ps(5) v6 unfolding wants_v6_def by (metis option.distinct(1))
  then have w: "(prefix_valid ps \<and> \<not> Is4 (prefix_addr ps)) = v6" "(prefix_valid ps \<and> Is6 (prefix_addr ps)) = v6"
    using ps(3,4) by blast+
  obtain a where a: "interfaceAddr addrs (nr_Interface r) v6 = Some a" using ip v6 by auto
  then have av: "IsValid a" "\<not> Is4In6 a" "Is4 a = (\<not> v6)"
    using first_usable_sound by (auto simp: interfaceAddr_def split: option.splits)
  have m: "TrimSpace ''masquerade'' = ''masquerade''" "cutPrefixFold ''masquerade'' portForwardPrefix = (''masquerade'', False)"
    "\<not> length natPortForwardPrefix \<le> length ''masquerade''" by code_simp+
  have sp: "spec_target addrs (nat_spec r) ps = Some (snatAction, addr_String a, 0)"
    using m a ifc w(1) tr by (simp add: spec_target_def nat_spec_def Let_def)
  obtain q where q: "NATRuleSpec_toRule addrs (nat_spec r) = Some q" "r_src q = ps" "r_dst q = pd" "srcNeg q = nr_SourceNegate r"
    "dstNeg q = nr_DestNegate r" "r_is6 q = v6" "action q = snatAction" "dportLo q = 0" "dportHi q = 0" "toPort q = 0" "r_proto q = protoNum []"
    using ps pd sp av ParseAddr_String [OF av(1,2)] port
    by (cases v6) (simp_all add: NATRuleSpec_toRule_def nat_spec_def Let_def cong: conj_cong)
  have "kernel_rule_of r = [zero_rule\<lparr>k_Kind := Masquerade, k_Source := ps, k_SourceNeg := nr_SourceNegate r, k_Dest := pd,
      k_DestNeg := nr_DestNegate r, k_OutIface := nr_Interface r, k_V6 := v6\<rparr>]"
    using m w(2) tr by (simp add: kernel_rule_of_def Let_def ps pd)
  then show ?thesis using q by (simp add: halves_agree_def same_rule_def zero_rule_def)
qed

section \<open>Every rule of the editor\<close>

datatype nat_cmd =
    AddRule string string string string string string bool bool
  | UpdateRule int string string string string string string bool bool
  | DeleteRule int
  | EnableRule int bool
  | AddMasquerade string
  | DeleteMasquerade string

fun nat_cmd_result :: "nat_cmd \<Rightarrow> NATRule list \<Rightarrow> NATRule list nat_result" where
  "nat_cmd_result (AddRule s d dp pr t i sn dn) rs = NATRuleAddNeg s d dp pr t i sn dn rs"
| "nat_cmd_result (UpdateRule idx s d dp pr t i sn dn) rs = NATRuleUpdateAtNeg idx s d dp pr t i sn dn rs"
| "nat_cmd_result (DeleteRule idx) rs = NATRuleDeleteAt idx rs"
| "nat_cmd_result (EnableRule idx on) rs = NATRuleSetEnabled idx on rs"
| "nat_cmd_result (AddMasquerade i) rs = NATAdd i rs"
| "nat_cmd_result (DeleteMasquerade i) rs = NATDelete i rs"

text \<open>A command that fails leaves the list.\<close>

definition nat_edits :: "nat_cmd list \<Rightarrow> NATRule list" where
  "nat_edits cmds = foldl (\<lambda>rs c. case nat_cmd_result c rs of Inl _ \<Rightarrow> rs | Inr rs1 \<Rightarrow> rs1) [] cmds"

definition bare :: "NATRule \<Rightarrow> NATRule" where "bare r = r\<lparr>nr_SourceNegate := False, nr_DestNegate := False, nr_Enabled := False\<rparr>"

definition edited :: "NATRule \<Rightarrow> bool" where
  "edited r \<longleftrightarrow> (\<exists>s d dp pr t i. buildNATRule s d dp pr t i = Inr (bare r)) \<or>
     (nr_Interface r \<noteq> [] \<and> bare r = emptyNATRule\<lparr>nr_Translate := ''masquerade'', nr_Interface := nr_Interface r\<rparr>)"

lemma build_bare: "buildNATRule s d dp pr t i = Inr r \<Longrightarrow> bare r = r"
  by (auto simp: buildNATRule_def build_forward_def build_snat_def bare_def emptyNATRule_def Let_def
      split: sum.splits prod.splits bool.splits if_splits option.splits)

lemma edited_flags: "edited r \<Longrightarrow> edited (r\<lparr>nr_Enabled := on\<rparr>)"
  by (simp add: edited_def bare_def)

lemma built_edited:
  "buildNATRule s d dp pr t i = Inr r \<Longrightarrow> applyNATNegate r sn dn = Inr r1 \<Longrightarrow> edited (r1\<lparr>nr_Enabled := on\<rparr>)"
proof -
  assume b: "buildNATRule s d dp pr t i = Inr r" and a: "applyNATNegate r sn dn = Inr r1"
  have "bare (r1\<lparr>nr_Enabled := on\<rparr>) = bare r" using a by (auto simp: applyNATNegate_def bare_def split: if_splits)
  then show ?thesis using b build_bare [OF b] unfolding edited_def by metis
qed

lemma step_edited:
  assumes "list_all edited rs" "nat_cmd_result c rs = Inr rs1"
  shows "list_all edited rs1"
proof (cases c)
  case (AddRule s d dp pr t i sn dn)
  then show ?thesis using assms built_edited by (auto simp: NATRuleAddNeg_def split: sum.splits)
next
  case (UpdateRule idx s d dp pr t i sn dn)
  then obtain r r1 where "buildNATRule s d dp pr t i = Inr r" "applyNATNegate r sn dn = Inr r1"
    "rs1 = rs[nat idx := r1\<lparr>nr_Enabled := nr_Enabled (rs ! nat idx)\<rparr>]"
    using assms(2) by (auto simp: NATRuleUpdateAtNeg_def split: sum.splits if_splits)
  then show ?thesis using assms(1) built_edited by (auto simp: list_all_iff dest!: set_update_subset_insert [THEN subsetD])
next
  case (DeleteRule idx)
  then show ?thesis using assms by (auto simp: NATRuleDeleteAt_def list_all_iff split: if_splits dest!: in_set_takeD in_set_dropD)
next
  case (EnableRule idx on)
  then have "nat idx < length rs" "rs1 = rs[nat idx := (rs ! nat idx)\<lparr>nr_Enabled := on\<rparr>]"
    using assms(2) by (auto simp: NATRuleSetEnabled_def in_range_def split: if_splits)
  then show ?thesis using assms(1) edited_flags by (auto simp: list_all_iff dest!: set_update_subset_insert [THEN subsetD])
next
  case (AddMasquerade i)
  then show ?thesis using assms by (auto simp: NATAdd_def edited_def bare_def emptyNATRule_def split: if_splits)
next
  case (DeleteMasquerade i)
  then show ?thesis using assms by (auto simp: NATDelete_def list_all_iff split: if_splits)
qed

lemma edits_edited: "list_all edited (nat_edits cmds)"
proof -
  have "list_all edited rs \<Longrightarrow> list_all edited (foldl (\<lambda>rs c. case nat_cmd_result c rs of Inl _ \<Rightarrow> rs | Inr rs1 \<Rightarrow> rs1) rs cmds)" for rs
    by (induction cmds arbitrary: rs) (auto intro: step_edited split: sum.split)
  then show ?thesis by (simp add: nat_edits_def)
qed

lemma agreement:
  assumes "natFamilyAgreement [a, b, c] = Inr w" "natFieldFamily f = Some v" "f \<in> {a, b, c}" "g \<in> {a, b, c}"
  shows "natFieldFamily g = None \<or> natFieldFamily g = Some v"
  using assms by (auto simp: natFamilyAgreement_def split: option.splits if_splits)

lemma family_of_addr: "ParseAddr s = Some ip \<Longrightarrow> natFieldFamily s = Some (\<not> Is4 ip)"
  by (auto simp: natFieldFamily_def ParseAddr_def)

lemma forward_text_form: "forward_text dp rest = Inr (a, out) \<Longrightarrow>
    \<exists>ip p. ParseAddr a = Some ip \<and> \<not> Is4In6 ip \<and> out = natPortForwardPrefix @ natTargetText ip p"
  by (auto simp: forward_text_def Let_def split: option.splits prod.splits if_splits)

lemma zone_in_text: "has_zone ip \<Longrightarrow> \<not> Is4In6 ip \<Longrightarrow> CHR ''%'' \<in> set (natTargetText ip p)"
  by (cases ip) (auto simp: natTargetText_def addr_String6 simp del: addr_String.simps)

text \<open>A rule without zones and without a plus sign in its port.\<close>

definition plain_rule :: "NATRule \<Rightarrow> bool" where
  "plain_rule r \<longleftrightarrow> CHR ''%'' \<notin> set (nr_Source r @ nr_Dest r @ nr_Translate r) \<and> CHR ''+'' \<notin> set (nr_DestPort r)"

definition has_address :: "(string \<Rightarrow> bytes list option) \<Rightarrow> NATRule \<Rightarrow> bool" where
  "has_address addrs r \<longleftrightarrow> interfaceAddr addrs (nr_Interface r) (wants_v6 r) \<noteq> None"

lemma bare_fields [simp]:
  "nr_Source (bare r) = nr_Source r" "nr_Dest (bare r) = nr_Dest r" "nr_DestPort (bare r) = nr_DestPort r"
  "nr_Proto (bare r) = nr_Proto r" "nr_Translate (bare r) = nr_Translate r" "nr_Interface (bare r) = nr_Interface r"
  by (simp_all add: bare_def)

lemma agree_built:
  assumes b: "buildNATRule s d dp pr t i = Inr (bare r)" and plain: "plain_rule r"
    and ifc: "nr_Translate r = ''masquerade'' \<longrightarrow> has_address addrs r"
  shows "halves_agree addrs r"
proof -
  obtain src where src: "validNATCIDR s = Inr src" using b by (auto simp: buildNATRule_def split: sum.splits)
  obtain dst where dst: "validNATCIDR d = Inr dst" using b src by (auto simp: buildNATRule_def split: sum.splits)
  obtain x where x: "validNATPortSpec (TrimSpace dp) = Inr x" using b src dst by (auto simp: buildNATRule_def Let_def split: sum.splits)
  define tt where "tt = TrimSpace t"
  define ii where "ii = TrimSpace i"
  obtain rest f where cut: "cutNATPortForwardPrefix tt = (rest, f)" by fastforce
  have body: "(case f of True \<Rightarrow> build_forward src dst (TrimSpace dp) x (ToLower (TrimSpace pr)) rest
      | False \<Rightarrow> if TrimSpace dp \<noteq> [] then Inl PortNeedsForward else build_snat src dst tt ii) = Inr (bare r)"
    using b src dst x cut by (auto simp: buildNATRule_def Let_def tt_def ii_def split: if_splits bool.splits)
  have np: "CHR ''%'' \<notin> set (nr_Source r)" "CHR ''%'' \<notin> set (nr_Dest r)" "CHR ''%'' \<notin> set (nr_Translate r)" "CHR ''+'' \<notin> set (nr_DestPort r)"
    using plain by (auto simp: plain_rule_def)
  show ?thesis
  proof (cases f)
    case True
    then obtain a out w where ft: "forward_text x rest = Inr (a, out)" and ag: "natFamilyAgreement [src, dst, a] = Inr w"
      and r: "bare r = emptyNATRule\<lparr>nr_Source := src, nr_Dest := dst, nr_DestPort := TrimSpace dp, nr_Proto := ToLower (TrimSpace pr), nr_Translate := out\<rparr>"
      using body by (auto simp: build_forward_def split: sum.splits)
    have rf: "nr_Source r = src" "nr_Dest r = dst" "nr_DestPort r = TrimSpace dp" "nr_Translate r = out"
      using arg_cong [OF r, of nr_Source] arg_cong [OF r, of nr_Dest] arg_cong [OF r, of nr_DestPort] arg_cong [OF r, of nr_Translate] by simp_all
    obtain ip p where ip: "ParseAddr a = Some ip" "\<not> Is4In6 ip" "out = natPortForwardPrefix @ natTargetText ip p" using forward_text_form [OF ft] by blast
    have "\<not> has_zone ip" using zone_in_text [OF _ ip(2), of p] np(3) rf(4) ip(3) by auto
    moreover have "fits_family (nr_Source r) (\<not> Is4 ip)" "fits_family (nr_Dest r) (\<not> Is4 ip)"
      using agreement [OF ag family_of_addr [OF ip(1)], of src] agreement [OF ag family_of_addr [OF ip(1)], of dst] src dst np(1,2)
      unfolding fits_family_def rf by auto
    moreover have "validNATPortSpec (nr_DestPort r) = Inr x" "TrimSpace (nr_DestPort r) = nr_DestPort r" using x unfolding rf by simp_all
    ultimately show ?thesis using agree_forward [of r "\<not> Is4 ip" ip p x addrs] ParseAddr_IsValid [OF ip(1)] ip(2,3) np(4) rf(4) by simp
  next
    case False
    then have dp: "TrimSpace dp = []" and bs: "build_snat src dst tt ii = Inr (bare r)" using body by (auto split: if_splits)
    consider (m) "ii \<noteq> []" "natFieldFamily src \<noteq> None" "\<exists>w. natFamilyAgreement [src, dst, ''masquerade''] = Inr w"
        "bare r = emptyNATRule\<lparr>nr_Source := src, nr_Dest := dst, nr_Translate := ''masquerade'', nr_Interface := ii\<rparr>"
      | (s) ip where "ParseAddr tt = Some ip" "\<not> Is4In6 ip" "\<exists>w. natFamilyAgreement [src, dst, tt] = Inr w" "tt \<noteq> []" "\<not> EqualFold tt ''masquerade''"
        "bare r = emptyNATRule\<lparr>nr_Source := src, nr_Dest := dst, nr_Translate := tt, nr_Interface := []\<rparr>"
      using bs by (auto simp: build_snat_def split: if_splits option.splits sum.splits)
    then show ?thesis
    proof cases
      case m
      have rf: "nr_Source r = src" "nr_Dest r = dst" "nr_DestPort r = []" "nr_Proto r = []" "nr_Translate r = ''masquerade''" "nr_Interface r = ii"
        using arg_cong [OF m(4), of nr_Source] arg_cong [OF m(4), of nr_Dest] arg_cong [OF m(4), of nr_DestPort] arg_cong [OF m(4), of nr_Proto]
          arg_cong [OF m(4), of nr_Translate] arg_cong [OF m(4), of nr_Interface] by (simp_all add: emptyNATRule_def)
      obtain v where v: "natFieldFamily src = Some v" using m(2) by auto
      then have "v = wants_v6 r" by (simp add: wants_v6_def rf)
      moreover have "fits_family (nr_Source r) v" "fits_family (nr_Dest r) v" using m(3) agreement [OF _ v, of src dst "''masquerade''" _ dst] v src dst np(1,2)
        unfolding fits_family_def rf by auto
      ultimately show ?thesis using agree_masquerade [of r v addrs] m(1) ifc rf by (simp add: has_address_def)
    next
      case (s ip)
      have rf: "nr_Source r = src" "nr_Dest r = dst" "nr_DestPort r = []" "nr_Proto r = []" "nr_Translate r = tt"
        using arg_cong [OF s(6), of nr_Source] arg_cong [OF s(6), of nr_Dest] arg_cong [OF s(6), of nr_DestPort] arg_cong [OF s(6), of nr_Proto]
          arg_cong [OF s(6), of nr_Translate] by (simp_all add: emptyNATRule_def)
      have "fits_family (nr_Source r) (\<not> Is4 ip)" "fits_family (nr_Dest r) (\<not> Is4 ip)"
        using s(3) agreement [OF _ family_of_addr [OF s(1)], of src dst tt _ src] agreement [OF _ family_of_addr [OF s(1)], of src dst tt _ dst]
          src dst np(1,2) unfolding fits_family_def rf by auto
      moreover have "TrimSpace tt = tt" by (simp add: tt_def)
      ultimately show ?thesis using agree_snat [of r "\<not> Is4 ip" ip addrs] s rf cut False by simp
    qed
  qed
qed

lemma agree_edited:
  assumes "edited r" "plain_rule r" "nr_Translate r = ''masquerade'' \<longrightarrow> has_address addrs r"
  shows "halves_agree addrs r"
  using assms(1) unfolding edited_def
proof
  assume "\<exists>s d dp pr t i. buildNATRule s d dp pr t i = Inr (bare r)"
  then show ?thesis using agree_built assms(2,3) by blast
next
  assume m: "nr_Interface r \<noteq> [] \<and> bare r = emptyNATRule\<lparr>nr_Translate := ''masquerade'', nr_Interface := nr_Interface r\<rparr>"
  then have b: "bare r = emptyNATRule\<lparr>nr_Translate := ''masquerade'', nr_Interface := nr_Interface r\<rparr>" by blast
  have rf: "nr_Source r = []" "nr_Dest r = []" "nr_DestPort r = []" "nr_Proto r = []" "nr_Translate r = ''masquerade''"
    using arg_cong [OF b, of nr_Proto] arg_cong [OF b, of nr_Source] arg_cong [OF b, of nr_Dest] arg_cong [OF b, of nr_DestPort] arg_cong [OF b, of nr_Translate]
    by (simp_all add: emptyNATRule_def)
  have "fits_family [] False" by (auto simp: fits_family_def validNATCIDR_def natFieldFamily_def intro!: exI [of _ "[]"])
  moreover have "\<not> wants_v6 r" by (simp add: wants_v6_def rf natFieldFamily_def)
  ultimately show ?thesis using agree_masquerade [of r False addrs] rf m assms(3) by (simp add: has_address_def)
qed

text \<open>What the engine makes of its half of the rules: those that cannot be read are skipped.\<close>

definition loaded_rules :: "(string \<Rightarrow> bytes list option) \<Rightarrow> NATRuleSpec list \<Rightarrow> natRule list" where
  "loaded_rules addrs specs = List.map_filter (NATRuleSpec_toRule addrs) specs"

definition buildNAT :: "(string \<Rightarrow> bytes list option) \<Rightarrow> bool \<Rightarrow> NATRuleSpec list \<Rightarrow> int \<Rightarrow> natTable option" where
  "buildNAT addrs on specs life =
     (if \<not> on then None
      else let natRules = loaded_rules addrs specs
           in if natRules = [] then None else Some (newNATTable natRules life))"

lemma halves_lists:
  assumes "\<And>r. r \<in> set rs \<Longrightarrow> nr_Enabled r \<Longrightarrow> halves_agree addrs r"
  shows "\<exists>qs. length qs = length (filter nr_Enabled rs) \<and> list_all2 same_rule qs (kernelNATRules True rs) \<and>
    loaded_rules addrs (overlayNATRules True ifc rs) = map fst (filter (\<lambda>(q, r). natRuleAppliesToOverlay r ifc) (zip qs (filter nr_Enabled rs)))"
proof -
  define en where "en = filter nr_Enabled rs"
  have "\<forall>r \<in> set en. \<exists>q k. NATRuleSpec_toRule addrs (nat_spec r) = Some q \<and> kernel_rule_of r = [k] \<and> same_rule q k"
    using assms by (auto simp: en_def halves_agree_def)
  then obtain q k where qk: "\<And>r. r \<in> set en \<Longrightarrow> NATRuleSpec_toRule addrs (nat_spec r) = Some (q r) \<and> kernel_rule_of r = [k r] \<and> same_rule (q r) (k r)"
    by metis
  have kern: "concat (map kernel_rule_of l) = map k l" if "set l \<subseteq> set en" for l
    using that by (induction l) (simp_all add: qk)
  have load: "loaded_rules addrs (map nat_spec (filter P l)) = map fst (filter (\<lambda>(x, r). P r) (zip (map q l) l))"
    if "set l \<subseteq> set en" for l P
    using that by (induction l) (simp_all add: loaded_rules_def qk map_filter_simps)
  have both: "filter (\<lambda>r. nr_Enabled r \<and> natRuleAppliesToOverlay r ifc) rs = filter (\<lambda>r. natRuleAppliesToOverlay r ifc) en"
    by (simp add: en_def conj_commute)
  have "list_all2 same_rule (map q en) (map k en)" by (simp add: list_all2_conv_all_nth qk)
  then show ?thesis using kern [of en] load [of en "\<lambda>r. natRuleAppliesToOverlay r ifc"]
    by (intro exI [of _ "map q en"]) (simp add: kernelNATRules_def overlayNATRules_def both en_def [symmetric])
qed

text \<open>C38: the two halves of address translation agree. Whatever an operator does in the editor, the kernel gets
  exactly one rule for every enabled rule, in order; the engine of an overlay loads, in order, exactly one for
  those of them that name its tunnel interface or none; and the two made of one rule match the same
  sources, destinations, protocols and ports with the same exceptions and translate to the same target. That
  is, if in the enabled rules no address has a zone, no port is written with a plus sign, and the interface of a
  masquerading rule has an address of its family.\<close>
theorem nat_halves_agree:
  assumes "rs = nat_edits cmds"
    and "\<And>r. r \<in> set rs \<Longrightarrow> nr_Enabled r \<Longrightarrow> plain_rule r \<and> (nr_Translate r = ''masquerade'' \<longrightarrow> has_address addrs r)"
  shows "\<exists>qs. length qs = length (filter nr_Enabled rs) \<and> list_all2 same_rule qs (kernelNATRules True rs) \<and>
    loaded_rules addrs (overlayNATRules True ifc rs) =
      map fst (filter (\<lambda>(q, r). TrimSpace (nr_Interface r) = [] \<or> EqualFold (TrimSpace (nr_Interface r)) (TrimSpace ifc))
        (zip qs (filter nr_Enabled rs)))"
proof -
  have "halves_agree addrs r" if "r \<in> set rs" "nr_Enabled r" for r
    using agree_edited [of r addrs] edits_edited [of cmds] assms(2) [OF that] that(1) assms(1) by (auto simp: list_all_iff)
  moreover have "natRuleAppliesToOverlay r ifc = (TrimSpace (nr_Interface r) = [] \<or> EqualFold (TrimSpace (nr_Interface r)) (TrimSpace ifc))" for r
    by (simp add: natRuleAppliesToOverlay_def Let_def)
  ultimately show ?thesis using halves_lists [of rs addrs ifc] by simp
qed

definition ex_forward :: "nat_cmd list" where
  "ex_forward =
     [AddRule ''192.168.7.0/24'' ''10.0.0.1'' '' 80 '' ''TCP'' ''Port-Forward: 10.0.0.9 : 81'' ''eth0'' True False,
      AddMasquerade ''eth1'', EnableRule 1 False]"

lemma nat_halves_agree_witness:
  "\<exists>q k. loaded_rules (\<lambda>_. None) (overlayNATRules True ''eth0'' (nat_edits ex_forward)) = [q] \<and>
     kernelNATRules True (nat_edits ex_forward) = [k] \<and> same_rule q k \<and> srcNeg q"
proof -
  define rs where "rs = nat_edits ex_forward"
  have "length rs = 2" "list_all (\<lambda>r. nr_Enabled r \<longrightarrow> plain_rule r \<and> nr_Translate r \<noteq> ''masquerade'') rs" unfolding rs_def by code_simp+
  then have "r \<in> set rs \<Longrightarrow> nr_Enabled r \<Longrightarrow> plain_rule r \<and> (nr_Translate r = ''masquerade'' \<longrightarrow> has_address (\<lambda>_. None) r)" for r
    by (auto simp: list_all_iff)
  from nat_halves_agree [OF rs_def this, of "''eth0''"] obtain qs where
    q: "length qs = length (filter nr_Enabled rs)" "list_all2 same_rule qs (kernelNATRules True rs)"
      "loaded_rules (\<lambda>_. None) (overlayNATRules True ''eth0'' rs) =
        map fst (filter (\<lambda>(q, r). TrimSpace (nr_Interface r) = [] \<or> EqualFold (TrimSpace (nr_Interface r)) (TrimSpace ''eth0''))
          (zip qs (filter nr_Enabled rs)))" by blast
  have "map nr_Interface (filter nr_Enabled rs) = [[]]" "map k_SourceNeg (kernelNATRules True rs) = [True]"
    unfolding rs_def by code_simp+
  then obtain r k where r: "filter nr_Enabled rs = [r]" "nr_Interface r = []" "kernelNATRules True rs = [k]" "k_SourceNeg k" by auto
  obtain q where "qs = [q]" using q(1) r(1) by (cases qs) auto
  moreover have "TrimSpace [] = []" by code_simp
  ultimately show ?thesis using q(2,3) r unfolding rs_def [symmetric] by (simp add: same_rule_def)
qed

section \<open>What the packet filters leave out\<close>

text \<open>A forwarding rule opened to every source.\<close>

definition open_source :: "kernel_rule \<Rightarrow> kernel_rule" where
  "open_source r = (if k_Kind r = DNAT then r\<lparr>k_Source := NoPrefix, k_SourceNeg := False\<rparr> else r)"

lemma open_source_nft: "nft_line qt fm (open_source r) = nft_line qt fm r" "rule_family (open_source r) = rule_family r"
  by (cases "k_Kind r"; simp add: open_source_def nft_line_def nftDaddr_def nftIif_def nftDport_def nftDnatTo_def target_text_def rule_family_def)+

lemma open_source_pf: "pf_line (open_source r) = pf_line r"
  by (cases "k_Kind r") (simp_all add: open_source_def pf_line_def pfProto_def pfDport_def pfToPort_def Let_def)

text \<open>C39: on nftables and pf a port forward ignores the source of its rule. The text for the packet filter is the same
  as if every forwarding rule were open to all sources, although the editor checks and stores the
  source, the overlay engine matches on it, and so do the arguments for iptables.\<close>
theorem forward_source_ignored:
  "nftScript qt (map open_source rs) = nftScript qt rs \<and> pfScript (map open_source rs) = pfScript rs \<and>
   (\<forall>r \<in> set rs. k_Kind r = DNAT \<and> prefix_valid (k_Source r) \<longrightarrow> iptablesRuleArgs (open_source r) \<noteq> iptablesRuleArgs r)"
proof (intro conjI ballI impI)
  have "nft_table qt (map open_source rs) fm = nft_table qt rs fm" for fm
    by (simp add: nft_table_def filter_map o_def open_source_nft Let_def)
  then show "nftScript qt (map open_source rs) = nftScript qt rs" by (simp add: nftScript_def)
  show "pfScript (map open_source rs) = pfScript rs" by (simp add: pfScript_def o_def open_source_pf)
next
  fix r :: kernel_rule assume "k_Kind r = DNAT \<and> prefix_valid (k_Source r)"
  then have "length (iptablesRuleArgs (open_source r)) < length (iptablesRuleArgs r)"
    by (simp add: iptablesRuleArgs_def open_source_def iptSrcDst_def)
  then show "iptablesRuleArgs (open_source r) \<noteq> iptablesRuleArgs r" by force
qed

lemma forward_source_ignored_witness:
  "let rs = kernelNATRules True (nat_edits ex_forward)
   in map k_Kind rs = [DNAT] \<and> nftScript id (map open_source rs) = nftScript id rs \<and>
      map iptablesRuleArgs (map open_source rs) \<noteq> map iptablesRuleArgs rs"
proof -
  define rs where "rs = kernelNATRules True (nat_edits ex_forward)"
  have k: "map k_Kind rs = [DNAT]" "list_all (\<lambda>r. prefix_valid (k_Source r)) rs" unfolding rs_def by code_simp+
  then obtain r where r: "rs = [r]" by (cases rs) auto
  show ?thesis using forward_source_ignored [of id rs] k unfolding Let_def rs_def [symmetric] r by simp
qed

text \<open>Ports with a plus sign, protocols without a port and slashes inside a zone part the halves.\<close>

definition ex_apart :: "string \<Rightarrow> string \<Rightarrow> string \<Rightarrow> NATRule list" where
  "ex_apart src port target = nat_edits [AddRule src [] port ''tcp'' target [] False False]"

lemma plus_port_forwards_all:
  "map (\<lambda>r. (map_option (\<lambda>q. (dportLo q, dportHi q)) (NATRuleSpec_toRule (\<lambda>_. None) (nat_spec r)), map nftDport (kernel_rule_of r)))
     (ex_apart [] ''+80'' ''port-forward:10.0.0.9'') = [(Some (80, 80), [[]])]"
  by code_simp

lemma protocol_without_port_ignored:
  "map (\<lambda>r. (map_option r_proto (NATRuleSpec_toRule (\<lambda>_. None) (nat_spec r)), map nftDport (kernel_rule_of r), map pfProto (kernel_rule_of r)))
     (ex_apart [] [] ''port-forward:10.0.0.9'') = [(Some 6, [[]], [[]])]"
  by code_simp

lemma zone_slash_refused:
  "\<not> isl (validNATCIDR ''1::1%a/64'') \<and> Option.is_none (parsePrefixField ''1::1%a/64'') \<and> prefix_valid (parsePfx ''1::1%a/64'')"
  by code_simp

end
