(* ===== verification/Key_Rotation.thy ===== *)
theory Key_Rotation
  imports Key_Material Wire_Reader Gossip Go_Strings "HOL-Library.AList"
begin

text \<open>
  Distribution and retraction of network keys over the mesh (internal/mesh/keyrotate.go), the key part of a
  reload (reload.go), the key slots of the configuration (internal/config/ops.go) and how the daemon folds
  one into the other (cmd/gravinet/main.go). Go maps are association lists or lists in the order of
  iteration. SHA-256 is the argument \<open>sha\<close>; the calendar of package time is the arguments \<open>tm\<close> (a
  time as RFC 3339 text) and \<open>parse\<close> (its inverse, partial). \<open>None\<close> for a network is an unknown network id.
\<close>

record propagatedKey =
  pk_raw :: bytes
  pk_label :: string
  pk_expires :: int
  pk_slotHint :: int

record key_net =
  kn_keys :: "KeySet option"
  propagatedKeys :: "(key_id \<times> propagatedKey) list"
  retractedKeys :: "key_id list"
  keyLabels :: "key_id \<Rightarrow> string option"

datatype key_act = KeyNotify | KeyFlood bytes "nat option" | DropSessionsExcept "key_id list"
datatype key_cmd_error = KeyUnknownNetwork | KeyUnreadable key_error | KeyPresent
datatype keyAddOutcome = keyAddUnchanged | keyAddNew | keyAddMetaChanged

section \<open>Messages\<close>

definition ctrlKeyAdd :: byte where "ctrlKeyAdd = 0x10"
definition ctrlKeyDel :: byte where "ctrlKeyDel = 0x11"
definition noSlotHint :: byte where "noSlotHint = 0xFF"

definition encodeKeyAdd :: "bytes \<Rightarrow> string \<Rightarrow> int \<Rightarrow> int \<Rightarrow> bytes" where
  "encodeKeyAdd raw label expiresNano slotHint =
     appendLenStr (appendLenStr [ctrlKeyAdd] (bytes_str raw)) label @ put64 (of_int expiresNano) @
     [if slotHint \<ge> 0 \<and> slotHint < 8 then of_int slotHint else noSlotHint]"

definition decodeKeyAdd :: "bytes \<Rightarrow> (bytes \<times> string \<times> int \<times> int) option" where
  "decodeKeyAdd b = do {
     (ks, r) \<leftarrow> r_lenStr b;
     (label, r) \<leftarrow> r_lenStr r;
     (ex, r) \<leftarrow> r_u64 r;
     let slotHint = (case r_byte r of Some (sh, _) \<Rightarrow> if sh < 8 then uint sh else -1 | None \<Rightarrow> -1);
     Some (str_bytes ks, label, sint ex, slotHint) }"

definition encodeKeyDel :: "key_id \<Rightarrow> bytes" where "encodeKeyDel kid = ctrlKeyDel # kid"

definition decodeKeyDel :: "bytes \<Rightarrow> key_id option" where
  "decodeKeyDel b = (if length b < KeyIDSize then None else Some (take KeyIDSize b))"

section \<open>The live key set\<close>

definition holds_key :: "key_net \<Rightarrow> key_id \<Rightarrow> bool" where
  "holds_key ns kid \<longleftrightarrow> (case kn_keys ns of None \<Rightarrow> False | Some ks \<Rightarrow> Lookup ks kid \<noteq> None)"

definition addPropagatedKey :: "(bytes \<Rightarrow> bytes) \<Rightarrow> bytes \<Rightarrow> string \<Rightarrow> int \<Rightarrow> int \<Rightarrow> bool \<Rightarrow> key_net \<Rightarrow> keyAddOutcome \<times> key_net" where
  "addPropagatedKey sha raw label expiresNano slotHint allowRelabel ns =
     (if length raw \<noteq> KeySize then (keyAddUnchanged, ns)
      else
        let kid = DeriveKeyID sha raw
        in if holds_key ns kid then
             (if \<not> allowRelabel then (keyAddUnchanged, ns)
              else case map_of (propagatedKeys ns) kid of
                Some existing \<Rightarrow>
                  if pk_label existing \<noteq> label \<or> pk_expires existing \<noteq> expiresNano
                  then (keyAddMetaChanged, ns\<lparr>propagatedKeys := AList.update kid
                          (existing\<lparr>pk_label := label, pk_expires := expiresNano, pk_slotHint := slotHint\<rparr>) (propagatedKeys ns)\<rparr>)
                  else (keyAddUnchanged, ns)
              | None \<Rightarrow> (keyAddUnchanged, ns))
           else (keyAddNew, ns\<lparr>kn_keys := Some (With sha (kn_keys ns) raw),
                   propagatedKeys := AList.update kid
                     \<lparr>pk_raw = raw, pk_label = label, pk_expires = expiresNano, pk_slotHint = slotHint\<rparr> (propagatedKeys ns)\<rparr>))"

definition onKeyAdd :: "(bytes \<Rightarrow> bytes) \<Rightarrow> nat \<Rightarrow> bytes \<Rightarrow> key_net \<Rightarrow> key_act list \<times> key_net" where
  "onKeyAdd sha ps body ns =
     (case decodeKeyAdd body of None \<Rightarrow> ([], ns)
      | Some (raw, label, ex, slotHint) \<Rightarrow>
          if length raw \<noteq> KeySize then ([], ns)
          else case addPropagatedKey sha raw label ex slotHint True ns of
            (keyAddUnchanged, ns1) \<Rightarrow> ([], ns1)
          | (_, ns1) \<Rightarrow> ([KeyNotify, KeyFlood (encodeKeyAdd raw label ex slotHint) (Some ps)], ns1))"

definition onKeyDel :: "nat \<Rightarrow> bytes \<Rightarrow> key_net \<Rightarrow> key_act list \<times> key_net" where
  "onKeyDel ps body ns =
     (case decodeKeyDel body of None \<Rightarrow> ([], ns)
      | Some kid \<Rightarrow>
          if kid \<in> set (retractedKeys ns) then ([], ns)
          else if \<not> holds_key ns kid then ([], ns)
          else ([KeyNotify, KeyFlood (encodeKeyDel kid) (Some ps)], ns\<lparr>retractedKeys := retractedKeys ns @ [kid]\<rparr>))"

definition DistributeKey :: "(bytes \<Rightarrow> bytes) \<Rightarrow> string \<Rightarrow> string \<Rightarrow> int \<Rightarrow> key_net option \<Rightarrow> key_cmd_error + (key_act list \<times> key_net)" where
  "DistributeKey sha keyB64 label expiresNano nso =
     (case nso of None \<Rightarrow> Inl KeyUnknownNetwork
      | Some ns \<Rightarrow>
          (case DecodeKey keyB64 of Inl e \<Rightarrow> Inl (KeyUnreadable e)
           | Inr raw \<Rightarrow>
               (case addPropagatedKey sha raw label expiresNano (-1) False ns of
                  (keyAddUnchanged, _) \<Rightarrow> Inl KeyPresent
                | (_, ns1) \<Rightarrow> Inr ([KeyNotify, KeyFlood (encodeKeyAdd raw label expiresNano (-1)) None], ns1))))"

definition FloodKey :: "(bytes \<Rightarrow> bytes) \<Rightarrow> string \<Rightarrow> string \<Rightarrow> int \<Rightarrow> int \<Rightarrow> key_net option \<Rightarrow> key_cmd_error + (key_act list \<times> key_net)" where
  "FloodKey sha keyB64 label expiresNano slot nso =
     (case nso of None \<Rightarrow> Inl KeyUnknownNetwork
      | Some ns \<Rightarrow>
          (case DecodeKey keyB64 of Inl e \<Rightarrow> Inl (KeyUnreadable e)
           | Inr raw \<Rightarrow>
               Inr ([KeyFlood (encodeKeyAdd raw label expiresNano slot) None],
                    if holds_key ns (DeriveKeyID sha raw) then ns else ns\<lparr>kn_keys := Some (With sha (kn_keys ns) raw)\<rparr>)))"

definition RetractKey :: "(bytes \<Rightarrow> bytes) \<Rightarrow> string \<Rightarrow> key_net option \<Rightarrow> key_cmd_error + (key_act list \<times> key_net)" where
  "RetractKey sha keyB64 nso =
     (case nso of None \<Rightarrow> Inl KeyUnknownNetwork
      | Some ns \<Rightarrow>
          (case DecodeKey keyB64 of Inl e \<Rightarrow> Inl (KeyUnreadable e)
           | Inr raw \<Rightarrow> Inr ([KeyFlood (encodeKeyDel (DeriveKeyID sha raw)) None], ns)))"

section \<open>What the configuration is told\<close>

record PropagatedKeyInfo =
  pi_KeyB64 :: string
  pi_Label :: string
  pi_Expires :: string
  pi_SlotHint :: int

definition expiryRFC3339 :: "(int \<Rightarrow> string) \<Rightarrow> int \<Rightarrow> string" where
  "expiryRFC3339 tm nano = (if nano = 0 then [] else tm nano)"

definition PropagatedKeys :: "(int \<Rightarrow> string) \<Rightarrow> key_net option \<Rightarrow> PropagatedKeyInfo list" where
  "PropagatedKeys tm nso =
     (case nso of None \<Rightarrow> []
      | Some ns \<Rightarrow> map (\<lambda>(_, pk). \<lparr>pi_KeyB64 = b64_encode (pk_raw pk), pi_Label = pk_label pk,
                    pi_Expires = expiryRFC3339 tm (pk_expires pk), pi_SlotHint = pk_slotHint pk\<rparr>) (propagatedKeys ns))"

definition RetractedKeys :: "key_net option \<Rightarrow> key_id list" where
  "RetractedKeys nso = (case nso of None \<Rightarrow> [] | Some ns \<Rightarrow> retractedKeys ns)"

section \<open>Reload\<close>

text \<open>A map that has no entry reads as the empty text.\<close>

definition at_key :: "(key_id \<Rightarrow> string option) \<Rightarrow> key_id \<Rightarrow> string" where
  "at_key m kid = (case m kid of None \<Rightarrow> [] | Some s \<Rightarrow> s)"

definition forgetConfiguredKeys :: "(int \<Rightarrow> string) \<Rightarrow> KeySet option \<Rightarrow> (key_id \<Rightarrow> string option) \<Rightarrow> (key_id \<Rightarrow> string option) \<Rightarrow> key_net \<Rightarrow> key_net" where
  "forgetConfiguredKeys tm kso labels expires ns =
     (case kso of None \<Rightarrow> ns
      | Some ks \<Rightarrow>
          ns\<lparr>propagatedKeys := filter (\<lambda>(kid, pk). Lookup ks kid = None \<or> at_key labels kid \<noteq> pk_label pk \<or>
               at_key expires kid \<noteq> expiryRFC3339 tm (pk_expires pk)) (propagatedKeys ns)\<rparr>)"

definition forgetAppliedRetractions :: "KeySet option \<Rightarrow> key_net \<Rightarrow> key_net" where
  "forgetAppliedRetractions kso ns =
     ns\<lparr>retractedKeys := filter (\<lambda>kid. case kso of None \<Rightarrow> False | Some ks \<Rightarrow> Lookup ks kid \<noteq> None) (retractedKeys ns)\<rparr>"

definition merge_propagated :: "(bytes \<Rightarrow> bytes) \<Rightarrow> (key_id \<times> propagatedKey) list \<Rightarrow> KeySet \<times> (key_id \<Rightarrow> string option) \<Rightarrow> KeySet \<times> (key_id \<Rightarrow> string option)" where
  "merge_propagated sha pks acc =
     foldl (\<lambda>(ks, labels) (kid, pk). (With sha (Some ks) (pk_raw pk), if labels kid = None then labels(kid \<mapsto> pk_label pk) else labels)) acc pks"

definition reloadKeys :: "(bytes \<Rightarrow> bytes) \<Rightarrow> (int \<Rightarrow> string) \<Rightarrow> KeySet option \<Rightarrow> (key_id \<Rightarrow> string option) \<Rightarrow> (key_id \<Rightarrow> string option) \<Rightarrow> key_net \<Rightarrow>
    key_act list \<times> key_net" where
  "reloadKeys sha tm kso labels expires ns =
     (case kso of None \<Rightarrow> ([], ns)
      | Some ks \<Rightarrow>
          let ns1 = forgetAppliedRetractions (Some ks) (forgetConfiguredKeys tm (Some ks) labels expires ns);
              (merged, labels1) = merge_propagated sha (propagatedKeys ns1) (ks, labels)
          in ([DropSessionsExcept (Order merged)], ns1\<lparr>kn_keys := Some merged, keyLabels := labels1\<rparr>))"

section \<open>The key slots of the configuration\<close>

record KeySlot =
  sl_Key :: string
  sl_Label :: string
  sl_Enabled :: bool
  sl_Expires :: string
  sl_Distributed :: bool
  sl_Notes :: string

definition emptySlot :: KeySlot where
  "emptySlot = \<lparr>sl_Key = [], sl_Label = [], sl_Enabled = False, sl_Expires = [], sl_Distributed = False, sl_Notes = []\<rparr>"

definition KeySlots :: nat where "KeySlots = 8"

definition Expired :: "(string \<Rightarrow> int option) \<Rightarrow> int \<Rightarrow> KeySlot \<Rightarrow> bool" where
  "Expired parse now k = (if sl_Expires k = [] then False else case parse (sl_Expires k) of None \<Rightarrow> False | Some t \<Rightarrow> now > t)"

definition usable_slot :: "(string \<Rightarrow> int option) \<Rightarrow> int \<Rightarrow> KeySlot \<Rightarrow> bool" where
  "usable_slot parse now k \<longleftrightarrow> sl_Enabled k \<and> sl_Key k \<noteq> [] \<and> \<not> Expired parse now k"

definition keyStrings :: "(string \<Rightarrow> int option) \<Rightarrow> int \<Rightarrow> KeySlot list \<Rightarrow> string list" where
  "keyStrings parse now slots = map sl_Key (filter (usable_slot parse now) slots)"

definition slot_map :: "(bytes \<Rightarrow> bytes) \<Rightarrow> (string \<Rightarrow> int option) \<Rightarrow> int \<Rightarrow> (KeySlot \<Rightarrow> string) \<Rightarrow> KeySlot list \<Rightarrow> key_id \<Rightarrow> string option" where
  "slot_map sha parse now field slots =
     foldl (\<lambda>m k. if \<not> usable_slot parse now k then m
                  else case DecodeKey (sl_Key k) of Inl _ \<Rightarrow> m | Inr raw \<Rightarrow> m(DeriveKeyID sha raw \<mapsto> field k)) Map.empty slots"

definition keyLabelMap :: "(bytes \<Rightarrow> bytes) \<Rightarrow> (string \<Rightarrow> int option) \<Rightarrow> int \<Rightarrow> KeySlot list \<Rightarrow> key_id \<Rightarrow> string option" where
  "keyLabelMap sha parse now slots = slot_map sha parse now sl_Label slots"

definition keyExpiryMap :: "(bytes \<Rightarrow> bytes) \<Rightarrow> (string \<Rightarrow> int option) \<Rightarrow> int \<Rightarrow> KeySlot list \<Rightarrow> key_id \<Rightarrow> string option" where
  "keyExpiryMap sha parse now slots = slot_map sha parse now sl_Expires slots"

text \<open>What the daemon does when the configuration changed: a key that cannot be read keeps the current keys.\<close>

definition reload_slots :: "(bytes \<Rightarrow> bytes) \<Rightarrow> (int \<Rightarrow> string) \<Rightarrow> (string \<Rightarrow> int option) \<Rightarrow> int \<Rightarrow> KeySlot list \<Rightarrow> key_net \<Rightarrow> key_act list \<times> key_net" where
  "reload_slots sha tm parse now slots ns =
     (case NewKeySet sha (keyStrings parse now slots) of
        Inl _ \<Rightarrow> reloadKeys sha tm None Map.empty Map.empty ns
      | Inr ks \<Rightarrow> reloadKeys sha tm (Some ks) (keyLabelMap sha parse now slots) (keyExpiryMap sha parse now slots) ns)"

definition IsLastEnabledKey :: "KeySlot list \<Rightarrow> int \<Rightarrow> bool" where
  "IsLastEnabledKey slots slot =
     (if slot < 0 \<or> slot \<ge> int (length slots) \<or> \<not> sl_Enabled (slots ! nat slot) \<or> sl_Key (slots ! nat slot) = [] then False
      else list_all (\<lambda>i. i = nat slot \<or> \<not> (sl_Enabled (slots ! i) \<and> sl_Key (slots ! i) \<noteq> [])) [0..<length slots])"

text \<open>The first slot that satisfies a test.\<close>

definition first_slot :: "(KeySlot \<Rightarrow> bool) \<Rightarrow> KeySlot list \<Rightarrow> nat option" where
  "first_slot P slots = find (\<lambda>i. P (slots ! i)) [0..<length slots]"

definition fold_one :: "KeySlot list \<times> nat \<times> bool \<Rightarrow> PropagatedKeyInfo \<Rightarrow> KeySlot list \<times> nat \<times> bool" where
  "fold_one acc pk =
     (case acc of (updated, unplaced, changed) \<Rightarrow>
        (case first_slot (\<lambda>k. sl_Key k = pi_KeyB64 pk) updated of
           Some i \<Rightarrow>
             (updated[i := (updated ! i)\<lparr>sl_Label := pi_Label pk, sl_Expires := pi_Expires pk\<rparr>], unplaced,
              changed \<or> sl_Label (updated ! i) \<noteq> pi_Label pk \<or> sl_Expires (updated ! i) \<noteq> pi_Expires pk)
         | None \<Rightarrow>
             (let free = first_slot (\<lambda>k. sl_Key k = []) updated;
                  hint = pi_SlotHint pk;
                  target = (if hint \<ge> 0 \<and> hint < int (length updated) \<and> sl_Key (updated ! nat hint) = [] then Some (nat hint) else free)
              in case target of None \<Rightarrow> (updated, unplaced + 1, changed)
                 | Some i \<Rightarrow>
                     (updated[i := \<lparr>sl_Key = pi_KeyB64 pk, sl_Label = pi_Label pk, sl_Enabled = True, sl_Expires = pi_Expires pk,
                        sl_Distributed = True, sl_Notes = []\<rparr>], unplaced, True))))"

definition foldPropagatedKeys :: "KeySlot list \<Rightarrow> PropagatedKeyInfo list \<Rightarrow> KeySlot list \<times> nat \<times> bool" where
  "foldPropagatedKeys keys propagated = foldl fold_one (keys, 0, False) propagated"

definition has_id :: "(bytes \<Rightarrow> bytes) \<Rightarrow> key_id \<Rightarrow> KeySlot \<Rightarrow> bool" where
  "has_id sha kid k \<longleftrightarrow> sl_Key k \<noteq> [] \<and> (case DecodeKey (sl_Key k) of Inl _ \<Rightarrow> False | Inr raw \<Rightarrow> DeriveKeyID sha raw = kid)"

definition retract_one :: "(bytes \<Rightarrow> bytes) \<Rightarrow> KeySlot list \<times> key_id list \<times> bool \<Rightarrow> key_id \<Rightarrow> KeySlot list \<times> key_id list \<times> bool" where
  "retract_one sha acc kid =
     (case acc of (updated, refused, changed) \<Rightarrow>
        (case first_slot (has_id sha kid) updated of None \<Rightarrow> acc
         | Some i \<Rightarrow>
             if IsLastEnabledKey updated (int i) then (updated, refused @ [kid], changed)
             else (updated[i := emptySlot], refused, True)))"

definition applyKeyRetractions :: "(bytes \<Rightarrow> bytes) \<Rightarrow> KeySlot list \<Rightarrow> key_id list \<Rightarrow> KeySlot list \<times> key_id list \<times> bool" where
  "applyKeyRetractions sha keys retracted = foldl (retract_one sha) (keys, [], False) retracted"

text \<open>The persist hook.\<close>

definition persist_keys :: "(bytes \<Rightarrow> bytes) \<Rightarrow> (int \<Rightarrow> string) \<Rightarrow> key_net option \<Rightarrow> KeySlot list \<Rightarrow> KeySlot list" where
  "persist_keys sha tm nso slots =
     (case foldPropagatedKeys slots (PropagatedKeys tm nso) of
        (updated, unplaced, changed) \<Rightarrow>
          let slots1 = (if changed \<or> unplaced > 0 then updated else slots)
          in case applyKeyRetractions sha slots1 (RetractedKeys nso) of
               (updated2, refused, changed2) \<Rightarrow> if changed2 \<or> refused \<noteq> [] then updated2 else slots1)"

section \<open>The operator\<close>

datatype slot_error = BadSlot | SlotsFull | NoRandom | SlotTaken | BadKey key_error | SlotIsEmpty | BadExpiry | LastEnabledKey

definition validSlot :: "int \<Rightarrow> bool" where "validSlot slot \<longleftrightarrow> \<not> (slot < 0 \<or> slot \<ge> int KeySlots)"

definition default_label :: "nat \<Rightarrow> string" where "default_label slot = ''key'' @ Itoa_nat slot"

text \<open>\<open>rnd\<close> is what the random source delivers.\<close>

definition KeyGenerate :: "bytes option \<Rightarrow> string \<Rightarrow> KeySlot list \<Rightarrow> slot_error + (nat \<times> string \<times> KeySlot list)" where
  "KeyGenerate rnd label slots =
     (case first_slot (\<lambda>k. sl_Key k = []) slots of None \<Rightarrow> Inl SlotsFull
      | Some i \<Rightarrow>
          (case GenerateKey rnd of None \<Rightarrow> Inl NoRandom
           | Some k \<Rightarrow> Inr (i, k, slots[i := emptySlot\<lparr>sl_Key := k, sl_Label := (if label = [] then default_label i else label), sl_Enabled := True\<rparr>])))"

definition KeyGenerateInto :: "bytes option \<Rightarrow> int \<Rightarrow> string \<Rightarrow> KeySlot list \<Rightarrow> slot_error + (string \<times> KeySlot list)" where
  "KeyGenerateInto rnd slot label slots =
     (if \<not> validSlot slot then Inl BadSlot
      else if sl_Key (slots ! nat slot) \<noteq> [] then Inl SlotTaken
      else case GenerateKey rnd of None \<Rightarrow> Inl NoRandom
           | Some k \<Rightarrow> Inr (k, slots[nat slot := emptySlot\<lparr>sl_Key := k, sl_Label := (if label = [] then default_label (nat slot) else label), sl_Enabled := True\<rparr>]))"

definition KeySet_slot :: "int \<Rightarrow> string \<Rightarrow> string \<Rightarrow> KeySlot list \<Rightarrow> slot_error + KeySlot list" where
  "KeySet_slot slot key label slots =
     (if \<not> validSlot slot then Inl BadSlot
      else case DecodeKey key of Inl e \<Rightarrow> Inl (BadKey e)
           | Inr _ \<Rightarrow>
               let old = sl_Label (slots ! nat slot);
                   label1 = (if label = [] then (if old \<noteq> [] then old else default_label (nat slot)) else label)
               in Inr (slots[nat slot := emptySlot\<lparr>sl_Key := key, sl_Label := label1, sl_Enabled := True\<rparr>]))"

text \<open>The edits that need a slot in use.\<close>

definition on_used_slot :: "int \<Rightarrow> KeySlot list \<Rightarrow> (KeySlot \<Rightarrow> slot_error + KeySlot) \<Rightarrow> slot_error + KeySlot list" where
  "on_used_slot slot slots f =
     (if \<not> validSlot slot then Inl BadSlot
      else if sl_Key (slots ! nat slot) = [] then Inl SlotIsEmpty
      else case f (slots ! nat slot) of Inl e \<Rightarrow> Inl e | Inr k \<Rightarrow> Inr (slots[nat slot := k]))"

definition KeySetLabel :: "int \<Rightarrow> string \<Rightarrow> KeySlot list \<Rightarrow> slot_error + KeySlot list" where
  "KeySetLabel slot label0 slots =
     on_used_slot slot slots (\<lambda>k. let label = TrimSpace label0 in Inr (k\<lparr>sl_Label := (if label = [] then default_label (nat slot) else label)\<rparr>))"

definition KeySetNotes :: "int \<Rightarrow> string \<Rightarrow> KeySlot list \<Rightarrow> slot_error + KeySlot list" where
  "KeySetNotes slot notes0 slots = on_used_slot slot slots (\<lambda>k. Inr (k\<lparr>sl_Notes := TrimSpace notes0\<rparr>))"

definition KeySetExpiry :: "(string \<Rightarrow> int option) \<Rightarrow> int \<Rightarrow> string \<Rightarrow> KeySlot list \<Rightarrow> slot_error + KeySlot list" where
  "KeySetExpiry parse slot expires0 slots =
     on_used_slot slot slots (\<lambda>k. let ex = TrimSpace expires0 in if ex \<noteq> [] \<and> parse ex = None then Inl BadExpiry else Inr (k\<lparr>sl_Expires := ex\<rparr>))"

definition KeySetEnabled :: "int \<Rightarrow> bool \<Rightarrow> KeySlot list \<Rightarrow> slot_error + KeySlot list" where
  "KeySetEnabled slot on slots =
     on_used_slot slot slots (\<lambda>k. if \<not> on \<and> IsLastEnabledKey slots slot then Inl LastEnabledKey else Inr (k\<lparr>sl_Enabled := on\<rparr>))"

definition KeySetDistributed :: "int \<Rightarrow> bool \<Rightarrow> KeySlot list \<Rightarrow> slot_error + KeySlot list" where
  "KeySetDistributed slot on slots = on_used_slot slot slots (\<lambda>k. Inr (k\<lparr>sl_Distributed := on\<rparr>))"

definition KeyDelete :: "int \<Rightarrow> KeySlot list \<Rightarrow> slot_error + KeySlot list" where
  "KeyDelete slot slots = on_used_slot slot slots (\<lambda>_. if IsLastEnabledKey slots slot then Inl LastEnabledKey else Inr emptySlot)"

definition KeyReveal :: "int \<Rightarrow> KeySlot list \<Rightarrow> slot_error + string" where
  "KeyReveal slot slots =
     (if \<not> validSlot slot then Inl BadSlot
      else if sl_Key (slots ! nat slot) = [] then Inl SlotIsEmpty else Inr (sl_Key (slots ! nat slot)))"

end
