(* ===== verification/Key_Slots.thy ===== *)
theory Key_Slots
  imports Key_Rotation
begin

text \<open>
  The key slots under the operator's edits and the persist hook: a network that has an enabled key keeps
  one through every history of edits, distributions and retractions; and the two ways in which that rule
  protects less than it says: an enabled key that has expired counts as a key, and what the mesh taught
  the node stays live whatever the slots say.
\<close>

section \<open>Some enabled key\<close>

definition in_use :: "KeySlot \<Rightarrow> bool" where "in_use k \<longleftrightarrow> sl_Enabled k \<and> sl_Key k \<noteq> []"

definition has_enabled_key :: "KeySlot list \<Rightarrow> bool" where "has_enabled_key slots \<longleftrightarrow> list_ex in_use slots"

datatype slot_op =
    OpGenerate "bytes option" string
  | OpGenerateInto "bytes option" int string
  | OpSet int string string
  | OpLabel int string
  | OpNotes int string
  | OpExpiry int string
  | OpEnabled int bool
  | OpDistributed int bool
  | OpDelete int
  | OpPersist "key_net option"

definition keep_on_error :: "'s \<Rightarrow> 'e + 's \<Rightarrow> 's" where
  "keep_on_error s r = (case r of Inl _ \<Rightarrow> s | Inr s' \<Rightarrow> s')"

fun slot_step :: "(bytes \<Rightarrow> bytes) \<Rightarrow> (int \<Rightarrow> string) \<Rightarrow> (string \<Rightarrow> int option) \<Rightarrow> KeySlot list \<Rightarrow> slot_op \<Rightarrow> KeySlot list" where
  "slot_step sha tm parse s (OpGenerate rnd label) = keep_on_error s (map_sum id (\<lambda>(i, k, s'). s') (KeyGenerate rnd label s))"
| "slot_step sha tm parse s (OpGenerateInto rnd i label) = keep_on_error s (map_sum id (\<lambda>(k, s'). s') (KeyGenerateInto rnd i label s))"
| "slot_step sha tm parse s (OpSet i key label) = keep_on_error s (KeySet_slot i key label s)"
| "slot_step sha tm parse s (OpLabel i l) = keep_on_error s (KeySetLabel i l s)"
| "slot_step sha tm parse s (OpNotes i l) = keep_on_error s (KeySetNotes i l s)"
| "slot_step sha tm parse s (OpExpiry i e) = keep_on_error s (KeySetExpiry parse i e s)"
| "slot_step sha tm parse s (OpEnabled i on) = keep_on_error s (KeySetEnabled i on s)"
| "slot_step sha tm parse s (OpDistributed i on) = keep_on_error s (KeySetDistributed i on s)"
| "slot_step sha tm parse s (OpDelete i) = keep_on_error s (KeyDelete i s)"
| "slot_step sha tm parse s (OpPersist n) = persist_keys sha tm n s"

definition slots_ok :: "KeySlot list \<Rightarrow> bool" where
  "slots_ok s \<longleftrightarrow> length s = KeySlots \<and> has_enabled_key s"

lemma has_enabled_nth: "has_enabled_key s \<longleftrightarrow> (\<exists>j < length s. in_use (s ! j))"
  by (auto simp: has_enabled_key_def list_ex_length)

lemma slots_ok_update:
  assumes "slots_ok s" "in_use (s ! i) \<Longrightarrow> in_use k \<or> (\<exists>j < length s. j \<noteq> i \<and> in_use (s ! j))"
  shows "slots_ok (s[i := k])"
proof -
  obtain j where j: "j < length s" "in_use (s ! j)" using assms(1) by (auto simp: slots_ok_def has_enabled_nth)
  then have "\<exists>j < length s. in_use (s[i := k] ! j)" using assms(2) by (cases "j = i") (auto simp: nth_list_update)
  then show ?thesis using assms(1) by (simp add: slots_ok_def has_enabled_nth)
qed

lemma not_last_other:
  assumes "\<not> IsLastEnabledKey s (int i)" "i < length s" "in_use (s ! i)"
  shows "\<exists>j < length s. j \<noteq> i \<and> in_use (s ! j)"
  using assms by (auto simp: IsLastEnabledKey_def in_use_def list_all_iff split: if_splits)

lemma first_slot_SomeD: "first_slot P s = Some i \<Longrightarrow> i < length s \<and> P (s ! i)"
  by (auto simp: first_slot_def find_Some_iff)

lemma validSlot_nat: "validSlot i \<Longrightarrow> nat i < KeySlots \<and> int (nat i) = i"
  by (auto simp: validSlot_def)

lemma on_used_slot_keeps:
  assumes "slots_ok s" "on_used_slot i s f = Inr s'"
    and "\<And>k. validSlot i \<Longrightarrow> f (s ! nat i) = Inr k \<Longrightarrow> in_use (s ! nat i) \<Longrightarrow>
      in_use k \<or> \<not> IsLastEnabledKey s i"
  shows "slots_ok s'"
proof -
  obtain k where k: "validSlot i" "f (s ! nat i) = Inr k" "s' = s[nat i := k]"
    using assms(2) by (auto simp: on_used_slot_def split: if_splits sum.splits)
  have i: "nat i < length s" "int (nat i) = i" using validSlot_nat [OF k(1)] assms(1) by (simp_all add: slots_ok_def)
  show ?thesis unfolding k(3)
  proof (rule slots_ok_update [OF assms(1)])
    assume u: "in_use (s ! nat i)"
    show "in_use k \<or> (\<exists>j < length s. j \<noteq> nat i \<and> in_use (s ! j))"
      using assms(3) [OF k(1,2) u]
    proof
      assume "\<not> IsLastEnabledKey s i"
      then show ?thesis using not_last_other [of s "nat i"] i u by simp
    qed simp
  qed
qed

lemma fold_one_keeps:
  assumes "slots_ok (fst acc)" shows "slots_ok (fst (fold_one acc pk))"
proof -
  obtain s u c where acc: "acc = (s, u, c)" by (cases acc) auto
  have ok: "slots_ok s" using assms acc by simp
  have free: "slots_ok (s[i := k])" if "sl_Key (s ! i) = []" for i k
    using that by (intro slots_ok_update [OF ok]) (simp add: in_use_def)
  have relabel: "slots_ok (s[i := (s ! i)\<lparr>sl_Label := l, sl_Expires := e\<rparr>])" for i l e
    by (intro slots_ok_update [OF ok]) (simp add: in_use_def)
  show ?thesis using ok free relabel first_slot_SomeD [of "\<lambda>k. sl_Key k = []" s]
    by (auto simp: acc fold_one_def Let_def split: option.splits if_splits)
qed

lemma retract_one_keeps:
  assumes "slots_ok (fst acc)" shows "slots_ok (fst (retract_one sha acc kid))"
proof -
  obtain s r c where acc: "acc = (s, r, c)" by (cases acc) auto
  have ok: "slots_ok s" using assms acc by simp
  show ?thesis
  proof (cases "first_slot (has_id sha kid) s")
    case (Some i)
    have i: "i < length s" using first_slot_SomeD [OF Some] by simp
    have "slots_ok (s[i := emptySlot])" if "\<not> IsLastEnabledKey s (int i)"
      using not_last_other [OF that i] by (intro slots_ok_update [OF ok]) blast
    then show ?thesis using ok Some by (simp add: acc retract_one_def)
  qed (use ok in \<open>simp add: acc retract_one_def\<close>)
qed

lemma persist_keeps:
  assumes "slots_ok s" shows "slots_ok (persist_keys sha tm n s)"
proof -
  have F: "slots_ok (fst acc) \<Longrightarrow> slots_ok (fst (foldl fold_one acc pks))" for acc pks
    by (induction pks arbitrary: acc) (simp_all add: fold_one_keeps)
  have R: "slots_ok (fst acc) \<Longrightarrow> slots_ok (fst (foldl (retract_one sha) acc kids))" for acc kids
    by (induction kids arbitrary: acc) (simp_all add: retract_one_keeps)
  show ?thesis
    using F [of "(s, 0, False)" "PropagatedKeys tm n"] R assms
    by (auto simp: persist_keys_def foldPropagatedKeys_def applyKeyRetractions_def Let_def split: prod.splits)
       (metis fst_conv)+
qed

lemma DecodeKey_not_empty: "DecodeKey s = Inr raw \<Longrightarrow> s \<noteq> []"
  by (auto simp: DecodeKey_def b64_decode_def KeySize_def split: option.splits if_splits)

lemma slot_step_keeps:
  assumes "slots_ok s" shows "slots_ok (slot_step sha tm parse s op)"
proof (cases op)
  case (OpGenerate rnd label)
  then show ?thesis using assms
    by (auto simp: keep_on_error_def KeyGenerate_def in_use_def dest!: first_slot_SomeD split: option.splits sum.splits
        intro!: slots_ok_update)
next
  case (OpGenerateInto rnd i label)
  then show ?thesis using assms
    by (auto simp: keep_on_error_def KeyGenerateInto_def in_use_def split: option.splits sum.splits if_splits intro!: slots_ok_update)
next
  case (OpSet i key label)
  then show ?thesis using assms
    by (auto simp: keep_on_error_def KeySet_slot_def in_use_def Let_def dest: DecodeKey_not_empty split: sum.splits
        intro!: slots_ok_update)
next
  case (OpPersist n)
  then show ?thesis using persist_keeps [OF assms] by simp
next
  case (OpEnabled i on)
  have "slots_ok s'" if "KeySetEnabled i on s = Inr s'" for s'
    by (rule on_used_slot_keeps [OF assms that [unfolded KeySetEnabled_def]]) (auto simp: in_use_def split: if_splits)
  then show ?thesis using assms OpEnabled by (simp add: keep_on_error_def split: sum.splits)
next
  case (OpDelete i)
  have "slots_ok s'" if "KeyDelete i s = Inr s'" for s'
    by (rule on_used_slot_keeps [OF assms that [unfolded KeyDelete_def]]) (auto split: if_splits)
  then show ?thesis using assms OpDelete by (simp add: keep_on_error_def split: sum.splits)
next
  case (OpExpiry i e)
  have "slots_ok s'" if "KeySetExpiry parse i e s = Inr s'" for s'
    by (rule on_used_slot_keeps [OF assms that [unfolded KeySetExpiry_def]]) (auto simp: in_use_def Let_def split: if_splits)
  then show ?thesis using assms OpExpiry by (simp add: keep_on_error_def split: sum.splits)
next
  case (OpLabel i e)
  have "slots_ok s'" if "KeySetLabel i e s = Inr s'" for s'
    by (rule on_used_slot_keeps [OF assms that [unfolded KeySetLabel_def]]) (auto simp: in_use_def Let_def)
  then show ?thesis using assms OpLabel by (simp add: keep_on_error_def split: sum.splits)
next
  case (OpNotes i e)
  have "slots_ok s'" if "KeySetNotes i e s = Inr s'" for s'
    by (rule on_used_slot_keeps [OF assms that [unfolded KeySetNotes_def]]) (auto simp: in_use_def)
  then show ?thesis using assms OpNotes by (simp add: keep_on_error_def split: sum.splits)
next
  case (OpDistributed i on)
  have "slots_ok s'" if "KeySetDistributed i on s = Inr s'" for s'
    by (rule on_used_slot_keeps [OF assms that [unfolded KeySetDistributed_def]]) (auto simp: in_use_def)
  then show ?thesis using assms OpDistributed by (simp add: keep_on_error_def split: sum.splits)
qed

text \<open>C40: a network is never left without a key by an edit or by the mesh: whatever sequence of operator
  edits, of keys the mesh distributes and of retractions it floods (each persist cycle with any state of the
  engine), the eight slots of a network that had an enabled key still hold one.\<close>
theorem network_keeps_key:
  assumes "length slots = KeySlots" "has_enabled_key slots"
  shows "length (foldl (slot_step sha tm parse) slots ops) = KeySlots \<and> has_enabled_key (foldl (slot_step sha tm parse) slots ops)"
proof -
  have "slots_ok s \<Longrightarrow> slots_ok (foldl (slot_step sha tm parse) s ops)" for s
    by (induction ops arbitrary: s) (simp_all add: slot_step_keeps)
  then show ?thesis using assms by (simp add: slots_ok_def)
qed

definition one_key :: "KeySlot list" where
  "one_key = emptySlot\<lparr>sl_Key := b64_encode (replicate 32 1), sl_Enabled := True\<rparr> # replicate 7 emptySlot"

lemma b64_key_not_empty [simp]: "b64_encode (replicate 32 b) \<noteq> []"
proof -
  have "replicate 32 b = b # b # b # replicate 29 b" by (simp add: numeral_eq_Suc)
  then show ?thesis by (simp add: Let_def)
qed

lemma one_key_ok: "length one_key = KeySlots" "has_enabled_key one_key"
  by (simp_all add: one_key_def KeySlots_def has_enabled_key_def in_use_def emptySlot_def)

lemma network_keeps_key_witness:
  "length (foldl (slot_step (\<lambda>_. []) (\<lambda>_. []) (\<lambda>_. None)) one_key [OpDelete 0, OpEnabled 0 False]) = KeySlots \<and>
   has_enabled_key (foldl (slot_step (\<lambda>_. []) (\<lambda>_. []) (\<lambda>_. None)) one_key [OpDelete 0, OpEnabled 0 False])"
  by (rule network_keeps_key [OF one_key_ok])

section \<open>An expired key counts\<close>

text \<open>the rule that a network's last enabled key is not removed does not look at expiry. With a second
  key that is still enabled but has expired, the last key that works is deleted without complaint, and the
  reload that follows leaves the node with no key at all: nobody can authenticate any more.\<close>
theorem last_working_key_deleted:
  assumes "length slots = KeySlots" "i < KeySlots" "j < KeySlots" "i \<noteq> j" "sl_Key (slots ! i) \<noteq> []"
    and "in_use (slots ! j)" "\<And>l. l < KeySlots \<Longrightarrow> l \<noteq> i \<Longrightarrow> \<not> usable_slot parse now (slots ! l)"
    and "propagatedKeys ns = []"
  shows "\<exists>slots'. KeyDelete (int i) slots = Inr slots' \<and> has_enabled_key slots' \<and>
    (\<forall>kid. \<not> holds_key (snd (reload_slots sha tm parse now slots' ns)) kid)"
proof -
  have del: "KeyDelete (int i) slots = Inr (slots[i := emptySlot])"
    using assms(1-6) by (auto simp: KeyDelete_def on_used_slot_def validSlot_def IsLastEnabledKey_def in_use_def list_all_iff)
  have en: "has_enabled_key (slots[i := emptySlot])"
    unfolding has_enabled_nth using assms(1,3,4,6) by (auto intro!: exI [of _ j])
  have "\<not> usable_slot parse now k" if k: "k \<in> set (slots[i := emptySlot])" for k
  proof -
    obtain l where l: "l < KeySlots" "k = slots[i := emptySlot] ! l" using k assms(1) by (auto simp: in_set_conv_nth)
    then show ?thesis using assms(1,7) by (cases "l = i") (simp_all add: usable_slot_def emptySlot_def)
  qed
  then have ks: "keyStrings parse now (slots[i := emptySlot]) = []"
    unfolding keyStrings_def by (simp add: filter_empty_conv)
  have "\<not> holds_key (snd (reload_slots sha tm parse now (slots[i := emptySlot]) ns)) kid" for kid
    using assms(8) by (simp add: reload_slots_def ks NewKeySet_def reloadKeys_def forgetConfiguredKeys_def
        forgetAppliedRetractions_def merge_propagated_def holds_key_def Lookup_def empty_keyset_def)
  then show ?thesis using del en by blast
qed

definition idle_net :: key_net where
  "idle_net = \<lparr>kn_keys = None, propagatedKeys = [], retractedKeys = [], keyLabels = Map.empty\<rparr>"

definition expired_second :: "KeySlot list" where
  "expired_second = emptySlot\<lparr>sl_Key := b64_encode (replicate 32 1), sl_Enabled := True\<rparr> #
     emptySlot\<lparr>sl_Key := b64_encode (replicate 32 2), sl_Enabled := True, sl_Expires := ''t''\<rparr> # replicate 6 emptySlot"

lemma expired_second_slots:
  assumes "l < 8" "l \<noteq> 0" shows "\<not> usable_slot (\<lambda>_. Some 0) 5 (expired_second ! l)"
proof -
  consider "l = 1" | n where "l = Suc (Suc n)" "n < 6" using assms by (cases l; cases "l - 1") auto
  then show ?thesis by cases (simp_all add: expired_second_def usable_slot_def Expired_def emptySlot_def)
qed

lemma last_working_key_deleted_witness:
  "\<exists>slots'. KeyDelete (int 0) expired_second = Inr slots' \<and> has_enabled_key slots' \<and>
    (\<forall>kid. \<not> holds_key (snd (reload_slots (\<lambda>_. []) (\<lambda>_. []) (\<lambda>_. Some 0) 5 slots' idle_net)) kid)"
proof (rule last_working_key_deleted [where j = 1])
  show "\<not> usable_slot (\<lambda>_. Some 0) 5 (expired_second ! l)" if "l < KeySlots" "l \<noteq> 0" for l
    using that expired_second_slots by (simp add: KeySlots_def)
qed (simp_all add: KeySlots_def expired_second_def in_use_def emptySlot_def idle_net_def)

end
