(* ===== verification/Key_Learning.thy ===== *)
theory Key_Learning
  imports Key_Slots Wire_Int64
begin

text \<open>
  Keys the mesh distributes: the messages are read back; a key that config does not carry stays live through
  every reload, whatever was retracted and whatever has expired; a relabel that comes after config has
  caught up is lost; and the retraction a node sends for its peers takes its own key when it comes back.
\<close>

section \<open>Messages\<close>

definition hint_read :: "int \<Rightarrow> int" where "hint_read h = (if h \<ge> 0 \<and> h < 8 then h else -1)"

lemma hint_byte:
  "(let sh = (if h \<ge> 0 \<and> h < 8 then of_int h else noSlotHint) in if sh < 8 then uint sh else -1) = hint_read h"
proof (cases "h \<ge> 0 \<and> h < 8")
  case True
  then have "uint (of_int h :: byte) = h" by (simp add: uint_word_of_int_eq take_bit_int_eq_self)
  then have "(of_int h :: byte) < 8" using True by (simp add: word_less_alt)
  then show ?thesis using True \<open>uint (of_int h :: byte) = h\<close> by (simp add: hint_read_def)
next
  case False
  then show ?thesis by (auto simp: hint_read_def noSlotHint_def)
qed

text \<open>What a node floods is what a node reads: the key, the label cut to 255 bytes, the expiry, the slot.\<close>

lemma key_add_read:
  assumes "length raw \<le> 255" "int64 ex"
  shows "decodeKeyAdd (tl (encodeKeyAdd raw label ex h)) = Some (raw, clip255 label, ex, hint_read h)"
  using hint_byte [of h] assms unfolding int64_def
  by (simp add: encodeKeyAdd_def decodeKeyAdd_def appendLenStr_eq wire_simps sint_of_int64 Let_def del: length_clip255)

lemma key_del_read: "length kid = KeyIDSize \<Longrightarrow> decodeKeyDel (tl (encodeKeyDel kid)) = Some kid"
  by (simp add: encodeKeyDel_def decodeKeyDel_def)

section \<open>What the mesh taught stays live\<close>

lemma With_holds: "Lookup (With sha ko raw) (DeriveKeyID sha raw) \<noteq> None"
  by (auto simp: With_def Lookup_def Let_def split: option.splits)

lemma With_other: "kid \<noteq> DeriveKeyID sha raw \<Longrightarrow>
    Lookup (With sha ko raw) kid = (case ko of None \<Rightarrow> None | Some ks \<Rightarrow> Lookup ks kid)"
  by (auto simp: With_def Lookup_def Let_def split: option.splits)

lemma merge_keeps: "Lookup ks kid \<noteq> None \<Longrightarrow> Lookup (fst (merge_propagated sha pks (ks, labels))) kid \<noteq> None"
proof (induction pks arbitrary: ks labels)
  case (Cons p pks)
  have "Lookup (With sha (Some ks) (pk_raw (snd p))) kid \<noteq> None"
    using Cons.prems With_holds [of sha "Some ks"] With_other [of kid sha "pk_raw (snd p)" "Some ks"]
    by (cases "kid = DeriveKeyID sha (pk_raw (snd p))") auto
  then show ?case using Cons.IH by (simp add: merge_propagated_def split_def)
qed (simp add: merge_propagated_def)

lemma merge_adds: "p \<in> set pks \<Longrightarrow>
    Lookup (fst (merge_propagated sha pks (ks, labels))) (DeriveKeyID sha (pk_raw (snd p))) \<noteq> None"
proof (induction pks arbitrary: ks labels)
  case (Cons q pks)
  have step: "fst (merge_propagated sha (q # pks) (ks, labels)) = fst (merge_propagated sha pks
      (With sha (Some ks) (pk_raw (snd q)), if labels (fst q) = None then labels(fst q \<mapsto> pk_label (snd q)) else labels))"
    by (simp add: merge_propagated_def split_def)
  show ?case
  proof (cases "p = q")
    case True
    then show ?thesis unfolding step by (simp add: merge_keeps With_holds)
  next
    case False
    then show ?thesis unfolding step using Cons by (cases q) simp
  qed
qed simp

text \<open>An entry that config does not carry is folded back by every reload, whatever its expiry, whatever
  was retracted.\<close>

lemma reload_refolds:
  assumes "(kid, pk) \<in> set (propagatedKeys ns)" "kid = DeriveKeyID sha (pk_raw pk)" "Lookup ks kid = None"
    and "ns' = snd (reloadKeys sha tm (Some ks) labels ex ns)"
  shows "(kid, pk) \<in> set (propagatedKeys ns')" "holds_key ns' kid" "kid \<notin> set (retractedKeys ns')"
proof -
  define ns1 where "ns1 = forgetAppliedRetractions (Some ks) (forgetConfiguredKeys tm (Some ks) labels ex ns)"
  obtain merged labels1 where m: "merge_propagated sha (propagatedKeys ns1) (ks, labels) = (merged, labels1)" by fastforce
  have ns': "ns' = ns1\<lparr>kn_keys := Some merged, keyLabels := labels1\<rparr>"
    using m by (simp add: assms(4) reloadKeys_def ns1_def Let_def)
  have p: "(kid, pk) \<in> set (propagatedKeys ns1)"
    using assms(1,3) by (simp add: ns1_def forgetAppliedRetractions_def forgetConfiguredKeys_def)
  then show "(kid, pk) \<in> set (propagatedKeys ns')" by (simp add: ns')
  show "holds_key ns' kid"
    using merge_adds [OF p, of sha ks labels] m assms(2) by (simp add: ns' holds_key_def)
  show "kid \<notin> set (retractedKeys ns')"
    using assms(3) by (simp add: ns' ns1_def forgetAppliedRetractions_def)
qed

section \<open>The key set of the slots\<close>

definition readable_slots :: "KeySlot list \<Rightarrow> bool" where "readable_slots s \<longleftrightarrow> list_all (\<lambda>k. slot_ok (sl_Key k)) s"

lemma slots_keyset:
  assumes "readable_slots s"
  obtains ks where "NewKeySet sha (keyStrings parse now s) = Inr ks"
    "\<And>kid. Lookup ks kid = None \<longleftrightarrow> (\<forall>k \<in> set s. \<not> (usable_slot parse now k \<and> has_id sha kid k))"
proof -
  have l: "list_all slot_ok (keyStrings parse now s)"
    using assms by (auto simp: readable_slots_def keyStrings_def list_all_iff)
  obtain ks where ks: "NewKeySet sha (keyStrings parse now s) = Inr ks"
    "\<And>kid. byID ks kid = find (\<lambda>k. DeriveKeyID sha k = kid) (slot_keys (keyStrings parse now s))"
    using NewKeySet_from_ok [OF keyset_wf_empty l, of sha 0]
    by (auto simp: NewKeySet_def empty_keyset_def)
  have "set (slot_keys (keyStrings parse now s)) = {raw. \<exists>k \<in> set s. usable_slot parse now k \<and> DecodeKey (sl_Key k) = Inr raw}"
    by (auto simp: slot_keys_def keyStrings_def usable_slot_def map_filter_def split: sum.splits) force+
  then have "Lookup ks kid = None \<longleftrightarrow> (\<forall>k \<in> set s. \<not> (usable_slot parse now k \<and> has_id sha kid k))" for kid
    by (auto simp: ks(2) Lookup_def find_None_iff has_id_def usable_slot_def split: sum.splits)
  then show ?thesis using ks(1) that by blast
qed

text \<open>So a key that was learned stays live as long as no slot of the configuration carries it: although it was retracted
  (the retraction is forgotten as done), although its expiry has passed (reload does not look at the one of an
  entry), although there was no slot free for it.\<close>

lemma learned_key_stays:
  assumes "readable_slots slots" "(kid, pk) \<in> set (propagatedKeys ns)" "kid = DeriveKeyID sha (pk_raw pk)"
    and "\<And>k. k \<in> set slots \<Longrightarrow> \<not> (usable_slot parse now k \<and> has_id sha kid k)" "ns' = snd (reload_slots sha tm parse now slots ns)"
  shows "holds_key ns' kid \<and> (kid, pk) \<in> set (propagatedKeys ns') \<and> kid \<notin> set (RetractedKeys (Some ns'))"
proof -
  obtain ks where ks: "NewKeySet sha (keyStrings parse now slots) = Inr ks"
    "\<And>kid. Lookup ks kid = None \<longleftrightarrow> (\<forall>k \<in> set slots. \<not> (usable_slot parse now k \<and> has_id sha kid k))"
    using slots_keyset [OF assms(1), of sha parse now] by blast
  then have "Lookup ks kid = None" using assms(4) by blast
  moreover have "ns' = snd (reloadKeys sha tm (Some ks) (keyLabelMap sha parse now slots) (keyExpiryMap sha parse now slots) ns)"
    using assms(5) ks(1) by (simp add: reload_slots_def)
  ultimately show ?thesis using reload_refolds [OF assms(2,3)] by (simp add: RetractedKeys_def)
qed

section \<open>Late relabels and returning retractions\<close>

lemma relabel_ignored:
  assumes "decodeKeyAdd body = Some (raw, label, ex, h)" "holds_key ns (DeriveKeyID sha raw)"
    and "map_of (propagatedKeys ns) (DeriveKeyID sha raw) = None"
  shows "onKeyAdd sha ps body ns = ([], ns)"
  using assms by (simp add: onKeyAdd_def addPropagatedKey_def Let_def)

lemma caught_up_forgotten:
  assumes "Lookup ks kid \<noteq> None" "at_key labels kid = pk_label pk" "at_key expires kid = expiryRFC3339 tm (pk_expires pk)"
  shows "(kid, pk) \<notin> set (propagatedKeys (forgetConfiguredKeys tm (Some ks) labels expires ns))"
  using assms by (simp add: forgetConfiguredKeys_def)

lemma retraction_returns:
  assumes "RetractKey sha k (Some ns) = Inr (acts, ns')" "DecodeKey k = Inr raw" "length (DeriveKeyID sha raw) = KeyIDSize"
    and "holds_key ns (DeriveKeyID sha raw)" "DeriveKeyID sha raw \<notin> set (retractedKeys ns)"
  shows "\<exists>m. acts = [KeyFlood m None] \<and>
    DeriveKeyID sha raw \<in> set (RetractedKeys (Some (snd (onKeyDel q (tl m) ns'))))"
  using assms by (auto simp: RetractKey_def onKeyDel_def key_del_read RetractedKeys_def)

end
