(* ===== verification/Spec2Isabelle.thy ===== *)
theory Spec2Isabelle
  imports Session_Cipher Auth_Throttle Fragmentation Fw_Errors Shaper_Order Peer_List Addressing Dataplane Ban_Gossip Dns_Records Nat_Halves Key_Learning
begin

text \<open>
  Verification development of the gravinet mesh VPN daemon (the Go sources under src/internal).

  A gravinet node takes packets of the host from a tunnel device, filters, translates and routes them, and sends
  them encrypted to the node that owns the destination; nodes tell each other by flooded control messages who
  they are, what they route and whom they ban. The development models, bottom up:

  Foundations. \<open>Wire_Prelude\<close> (bytes, big-endian fields, slices, hint collection \<open>wire_simps\<close>), \<open>Go_Strings\<close>
  (strings and strconv), \<open>Net_Addr\<close> and \<open>Net_Parse\<close> (net/netip: addresses, prefixes and their text),
  \<open>Wire_Reader\<close> (the byte cursor of mesh/handshake.go), \<open>Wire_Int64\<close> (signed times and texts read back from
  their bytes).

  The wire. \<open>Protocol_Codec\<close> (protocol/protocol.go): the three packet headers; a locale states the contract of a
  framed codec once and is interpreted for each. \<open>Key_Material\<close> (crypto/crypto.go): keys, key sets, HKDF.
  \<open>Replay_Window\<close>: the ring of 128 words against an abstract set of accepted counters, through the locale
  \<open>anti_replay\<close>. \<open>Session_Cipher\<close>: the session ciphers over a parameter for AES-GCM; what is sealed is recovered
  exactly once, nonces do not repeat. \<open>Auth_Throttle\<close> (ratelimit/ratelimit.go) refines the policy stated on the
  whole history of failures. \<open>Fragmentation\<close> (mesh/frag.go): planning, sending, reassembly. \<open>Handshake_Codec\<close>
  and \<open>Peer_List\<close> (mesh/handshake.go, control.go): the payloads of handshakes and gossip.

  Packets. \<open>Ip_Packet\<close>, \<open>Ip_L4\<close>: headers, checksums and in-place rewriting. \<open>Nat_Engine\<close>, \<open>Nat_Flows\<close>,
  \<open>Nat_Config\<close> (mesh/nat.go): translation in both directions, its flows, its configuration. \<open>Nat_Editor\<close>
  (config/ops.go) edits the configured rules, \<open>Kernel_Nat\<close> (cmd/gravinet/main.go, netfilter/netfilter.go) hands
  them to the packet filter of the host, and \<open>Nat_Halves\<close> proves that the kernel and, for the rules of the
  overlay interface, the engine load what the editor accepts and mean the same by it; \<open>Addr_Text\<close> shows that
  printed IPv6 addresses are read back. \<open>Fw_Range\<close>, \<open>Fw_Catalog\<close>, \<open>Fw_Dns\<close>, \<open>Fw_Conntrack\<close>, \<open>Firewall\<close>
  (mesh/firewall.go and its two companions): address ranges, the catalog and rule compilation, name objects and
  the DNS sniffer, connection tracking, the rule store and the decision; \<open>Fw_Policy\<close>, \<open>Fw_Manage\<close>, \<open>Fw_Errors\<close>
  hold what the packet filter promises. \<open>Qos\<close>, \<open>Shaper_Order\<close> (mesh/qos.go, shaper.go): classes, and the shaper
  as a refinement of a bounded priority queue. \<open>Dataplane\<close> (mesh/engine.go): the two pipelines compose the
  above; its properties say what may leave, what may enter, and that a flow through a gateway makes the round
  trip.

  The overlay. \<open>Addressing\<close> (mesh/addressing.go): address choice, duplicate detection, announcements. \<open>Flood\<close>
  (mesh/broadcast.go): destination kinds. \<open>Route_Table\<close>, \<open>Route_Sync\<close>, \<open>Route_Storm\<close> (mesh/routes.go): learned
  routes and the choice of an exit, the handlers and the host's routing table they keep in step, and route
  floods in a mesh. A flood ranges over a map, so the order of sending is an argument of each step; the endless
  flood of \<open>Route_Storm\<close> is a possible run, not every run. \<open>Bans\<close> (mesh/ban.go): ban records and what they cut
  off. \<open>Gossip\<close> states once, as the locale \<open>newest_wins\<close>, what a flooded control message promises, with messages
  in flight as a multiset delivered in any order, and proves that floods end and connected nodes agree;
  \<open>Ban_Gossip\<close> interprets it on the handlers of \<open>Bans\<close>. The neighbours of a node are fixed there: a banned
  target still hears and passes on the flood, where the code cuts it off; \<open>ban_cuts_off\<close> is about the cut.
  \<open>Host_Records\<close> (mesh/hostadv.go, hostsync.go) and \<open>Dns_Records\<close> (mesh/dnsadv.go, dnssync.go,
  resolver/resolver.go) are advertised names and DNS forwards and what they make of the hosts file, whose
  managed block is \<open>Hosts_File\<close> (hosts/hosts.go), and of the resolver. What lies outside the block is declared
  by the positions of the marks, not by the code's own loop. \<open>Key_Rotation\<close> (mesh/keyrotate.go, the key part of
  mesh/reload.go, config/ops.go, cmd/gravinet/main.go) is the distribution and retraction of network keys and
  the slots they are persisted in; \<open>Key_Slots\<close> proves that a network keeps an enabled key, and that expiry
  defeats it, \<open>Key_Learning\<close> what a reload does to keys learned from the mesh.

  State and effects. A Go struct is a record, a map a function to options or, where its iteration order matters,
  an association list whose order is the order of iteration; shared sessions and rules are handles into a store.
  A handler returns the new state and the list of what it sends or asks of the engine, in order. Errors are sums
  or options; a run-time panic is \<open>None\<close> of an outer option. Fixed-width integers are words; Go's \<open>int\<close> and
  times in nanoseconds are integers.

  Bounds and fuel. The walks over IPv6 extension headers (\<open>ext_walk\<close>, \<open>udp_walk\<close>) get the code's own limit of
  eight. \<open>range_loop\<close> runs at most one step per address, and the length of a text is fuel for the string loops,
  each round of which removes a byte. \<open>dns_loop\<close> counts the pointers the code counts, and otherwise advances.
  \<open>fw_add\<close> and the catalog resolve names to a depth the catalog cannot exceed. The port search of \<open>nat_out\<close>,
  which the code does not bound, is a partial function: \<open>nat_out_returns_iff\<close> says when it ends.

  Simplified: \<open>noteUnderlayLoop\<close> is its counter, without the bypass route it may ask the host for; letters
  outside ASCII have no case (\<open>ToLower\<close>).

  Not modelled: goroutines, locks, sockets and timers (the clock, random draws, the order of arrival and the
  answers of devices are arguments); cryptographic primitives and the DNS resolver (parameters); floating point
  token buckets; the tunnel devices, host networking, service managers and resolver tools of the operating
  systems; JSON and the rest of the configuration, the web administration, the terminal interface and the
  command line, which edit the configuration and call the operations modelled here.
\<close>

end
